(* ===== verification/Prelude.thy ===== *)
theory Prelude
  imports Main "HOL-Library.Word"
begin

text \<open>Shared vocabulary of the lavatube development.

  Machine integers keep the width the C++ sources give them: \<open>uint64_t\<close> is
  \<open>64 word\<close>, \<open>uint32_t\<close> is \<open>32 word\<close> and so on, so that \<open>+\<close> wraps as it does in the
  program and the guards the sources write against \<open>UINT64_MAX\<close> are meaningful.
  \<open>size_t\<close> values that only count elements of a container held in memory are \<open>nat\<close>.

  A failing \<open>assert\<close>, a call of \<open>abort\<close> through \<open>ABORT\<close> or \<open>DIE\<close>, an out-of-range \<open>at\<close> and a
  \<open>false\<close> result with an error message are values of type \<open>error\<close>; fallible code returns
  \<open>error + 'a\<close>.\<close>

type_synonym u8 = "8 word"
type_synonym u16 = "16 word"
type_synonym u32 = "32 word"
type_synonym u64 = "64 word"

abbreviation UINT64_MAX :: u64 where "UINT64_MAX \<equiv> - 1"
abbreviation UINT32_MAX :: u32 where "UINT32_MAX \<equiv> - 1"

datatype error =
    Assertion_failed
  | Aborted
  | Out_of_range
  | End_of_data
  | Undefined_behaviour
  | Message string

type_synonym 'a result = "error + 'a"

definition result_bind :: "'a result \<Rightarrow> ('a \<Rightarrow> 'b result) \<Rightarrow> 'b result" where
  "result_bind m f = (case m of Inl e \<Rightarrow> Inl e | Inr x \<Rightarrow> f x)"

definition assert_that :: "bool \<Rightarrow> 'a result \<Rightarrow> 'a result" where
  "assert_that b m = (if b then m else Inl Assertion_failed)"

named_theorems word_order \<open>order facts on words next to the successor\<close>
named_theorems exec_defs \<open>definitions unfolded to run the model on a concrete input\<close>

lemma result_bind_simps [simp]:
  "result_bind (Inl e) f = Inl e"
  "result_bind (Inr x) f = f x"
  by (simp_all add: result_bind_def)

lemma result_bind_eq_Inr [simp]:
  "result_bind m f = Inr y \<longleftrightarrow> (\<exists>x. m = Inr x \<and> f x = Inr y)"
  by (cases m) auto

lemma assert_that_simps [simp]:
  "assert_that True m = m"
  "assert_that False m = Inl Assertion_failed"
  by (simp_all add: assert_that_def)

lemma assert_that_eq_Inr [simp]:
  "assert_that b m = Inr x \<longleftrightarrow> b \<and> m = Inr x"
  by (simp add: assert_that_def)

subsection \<open>Words read as natural numbers\<close>

lemma unat_succ [word_order]:
  fixes a :: "'a::len word"
  shows "a \<noteq> - 1 \<Longrightarrow> unat (a + 1) = unat a + 1"
  by (metis Suc_eq_plus1 add.commute eq_neg_iff_add_eq_0 unatSuc)

lemma unat_succ_less:
  fixes a b :: "'a::len word"
  shows "a < b \<Longrightarrow> unat (a + 1) = unat a + 1"
  by (metis unat_succ word_n1_ge linorder_not_less)

lemma unat_pred_less:
  fixes a b :: "'a::len word"
  shows "a < b \<Longrightarrow> unat (b - 1) = unat b - 1"
  by (metis gr_implies_not_zero unat_minus_one word_not_simps(1))

lemma gap_after [word_order]:
  fixes a b :: "'a::len word"
  shows "a \<noteq> - 1 \<and> a + 1 < b \<longleftrightarrow> unat a + 1 < unat b"
proof (cases "a = - 1")
  case True
  then have "unat b \<le> unat a" by (simp flip: word_le_nat_alt)
  with True show ?thesis by simp
next
  case False
  then show ?thesis by (simp add: word_less_nat_alt unat_succ)
qed

lemma touches_after [word_order]:
  fixes a b :: "'a::len word"
  shows "a = - 1 \<or> b \<le> a + 1 \<longleftrightarrow> unat b \<le> unat a + 1"
  using gap_after [of a b] by (auto simp: not_less not_le)

lemma unat_max [simp]: "unat (max a b) = max (unat a) (unat b)"
  by (simp add: max_def word_le_nat_alt)

lemma unat_min [simp]: "unat (min a b) = min (unat a) (unat b)"
  by (simp add: min_def word_le_nat_alt)

lemma unat_add_small:
  fixes a b :: "'a::len word"
  shows "unat a + unat b < 2 ^ LENGTH('a) \<Longrightarrow> unat (a + b) = unat a + unat b"
  by (simp add: unat_word_ariths)

end
