(* ===== verification/RangeTracking.thy ===== *)
theory RangeTracking
  imports Prelude
begin

text \<open>Dirty range tracking, \<^verbatim>\<open>src/rangetracking.h\<close>: the struct \<open>range\<close> and the struct
  \<open>exposure\<close>, a vector of closed byte ranges that is kept in ascending order, or in descending
  order while its \<open>reversed\<close> flag is set.  The abstract value of an exposure is the set
  \<open>exposed\<close> of the byte addresses it covers; the lemmas show that \<open>add\<close> is union, that \<open>fetch\<close>
  returns the hull of an intersection and removes it, and that \<open>overlap\<close> is the hull of an
  intersection of two exposures, one of them displaced.\<close>

section \<open>Data\<close>

record range_t =
  rfirst :: u64
  rlast :: u64

abbreviation mk_range :: "u64 \<Rightarrow> u64 \<Rightarrow> range_t" where
  "mk_range a b \<equiv> \<lparr>rfirst = a, rlast = b\<rparr>"

definition range_valid :: "range_t \<Rightarrow> bool" where
  "range_valid s = (rfirst s \<le> rlast s)"

definition range_invalid :: range_t where
  "range_invalid = mk_range 1 0"

record exposure =
  ex_r :: "range_t list"
  ex_reversed :: bool

definition exposure_new :: exposure where
  "exposure_new = \<lparr>ex_r = [], ex_reversed = False\<rparr>"

section \<open>Operations\<close>

definition exposure_normalize :: "exposure \<Rightarrow> exposure" where
  "exposure_normalize e = (if \<not> ex_reversed e then e
    else e\<lparr>ex_r := rev (ex_r e), ex_reversed := False\<rparr>)"

definition exposure_list :: "exposure \<Rightarrow> range_t list" where
  "exposure_list e = ex_r (exposure_normalize e)"

definition exposure_bytes :: "exposure \<Rightarrow> u64" where
  "exposure_bytes e = fold (\<lambda>s v. v + (1 + rlast s - rfirst s)) (ex_r e) 0"

definition exposure_clear :: "exposure \<Rightarrow> exposure" where
  "exposure_clear e = e\<lparr>ex_r := [], ex_reversed := False\<rparr>"

definition exposure_size :: "exposure \<Rightarrow> nat" where
  "exposure_size e = length (ex_r e)"

definition exposure_span :: "exposure \<Rightarrow> range_t" where
  "exposure_span e =
    (if ex_r e = [] then range_invalid
     else if ex_reversed e then mk_range (rfirst (last (ex_r e))) (rlast (hd (ex_r e)))
     else mk_range (rfirst (hd (ex_r e))) (rlast (last (ex_r e))))"

text \<open>The \<open>while\<close> loop at the end of \<open>add\<close>: the element being grown has last byte \<open>l\<close>, the
  list holds the elements from \<open>current\<close> on, and the elements left over are the ones that are
  not erased.\<close>

fun add_absorb :: "u64 \<Rightarrow> range_t list \<Rightarrow> u64 \<times> range_t list" where
  "add_absorb l [] = (l, [])"
| "add_absorb l (c # cs) =
    (if l = UINT64_MAX \<or> l + 1 \<ge> rfirst c then add_absorb (max l (rlast c)) cs
     else (l, c # cs))"

text \<open>\<open>std::lower_bound\<close> with the comparison \<open>add\<close> gives it: the position of the first element
  for which the comparison is false.\<close>

definition add_lower_bound :: "range_t list \<Rightarrow> u64 \<Rightarrow> nat" where
  "add_lower_bound r start =
    length (takeWhile (\<lambda>s. rlast s \<noteq> UINT64_MAX \<and> rlast s + 1 < start) r)"

definition add_sorted :: "u64 \<Rightarrow> u64 \<Rightarrow> range_t list \<Rightarrow> range_t list" where
  "add_sorted start end r =
    (let lst = last r in
     if rlast lst \<noteq> UINT64_MAX \<and> start > rlast lst + 1 then r @ [mk_range start end]
     else if start \<ge> rfirst lst \<and> (rlast lst = UINT64_MAX \<or> start \<le> rlast lst + 1) then
       butlast r @ [lst\<lparr>rlast := max (rlast lst) end\<rparr>]
     else
       let i = add_lower_bound r start in
       if i = length r then r @ [mk_range start end]
       else if end \<noteq> UINT64_MAX \<and> end + 1 < rfirst (r ! i) then
         take i r @ mk_range start end # drop i r
       else
         (case add_absorb (max (rlast (r ! i)) end) (drop (i + 1) r) of
            (l, rest) \<Rightarrow> take i r @ mk_range (min (rfirst (r ! i)) start) l # rest))"

definition exposure_add :: "u64 \<Rightarrow> u64 \<Rightarrow> exposure \<Rightarrow> exposure result" where
  "exposure_add start end e = assert_that (start \<le> end) (Inr
    (if ex_r e = [] then e\<lparr>ex_r := [mk_range start end]\<rparr>
     else if ex_reversed e \<and> end \<noteq> UINT64_MAX \<and> end + 1 < rfirst (last (ex_r e)) then
       e\<lparr>ex_r := ex_r e @ [mk_range start end]\<rparr>
     else
       let n = exposure_normalize e; r = ex_r n in
       if end \<noteq> UINT64_MAX \<and> end + 1 < rfirst (hd r) then
         if length r = 1 then n\<lparr>ex_r := r @ [mk_range start end], ex_reversed := True\<rparr>
         else n\<lparr>ex_r := mk_range start end # r\<rparr>
       else n\<lparr>ex_r := add_sorted start end r\<rparr>))"

definition exposure_add_os :: "u64 \<Rightarrow> u64 \<Rightarrow> exposure \<Rightarrow> exposure result" where
  "exposure_add_os off sz e =
    (if sz > 0 then exposure_add off (off + sz - 1) e else Inr e)"

text \<open>Growing the returned hull by one more overlapping piece, as \<open>fetch\<close> and \<open>overlap\<close> do.\<close>

definition hull_extend :: "range_t \<Rightarrow> u64 \<Rightarrow> u64 \<Rightarrow> range_t" where
  "hull_extend ret a b =
    (if \<not> range_valid ret then mk_range a b
     else mk_range (min (rfirst ret) a) (max (rlast ret) b))"

definition fetch_single :: "u64 \<Rightarrow> u64 \<Rightarrow> bool \<Rightarrow> range_t \<Rightarrow> range_t \<times> range_t list" where
  "fetch_single start end is_mapped s =
    (if rlast s < start \<or> rfirst s > end then (range_invalid, [s])
     else (mk_range (max (rfirst s) start) (min (rlast s) end),
       if is_mapped then [s]
       else if rfirst s \<ge> start \<and> rlast s \<le> end then []
       else if rfirst s < start \<and> rlast s > end then
         [s\<lparr>rlast := start - 1\<rparr>, mk_range (end + 1) (rlast s)]
       else if rfirst s < start then [s\<lparr>rlast := start - 1\<rparr>]
       else if rlast s > end then [s\<lparr>rfirst := end + 1\<rparr>]
       else [s]))"

fun fetch_loop :: "u64 \<Rightarrow> u64 \<Rightarrow> bool \<Rightarrow> range_t \<Rightarrow> range_t list \<Rightarrow> range_t \<times> range_t list" where
  "fetch_loop start end is_mapped ret [] = (ret, [])"
| "fetch_loop start end is_mapped ret (s # rs) =
    (if rfirst s > end then (ret, s # rs)
     else if rlast s \<ge> start \<and> rfirst s \<le> end then
       let ret' = hull_extend ret (max (rfirst s) start) (min (rlast s) end) in
       if is_mapped then map_prod id ((#) s) (fetch_loop start end is_mapped ret' rs)
       else if rfirst s \<ge> start \<and> rlast s \<le> end then fetch_loop start end is_mapped ret' rs
       else if rfirst s < start \<and> rlast s > end then
         (ret', s\<lparr>rlast := start - 1\<rparr> # mk_range (end + 1) (rlast s) # rs)
       else if rfirst s < start then
         map_prod id ((#) (s\<lparr>rlast := start - 1\<rparr>)) (fetch_loop start end is_mapped ret' rs)
       else if rlast s > end then (ret', s\<lparr>rfirst := end + 1\<rparr> # rs)
       else map_prod id ((#) s) (fetch_loop start end is_mapped ret' rs)
     else map_prod id ((#) s) (fetch_loop start end is_mapped ret rs))"

definition exposure_fetch :: "u64 \<Rightarrow> u64 \<Rightarrow> bool \<Rightarrow> exposure \<Rightarrow> (range_t \<times> exposure) result" where
  "exposure_fetch start end is_mapped e = assert_that (start \<le> end) (Inr
    (let n = exposure_normalize e; r = ex_r n in
     if r = [] \<or> end < rfirst (hd r) \<or> start > rlast (last r) then (range_invalid, n)
     else
       let (ret, r') = (if length r = 1 then fetch_single start end is_mapped (hd r)
                        else fetch_loop start end is_mapped range_invalid r)
       in (ret, n\<lparr>ex_r := r'\<rparr>)))"

definition exposure_fetch_os :: "u64 \<Rightarrow> u64 \<Rightarrow> bool \<Rightarrow> exposure \<Rightarrow> (range_t \<times> exposure) result" where
  "exposure_fetch_os off sz is_mapped e =
    (if sz = 0 then Inr (range_invalid, e) else exposure_fetch off (off + sz - 1) is_mapped e)"

text \<open>A range of the other exposure displaced by \<open>offset\<close>, its end clamped.\<close>

definition shifted_last :: "u64 \<Rightarrow> range_t \<Rightarrow> u64" where
  "shifted_last offset s =
    (if rlast s > UINT64_MAX - offset then UINT64_MAX else rlast s + offset)"

function overlap_loop :: "u64 \<Rightarrow> range_t \<Rightarrow> range_t list \<Rightarrow> range_t list \<Rightarrow> range_t" where
  "overlap_loop offset ret [] others = ret"
| "overlap_loop offset ret (s # rs) [] = ret"
| "overlap_loop offset ret (s # rs) (t # ts) =
    (if rfirst t > UINT64_MAX - offset then ret
     else
       let other_first = rfirst t + offset; other_last = shifted_last offset t in
       if rlast s < other_first then overlap_loop offset ret rs (t # ts)
       else if other_last < rfirst s then overlap_loop offset ret (s # rs) ts
       else
         let ret' = hull_extend ret (max (rfirst s) other_first) (min (rlast s) other_last) in
         if rlast s < other_last then overlap_loop offset ret' rs (t # ts)
         else overlap_loop offset ret' (s # rs) ts)"
  by pat_completeness auto
termination
  by (relation "measure (\<lambda>(_, _, xs, ys). length xs + length ys)") auto

definition exposure_overlap :: "exposure \<Rightarrow> exposure \<Rightarrow> u64 \<Rightarrow> range_t" where
  "exposure_overlap self other offset =
    (let r = exposure_list self; er = exposure_list other in
     if er = [] \<or> r = [] then range_invalid
     else if rfirst (hd er) > UINT64_MAX - offset then range_invalid
     else
       let first_other = rfirst (hd er) + offset; last_other = shifted_last offset (last er) in
       if last_other < rfirst (hd r) \<or> first_other > rlast (last r) then range_invalid
       else if length er = 1 \<and> length r = 1 then
         mk_range (max (rfirst (hd r)) first_other) (min (rlast (hd r)) last_other)
       else overlap_loop offset range_invalid r er)"

fun self_test_loop :: "bool \<Rightarrow> u64 \<Rightarrow> range_t list \<Rightarrow> bool" where
  "self_test_loop isfirst prev [] = True"
| "self_test_loop isfirst prev (s # rs) =
    (rfirst s \<le> rlast s \<and> (isfirst \<or> rfirst s > prev) \<and> self_test_loop False (rlast s) rs)"

definition exposure_self_test :: "exposure \<Rightarrow> bool" where
  "exposure_self_test e = self_test_loop True 0 (exposure_list e)"

section \<open>Abstraction and invariant\<close>

definition range_set :: "range_t \<Rightarrow> nat set" where
  "range_set s = {unat (rfirst s)..unat (rlast s)}"

definition ranges_set :: "range_t list \<Rightarrow> nat set" where
  "ranges_set r = (\<Union>s\<in>set r. range_set s)"

definition exposed :: "exposure \<Rightarrow> nat set" where
  "exposed e = ranges_set (ex_r e)"

text \<open>Ascending, not empty, and with at least one byte between neighbours.\<close>

fun canonical :: "range_t list \<Rightarrow> bool" where
  "canonical [] = True"
| "canonical (s # rs) = (range_valid s \<and>
    (\<forall>t\<in>set rs. unat (rlast s) + 1 < unat (rfirst t)) \<and> canonical rs)"

definition exposure_inv :: "exposure \<Rightarrow> bool" where
  "exposure_inv e = canonical (exposure_list e)"

text \<open>\<open>ret\<close> is the smallest range around the set \<open>S\<close>.\<close>

definition is_hull :: "range_t \<Rightarrow> nat set \<Rightarrow> bool" where
  "is_hull ret S = (if S = {} then \<not> range_valid ret
    else range_valid ret \<and> unat (rfirst ret) \<in> S \<and> unat (rlast ret) \<in> S \<and> S \<subseteq> range_set ret)"

definition shifted :: "nat \<Rightarrow> nat set \<Rightarrow> nat set" where
  "shifted off S = {x + off | x. x \<in> S \<and> x + off < 2 ^ 64}"

section \<open>Sets of ranges\<close>

lemmas range_nat = range_valid_def range_set_def word_le_nat_alt word_less_nat_alt word_order

lemma ranges_set_simps [simp]:
  "ranges_set [] = {}"
  "ranges_set (s # rs) = range_set s \<union> ranges_set rs"
  "ranges_set (xs @ ys) = ranges_set xs \<union> ranges_set ys"
  "ranges_set (rev xs) = ranges_set xs"
  by (auto simp: ranges_set_def)

lemma range_set_mk [simp]: "range_set (mk_range a b) = {unat a..unat b}"
  by (simp add: range_set_def)

lemma range_invalid_not_valid [simp]: "\<not> range_valid range_invalid"
  by (simp add: range_valid_def range_invalid_def)

lemma canonical_append [simp]:
  "canonical (xs @ ys) \<longleftrightarrow> canonical xs \<and> canonical ys \<and>
    (\<forall>s\<in>set xs. \<forall>t\<in>set ys. unat (rlast s) + 1 < unat (rfirst t))"
  by (induction xs) auto

lemma canonical_valid: "canonical r \<Longrightarrow> s \<in> set r \<Longrightarrow> unat (rfirst s) \<le> unat (rlast s)"
  by (induction r) (auto simp: range_nat)

lemma canonical_hd_le:
  "canonical r \<Longrightarrow> s \<in> set r \<Longrightarrow> unat (rfirst (hd r)) \<le> unat (rfirst s)"
  using canonical_valid [of r "hd r"] by (cases r) fastforce+

lemma canonical_last_ge:
  "canonical r \<Longrightarrow> s \<in> set r \<Longrightarrow> unat (rlast s) \<le> unat (rlast (last r))"
proof (induction r)
  case (Cons a r)
  show ?case
  proof (cases "r = []")
    case False
    then have "last r \<in> set r" by simp
    with Cons.prems(1) have "unat (rlast a) \<le> unat (rlast (last r))"
      using canonical_valid [of r "last r"] by fastforce
    with Cons False show ?thesis by auto
  qed (use Cons in auto)
qed simp

lemma normalize_simps [simp]:
  "exposed (exposure_normalize e) = exposed e"
  "ex_reversed (exposure_normalize e) = False"
  "ex_r (exposure_normalize e) = exposure_list e"
  "exposure_normalize (exposure_normalize e) = exposure_normalize e"
  by (simp_all add: exposure_normalize_def exposed_def exposure_list_def)

lemma exposure_list_simps [simp]:
  "\<not> ex_reversed e \<Longrightarrow> exposure_list e = ex_r e"
  "ex_reversed e \<Longrightarrow> exposure_list e = rev (ex_r e)"
  by (simp_all add: exposure_list_def exposure_normalize_def)

lemma exposed_list: "exposed e = ranges_set (exposure_list e)"
  by (cases "ex_reversed e") (simp_all add: exposed_def)

lemma exposure_inv_normalize [simp]: "exposure_inv (exposure_normalize e) = exposure_inv e"
  by (simp add: exposure_inv_def)

section \<open>Adding\<close>

lemma add_absorb_correct:
  assumes "add_absorb l rs = (l', rest)" "canonical rs"
    and "unat a \<le> unat l" and "\<forall>t\<in>set rs. unat a \<le> unat (rfirst t)"
  shows "canonical rest \<and> (\<forall>t\<in>set rest. unat l' + 1 < unat (rfirst t)) \<and> unat a \<le> unat l' \<and>
    {unat a..unat l'} \<union> ranges_set rest = {unat a..unat l} \<union> ranges_set rs \<and> set rest \<subseteq> set rs"
  using assms
proof (induction l rs rule: add_absorb.induct)
  case (2 l c cs)
  show ?case
  proof (cases "l = UINT64_MAX \<or> l + 1 \<ge> rfirst c")
    case True
    then have touch: "unat (rfirst c) \<le> unat l + 1" using touches_after by blast
    have c: "unat (rfirst c) \<le> unat (rlast c)" using 2(3) by (simp add: range_nat)
    have "{unat a..unat (max l (rlast c))} = {unat a..unat l} \<union> range_set c"
      using 2(4,5) touch c by (auto simp: range_set_def)
    with 2(1) [OF True] 2(2-5) True show ?thesis by (auto simp: max.coboundedI1)
  next
    case False
    then have "unat l + 1 < unat (rfirst c)" using touches_after by (metis not_le)
    moreover from this 2(3) have "\<forall>t\<in>set (c # cs). unat l + 1 < unat (rfirst t)"
      by (fastforce simp: range_nat)
    ultimately show ?thesis using 2(2-5) False by auto
  qed
qed auto

lemma add_middle_correct:
  assumes r: "canonical (ys @ c # zs)" and se: "start \<le> end"
    and ys: "\<forall>s\<in>set ys. unat (rlast s) + 1 < unat start" and c: "unat start \<le> unat (rlast c) + 1"
    and touch: "unat (rfirst c) \<le> unat end + 1"
    and abs: "add_absorb (max (rlast c) end) zs = (l, rest)"
  shows "canonical (ys @ mk_range (min (rfirst c) start) l # rest) \<and>
    ranges_set (ys @ mk_range (min (rfirst c) start) l # rest) =
    ranges_set (ys @ c # zs) \<union> {unat start..unat end}"
proof -
  let ?a = "min (rfirst c) start"
  have c_valid: "unat (rfirst c) \<le> unat (rlast c)" using r by (simp add: range_nat)
  have zs: "\<forall>t\<in>set zs. unat (rlast c) + 1 < unat (rfirst t)" using r by simp
  have "canonical rest \<and> (\<forall>t\<in>set rest. unat l + 1 < unat (rfirst t)) \<and> unat ?a \<le> unat l \<and>
    {unat ?a..unat l} \<union> ranges_set rest =
      {unat ?a..unat (max (rlast c) end)} \<union> ranges_set zs \<and> set rest \<subseteq> set zs"
    using r c_valid zs by (intro add_absorb_correct [OF abs]) fastforce+
  moreover have "{unat ?a..unat (max (rlast c) end)} = range_set c \<union> {unat start..unat end}"
    using c_valid c touch se by (auto simp: range_nat)
  moreover have "\<forall>s\<in>set ys. unat (rlast s) + 1 < unat ?a" using r ys by auto
  ultimately show ?thesis using r by (auto simp: range_valid_def word_le_nat_alt)
qed

lemma add_sorted_nat:
  "add_sorted start end r =
    (let lst = last r; i = add_lower_bound r start in
     if unat (rlast lst) + 1 < unat start then r @ [mk_range start end]
     else if unat (rfirst lst) \<le> unat start \<and> unat start \<le> unat (rlast lst) + 1 then
       butlast r @ [lst\<lparr>rlast := max (rlast lst) end\<rparr>]
     else if i = length r then r @ [mk_range start end]
     else if unat end + 1 < unat (rfirst (r ! i)) then
       take i r @ mk_range start end # drop i r
     else
       (case add_absorb (max (rlast (r ! i)) end) (drop (i + 1) r) of
          (l, rest) \<Rightarrow> take i r @ mk_range (min (rfirst (r ! i)) start) l # rest))"
  unfolding add_sorted_def Let_def gap_after touches_after
  unfolding word_le_nat_alt by (rule refl)

lemma add_sorted_correct:
  assumes r: "r \<noteq> []" "canonical r" and se: "start \<le> end"
  shows "canonical (add_sorted start end r) \<and>
    ranges_set (add_sorted start end r) = ranges_set r \<union> {unat start..unat end}"
proof -
  define lst where "lst = last r"
  define i where "i = add_lower_bound r start"
  define P where "P = (\<lambda>s :: range_t. rlast s \<noteq> UINT64_MAX \<and> rlast s + 1 < start)"
  have P: "P s \<longleftrightarrow> unat (rlast s) + 1 < unat start" for s
    unfolding P_def by (rule gap_after)
  have se': "unat start \<le> unat end" using se by (simp add: word_le_nat_alt)
  have split_last: "r = butlast r @ [lst]" using r(1) by (simp add: lst_def)
  consider (after) "unat (rlast lst) + 1 < unat start"
    | (grow) "unat (rfirst lst) \<le> unat start" "unat start \<le> unat (rlast lst) + 1"
    | (middle) "unat start < unat (rfirst lst)" "\<not> P lst"
    using P by fastforce
  then show ?thesis
  proof cases
    case after
    have "\<forall>s\<in>set r. unat (rlast s) + 1 < unat start"
      using canonical_last_ge [OF r(2)] after by (fastforce simp: lst_def)
    moreover have "add_sorted start end r = r @ [mk_range start end]"
      using after by (simp add: add_sorted_nat flip: lst_def)
    ultimately show ?thesis using r se' by (simp add: range_nat)
  next
    case grow
    have eq: "add_sorted start end r = butlast r @ [lst\<lparr>rlast := max (rlast lst) end\<rparr>]"
      using grow by (simp add: add_sorted_nat flip: lst_def)
    have "range_set (lst\<lparr>rlast := max (rlast lst) end\<rparr>) = range_set lst \<union> {unat start..unat end}"
      using grow se' canonical_valid [OF r(2), of lst] r(1) by (auto simp: range_set_def lst_def)
    moreover have "canonical (butlast r @ [lst])" "ranges_set r = ranges_set (butlast r @ [lst])"
      using r(2) split_last by simp_all
    ultimately show ?thesis unfolding eq by (auto simp: range_nat)
  next
    case middle
    have i: "i = length (takeWhile P r)" by (simp add: i_def add_lower_bound_def P_def)
    have "i \<noteq> length r"
    proof
      assume "i = length r"
      then have "takeWhile P r = r" using i by (metis takeWhile_eq_take take_all order_refl)
      then have "P lst" using r(1) by (metis lst_def last_in_set takeWhile_eq_all_conv)
      with middle show False by simp
    qed
    then have "i < length r" using i length_takeWhile_le [of P r] by simp
    define ys c zs where "ys = take i r" and "c = r ! i" and "zs = drop (i + 1) r"
    have drop: "drop i r = c # zs"
      using \<open>i < length r\<close> by (simp add: c_def zs_def Cons_nth_drop_Suc)
    have r_eq: "r = ys @ c # zs"
      using append_take_drop_id [of i r] unfolding drop ys_def by simp
    have "ys = takeWhile P r" unfolding ys_def i by (rule takeWhile_eq_take [symmetric])
    then have ys: "\<forall>s\<in>set ys. unat (rlast s) + 1 < unat start"
      using set_takeWhileD P by metis
    have "\<not> P c" using \<open>i < length r\<close> i c_def nth_length_takeWhile by blast
    then have c: "unat start \<le> unat (rlast c) + 1" using P by (simp add: not_less)
    have step: "add_sorted start end r =
        (if unat end + 1 < unat (rfirst c) then ys @ mk_range start end # c # zs
         else (case add_absorb (max (rlast c) end) zs of
            (l, rest) \<Rightarrow> ys @ mk_range (min (rfirst c) start) l # rest))"
      using middle \<open>i \<noteq> length r\<close> P [of lst]
      unfolding add_sorted_nat Let_def lst_def [symmetric] i_def [symmetric] drop
        ys_def [symmetric] c_def [symmetric] zs_def [symmetric]
      by simp
    show ?thesis
    proof (cases "unat end + 1 < unat (rfirst c)")
      case True
      have "\<forall>t\<in>set (c # zs). unat end + 1 < unat (rfirst t)"
        using True r(2) unfolding r_eq by (fastforce simp: range_nat)
      then show ?thesis using True step r(2) ys se' unfolding r_eq by (auto simp: range_nat)
    next
      case False
      obtain l rest where abs: "add_absorb (max (rlast c) end) zs = (l, rest)" by fastforce
      have "canonical (ys @ c # zs)" using r(2) unfolding r_eq .
      moreover have "unat (rfirst c) \<le> unat end + 1" using False by (simp only: not_less)
      moreover have "add_sorted start end r = ys @ mk_range (min (rfirst c) start) l # rest"
        unfolding step abs using False by (simp only: if_False prod.case)
      ultimately show ?thesis
        using add_middle_correct [OF _ se ys c _ abs] r_eq by metis
    qed
  qed
qed

lemma prepend_correct:
  assumes "canonical r" "r \<noteq> []" "start \<le> end" "unat end + 1 < unat (rfirst (hd r))"
  shows "canonical (mk_range start end # r)"
proof -
  have "\<forall>t\<in>set r. unat end + 1 < unat (rfirst t)"
    using assms canonical_hd_le [OF assms(1)] by fastforce
  with assms show ?thesis by (simp add: range_valid_def)
qed

lemma exposure_add_nat:
  "exposure_add start end e = assert_that (start \<le> end) (Inr
    (if ex_r e = [] then e\<lparr>ex_r := [mk_range start end]\<rparr>
     else if ex_reversed e \<and> unat end + 1 < unat (rfirst (last (ex_r e))) then
       e\<lparr>ex_r := ex_r e @ [mk_range start end]\<rparr>
     else
       if unat end + 1 < unat (rfirst (hd (exposure_list e))) then
         if length (exposure_list e) = 1 then
           (exposure_normalize e)\<lparr>ex_r := exposure_list e @ [mk_range start end], ex_reversed := True\<rparr>
         else (exposure_normalize e)\<lparr>ex_r := mk_range start end # exposure_list e\<rparr>
       else (exposure_normalize e)\<lparr>ex_r := add_sorted start end (exposure_list e)\<rparr>))"
  unfolding exposure_add_def Let_def gap_after normalize_simps by (rule refl)

lemma exposure_add_list:
  assumes "exposure_inv e" "start \<le> end" "exposure_add start end e = Inr e'"
  shows "canonical (exposure_list e') \<and>
    ranges_set (exposure_list e') = ranges_set (exposure_list e) \<union> {unat start..unat end}"
proof -
  let ?l = "exposure_list e"
  have inv: "canonical ?l" using assms(1) by (simp add: exposure_inv_def)
  have nil: "?l = [] \<longleftrightarrow> ex_r e = []" by (cases "ex_reversed e") auto
  have eq: "(if ex_r e = [] then e\<lparr>ex_r := [mk_range start end]\<rparr>
     else if ex_reversed e \<and> unat end + 1 < unat (rfirst (last (ex_r e))) then
       e\<lparr>ex_r := ex_r e @ [mk_range start end]\<rparr>
     else
       if unat end + 1 < unat (rfirst (hd ?l)) then
         if length ?l = 1 then
           (exposure_normalize e)\<lparr>ex_r := ?l @ [mk_range start end], ex_reversed := True\<rparr>
         else (exposure_normalize e)\<lparr>ex_r := mk_range start end # ?l\<rparr>
       else (exposure_normalize e)\<lparr>ex_r := add_sorted start end ?l\<rparr>) = e'"
    using assms(2,3) unfolding exposure_add_nat by simp
  show ?thesis
  proof (cases "ex_r e = []")
    case True
    then have "exposure_list e' = [mk_range start end]"
      using eq by (cases "ex_reversed e") auto
    moreover have "?l = []" using True nil by simp
    ultimately show ?thesis using assms(2) by (simp add: range_valid_def)
  next
    case False
    then consider (front) "exposure_list e' = mk_range start end # ?l"
        "unat end + 1 < unat (rfirst (hd ?l))"
      | (sorted) "exposure_list e' = add_sorted start end ?l"
    proof (cases "ex_reversed e \<and> unat end + 1 < unat (rfirst (last (ex_r e)))")
      case True
      then have "exposure_list e' = mk_range start end # ?l" using eq False by auto
      then show ?thesis using True False that(1) by (simp add: hd_rev)
    next
      case rest: False
      show ?thesis
      proof (cases "unat end + 1 < unat (rfirst (hd ?l))")
        case True
        show ?thesis
        proof (cases "length ?l = 1")
          case one: True
          then have "exposure_list e' = rev (?l @ [mk_range start end])"
            using eq False rest True by auto
          moreover have "rev ?l = ?l" using one by (metis length_0_conv length_Suc_conv One_nat_def rev_singleton_conv)
          ultimately show ?thesis using True that(1) by simp
        qed (use eq False rest True that(1) in auto)
      qed (use eq False rest that(2) in auto)
    qed
    then show ?thesis
    proof cases
      case front
      with prepend_correct [OF inv _ assms(2)] False nil show ?thesis by auto
    next
      case sorted
      with add_sorted_correct [OF _ inv assms(2)] False nil show ?thesis by auto
    qed
  qed
qed

lemma exposure_add_total: "start \<le> end \<Longrightarrow> \<exists>e'. exposure_add start end e = Inr e'"
  by (simp add: exposure_add_def)

lemma exposure_add_spec:
  assumes "exposure_inv e" "start \<le> end"
  obtains e' where "exposure_add start end e = Inr e'" "exposure_inv e'"
    "exposed e' = exposed e \<union> {unat start..unat end}"
  using exposure_add_list [OF assms] exposure_add_total [OF assms(2)] 
  by (metis exposed_list exposure_inv_def)

section \<open>Fetching\<close>

lemma is_hull_empty [simp]: "is_hull range_invalid {}"
  by (simp add: is_hull_def)

lemma hull_extend_correct:
  assumes "is_hull ret S" "unat a \<le> unat b"
  shows "is_hull (hull_extend ret a b) (S \<union> {unat a..unat b})"
  using assms
  by (auto simp: is_hull_def hull_extend_def range_nat min_def max_def split: if_splits)

lemma is_hull_mk: "unat a \<le> unat b \<Longrightarrow> is_hull (mk_range a b) {unat a..unat b}"
  by (simp add: is_hull_def range_nat)

lemma unat_cut:
  "rfirst s < start \<Longrightarrow> unat (start - 1) = unat start - 1"
  "end < rlast s \<Longrightarrow> unat (end + 1) = unat end + 1"
  by (rule unat_pred_less, assumption) (rule unat_succ_less, assumption)

definition fetch_post :: "u64 \<Rightarrow> u64 \<Rightarrow> bool \<Rightarrow> nat set \<Rightarrow> range_t list \<Rightarrow> range_t \<times> range_t list \<Rightarrow> bool" where
  "fetch_post start end m S r res \<longleftrightarrow>
    canonical (snd res) \<and>
    ranges_set (snd res) = (if m then ranges_set r else ranges_set r - {unat start..unat end}) \<and>
    is_hull (fst res) (S \<union> ranges_set r \<inter> {unat start..unat end}) \<and>
    (\<forall>t\<in>set (snd res). \<exists>s\<in>set r. unat (rfirst s) \<le> unat (rfirst t))"

lemma beyond_disjoint:
  "canonical (s # rs) \<Longrightarrow> unat b \<le> unat (rlast s) \<Longrightarrow> ranges_set rs \<inter> {a..unat b} = {}"
  by (fastforce simp: ranges_set_def range_set_def)

lemma fetch_post_keep:
  assumes "fetch_post start end m S rs res" "canonical (s # rs)"
    and "canonical [s']" "unat (rlast s') \<le> unat (rlast s)" "unat (rfirst s) \<le> unat (rfirst s')"
    and "range_set s' = (if m then range_set s else range_set s - {unat start..unat end})"
    and "S = T \<union> range_set s \<inter> {unat start..unat end}"
  shows "fetch_post start end m T (s # rs) (map_prod id ((#) s') res)"
proof -
  have "\<forall>t\<in>set (snd res). unat (rlast s') + 1 < unat (rfirst t)"
    using assms(1,2,4) unfolding fetch_post_def by fastforce
  moreover have "S \<union> ranges_set rs \<inter> {unat start..unat end} =
      T \<union> ranges_set (s # rs) \<inter> {unat start..unat end}"
    using assms(7) by auto
  ultimately show ?thesis
    using assms(1,3,5,6) unfolding fetch_post_def by auto
qed

lemma fetch_post_drop:
  assumes "fetch_post start end m S rs res" "\<not> m"
    and "range_set s \<subseteq> {unat start..unat end}"
    and "S = T \<union> range_set s"
  shows "fetch_post start end m T (s # rs) res"
proof -
  have "S \<union> ranges_set rs \<inter> {unat start..unat end} =
      T \<union> ranges_set (s # rs) \<inter> {unat start..unat end}"
    using assms(3,4) by auto
  then show ?thesis using assms(1-3) unfolding fetch_post_def by auto
qed

lemma fetch_post_stop:
  assumes "canonical (s # rs)" "unat end \<le> unat (rlast s)"
    and "canonical (new @ rs)" "ranges_set new = range_set s - {unat start..unat end}"
    and "\<forall>t\<in>set new. unat (rfirst s) \<le> unat (rfirst t)"
    and "is_hull ret (T \<union> range_set s \<inter> {unat start..unat end})"
  shows "fetch_post start end False T (s # rs) (ret, new @ rs)"
proof -
  have disj: "ranges_set rs \<inter> {unat start..unat end} = {}"
    using beyond_disjoint assms(1,2) by blast
  have hull: "T \<union> ranges_set (s # rs) \<inter> {unat start..unat end} =
      T \<union> range_set s \<inter> {unat start..unat end}"
    using disj by auto
  have "ranges_set (new @ rs) = ranges_set (s # rs) - {unat start..unat end}"
    using disj assms(4) by auto
  with assms show ?thesis unfolding fetch_post_def hull by auto
qed

lemma fetch_loop_correct:
  assumes "canonical r" "start \<le> end" "is_hull ret S"
  shows "fetch_post start end m S r (fetch_loop start end m ret r)"
  using assms
proof (induction r arbitrary: ret S)
  case Nil
  then show ?case by (simp add: fetch_post_def)
next
  case (Cons s rs)
  let ?I = "{unat start..unat end}"
  have s: "unat (rfirst s) \<le> unat (rlast s)" and rs: "canonical rs"
    using Cons.prems(1) by (simp_all add: range_nat)
  have se: "unat start \<le> unat end" using Cons.prems(2) by (simp add: word_le_nat_alt)
  define ret' where "ret' = hull_extend ret (max (rfirst s) start) (min (rlast s) end)"
  note nat = word_le_nat_alt word_less_nat_alt
  show ?case
  proof (cases "rfirst s > end \<or> rlast s < start")
    case True
    then have none: "range_set s \<inter> ?I = {}" by (auto simp: range_nat)
    show ?thesis
    proof (cases "rfirst s > end")
      case gt: True
      then have "unat end \<le> unat (rlast s)" using s by (simp add: nat)
      then have "ranges_set rs \<inter> ?I = {}" by (rule beyond_disjoint [OF Cons.prems(1)])
      then have "ranges_set (s # rs) \<inter> ?I = {}" using none by auto
      then show ?thesis using gt Cons.prems unfolding fetch_post_def by auto
    next
      case False
      with True have eq: "fetch_loop start end m ret (s # rs) =
          map_prod id ((#) s) (fetch_loop start end m ret rs)" by (auto simp: nat)
      show ?thesis unfolding eq
        by (rule fetch_post_keep [OF Cons.IH [OF rs Cons.prems(2,3)] Cons.prems(1)])
          (use none Cons.prems(1) in \<open>auto simp: Diff_triv\<close>)
    qed
  next
    case False
    then have meet: "unat (rfirst s) \<le> unat end" "unat start \<le> unat (rlast s)" by (auto simp: nat)
    have cut: "range_set s \<inter> ?I = {unat (max (rfirst s) start)..unat (min (rlast s) end)}"
      by (auto simp: range_set_def)
    have hull: "is_hull ret' (S \<union> range_set s \<inter> ?I)"
      unfolding ret'_def cut using Cons.prems(3) s se meet by (intro hull_extend_correct) auto
    note IH = Cons.IH [OF rs Cons.prems(2) hull]
    consider (mapped) m
      | (consumed) "\<not> m" "start \<le> rfirst s" "rlast s \<le> end"
      | (split) "\<not> m" "rfirst s < start" "end < rlast s"
      | (tail) "\<not> m" "rfirst s < start" "rlast s \<le> end"
      | (head) "\<not> m" "start \<le> rfirst s" "end < rlast s"
      by fastforce
    then show ?thesis
    proof cases
      case mapped
      then have eq: "fetch_loop start end m ret (s # rs) =
          map_prod id ((#) s) (fetch_loop start end m ret' rs)"
        using False by (auto simp: ret'_def Let_def not_less)
      show ?thesis unfolding eq
        by (rule fetch_post_keep [OF IH Cons.prems(1)]) (use Cons.prems(1) mapped in auto)
    next
      case consumed
      then have eq: "fetch_loop start end m ret (s # rs) = fetch_loop start end m ret' rs"
        using False by (auto simp: ret'_def Let_def not_less)
      have "range_set s \<subseteq> ?I" using consumed by (auto simp: range_nat)
      then show ?thesis
        unfolding eq using consumed(1) fetch_post_drop [OF IH] by (auto simp: Int_absorb2)
    next
      case split
      let ?new = "[s\<lparr>rlast := start - 1\<rparr>, mk_range (end + 1) (rlast s)]"
      have "fetch_loop start end m ret (s # rs) = (ret', ?new @ rs)"
        using False split by (auto simp: ret'_def Let_def not_less)
      moreover have "canonical (?new @ rs)"
        using Cons.prems(1) split se by (auto simp: nat range_valid_def unat_cut)
      moreover have "ranges_set ?new = range_set s - ?I"
        using split se by (auto simp: nat range_set_def unat_cut)
      ultimately show ?thesis
        using fetch_post_stop [OF Cons.prems(1) _ _ _ _ hull, of ?new] split se
        by (auto simp: nat unat_cut)
    next
      case tail
      let ?s = "s\<lparr>rlast := start - 1\<rparr>"
      have eq: "fetch_loop start end m ret (s # rs) =
          map_prod id ((#) ?s) (fetch_loop start end m ret' rs)"
        using False tail by (auto simp: ret'_def Let_def not_less)
      have "range_set ?s = range_set s - ?I" "canonical [?s]" "unat (rlast ?s) \<le> unat (rlast s)"
        using tail meet by (auto simp: nat range_set_def range_valid_def unat_cut)
      then show ?thesis
        unfolding eq using tail(1) fetch_post_keep [OF IH Cons.prems(1), of ?s S] by simp
    next
      case head
      let ?new = "[s\<lparr>rfirst := end + 1\<rparr>]"
      have "fetch_loop start end m ret (s # rs) = (ret', ?new @ rs)"
        using False head by (auto simp: ret'_def Let_def not_less)
      moreover have "canonical (?new @ rs)" "ranges_set ?new = range_set s - ?I"
        using Cons.prems(1) head meet by (auto simp: nat range_set_def range_valid_def unat_cut)
      ultimately show ?thesis
        using fetch_post_stop [OF Cons.prems(1) _ _ _ _ hull, of ?new] head meet
        by (auto simp: nat unat_cut)
    qed
  qed
qed

lemma fetch_single_loop:
  "fetch_single start end m s = fetch_loop start end m range_invalid [s]"
proof (cases "rlast s < start \<or> rfirst s > end")
  case True
  then show ?thesis by (auto simp: fetch_single_def)
next
  case False
  then have "start \<le> rlast s" "rfirst s \<le> end" by auto
  with False show ?thesis by (simp add: fetch_single_def hull_extend_def Let_def)
qed

lemma fetch_outside:
  assumes "canonical r" "r = [] \<or> end < rfirst (hd r) \<or> start > rlast (last r)"
  shows "ranges_set r \<inter> {unat start..unat end} = {}"
  using assms canonical_hd_le [OF assms(1)] canonical_last_ge [OF assms(1)]
  by (fastforce simp: ranges_set_def range_nat)

lemma exposure_fetch_list:
  assumes "exposure_inv e" "start \<le> end" "exposure_fetch start end m e = Inr (ret, e')"
  shows "fetch_post start end m {} (exposure_list e) (ret, exposure_list e')"
proof -
  let ?l = "exposure_list e"
  have inv: "canonical ?l" using assms(1) by (simp add: exposure_inv_def)
  show ?thesis
  proof (cases "?l = [] \<or> end < rfirst (hd ?l) \<or> start > rlast (last ?l)")
    case True
    then have "ret = range_invalid" "exposure_list e' = ?l"
      using assms(3) by (auto simp: exposure_fetch_def)
    with fetch_outside [OF inv True] inv show ?thesis
      by (auto simp: fetch_post_def Diff_triv)
  next
    case False
    have "fetch_loop start end m range_invalid ?l = (ret, exposure_list e')"
    proof (cases "length ?l = 1")
      case True
      then have "[hd ?l] = ?l" by (cases ?l) auto
      with False True assms(3) show ?thesis
        by (auto simp: exposure_fetch_def fetch_single_loop split: prod.splits)
    qed (use False assms(3) in \<open>auto simp: exposure_fetch_def split: prod.splits\<close>)
    with fetch_loop_correct [OF inv assms(2) is_hull_empty, of m] show ?thesis by simp
  qed
qed

lemma exposure_fetch_spec:
  assumes "exposure_inv e" "start \<le> end"
  obtains ret e' where "exposure_fetch start end m e = Inr (ret, e')" "exposure_inv e'"
    "exposed e' = (if m then exposed e else exposed e - {unat start..unat end})"
    "is_hull ret (exposed e \<inter> {unat start..unat end})"
proof -
  obtain res where "exposure_fetch start end m e = Inr res"
    using assms(2) by (simp add: exposure_fetch_def)
  then obtain ret e' where f: "exposure_fetch start end m e = Inr (ret, e')"
    by (cases res) auto
  from exposure_fetch_list [OF assms f] show ?thesis
    by (intro that [OF f]) (auto simp: fetch_post_def exposed_list exposure_inv_def)
qed

section \<open>Overlap\<close>

lemma unat_off_room: "unat (UINT64_MAX - offset) = 2 ^ 64 - 1 - unat offset"
  by (simp add: unat_sub unsigned_minus_1_eq_mask mask_eq_exp_minus_1)

lemma off_room: "x \<le> UINT64_MAX - offset \<longleftrightarrow> unat x + unat offset < 2 ^ 64" for x :: u64
  using unat_off_room [of offset] unsigned_less [where 'a = nat, of offset]
  by (simp add: word_le_nat_alt) linarith

lemma off_add: "x \<le> UINT64_MAX - offset \<Longrightarrow> unat (x + offset) = unat x + unat offset" for x :: u64
  by (simp add: off_room unat_add_lem [symmetric])

lemma shifted_range:
  assumes "range_valid t" "rfirst t \<le> UINT64_MAX - offset"
  shows "shifted (unat offset) (range_set t) = {unat (rfirst t + offset)..unat (shifted_last offset t)}"
    and "unat (rfirst t + offset) \<le> unat (shifted_last offset t)"
proof -
  have last: "unat (shifted_last offset t) = min (unat (rlast t) + unat offset) (2 ^ 64 - 1)"
  proof (cases "rlast t \<le> UINT64_MAX - offset")
    case True
    with off_add [OF True] off_room [of "rlast t" offset] leD [OF True] show ?thesis
      by (simp add: shifted_last_def)
  next
    case False
    with off_room [of "rlast t" offset] show ?thesis
      by (simp add: shifted_last_def not_le unsigned_minus_1_eq_mask mask_eq_exp_minus_1)
  qed
  have first: "unat (rfirst t + offset) = unat (rfirst t) + unat offset"
    using off_add assms(2) by blast
  have room: "unat (rfirst t) + unat offset < 2 ^ 64" using assms(2) by (simp only: off_room)
  have le: "unat (rfirst t) \<le> unat (rlast t)" using assms(1) by (simp add: range_nat)
  show "unat (rfirst t + offset) \<le> unat (shifted_last offset t)"
    using le room unfolding first last by simp
  show "shifted (unat offset) (range_set t) = {unat (rfirst t + offset)..unat (shifted_last offset t)}"
    (is "?L = ?R")
  proof
    show "?L \<subseteq> ?R" unfolding first last by (auto simp: shifted_def range_set_def)
    show "?R \<subseteq> ?L"
    proof
      fix y assume "y \<in> ?R"
      then have y: "unat (rfirst t) + unat offset \<le> y" "y \<le> unat (rlast t) + unat offset" "y < 2 ^ 64"
        unfolding first last by simp_all
      then obtain x where "y = x + unat offset" by (metis add_leE le_Suc_ex add.commute)
      with y show "y \<in> ?L" by (auto simp: shifted_def range_set_def)
    qed
  qed
qed

lemma shifted_simps [simp]:
  "shifted off {} = {}"
  "shifted off (S \<union> T) = shifted off S \<union> shifted off T"
  by (auto simp: shifted_def)

lemma shifted_too_far:
  assumes "canonical (t # ts)" "UINT64_MAX - offset < rfirst t"
  shows "shifted (unat offset) (ranges_set (t # ts)) = {}"
proof -
  have "2 ^ 64 \<le> unat (rfirst t) + unat offset"
    using assms(2) off_room [of "rfirst t" offset] by (simp add: not_le [symmetric])
  moreover have "unat (rfirst t) \<le> x" if "x \<in> ranges_set (t # ts)" for x
    using canonical_hd_le [OF assms(1)] that by (fastforce simp: ranges_set_def range_set_def)
  ultimately show ?thesis by (fastforce simp: shifted_def)
qed

lemma shifted_beyond:
  assumes "canonical (t # ts)" "range_valid s" "rfirst t \<le> UINT64_MAX - offset"
    "rlast s \<le> shifted_last offset t"
  shows "range_set s \<inter> shifted (unat offset) (ranges_set ts) = {}"
proof (rule ccontr)
  assume "\<not> ?thesis"
  then obtain x u where "u \<in> set ts" "x \<in> range_set u" "x + unat offset \<in> range_set s"
    by (auto simp: shifted_def ranges_set_def)
  then have "unat (rlast t) + 1 < x" "x + unat offset \<le> unat (rlast s)"
    using assms(1) by (fastforce simp: range_set_def)+
  moreover have "unat (shifted_last offset t) \<le> unat (rlast t) + unat offset"
    using off_add [of "rlast t" offset] off_room [of "rlast t" offset] unsigned_less [where 'a = nat, of "shifted_last offset t"]
    by (auto simp: shifted_last_def not_less not_le [symmetric])
  ultimately show False using assms(4) by (simp add: word_le_nat_alt)
qed

lemma ranges_above:
  assumes "canonical (s # rs)" "x \<in> ranges_set (s # rs)"
  shows "unat (rfirst s) \<le> x"
  using canonical_hd_le [OF assms(1)] assms(2) by (fastforce simp: ranges_set_def range_set_def)

lemma shifted_above:
  assumes "canonical (t # ts)" "rfirst t \<le> UINT64_MAX - offset"
    "y \<in> shifted (unat offset) (ranges_set (t # ts))"
  shows "unat (rfirst t + offset) \<le> y"
  using ranges_above [OF assms(1)] assms(3) off_add [OF assms(2)] by (auto simp: shifted_def)

lemma ranges_tail_above:
  "canonical (s # rs) \<Longrightarrow> x \<in> ranges_set rs \<Longrightarrow> unat (rlast s) < x"
  by (fastforce simp: ranges_set_def range_set_def)

lemma overlap_loop_correct:
  assumes "canonical r" "canonical er" "is_hull ret S"
  shows "is_hull (overlap_loop offset ret r er)
    (S \<union> ranges_set r \<inter> shifted (unat offset) (ranges_set er))"
  using assms
proof (induction offset ret r er arbitrary: S rule: overlap_loop.induct)
  case (3 offset ret s rs t ts)
  let ?sh = "\<lambda>xs. shifted (unat offset) (ranges_set xs)"
  let ?of = "rfirst t + offset"
  let ?ol = "shifted_last offset t"
  have s: "range_valid s" "canonical rs" and t: "range_valid t" "canonical ts"
    using 3(5,6) by simp_all
  show ?case
  proof (cases "rfirst t > UINT64_MAX - offset")
    case True
    with shifted_too_far [OF 3(6)] 3(7) show ?thesis by simp
  next
    case near: False
    then have fit: "rfirst t \<le> UINT64_MAX - offset" by auto
    note tset = shifted_range [OF t(1) fit]
    consider (skip_s) "rlast s < ?of" | (skip_t) "\<not> rlast s < ?of" "?ol < rfirst s"
      | (meet) "\<not> rlast s < ?of" "\<not> ?ol < rfirst s"
      by blast
    then show ?thesis
    proof cases
      case skip_s
      have "range_set s \<inter> ?sh (t # ts) = {}"
        using shifted_above [OF 3(6) fit] skip_s by (fastforce simp: range_set_def word_less_nat_alt)
      then have "ranges_set (s # rs) \<inter> ?sh (t # ts) = ranges_set rs \<inter> ?sh (t # ts)" by auto
      with 3(1) [OF near refl refl skip_s s(2) 3(6) 3(7)] near skip_s show ?thesis by simp
    next
      case skip_t
      have "ranges_set (s # rs) \<inter> shifted (unat offset) (range_set t) = {}"
        using ranges_above [OF 3(5)] skip_t(2) unfolding tset
        by (fastforce simp: word_less_nat_alt)
      then have "ranges_set (s # rs) \<inter> ?sh (t # ts) = ranges_set (s # rs) \<inter> ?sh ts" by auto
      with 3(2) [OF near refl refl skip_t 3(5) t(2) 3(7)] near skip_t show ?thesis by simp
    next
      case meet
      define ret' where "ret' = hull_extend ret (max (rfirst s) ?of) (min (rlast s) ?ol)"
      have cut: "range_set s \<inter> shifted (unat offset) (range_set t) =
          {unat (max (rfirst s) ?of)..unat (min (rlast s) ?ol)}"
        unfolding tset by (auto simp: range_set_def)
      have hull: "is_hull ret' (S \<union> range_set s \<inter> shifted (unat offset) (range_set t))"
        unfolding ret'_def cut using meet 3(7) s(1) tset(2)
        by (intro hull_extend_correct) (auto simp: range_valid_def word_le_nat_alt word_less_nat_alt)
      show ?thesis
      proof (cases "rlast s < ?ol")
        case True
        have "range_set s \<inter> ?sh ts = {}"
          using shifted_beyond [OF 3(6) s(1) fit] True by simp
        then have "S \<union> ranges_set (s # rs) \<inter> ?sh (t # ts) =
            S \<union> range_set s \<inter> shifted (unat offset) (range_set t) \<union> ranges_set rs \<inter> ?sh (t # ts)"
          by auto
        with 3(3) [OF near refl refl meet ret'_def True s(2) 3(6) hull] near meet True
        show ?thesis by (simp add: ret'_def)
      next
        case False
        have "ranges_set rs \<inter> shifted (unat offset) (range_set t) = {}"
          using ranges_tail_above [OF 3(5)] False unfolding tset
          by (fastforce simp: word_less_nat_alt)
        then have "S \<union> ranges_set (s # rs) \<inter> ?sh (t # ts) =
            S \<union> range_set s \<inter> shifted (unat offset) (range_set t) \<union> ranges_set (s # rs) \<inter> ?sh ts"
          by auto
        with 3(4) [OF near refl refl meet ret'_def False 3(5) t(2) hull] near meet False
        show ?thesis by (simp add: ret'_def)
      qed
    qed
  qed
qed auto

lemma ranges_below:
  assumes "canonical r" "x \<in> ranges_set r"
  shows "x \<le> unat (rlast (last r))"
  using canonical_last_ge [OF assms(1)] assms(2) by (fastforce simp: ranges_set_def range_set_def)

lemma shifted_below:
  assumes "canonical er" "y \<in> shifted (unat offset) (ranges_set er)"
  shows "y \<le> unat (shifted_last offset (last er))"
proof (cases "rlast (last er) \<le> UINT64_MAX - offset")
  case True
  then show ?thesis
    using assms ranges_below [OF assms(1)] off_add [OF True] leD [OF True]
    by (auto simp: shifted_def shifted_last_def)
next
  case False
  then show ?thesis
    using assms(2)
    by (auto simp: shifted_def shifted_last_def unsigned_minus_1_eq_mask mask_eq_exp_minus_1)
qed

lemma exposure_overlap_hull:
  assumes "exposure_inv a" "exposure_inv b"
  shows "is_hull (exposure_overlap a b offset) (exposed a \<inter> shifted (unat offset) (exposed b))"
proof -
  define r er where "r = exposure_list a" and "er = exposure_list b"
  have inv: "canonical r" "canonical er"
    using assms by (simp_all add: exposure_inv_def r_def er_def)
  have sets: "exposed a = ranges_set r" "exposed b = ranges_set er"
    by (simp_all add: exposed_list r_def er_def)
  note eq = exposure_overlap_def [of a b offset, folded r_def er_def, unfolded Let_def]
  consider (empty) "er = [] \<or> r = []"
    | (far) "er \<noteq> []" "r \<noteq> []" "UINT64_MAX - offset < rfirst (hd er)"
    | (apart) "er \<noteq> []" "r \<noteq> []" "\<not> UINT64_MAX - offset < rfirst (hd er)"
        "shifted_last offset (last er) < rfirst (hd r) \<or> rlast (last r) < rfirst (hd er) + offset"
    | (scan) "er \<noteq> []" "r \<noteq> []" "\<not> UINT64_MAX - offset < rfirst (hd er)"
        "\<not> (shifted_last offset (last er) < rfirst (hd r) \<or> rlast (last r) < rfirst (hd er) + offset)"
    by blast
  then show ?thesis
  proof cases
    case empty
    then show ?thesis by (auto simp: eq sets)
  next
    case far
    then have "shifted (unat offset) (ranges_set er) = {}"
      using shifted_too_far inv(2) by (metis list.collapse)
    with far show ?thesis by (simp add: eq sets)
  next
    case apart
    have fit: "rfirst (hd er) \<le> UINT64_MAX - offset" using apart(3) by auto
    have "False" if x: "x \<in> ranges_set r" "x \<in> shifted (unat offset) (ranges_set er)" for x
    proof -
      have "unat (rfirst (hd r)) \<le> x" "x \<le> unat (rlast (last r))"
        using ranges_above [of "hd r" "tl r"] ranges_below inv(1) x(1) apart(2) by auto
      moreover have "unat (rfirst (hd er) + offset) \<le> x" "x \<le> unat (shifted_last offset (last er))"
        using shifted_above [of "hd er" "tl er"] shifted_below inv(2) x(2) apart(1) fit by auto
      ultimately show False using apart(4) by (auto simp: word_less_nat_alt)
    qed
    then have "ranges_set r \<inter> shifted (unat offset) (ranges_set er) = {}" by blast
    with apart show ?thesis by (simp add: eq sets)
  next
    case scan
    have "exposure_overlap a b offset = overlap_loop offset range_invalid r er"
    proof (cases "length er = 1 \<and> length r = 1")
      case True
      then obtain s t where "r = [s]" "er = [t]" by (auto simp: length_Suc_conv)
      with scan show ?thesis
        by (auto simp: eq Let_def hull_extend_def)
    qed (use scan in \<open>auto simp: eq\<close>)
    with overlap_loop_correct [OF inv is_hull_empty, of offset] show ?thesis by (simp add: sets)
  qed
qed

section \<open>Size, span and self test\<close>

lemma range_card: "range_valid s \<Longrightarrow>
    unat (1 + rlast s - rfirst s) = card (range_set s) mod 2 ^ 64"
proof -
  assume "range_valid s"
  then have le: "rfirst s \<le> rlast s" by (simp add: range_valid_def)
  have "unat (1 + rlast s - rfirst s) = unat (rlast s - rfirst s + 1)" by (simp add: algebra_simps)
  also have "\<dots> = (unat (rlast s - rfirst s) + 1) mod 2 ^ 64"
    by (simp add: unat_word_ariths)
  also have "unat (rlast s - rfirst s) + 1 = card (range_set s)"
    using le by (simp add: unat_sub range_set_def word_le_nat_alt)
  finally show ?thesis .
qed

lemma finite_range_set [simp]: "finite (range_set s)" "finite (ranges_set r)"
  by (simp_all add: range_set_def ranges_set_def)

lemma fold_bytes: "fold (\<lambda>s v. v + (1 + rlast s - rfirst s)) r v =
    v + sum_list (map (\<lambda>s. 1 + rlast s - rfirst s) r)"
  by (induction r arbitrary: v) (simp_all add: algebra_simps)

lemma sum_bytes:
  "canonical r \<Longrightarrow>
    unat (sum_list (map (\<lambda>s. 1 + rlast s - rfirst s) r)) = card (ranges_set r) mod 2 ^ 64"
proof (induction r)
  case (Cons s rs)
  have "range_set s \<inter> ranges_set rs = {}"
    using ranges_tail_above [OF Cons.prems] by (fastforce simp: range_set_def)
  then have "card (ranges_set (s # rs)) = card (range_set s) + card (ranges_set rs)"
    by (simp add: card_Un_disjoint)
  moreover have "unat (1 + rlast s - rfirst s) = card (range_set s) mod 2 ^ 64"
    using range_card Cons.prems by simp
  ultimately show ?case
    using Cons by (simp add: unat_word_ariths mod_simps)
qed simp

lemma exposure_bytes_card:
  assumes "exposure_inv e"
  shows "unat (exposure_bytes e) = card (exposed e) mod 2 ^ 64"
proof -
  have "exposure_bytes e = sum_list (map (\<lambda>s. 1 + rlast s - rfirst s) (exposure_list e))"
    by (cases "ex_reversed e")
      (simp_all add: exposure_bytes_def fold_bytes rev_map [symmetric] sum_list_rev)
  with sum_bytes assms show ?thesis by (simp add: exposure_inv_def exposed_list)
qed

lemma self_test_loop_canonical:
  "canonical r \<Longrightarrow> isfirst \<or> (\<forall>s\<in>set r. unat prev < unat (rfirst s)) \<Longrightarrow> self_test_loop isfirst prev r"
  by (induction r arbitrary: isfirst prev)
    (auto simp: range_valid_def word_less_nat_alt dest!: Suc_lessD)

lemma exposure_new_facts [simp]:
  "exposure_inv exposure_new" "exposed exposure_new = {}" "\<not> ex_reversed exposure_new"
  by (simp_all add: exposure_inv_def exposure_new_def exposed_def)

section \<open>The tracker as an interface\<close>

text \<open>What the rest of the program relies on: the tracker of written bytes is a set that grows
  by \<open>add\<close> and from which \<open>fetch\<close> takes an interval.\<close>

fun mark_all :: "(u64 \<Rightarrow> u64 \<Rightarrow> 'e \<Rightarrow> 'e result) \<Rightarrow> (u64 \<times> u64) list \<Rightarrow> 'e \<Rightarrow> 'e result" where
  "mark_all add [] e = Inr e"
| "mark_all add ((a, b) # ws) e = result_bind (add a b e) (mark_all add ws)"

locale dirty_tracker =
  fixes inv :: "'e \<Rightarrow> bool"
    and dirty :: "'e \<Rightarrow> nat set"
    and add :: "u64 \<Rightarrow> u64 \<Rightarrow> 'e \<Rightarrow> 'e result"
    and fetch :: "u64 \<Rightarrow> u64 \<Rightarrow> bool \<Rightarrow> 'e \<Rightarrow> (range_t \<times> 'e) result"
  assumes add_law: "inv e \<Longrightarrow> a \<le> b \<Longrightarrow>
      \<exists>e'. add a b e = Inr e' \<and> inv e' \<and> dirty e' = dirty e \<union> {unat a..unat b}"
    and fetch_law: "inv e \<Longrightarrow> a \<le> b \<Longrightarrow>
      \<exists>ret e'. fetch a b m e = Inr (ret, e') \<and> inv e' \<and>
        dirty e' = (if m then dirty e else dirty e - {unat a..unat b}) \<and>
        is_hull ret (dirty e \<inter> {unat a..unat b})"
begin

lemma add_fetch_exact:
  assumes "inv e" "a \<le> b"
  shows "\<exists>e1 e2. add a b e = Inr e1 \<and> fetch a b False e1 = Inr (mk_range a b, e2) \<and>
    inv e2 \<and> dirty e2 = dirty e - {unat a..unat b}"
proof -
  obtain e1 where e1: "add a b e = Inr e1" "inv e1" "dirty e1 = dirty e \<union> {unat a..unat b}"
    using add_law [OF assms] by blast
  obtain ret e2 where e2: "fetch a b False e1 = Inr (ret, e2)" "inv e2"
      "dirty e2 = dirty e1 - {unat a..unat b}" "is_hull ret (dirty e1 \<inter> {unat a..unat b})"
    using fetch_law [OF e1(2) assms(2), of False] by auto
  have "dirty e1 \<inter> {unat a..unat b} = {unat a..unat b}" using e1(3) by auto
  with e2(4) assms(2) have "unat (rfirst ret) = unat a" "unat (rlast ret) = unat b"
    by (auto simp: is_hull_def range_set_def word_le_nat_alt)
  then have "ret = mk_range a b" by (cases ret) (simp add: word_unat_eq_iff)
  with e1 e2 show ?thesis by auto
qed

lemma fetch_clean:
  assumes "inv e" "a \<le> b" "fetch a b False e = Inr (ret, e1)"
    and "c \<le> d" "unat a \<le> unat c" "unat d \<le> unat b"
  shows "\<exists>ret' e2. fetch c d m e1 = Inr (ret', e2) \<and> \<not> range_valid ret' \<and> dirty e2 = dirty e1"
proof -
  have e1: "inv e1" "dirty e1 = dirty e - {unat a..unat b}"
    using fetch_law [OF assms(1,2), of False] assms(3) by auto
  then have none: "dirty e1 \<inter> {unat c..unat d} = {}" using assms(5,6) by auto
  with fetch_law [OF e1(1) assms(4), of m] show ?thesis
    by (fastforce simp: is_hull_def split: if_splits)
qed

lemma mark_all_union:
  assumes "inv e" "\<forall>(a, b)\<in>set ws. a \<le> b"
  shows "\<exists>e'. mark_all add ws e = Inr e' \<and> inv e' \<and>
    dirty e' = dirty e \<union> (\<Union>(a, b)\<in>set ws. {unat a..unat b})"
  using assms
proof (induction ws arbitrary: e)
  case (Cons w ws)
  obtain a b where w: "w = (a, b)" by fastforce
  from Cons.prems w obtain e1 where e1: "add a b e = Inr e1" "inv e1"
      "dirty e1 = dirty e \<union> {unat a..unat b}"
    using add_law [of e a b] by auto
  with Cons.IH [OF e1(2)] Cons.prems(2) w show ?case by auto
qed simp

end

interpretation exposure_tracker: dirty_tracker exposure_inv exposed exposure_add exposure_fetch
proof (standard, goal_cases)
  case (1 e a b)
  then show ?case by (metis exposure_add_spec)
next
  case (2 e a b m)
  then show ?case by (metis exposure_fetch_spec)
qed

section \<open>Every history of an exposure\<close>

inductive exposure_history :: "exposure \<Rightarrow> bool" where
  new: "exposure_history exposure_new"
| add: "exposure_history e \<Longrightarrow> exposure_add a b e = Inr e' \<Longrightarrow> exposure_history e'"
| add_os: "exposure_history e \<Longrightarrow> exposure_add_os off sz e = Inr e' \<Longrightarrow> exposure_history e'"
| fetch: "exposure_history e \<Longrightarrow> exposure_fetch a b m e = Inr (ret, e') \<Longrightarrow> exposure_history e'"
| fetch_os: "exposure_history e \<Longrightarrow> exposure_fetch_os off sz m e = Inr (ret, e') \<Longrightarrow> exposure_history e'"
| list: "exposure_history e \<Longrightarrow> exposure_history (exposure_normalize e)"
| clear: "exposure_history e \<Longrightarrow> exposure_history (exposure_clear e)"

lemma exposure_add_keeps: "exposure_inv e \<Longrightarrow> exposure_add a b e = Inr e' \<Longrightarrow> exposure_inv e'"
  using exposure_tracker.add_law [of e a b] by (cases "a \<le> b") (auto simp: exposure_add_def)

lemma exposure_fetch_keeps: "exposure_inv e \<Longrightarrow> exposure_fetch a b m e = Inr (ret, e') \<Longrightarrow> exposure_inv e'"
  using exposure_tracker.fetch_law [of e a b m] by (cases "a \<le> b") (auto simp: exposure_fetch_def)

lemma exposure_inv_clear [simp]: "exposure_inv (exposure_clear e)"
  by (simp add: exposure_clear_def exposure_inv_def)

lemma exposure_history_inv: "exposure_history e \<Longrightarrow> exposure_inv e"
proof (induction rule: exposure_history.induct)
  case (add_os e off sz e')
  then show ?case using exposure_add_keeps by (auto simp: exposure_add_os_def split: if_splits)
next
  case (fetch_os e off sz m ret e')
  then show ?case using exposure_fetch_keeps by (auto simp: exposure_fetch_os_def split: if_splits)
qed (auto intro: exposure_add_keeps exposure_fetch_keeps)

section \<open>Properties\<close>

text \<open>C18: marking \<open>[start, end]\<close> in a well-formed exposure succeeds for every
  \<open>start \<le> end\<close>, the ends of the address space included, leaves the exposure
  well formed (sorted, disjoint, coalesced) and makes exactly the bytes of the interval dirty in
  addition to the ones that were.\<close>

theorem exposure_add_is_union:
  assumes "exposure_inv e" "start \<le> end"
  shows "\<exists>e'. exposure_add start end e = Inr e' \<and> exposure_inv e' \<and>
    exposed e' = exposed e \<union> {unat start..unat end}"
  using exposure_tracker.add_law [OF assms] .

theorem exposure_add_is_union_witness:
  "\<exists>e'. exposure_add 4 UINT64_MAX \<lparr>ex_r = [mk_range 8 9, mk_range 2 3], ex_reversed = True\<rparr> = Inr e' \<and>
    exposure_inv e' \<and> exposed e' = {8..9} \<union> {2..3} \<union> {4..unat UINT64_MAX}"
  using exposure_add_is_union [of "\<lparr>ex_r = [mk_range 8 9, mk_range 2 3], ex_reversed = True\<rparr>" 4 UINT64_MAX]
  by (simp add: exposure_inv_def range_valid_def exposed_def Un_assoc del: Icc_eq_Icc)

text \<open>C20: fetching \<open>[start, end]\<close> returns the smallest range around the dirty bytes of the
  interval, or an invalid range exactly when the interval is clean; the bytes of the interval become
  clean when the memory is not mapped, and nothing changes when it is.\<close>

theorem exposure_fetch_is_hull:
  assumes "exposure_inv e" "start \<le> end"
  shows "\<exists>ret e'. exposure_fetch start end is_mapped e = Inr (ret, e') \<and> exposure_inv e' \<and>
    exposed e' = (if is_mapped then exposed e else exposed e - {unat start..unat end}) \<and>
    is_hull ret (exposed e \<inter> {unat start..unat end})"
  using exposure_tracker.fetch_law [OF assms] .

theorem exposure_fetch_is_hull_witness:
  "\<exists>ret e'. exposure_fetch 3 8 False \<lparr>ex_r = [mk_range 2 3, mk_range 8 9], ex_reversed = False\<rparr> =
      Inr (ret, e') \<and> exposure_inv e' \<and> exposed e' = {2, 9} \<and> is_hull ret {3, 8}"
proof -
  let ?e = "\<lparr>ex_r = [mk_range 2 3, mk_range 8 9], ex_reversed = False\<rparr>"
  have "exposed ?e - {unat (3::u64)..unat (8::u64)} = {2, 9}"
    "exposed ?e \<inter> {unat (3::u64)..unat (8::u64)} = {3, 8}"
    by (auto simp: exposed_def)
  with exposure_fetch_is_hull [of ?e 3 8 False] show ?thesis
    by (simp add: exposure_inv_def range_valid_def)
qed

text \<open>C28: \<open>overlap\<close> returns the smallest range around the bytes dirty in the one exposure that are
  dirty, \<open>offset\<close> bytes further down, in the other one; bytes displaced beyond the 64-bit address
  space count for nothing, and the result is invalid exactly when there is no such byte.\<close>

theorem exposure_overlap_is_hull:
  assumes "exposure_inv a" "exposure_inv b"
  shows "is_hull (exposure_overlap a b offset) (exposed a \<inter> shifted (unat offset) (exposed b))"
  using assms by (rule exposure_overlap_hull)

theorem exposure_overlap_is_hull_witness:
  "is_hull (exposure_overlap \<lparr>ex_r = [mk_range 2 3, mk_range 8 9], ex_reversed = False\<rparr>
      \<lparr>ex_r = [mk_range 4 9], ex_reversed = False\<rparr> 3)
    (exposed \<lparr>ex_r = [mk_range 2 3, mk_range 8 9], ex_reversed = False\<rparr> \<inter>
      shifted 3 (exposed \<lparr>ex_r = [mk_range 4 9], ex_reversed = False\<rparr>))"
  using exposure_overlap_is_hull [of "\<lparr>ex_r = [mk_range 2 3, mk_range 8 9], ex_reversed = False\<rparr>"
      "\<lparr>ex_r = [mk_range 4 9], ex_reversed = False\<rparr>" 3]
  by (simp add: exposure_inv_def range_valid_def)

text \<open>C30: in every exposure that any sequence of its operations produces, the ranges pass the
  self test, and \<open>bytes\<close> is the number of dirty bytes modulo \<open>2 ^ 64\<close> whether or not the list is
  reversed.\<close>

theorem exposure_history_sound:
  assumes "exposure_history e"
  shows "exposure_self_test e \<and> unat (exposure_bytes e) = card (exposed e) mod 2 ^ 64"
  using exposure_history_inv [OF assms] exposure_bytes_card self_test_loop_canonical
  by (simp add: exposure_self_test_def exposure_inv_def)

theorem exposure_history_sound_witness:
  "\<exists>e. exposure_add 7 9 exposure_new = Inr e \<and> exposure_self_test e \<and> unat (exposure_bytes e) = 3"
proof -
  obtain e where e: "exposure_add 7 9 exposure_new = Inr e" "exposed e = {7..9}"
    using exposure_add_spec [of exposure_new 7 9] by auto
  with exposure_history_sound [OF exposure_history.add [OF exposure_history.new e(1)]]
  show ?thesis by auto
qed

text \<open>C32: what was just marked is fetched exactly: after \<open>add(a, b)\<close>, fetching the same interval
  from unmapped memory returns \<open>[a, b]\<close> itself and leaves nothing of it dirty.\<close>

theorem exposure_add_fetch_exact:
  assumes "exposure_inv e" "a \<le> b"
  shows "\<exists>e1 e2. exposure_add a b e = Inr e1 \<and>
    exposure_fetch a b False e1 = Inr (mk_range a b, e2) \<and>
    exposure_inv e2 \<and> exposed e2 = exposed e - {unat a..unat b}"
  using assms by (rule exposure_tracker.add_fetch_exact)

theorem exposure_add_fetch_exact_witness:
  "\<exists>e1 e2. exposure_add 0 UINT64_MAX exposure_new = Inr e1 \<and>
    exposure_fetch 0 UINT64_MAX False e1 = Inr (mk_range 0 UINT64_MAX, e2) \<and> exposed e2 = {}"
  using exposure_add_fetch_exact [of exposure_new 0 UINT64_MAX] by auto

end
