(* ===== verification/Bytes.thy ===== *)
theory Bytes
  imports Prelude
begin

text \<open>Bytes in memory.  A buffer is a list of bytes; an integer is stored by \<open>memcpy\<close> of its
  object representation, which is little endian on every platform the program is built for.\<close>

unbundle bit_operations_syntax

type_synonym bytes = "u8 list"

fun to_le :: "nat \<Rightarrow> 'a::len word \<Rightarrow> bytes" where
  "to_le 0 w = []"
| "to_le (Suc n) w = ucast w # to_le n (drop_bit 8 w)"

fun from_le :: "bytes \<Rightarrow> 'a::len word" where
  "from_le [] = 0"
| "from_le (b # bs) = ucast b OR push_bit 8 (from_le bs)"

text \<open>Reading an integer of \<open>n\<close> bytes off the front of a buffer.\<close>

definition take_le :: "nat \<Rightarrow> bytes \<Rightarrow> 'a::len word" where
  "take_le n bs = from_le (take n bs)"

lemma length_to_le [simp]: "length (to_le n w) = n"
  by (induction n arbitrary: w) auto

lemma bit_from_to_le:
  fixes w :: "'a::len word"
  shows "bit (from_le (to_le n w) :: 'a word) i \<longleftrightarrow> i < 8 * n \<and> bit w i"
proof (induction n arbitrary: w i)
  case (Suc n)
  have bound: "bit w i \<Longrightarrow> i < LENGTH('a)" for i using bit_imp_le_length by blast
  show ?case
    using Suc.IH [of "drop_bit 8 w" "i - 8"] bound [of i]
    by (cases "i < 8") (auto simp: bit_simps)
qed simp

lemma from_to_le [simp]:
  fixes w :: "'a::len word"
  assumes "LENGTH('a) \<le> 8 * n"
  shows "from_le (to_le n w) = w"
  using assms bit_imp_le_length by (intro bit_eqI) (fastforce simp: bit_from_to_le)

lemma take_le_append [simp]:
  fixes w :: "'a::len word"
  assumes "LENGTH('a) \<le> 8 * n"
  shows "take_le n (to_le n w @ rest) = w"
  using assms by (simp add: take_le_def)

lemma from_le_zeros [simp]: "from_le (replicate n 0) = 0"
  by (induction n) auto

lemma to_le_zero [simp]: "to_le n (0 :: 'a::len word) = replicate n 0"
  by (induction n) auto

subsection \<open>Overwriting part of a buffer\<close>

text \<open>\<open>memcpy(buf + pos, src, n)\<close> on a buffer that is large enough.\<close>

definition overwrite :: "bytes \<Rightarrow> nat \<Rightarrow> bytes \<Rightarrow> bytes" where
  "overwrite buf pos src = take pos buf @ src @ drop (pos + length src) buf"

lemma length_overwrite [simp]:
  "pos + length src \<le> length buf \<Longrightarrow> length (overwrite buf pos src) = length buf"
  by (simp add: overwrite_def)

lemma overwrite_empty [simp]: "overwrite buf pos [] = buf"
  by (simp add: overwrite_def)

lemma overwrite_append:
  "overwrite (pre @ old @ post) (length pre) new = pre @ new @ post" if "length new = length old"
  using that by (simp add: overwrite_def)

lemma take_two_prefixes:
  "length a + length b \<le> k \<Longrightarrow> take k (a @ b @ c) = a @ b @ take (k - (length a + length b)) c"
  by simp

end
