(* ===== verification/FileWriter.thy ===== *)
theory FileWriter
  imports Bytes
begin

text \<open>The capture side of a trace stream: the class \<open>file_writer\<close> of \<^verbatim>\<open>src/filewriter.h\<close> and
  \<^verbatim>\<open>src/filewriter.cpp\<close>.  Values, arrays, strings and memory patches are appended to the current
  chunk; full chunks move through the lists of held, uncompressed and compressed chunks to the
  file.  The compression libraries (density, LZ4) are parameters.\<close>

section \<open>State\<close>

datatype compression_type =
    LAVATUBE_COMPRESSION_UNCOMPRESSED
  | LAVATUBE_COMPRESSION_DENSITY
  | LAVATUBE_COMPRESSION_LZ4

text \<open>The enumeration's value as stored in the byte of the file header.\<close>

fun compression_byte :: "compression_type \<Rightarrow> u8" where
  "compression_byte LAVATUBE_COMPRESSION_UNCOMPRESSED = 0"
| "compression_byte LAVATUBE_COMPRESSION_DENSITY = 1"
| "compression_byte LAVATUBE_COMPRESSION_LZ4 = 2"

text \<open>What the writer uses of its surroundings: the selected algorithm and the two compression
  libraries (\<open>None\<close> is a failed call).  \<open>cx_slack\<close> are the 16 bytes behind the allocation of an
  uncompressed chunk, see \<open>compress_chunk\<close>.\<close>

record codec =
  cx_type :: compression_type
  cx_density :: "bytes \<Rightarrow> bytes option"
  cx_lz4 :: "bytes \<Rightarrow> bytes option"
  cx_slack :: bytes

text \<open>\<open>fw_chunk\<close> holds the first \<open>uidx\<close> bytes of the current chunk and \<open>fw_cap\<close> is the size of its
  allocation.  The fronts of the lists are their newest elements.  \<open>fw_file\<close> holds what has been
  written out, in the order of the calls of \<open>write_chunk\<close>.\<close>

record file_writer =
  fw_cap :: nat
  fw_chunk :: bytes
  fw_chunk_size :: nat
  fw_holding :: bool
  fw_mt_compress :: bool
  fw_mt_write :: bool
  fw_held :: "bytes list"
  fw_uncompressed :: "bytes list"
  fw_compressed :: "bytes list"
  fw_file :: "bytes list"
  fw_bytes :: u64
  fw_compressed_sizes :: "u64 list"
  fw_uncompressed_sizes :: "u64 list"
  fw_done_feeding :: bool
  fw_done_compressing :: bool

definition fw_uidx :: "file_writer \<Rightarrow> nat" where
  "fw_uidx w = length (fw_chunk w)"

definition file_writer_new :: "nat \<Rightarrow> file_writer" where
  "file_writer_new chunksize = \<lparr>fw_cap = chunksize, fw_chunk = [], fw_chunk_size = chunksize,
    fw_holding = False, fw_mt_compress = True, fw_mt_write = True, fw_held = [],
    fw_uncompressed = [], fw_compressed = [], fw_file = [], fw_bytes = 0,
    fw_compressed_sizes = [], fw_uncompressed_sizes = [],
    fw_done_feeding = False, fw_done_compressing = False\<rparr>"

text \<open>The header of a stream: the word LAVABIN, the file version, the algorithm and reserved
  space, 32 bytes behind the word.\<close>

definition magic_word :: bytes where
  "magic_word = [76, 65, 86, 65, 66, 73, 78]"

definition stream_header :: "compression_type \<Rightarrow> bytes" where
  "stream_header ct = magic_word @ [3, compression_byte ct] @ replicate 30 0"

section \<open>Chunks\<close>

definition chunk_header :: "u64 \<Rightarrow> u64 \<Rightarrow> bytes" where
  "chunk_header was_written was_read = to_le 8 was_written @ to_le 8 was_read"

text \<open>For an uncompressed stream \<open>was_written\<close> is the size of the whole output buffer, its header
  included, so the stored size is 16 too large and the buffer that is written out reaches 16 bytes
  beyond the allocation.\<close>

definition compress_payload :: "codec \<Rightarrow> bytes \<Rightarrow> bytes result" where
  "compress_payload cx x =
    (case cx_type cx of
       LAVATUBE_COMPRESSION_DENSITY \<Rightarrow>
         (case cx_density cx x of None \<Rightarrow> Inl Aborted | Some y \<Rightarrow> Inr y)
     | LAVATUBE_COMPRESSION_LZ4 \<Rightarrow>
         (case cx_lz4 cx x of None \<Rightarrow> Inl Aborted | Some y \<Rightarrow> Inr y)
     | LAVATUBE_COMPRESSION_UNCOMPRESSED \<Rightarrow> Inr (x @ cx_slack cx))"

definition compress_chunk :: "codec \<Rightarrow> bytes \<Rightarrow> file_writer \<Rightarrow> (bytes \<times> file_writer) result" where
  "compress_chunk cx x w = result_bind (compress_payload cx x) (\<lambda>y.
    Inr (chunk_header (of_nat (length y)) (of_nat (length x)) @ y,
         w\<lparr>fw_compressed_sizes := fw_compressed_sizes w @ [of_nat (length y)],
           fw_uncompressed_sizes := fw_uncompressed_sizes w @ [of_nat (length x)]\<rparr>))"

definition write_chunk :: "bytes \<Rightarrow> file_writer \<Rightarrow> file_writer" where
  "write_chunk active w = w\<lparr>fw_file := fw_file w @ [active]\<rparr>"

text \<open>\<open>set\<close> creates the file, which truncates an existing one, and writes the header.\<close>

definition file_writer_set :: "codec \<Rightarrow> file_writer \<Rightarrow> file_writer" where
  "file_writer_set cx w = write_chunk (stream_header (cx_type cx)) (w\<lparr>fw_file := []\<rparr>)"

text \<open>Handing over a compressed chunk, to the serializer's list or straight to the file.\<close>

definition hand_over :: "bytes \<Rightarrow> file_writer \<Rightarrow> file_writer" where
  "hand_over y w = (if fw_mt_write w then w\<lparr>fw_compressed := y # fw_compressed w\<rparr> else write_chunk y w)"

definition make_space :: "codec \<Rightarrow> nat \<Rightarrow> file_writer \<Rightarrow> file_writer result" where
  "make_space cx sz w = result_bind
    (if fw_holding w then Inr (w\<lparr>fw_held := fw_chunk w # fw_held w\<rparr>)
     else if fw_mt_compress w then Inr (w\<lparr>fw_uncompressed := fw_chunk w # fw_uncompressed w\<rparr>)
     else result_bind (compress_chunk cx (fw_chunk w) w) (\<lambda>(y, w'). Inr (hand_over y w')))
    (\<lambda>w'. Inr (w'\<lparr>fw_cap := (if sz > fw_chunk_size w then sz else fw_chunk_size w),
                  fw_chunk := []\<rparr>))"

definition check_space :: "codec \<Rightarrow> nat \<Rightarrow> file_writer \<Rightarrow> file_writer result" where
  "check_space cx sz w = (if sz > fw_cap w - fw_uidx w then make_space cx sz w else Inr w)"

text \<open>The common part of all writes: copy the data to the current position and advance, after
  reserving \<open>sz\<close> bytes.  A copy beyond the end of the chunk is an error.\<close>

definition copy_bytes :: "bytes \<Rightarrow> file_writer \<Rightarrow> file_writer result" where
  "copy_bytes data w =
    (if fw_uidx w + length data > fw_cap w then Inl Out_of_range
     else Inr (w\<lparr>fw_chunk := fw_chunk w @ data, fw_bytes := fw_bytes w + of_nat (length data)\<rparr>))"

definition append_bytes :: "codec \<Rightarrow> nat \<Rightarrow> bytes \<Rightarrow> file_writer \<Rightarrow> file_writer result" where
  "append_bytes cx sz data w = result_bind (check_space cx sz w) (copy_bytes data)"

section \<open>Values, arrays and strings\<close>

definition write_value :: "codec \<Rightarrow> nat \<Rightarrow> 'a::len word \<Rightarrow> file_writer \<Rightarrow> file_writer result" where
  "write_value cx n v = append_bytes cx n (to_le n v)"

definition write_uint8_t :: "codec \<Rightarrow> u8 \<Rightarrow> file_writer \<Rightarrow> file_writer result" where
  "write_uint8_t cx v = write_value cx 1 v"

definition write_uint16_t :: "codec \<Rightarrow> u16 \<Rightarrow> file_writer \<Rightarrow> file_writer result" where
  "write_uint16_t cx v = write_value cx 2 v"

definition write_uint32_t :: "codec \<Rightarrow> u32 \<Rightarrow> file_writer \<Rightarrow> file_writer result" where
  "write_uint32_t cx v = write_value cx 4 v"

definition write_uint64_t :: "codec \<Rightarrow> u64 \<Rightarrow> file_writer \<Rightarrow> file_writer result" where
  "write_uint64_t cx v = write_value cx 8 v"

text \<open>\<open>data\<close> is the object representation of the array; its size is computed in \<open>unsigned\<close>.\<close>

definition write_array :: "codec \<Rightarrow> bytes \<Rightarrow> file_writer \<Rightarrow> file_writer result" where
  "write_array cx data w =
    (if data = [] then Inr w
     else let sz = unat (of_nat (length data) :: u32)
          in append_bytes cx sz (take sz data) w)"

text \<open>The overload for C strings; a null pointer is \<open>None\<close>.\<close>

definition write_string :: "codec \<Rightarrow> bytes option \<Rightarrow> file_writer \<Rightarrow> file_writer result" where
  "write_string cx text w =
    (case text of
       None \<Rightarrow> write_uint16_t cx 0 w
     | Some t \<Rightarrow>
         let len = (of_nat (length t) :: u16)
         in result_bind (write_uint16_t cx len w) (write_array cx (take (unat len) t)))"

text \<open>The overload for \<open>std::string\<close>.\<close>

definition write_std_string :: "codec \<Rightarrow> bytes \<Rightarrow> file_writer \<Rightarrow> file_writer result" where
  "write_std_string cx t w =
    result_bind (write_value cx 2 (of_nat (length t) :: u16) w) (\<lambda>w.
      if length t > 0 then write_array cx t w else Inr w)"

fun write_string_array :: "codec \<Rightarrow> bytes option list \<Rightarrow> file_writer \<Rightarrow> file_writer result" where
  "write_string_array cx [] w = Inr w"
| "write_string_array cx (s # ss) w = result_bind (write_string cx s w) (write_string_array cx ss)"

definition freeze :: "file_writer \<Rightarrow> file_writer" where
  "freeze w = (if \<not> fw_holding w then w\<lparr>fw_holding := True\<rparr> else w)"

definition thaw :: "file_writer \<Rightarrow> file_writer" where
  "thaw w = (if \<not> fw_holding w then w
    else w\<lparr>fw_uncompressed := fw_held w @ fw_uncompressed w, fw_held := [], fw_holding := False\<rparr>)"

definition write_value_later :: "codec \<Rightarrow> nat \<Rightarrow> 'a::len word \<Rightarrow> file_writer \<Rightarrow> file_writer result" where
  "write_value_later cx n v w = 
    result_bind (check_space cx n w) (\<lambda>w. copy_bytes (to_le n v) (freeze w))"

definition change_default_chunk_size :: "nat \<Rightarrow> file_writer \<Rightarrow> file_writer result" where
  "change_default_chunk_size sz w = assert_that (fw_uidx w < sz)
    (Inr (w\<lparr>fw_chunk_size := sz, fw_cap := sz\<rparr>))"

definition write_memory_span :: "codec \<Rightarrow> bytes \<Rightarrow> nat \<Rightarrow> file_writer \<Rightarrow> file_writer result" where
  "write_memory_span cx data off w =
    assert_that (off \<le> unat UINT32_MAX \<and> length data \<le> unat UINT32_MAX)
    (result_bind (write_uint32_t cx (of_nat off) w) (\<lambda>w.
     result_bind (write_uint32_t cx (of_nat (length data)) w) (\<lambda>w.
     result_bind (append_bytes cx (length data) data w) (\<lambda>w.
     result_bind (write_uint32_t cx 0 w) (write_uint32_t cx 0)))))"

definition write_memory :: "codec \<Rightarrow> bytes \<Rightarrow> nat \<Rightarrow> nat \<Rightarrow> file_writer \<Rightarrow> file_writer result" where
  "write_memory cx mem off sz = write_memory_span cx (take sz (drop off mem)) off"

section \<open>Memory patches\<close>

text \<open>\<open>memcmp(orig + pos, chng + pos, n) == 0\<close>.\<close>

definition same_at :: "bytes \<Rightarrow> bytes \<Rightarrow> nat \<Rightarrow> nat \<Rightarrow> bool" where
  "same_at orig chng pos n = (take n (drop pos orig) = take n (drop pos chng))"

function skip_chunks :: "bytes \<Rightarrow> bytes \<Rightarrow> nat \<Rightarrow> nat \<Rightarrow> nat" where
  "skip_chunks orig chng sz pos =
    (if sz - pos \<ge> 256 \<and> same_at orig chng pos 256 then skip_chunks orig chng sz (pos + 256)
     else pos)"
  by pat_completeness auto
termination by (relation "measure (\<lambda>(_, _, sz, pos). sz - pos)") auto

function scan_words :: "bytes \<Rightarrow> bytes \<Rightarrow> nat \<Rightarrow> nat \<Rightarrow> nat" where
  "scan_words orig chng sz pos =
    (if sz - pos \<ge> 8 then
       if \<not> same_at orig chng pos 8 then pos else scan_words orig chng sz (pos + 8)
     else if pos < sz \<and> \<not> same_at orig chng pos (sz - pos) then pos
     else sz)"
  by pat_completeness auto
termination by (relation "measure (\<lambda>(_, _, sz, pos). sz - pos)") auto

declare skip_chunks.simps [simp del] scan_words.simps [simp del]

definition find_patch_start :: "bytes \<Rightarrow> bytes \<Rightarrow> nat \<Rightarrow> nat \<Rightarrow> nat" where
  "find_patch_start orig chng off sz =
    (let o' = drop off orig; c' = drop off chng in
     if sz \<ge> 8 \<and> \<not> same_at o' c' 0 8 then 0
     else scan_words o' c' sz (skip_chunks o' c' sz (if sz \<ge> 8 then 8 else 0)))"

text \<open>The \<open>for\<close> loop of \<open>write_patch\<close>: the length of the run of 8-byte words that differ.\<close>

function diff_run :: "bytes \<Rightarrow> bytes \<Rightarrow> nat" where
  "diff_run orig chng =
    (if length orig \<ge> 8 \<and> take 8 orig \<noteq> take 8 chng then 8 + diff_run (drop 8 orig) (drop 8 chng)
     else 0)"
  by pat_completeness auto
termination by (relation "measure (\<lambda>(orig, _). length orig)") auto

declare diff_run.simps [simp del]

text \<open>One round of the outer loop on the remaining areas \<open>orig\<close> and \<open>chng\<close>, whose length is
  \<open>total_left\<close>: the length of the identical prefix, the number \<open>c\<close> of bytes to write and the
  number of bytes left afterwards.\<close>

definition patch_round :: "bytes \<Rightarrow> bytes \<Rightarrow> nat \<times> nat \<times> nat" where
  "patch_round orig chng =
    (let identical = find_patch_start orig chng 0 (length orig);
         o1 = drop identical orig; c1 = drop identical chng;
         run = diff_run o1 c1;
         o2 = drop run o1; c2 = drop run c1 in
     if length o2 < 8 \<and> o2 = c2 then (identical, run, 0)
     else if length o2 < 8 then (identical, run + length o2, 0)
     else (identical, run, length o2))"

lemma skip_chunks_props:
  assumes "pos \<le> sz" "same_at orig chng 0 pos"
  shows "pos \<le> skip_chunks orig chng sz pos \<and> skip_chunks orig chng sz pos \<le> sz \<and>
    same_at orig chng 0 (skip_chunks orig chng sz pos)"
  using assms
proof (induction orig chng sz pos rule: skip_chunks.induct)
  case (1 orig chng sz pos)
  show ?case
  proof (cases "sz - pos \<ge> 256 \<and> same_at orig chng pos 256")
    case True
    then have "same_at orig chng 0 (pos + 256)" "pos + 256 \<le> sz"
      using 1(2,3) by (auto simp: same_at_def take_add)
    with 1(1) [OF True] True show ?thesis by (simp add: skip_chunks.simps [of orig chng sz pos])
  next
    case False
    with 1(2,3) show ?thesis by (auto simp: skip_chunks.simps [of orig chng sz pos])
  qed
qed

lemma scan_words_props:
  assumes "pos \<le> sz" "same_at orig chng 0 pos"
  shows "pos \<le> scan_words orig chng sz pos \<and> scan_words orig chng sz pos \<le> sz \<and>
    same_at orig chng 0 (scan_words orig chng sz pos) \<and>
    (scan_words orig chng sz pos < sz \<longrightarrow>
      \<not> same_at orig chng (scan_words orig chng sz pos) (min 8 (sz - scan_words orig chng sz pos)))"
  using assms
proof (induction orig chng sz pos rule: scan_words.induct)
  case (1 orig chng sz pos)
  consider (step) "8 \<le> sz - pos" "same_at orig chng pos 8" | (found) "8 \<le> sz - pos" "\<not> same_at orig chng pos 8"
    | (tail) "sz - pos < 8"
    by force
  then show ?case
  proof cases
    case step
    then have "same_at orig chng 0 (pos + 8)" "pos + 8 \<le> sz"
      using 1(2,3) by (auto simp: same_at_def take_add)
    with 1(1) step show ?thesis by (simp add: scan_words.simps [of orig chng sz pos])
  next
    case found
    with 1(2,3) show ?thesis by (simp add: scan_words.simps [of orig chng sz pos] min_def)
  next
    case tail
    then have "same_at orig chng pos (sz - pos) \<Longrightarrow> same_at orig chng 0 sz"
      using 1(2,3) take_add [of pos "sz - pos" orig] take_add [of pos "sz - pos" chng]
      by (simp add: same_at_def)
    with 1(2,3) tail show ?thesis by (auto simp: scan_words.simps [of orig chng sz pos] min_def)
  qed
qed

lemma find_patch_start_props:
  assumes "p = find_patch_start orig chng off sz"
  shows "p \<le> sz" "same_at (drop off orig) (drop off chng) 0 p"
    "p < sz \<Longrightarrow> \<not> same_at (drop off orig) (drop off chng) p (min 8 (sz - p))"
proof -
  let ?o = "drop off orig" and ?c = "drop off chng"
  let ?q = "if sz \<ge> 8 then 8 else 0 :: nat"
  have "p \<le> sz \<and> same_at ?o ?c 0 p \<and> (p < sz \<longrightarrow> \<not> same_at ?o ?c p (min 8 (sz - p)))"
  proof (cases "sz \<ge> 8 \<and> \<not> same_at ?o ?c 0 8")
    case True
    then show ?thesis using assms by (simp add: find_patch_start_def Let_def same_at_def)
  next
    case False
    then have "?q \<le> sz" "same_at ?o ?c 0 ?q" by (auto simp: same_at_def)
    note skip = skip_chunks_props [OF this]
    have "p = scan_words ?o ?c sz (skip_chunks ?o ?c sz ?q)"
      using assms False unfolding find_patch_start_def Let_def by (simp only: if_False)
    with scan_words_props [of "skip_chunks ?o ?c sz ?q" sz ?o ?c] skip show ?thesis by blast
  qed
  then show "p \<le> sz" "same_at ?o ?c 0 p" "p < sz \<Longrightarrow> \<not> same_at ?o ?c p (min 8 (sz - p))" by auto
qed

lemma skip_chunks_aligned: "pos mod 8 = 0 \<Longrightarrow> skip_chunks orig chng sz pos mod 8 = 0"
proof (induction orig chng sz pos rule: skip_chunks.induct)
  case (1 orig chng sz pos)
  moreover have "(pos + 256) mod 8 = 0" using 1(2) by presburger
  ultimately show ?case by (simp add: skip_chunks.simps [of orig chng sz pos])
qed

lemma scan_words_aligned:
  "pos mod 8 = 0 \<Longrightarrow> scan_words orig chng sz pos = sz \<or> scan_words orig chng sz pos mod 8 = 0"
proof (induction orig chng sz pos rule: scan_words.induct)
  case (1 orig chng sz pos)
  then show ?case
    by (cases "sz - pos \<ge> 8 \<and> same_at orig chng pos 8") (auto simp: scan_words.simps [of orig chng sz pos])
qed

lemma find_patch_start_aligned:
  "find_patch_start orig chng off sz = sz \<or> find_patch_start orig chng off sz mod 8 = 0"
  using scan_words_aligned [OF skip_chunks_aligned] by (simp add: find_patch_start_def Let_def)

lemma diff_run_le: "diff_run orig chng \<le> length orig"
proof (induction orig chng rule: diff_run.induct)
  case (1 orig chng)
  then show ?case by (subst diff_run.simps) (auto simp: le_diff_conv2 add.commute)
qed

lemma patch_round_spec:
  assumes "patch_round orig chng = (i, n, left)"
  shows "i + n + left \<le> length orig"
    and "take i orig = take i chng"
    and "left = length orig - (i + n) \<or> left = 0 \<and> drop (i + n) orig = drop (i + n) chng"
    and "orig \<noteq> [] \<Longrightarrow> left < length orig"
proof -
  define o1 c1 where "o1 = drop i orig" and "c1 = drop i chng"
  define run where "run = diff_run o1 c1"
  have i: "i = find_patch_start orig chng 0 (length orig)"
    using assms by (auto simp: patch_round_def Let_def split: if_splits)
  note start = find_patch_start_props [OF i]
  have run: "run \<le> length o1" by (simp add: run_def diff_run_le)
  have res: "(n, left) = (if length o1 - run < 8 \<and> drop run o1 = drop run c1 then (run, 0)
      else if length o1 - run < 8 then (run + (length o1 - run), 0) else (run, length o1 - run))"
    using assms by (auto simp: patch_round_def Let_def i run_def o1_def c1_def split: if_splits)
  show "i + n + left \<le> length orig" using res run start(1) by (auto simp: o1_def split: if_splits)
  show "take i orig = take i chng" using start(2) by (simp add: same_at_def)
  show "left = length orig - (i + n) \<or> left = 0 \<and> drop (i + n) orig = drop (i + n) chng"
    using res run start(1) by (auto simp: o1_def c1_def add.commute split: if_splits)
  show "left < length orig" if "orig \<noteq> []"
  proof (cases "length o1 - run < 8")
    case True
    then show ?thesis using res that by (auto split: if_splits)
  next
    case False
    have "0 < i \<or> 0 < run"
    proof (rule ccontr)
      assume "\<not> ?thesis"
      then have "i = 0" "run = 0" by simp_all
      moreover have "8 \<le> length orig" using False by (simp add: o1_def \<open>run = 0\<close> \<open>i = 0\<close>)
      ultimately have "take 8 o1 \<noteq> take 8 c1"
        using start(3) that by (simp add: same_at_def o1_def c1_def min_def)
      then show False using \<open>run = 0\<close> False by (simp add: run_def diff_run.simps [of o1 c1])
    qed
    then show ?thesis using res False run start(1) by (auto simp: o1_def)
  qed
qed

text \<open>The outer loop: the records of offset and payload it writes, and the updated area.\<close>

function patch_loop :: "bytes \<Rightarrow> bytes \<Rightarrow> u32 \<Rightarrow> (u32 \<times> bytes) list \<times> bytes" where
  "patch_loop orig chng off =
    (if orig = [] then ([], [])
     else case patch_round orig chng of (identical, c, left) \<Rightarrow>
       let off' = off + of_nat identical;
           startchng = drop identical chng;
           n = unat (of_nat c :: u32);
           updated = take (length orig - left)
             (take identical orig @ take c startchng @ drop (identical + c) orig);
           (recs, orig') = patch_loop (drop (length orig - left) orig)
             (drop (length orig - left) chng) (if n \<noteq> 0 then 0 else off')
       in ((if n \<noteq> 0 then [(off', take n startchng)] else []) @ recs, updated @ orig'))"
  by pat_completeness auto
termination
proof (relation "measure (\<lambda>(orig, _, _). length orig)", goal_cases)
  case (2 orig chng off x y xa ya)
  then show ?case using patch_round_spec(4) [of orig chng x xa ya] by auto
qed simp

declare patch_loop.simps [simp del]

text \<open>Writing a record: offset, size and payload, after \<open>check_space(8 + c)\<close> in 32 bits.\<close>

definition write_record :: "codec \<Rightarrow> u32 \<times> bytes \<Rightarrow> file_writer \<Rightarrow> file_writer result" where
  "write_record cx rec w =
    (let c = (of_nat (length (snd rec)) :: u32)
     in append_bytes cx (unat (8 + c)) (to_le 4 (fst rec) @ to_le 4 c @ snd rec) w)"

fun write_records :: "codec \<Rightarrow> (u32 \<times> bytes) list \<Rightarrow> file_writer \<Rightarrow> file_writer result" where
  "write_records cx [] w = Inr w"
| "write_records cx (rec # recs) w = result_bind (write_record cx rec w) (write_records cx recs)"

text \<open>\<open>write_patch\<close> returns the number of changed bytes, the updated clone and the writer.\<close>

definition write_patch ::
  "codec \<Rightarrow> bytes \<Rightarrow> bytes \<Rightarrow> u32 \<Rightarrow> nat \<Rightarrow> file_writer \<Rightarrow> (u64 \<times> bytes \<times> file_writer) result" where
  "write_patch cx orig chng off sz w =
    (let (recs, orig') = patch_loop (take sz (drop (unat off) orig)) (take sz (drop (unat off) chng)) off
     in result_bind (write_records cx recs w) (\<lambda>w.
        result_bind (write_uint32_t cx 0 w) (\<lambda>w.
        result_bind (write_uint32_t cx 0 w) (\<lambda>w.
        Inr (of_nat (sum_list (map (length \<circ> snd) recs)),
             overwrite orig (unat off) orig', w)))))"

section \<open>What a patch says\<close>

text \<open>Applying the records to a buffer, as the reader does: offsets are relative to the end of the
  record before.\<close>

fun apply_records :: "nat \<Rightarrow> (u32 \<times> bytes) list \<Rightarrow> bytes \<Rightarrow> bytes" where
  "apply_records pos [] buf = buf"
| "apply_records pos ((off, p) # recs) buf =
    apply_records (pos + unat off + length p) recs (overwrite buf (pos + unat off) p)"

fun records_end :: "nat \<Rightarrow> (u32 \<times> bytes) list \<Rightarrow> nat" where
  "records_end pos [] = pos"
| "records_end pos ((off, p) # recs) = records_end (pos + unat off + length p) recs"

lemma unat_of_nat_less [simp]: "n < 2 ^ LENGTH('a) \<Longrightarrow> unat (of_nat n :: 'a::len word) = n"
  by (simp add: unat_of_nat take_bit_nat_eq_self)

lemma patch_loop_sound:
  assumes "length chng = length orig" "unat off + length orig < 2 ^ 32"
    and "patch_loop orig chng off = (recs, orig')"
    and "length pre = pos + unat off"
  shows "orig' = chng \<and> apply_records pos recs (pre @ orig @ post) = pre @ chng @ post \<and>
    (\<forall>(_, p)\<in>set recs. p \<noteq> [] \<and> length p \<le> length orig) \<and>
    records_end pos recs \<le> length pre + length orig"
  using assms
proof (induction orig chng off arbitrary: recs orig' pre pos rule: patch_loop.induct)
  case (1 orig chng off)
  show ?case
  proof (cases "orig = []")
    case True
    then show ?thesis using 1(2,4,5) by (auto simp: patch_loop.simps [of "[]"])
  next
    case False
    obtain i n left where round: "patch_round orig chng = (i, n, left)" using prod_cases3 by blast
    note R = patch_round_spec [OF round]
    define k where "k = length orig - left"
    define off1 where "off1 = off + of_nat i"
    have n_small: "n < 2 ^ 32" "i < 2 ^ 32" using R(1) 1(3) by linarith+
    have nn: "unat (of_nat n :: u32) = n" using n_small by simp
    have off1: "unat off1 = unat off + i"
      using 1(3) R(1) n_small unfolding off1_def by (subst unat_word_ariths) (simp add: unat_of_nat_less)
    obtain recs' orig'' where rest: "patch_loop (drop k orig) (drop k chng)
        (if n \<noteq> 0 then 0 else off1) = (recs', orig'')" by fastforce
    have recs: "recs = (if n \<noteq> 0 then [(off1, take n (drop i chng))] else []) @ recs'"
      and orig': "orig' = take k (take i orig @ take n (drop i chng) @ drop (i + n) orig) @ orig''"
      using 1(4) False
      unfolding patch_loop.simps [of orig] round prod.case Let_def nn k_def [symmetric]
        off1_def [symmetric] rest
      by (simp_all only: if_False prod.inject)
    have ik: "i + n \<le> k" "k \<le> length orig" using R(1) by (auto simp: k_def)
    have gap: "take (k - (i + n)) (drop (i + n) orig) = take (k - (i + n)) (drop (i + n) chng)"
      using R(3) ik by (auto simp: k_def)
    have split_c: "take i chng @ take n (drop i chng) @ take (k - (i + n)) (drop (i + n) chng) = take k chng"
      using ik take_add [of i n chng] take_add [of "i + n" "k - (i + n)" chng] by simp
    have mid: "take k (take i orig @ take n (drop i chng) @ drop (i + n) orig) = take k chng"
    proof -
      have "length (take i orig) = i" "length (take n (drop i chng)) = n" using ik 1(2) by simp_all
      with take_two_prefixes [of "take i orig" "take n (drop i chng)" k "drop (i + n) orig"] ik(1)
      show ?thesis using R(2) gap split_c by simp
    qed
    have split_o: "orig = take i orig @ take n (drop i orig) @ drop (i + n) orig"
      by (metis append_take_drop_id drop_drop add.commute)
    have left_len: "length (drop k orig) = left" using R(1) by (simp add: k_def)
    have patched: "(if n \<noteq> 0 then overwrite (pre @ orig @ post) (length pre + i) (take n (drop i chng))
        else pre @ orig @ post) = (pre @ take k chng) @ drop k orig @ post"
    proof -
      have "pre @ orig @ post = (pre @ take i chng) @ take n (drop i orig) @ (drop (i + n) orig @ post)"
        using split_o R(2) by (metis append.assoc)
      moreover have "length (take n (drop i chng)) = length (take n (drop i orig))" using 1(2) by simp
      moreover have "length (pre @ take i chng) = length pre + i" using ik 1(2) by simp
      ultimately have A: "overwrite (pre @ orig @ post) (length pre + i) (take n (drop i chng)) =
          (pre @ take i chng) @ take n (drop i chng) @ (drop (i + n) orig @ post)"
        by (metis overwrite_append)
      have B: "drop (i + n) orig = take (k - (i + n)) (drop (i + n) chng) @ drop k orig"
        using gap ik by (metis append_take_drop_id drop_drop le_add_diff_inverse2)
      have C: "overwrite (pre @ orig @ post) (length pre + i) (take n (drop i chng)) =
          (pre @ take k chng) @ drop k orig @ post"
        unfolding A unfolding B unfolding split_c [symmetric] by simp
      show ?thesis
      proof (cases "n = 0")
        case True
        with C show ?thesis by simp
      next
        case False
        with C show ?thesis by (simp only: if_True not_False_eq_True)
      qed
    qed
    have rec_ok: "\<forall>(_, p)\<in>set (if n \<noteq> 0 then [(off1, take n (drop i chng))] else []).
        p \<noteq> [] \<and> length p \<le> length orig"
      using ik 1(2) by auto
    define pos' where "pos' = (if n \<noteq> 0 then pos + unat off1 + length (take n (drop i chng)) else pos)"
    have n_len: "length (take n (drop i chng)) = n" using 1(2) ik by simp
    have pe: "pos + unat off1 = length pre + i" using off1 1(5) by simp
    have run: "apply_records pos recs (pre @ orig @ post) =
        apply_records pos' recs' ((pre @ take k chng) @ drop k orig @ post)"
      unfolding patched [symmetric] recs pos'_def pe [symmetric] by (cases "n = 0") simp_all
    have ends: "records_end pos recs = records_end pos' recs'" using recs by (simp add: pos'_def)
    show ?thesis
    proof (cases "left = 0")
      case True
      then have k: "k = length orig" and nil: "recs' = []" "orig'' = []"
        using rest by (simp_all add: k_def patch_loop.simps [of "[]"])
      have full: "take k chng = chng" using k 1(2) by simp
      then have "apply_records pos recs (pre @ orig @ post) = pre @ chng @ post"
        using run k nil by simp
      moreover have "orig' = chng" unfolding orig' mid full nil by simp
      moreover have "records_end pos recs \<le> length pre + length orig"
        using ends nil pe n_len ik 1(5) by (auto simp: pos'_def)
      moreover have "\<forall>(_, p)\<in>set recs. p \<noteq> [] \<and> length p \<le> length orig"
        using rec_ok recs nil by simp
      ultimately show ?thesis by blast
    next
      case False
      then have k: "k = i + n" using R(3) R(1) by (auto simp: k_def)
      have pre': "length (pre @ take k chng) = pos' + unat (if n \<noteq> 0 then 0 else off1)"
        using 1(2,5) k ik(2) off1 n_len by (simp add: pos'_def)
      have small: "unat (if n \<noteq> 0 then 0 else off1) + length (drop k orig) < 2 ^ 32"
        using 1(3) off1 left_len R(1) by auto
      have IH: "orig'' = drop k chng \<and>
          apply_records pos' recs' ((pre @ take k chng) @ drop k orig @ post) =
            (pre @ take k chng) @ drop k chng @ post \<and>
          (\<forall>(_, p)\<in>set recs'. p \<noteq> [] \<and> length p \<le> length (drop k orig)) \<and>
          records_end pos' recs' \<le> length (pre @ take k chng) + length (drop k orig)"
        by (rule 1(1) [OF \<open>orig \<noteq> []\<close> round [symmetric] refl refl refl refl refl,
              unfolded nn k_def [symmetric] off1_def [symmetric]])
          (use small rest pre' 1(2) in simp_all)
      have "\<forall>(_, p)\<in>set recs. p \<noteq> [] \<and> length p \<le> length orig"
        using IH rec_ok recs by fastforce
      moreover have "orig' = chng"
        unfolding orig' mid using IH by (metis append_take_drop_id)
      moreover have "records_end pos recs \<le> length pre + length orig"
        using IH ends 1(2) ik(2) by simp
      moreover have "apply_records pos recs (pre @ orig @ post) = pre @ chng @ post"
        using IH run by simp
      ultimately show ?thesis by blast
    qed
  qed
qed

section \<open>The stream\<close>

text \<open>The bytes written so far, in order.  \<open>dec\<close> turns a chunk as it stands in the file back into
  its contents; the first block of the file is the stream header.\<close>

definition fw_stream :: "(bytes \<Rightarrow> bytes) \<Rightarrow> file_writer \<Rightarrow> bytes" where
  "fw_stream dec w = concat (map dec (tl (fw_file w))) @ concat (map dec (rev (fw_compressed w))) @
    concat (rev (fw_uncompressed w)) @ concat (rev (fw_held w)) @ fw_chunk w"

text \<open>Well-formed writers: the file has its header, sizes fit in \<open>unsigned\<close>, and chunks wait only
  in the lists of the stages that are switched on.\<close>

definition fw_inv :: "file_writer \<Rightarrow> bool" where
  "fw_inv w \<longleftrightarrow> fw_file w \<noteq> [] \<and> length (fw_chunk w) \<le> fw_cap w \<and> fw_cap w < 2 ^ 32 \<and>
    fw_chunk_size w < 2 ^ 32 \<and>
    (\<not> fw_holding w \<longrightarrow> fw_held w = []) \<and>
    (\<not> fw_mt_compress w \<longrightarrow> fw_uncompressed w = [] \<and> fw_held w = [] \<and> \<not> fw_holding w) \<and>
    (\<not> fw_mt_write w \<longrightarrow> fw_compressed w = [])"

text \<open>An operation that appends exactly these bytes to the stream.\<close>

definition emits :: "('s \<Rightarrow> bool) \<Rightarrow> ('s \<Rightarrow> bytes) \<Rightarrow> ('s \<Rightarrow> 's result) \<Rightarrow> bytes \<Rightarrow> bool" where
  "emits iv st f data \<longleftrightarrow> (\<forall>s. iv s \<longrightarrow> (\<exists>s'. f s = Inr s' \<and> iv s' \<and> st s' = st s @ data))"

lemma emits_bind:
  "emits iv st f a \<Longrightarrow> emits iv st g b \<Longrightarrow> emits iv st (\<lambda>s. result_bind (f s) g) (a @ b)"
  unfolding emits_def by fastforce

lemma emits_skip [simp]: "emits iv st Inr []"
  by (simp add: emits_def)

text \<open>What the writer needs of the compression library: it does not fail, and a decoder exists.\<close>

locale chunk_codec =
  fixes cx :: codec and dec :: "bytes \<Rightarrow> bytes"
  assumes compress_total: "length x < 2 ^ 32 \<Longrightarrow> \<exists>y. compress_payload cx x = Inr y"
    and decode: "length x < 2 ^ 32 \<Longrightarrow> compress_payload cx x = Inr y \<Longrightarrow>
      dec (chunk_header (of_nat (length y)) (of_nat (length x)) @ y) = x"
begin

lemma compress_chunk_ok:
  assumes "length x < 2 ^ 32"
  obtains y w' where "compress_chunk cx x w = Inr (y, w')" "dec y = x"
    "\<exists>a b. w' = w\<lparr>fw_compressed_sizes := a, fw_uncompressed_sizes := b\<rparr>"
proof -
  obtain y where y: "compress_payload cx x = Inr y" using compress_total [OF assms] by blast
  show ?thesis by (rule that) (auto simp: compress_chunk_def y decode [OF assms y])
qed

lemma make_space_ok:
  assumes "fw_inv w" "n < 2 ^ 32"
  obtains w' where "make_space cx n w = Inr w'" "fw_inv w'" "fw_stream dec w' = fw_stream dec w"
    "n \<le> fw_cap w'" "fw_chunk w' = []" "fw_holding w' = fw_holding w"
    "fw_mt_compress w' = fw_mt_compress w" "fw_mt_write w' = fw_mt_write w"
proof (cases "fw_holding w \<or> fw_mt_compress w")
  case True
  let ?w = "if fw_holding w then w\<lparr>fw_held := fw_chunk w # fw_held w\<rparr>
    else w\<lparr>fw_uncompressed := fw_chunk w # fw_uncompressed w\<rparr>"
  let ?w' = "?w\<lparr>fw_cap := (if n > fw_chunk_size w then n else fw_chunk_size w), fw_chunk := []\<rparr>"
  have "make_space cx n w = Inr ?w'" using True by (auto simp: make_space_def)
  then show ?thesis
    by (rule that) (use assms True in \<open>auto simp: fw_inv_def fw_stream_def\<close>)
next
  case False
  have "length (fw_chunk w) < 2 ^ 32" using assms(1) by (simp add: fw_inv_def)
  from compress_chunk_ok [OF this] obtain y a b where y: "dec y = fw_chunk w"
    "compress_chunk cx (fw_chunk w) w = Inr (y, w\<lparr>fw_compressed_sizes := a, fw_uncompressed_sizes := b\<rparr>)"
    by metis
  let ?w = "hand_over y (w\<lparr>fw_compressed_sizes := a, fw_uncompressed_sizes := b\<rparr>)"
  let ?w' = "?w\<lparr>fw_cap := (if n > fw_chunk_size w then n else fw_chunk_size w), fw_chunk := []\<rparr>"
  have "make_space cx n w = Inr ?w'" using False y(2) by (simp add: make_space_def)
  then show ?thesis
    by (rule that)
      (use assms False y(1) in \<open>auto simp: fw_inv_def fw_stream_def hand_over_def write_chunk_def tl_append split: list.splits\<close>)
qed

lemma check_space_ok:
  assumes "fw_inv w" "n < 2 ^ 32"
  obtains w' where "check_space cx n w = Inr w'" "fw_inv w'" "fw_stream dec w' = fw_stream dec w"
    "length (fw_chunk w') + n \<le> fw_cap w'" "fw_mt_compress w' = fw_mt_compress w"
proof (cases "n > fw_cap w - fw_uidx w")
  case True
  then show ?thesis
    by (metis make_space_ok [OF assms] that check_space_def add.commute list.size(3) add.right_neutral)
next
  case False
  then show ?thesis
    using assms(1) by (intro that [of w]) (auto simp: check_space_def fw_inv_def fw_uidx_def)
qed

lemma append_bytes_emits:
  assumes "length data \<le> n" "n < 2 ^ 32"
  shows "emits fw_inv (fw_stream dec) (append_bytes cx n data) data"
  unfolding emits_def
proof (intro allI impI)
  fix w assume "fw_inv w"
  then obtain w1 where w1: "check_space cx n w = Inr w1" "fw_inv w1"
      "fw_stream dec w1 = fw_stream dec w" "length (fw_chunk w1) + n \<le> fw_cap w1"
    using check_space_ok [OF _ assms(2)] by metis
  then show "\<exists>s'. append_bytes cx n data w = Inr s' \<and> fw_inv s' \<and>
      fw_stream dec s' = fw_stream dec w @ data"
    using assms(1) by (auto simp: append_bytes_def copy_bytes_def fw_uidx_def fw_inv_def fw_stream_def)
qed

lemma write_value_emits:
  "n < 2 ^ 32 \<Longrightarrow> emits fw_inv (fw_stream dec) (write_value cx n v) (to_le n v)"
  unfolding write_value_def by (rule append_bytes_emits) simp_all

lemma write_array_emits:
  assumes "length data < 2 ^ 32"
  shows "emits fw_inv (fw_stream dec) (write_array cx data) data"
proof (cases "data = []")
  case True
  then show ?thesis by (simp add: write_array_def emits_def)
next
  case False
  with assms append_bytes_emits [of data "length data"] show ?thesis
    by (simp add: emits_def write_array_def)
qed

lemma write_string_emits:
  assumes "length t < 2 ^ 16"
  shows "emits fw_inv (fw_stream dec) (write_string cx (Some t)) (to_le 2 (of_nat (length t) :: u16) @ t)"
proof -
  have "emits fw_inv (fw_stream dec) (write_array cx t) t"
    using assms by (intro write_array_emits) simp
  from emits_bind [OF write_value_emits [of 2 "of_nat (length t) :: u16"] this] assms
  show ?thesis by (simp add: write_string_def write_uint16_t_def emits_def)
qed

lemma write_record_emits:
  assumes "length p < 2 ^ 32 - 8"
  shows "emits fw_inv (fw_stream dec) (write_record cx (off, p))
    (to_le 4 off @ to_le 4 (of_nat (length p) :: u32) @ p)"
proof -
  have "unat (8 + (of_nat (length p) :: u32)) = 8 + length p"
    using assms by (subst unat_word_ariths) simp
  with assms append_bytes_emits [of "to_le 4 off @ to_le 4 (of_nat (length p) :: u32) @ p" "8 + length p"]
  show ?thesis by (simp add: write_record_def emits_def)
qed

end

text \<open>What the records of a patch are, whatever they are written to.\<close>

lemma patch_loop_records:
  assumes "unat off + sz \<le> length orig" "unat off + sz \<le> length chng" "unat off + sz < 2 ^ 32 - 8"
    and "patch_loop (take sz (drop (unat off) orig)) (take sz (drop (unat off) chng)) off = (recs, orig')"
  shows "orig' = take sz (drop (unat off) chng)"
    and "apply_records 0 recs orig = overwrite orig (unat off) (take sz (drop (unat off) chng))"
    and "records_end 0 recs \<le> unat off + sz" "\<forall>(_, p)\<in>set recs. p \<noteq> [] \<and> length p \<le> sz"
proof -
  let ?o = "take sz (drop (unat off) orig)" and ?c = "take sz (drop (unat off) chng)"
  have len: "length ?c = length ?o" "length ?o = sz" using assms(1,2) by simp_all
  have pre: "length (take (unat off) orig) = 0 + unat off" using assms(1) by simp
  have sound: "orig' = ?c \<and> apply_records 0 recs (take (unat off) orig @ ?o @ drop (unat off + sz) orig) =
      take (unat off) orig @ ?c @ drop (unat off + sz) orig \<and>
      (\<forall>(_, p)\<in>set recs. p \<noteq> [] \<and> length p \<le> length ?o) \<and>
      records_end 0 recs \<le> length (take (unat off) orig) + length ?o"
    using assms(3) len by (intro patch_loop_sound [OF _ _ assms(4) pre]) simp_all
  have split: "take (unat off) orig @ ?o @ drop (unat off + sz) orig = orig"
    by (metis append_take_drop_id drop_drop add.commute)
  show "orig' = ?c" using sound by simp
  show "apply_records 0 recs orig = overwrite orig (unat off) ?c"
    using sound split len unfolding overwrite_def by simp
  show "records_end 0 recs \<le> unat off + sz" using sound len pre by simp
  show "\<forall>(_, p)\<in>set recs. p \<noteq> [] \<and> length p \<le> sz" using sound len by fastforce
qed

definition record_bytes :: "u32 \<times> bytes \<Rightarrow> bytes" where
  "record_bytes rec = to_le 4 (fst rec) @ to_le 4 (of_nat (length (snd rec)) :: u32) @ snd rec"

definition patch_bytes :: "(u32 \<times> bytes) list \<Rightarrow> bytes" where
  "patch_bytes recs = concat (map record_bytes recs) @ to_le 4 (0 :: u32) @ to_le 4 (0 :: u32)"

context chunk_codec
begin

lemma write_records_emits:
  "\<forall>(_, p)\<in>set recs. length p < 2 ^ 32 - 8 \<Longrightarrow>
    emits fw_inv (fw_stream dec) (write_records cx recs) (concat (map record_bytes recs))"
proof (induction recs)
  case Nil
  then show ?case by (simp add: emits_def)
next
  case (Cons r recs)
  obtain off p where r: "r = (off, p)" by fastforce
  have "emits fw_inv (fw_stream dec) (write_record cx r) (record_bytes r)"
    using write_record_emits [of p off] Cons.prems r by (simp add: record_bytes_def)
  moreover have "emits fw_inv (fw_stream dec) (write_records cx recs) (concat (map record_bytes recs))"
    using Cons by simp
  ultimately have "emits fw_inv (fw_stream dec) (\<lambda>s. result_bind (write_record cx r s) (write_records cx recs))
      (record_bytes r @ concat (map record_bytes recs))" by (rule emits_bind)
  then show ?case by (simp add: emits_def)
qed

lemma write_patch_ok:
  assumes "fw_inv w" and "unat off + sz \<le> length orig" "unat off + sz \<le> length chng"
    and "unat off + sz < 2 ^ 32 - 8"
  obtains recs w' where
    "write_patch cx orig chng off sz w = Inr (of_nat (sum_list (map (length \<circ> snd) recs)),
       overwrite orig (unat off) (take sz (drop (unat off) chng)), w')"
    "fw_inv w'" "fw_stream dec w' = fw_stream dec w @ patch_bytes recs"
    "apply_records 0 recs orig = overwrite orig (unat off) (take sz (drop (unat off) chng))"
    "records_end 0 recs \<le> unat off + sz" "\<forall>(_, p)\<in>set recs. p \<noteq> [] \<and> length p \<le> sz"
proof -
  let ?c = "take sz (drop (unat off) chng)"
  obtain recs orig' where loop: "patch_loop (take sz (drop (unat off) orig)) ?c off = (recs, orig')" by fastforce
  note sound = patch_loop_records [OF assms(2-4) loop]
  have "\<forall>(_, p)\<in>set recs. length p < 2 ^ 32 - 8" using sound(4) assms(4) by fastforce
  note emit = emits_bind [OF write_records_emits [OF this]
      emits_bind [OF write_value_emits [of 4 "0 :: u32"] write_value_emits [of 4 "0 :: u32"]]]
  obtain w' where w': "result_bind (write_records cx recs w) (\<lambda>s. result_bind (write_value cx 4 (0 :: u32) s)
      (write_value cx 4 (0 :: u32))) = Inr w'" "fw_inv w'"
      "fw_stream dec w' = fw_stream dec w @ patch_bytes recs"
    using emit assms(1) unfolding emits_def patch_bytes_def by auto
  show ?thesis
  proof (rule that [OF _ w'(2,3) sound(2-4)])
    show "write_patch cx orig chng off sz w = Inr (of_nat (sum_list (map (length \<circ> snd) recs)),
       overwrite orig (unat off) ?c, w')"
      using w'(1) sound(1) by (auto simp: write_patch_def loop write_uint32_t_def)
  qed
qed

end

end
