(* ===== verification/FileReader.thy ===== *)
theory FileReader
  imports FileWriter
begin

text \<open>The replay side of a trace stream: the class \<open>file_reader\<close> of \<^verbatim>\<open>src/filereader.h\<close> and
  \<^verbatim>\<open>src/filereader.cpp\<close>.  Chunks of the file are decompressed behind the data already there; values,
  arrays, strings and memory patches are read from the front.  The mapped file, the decompression
  buffer and the position in each are lists of bytes and natural numbers; reading outside the mapped
  file and writing outside a caller's buffer are errors.  The decompression libraries are
  parameters.\<close>

section \<open>State\<close>

text \<open>The libraries: from compressed payload and expected size to the output, \<open>None\<close> on failure.\<close>

record decoder =
  dx_density :: "bytes \<Rightarrow> nat \<Rightarrow> bytes option"
  dx_lz4 :: "bytes \<Rightarrow> nat \<Rightarrow> bytes option"

text \<open>\<open>fr_compressed\<close> is the mapped file from \<open>compressed_data\<close> on, \<open>fr_data\<close> the first
  \<open>write_position\<close> bytes of the output buffer.  \<open>fr_stall\<close> says whether the stall check of
  \<open>check_space\<close> is armed (\<open>!p__allow_stalls\<close>, preload activated and requested).\<close>

record file_reader =
  fr_fixed :: bool
  fr_algorithm :: u8
  fr_version :: u8
  fr_compressed :: bytes
  fr_total_left :: nat
  fr_data :: bytes
  fr_read :: nat
  fr_total_uncompressed :: nat
  fr_wanted :: nat
  fr_last_chunk :: nat
  fr_consumed :: nat
  fr_checkpoint :: "nat option"
  fr_freed :: nat
  fr_needed :: nat
  fr_stall :: bool
  fr_done :: bool

section \<open>Opening\<close>

text \<open>The byte values of \<open>lavatube_compression_type\<close>.\<close>

definition known_algorithm :: "u8 \<Rightarrow> bool" where
  "known_algorithm a \<longleftrightarrow> a = 0 \<or> a = 1 \<or> a = 2"

definition file_reader_init :: "bytes \<Rightarrow> nat \<Rightarrow> nat \<Rightarrow> bool \<Rightarrow> file_reader result" where
  "file_reader_init file uncompressed_size uncompressed_target stall =
    (if file = [] then Inl Aborted
     else assert_that (uncompressed_size > 0)
       (let r = \<lparr>fr_fixed = False, fr_algorithm = compression_byte LAVATUBE_COMPRESSION_DENSITY,
              fr_version = 0, fr_compressed = file, fr_total_left = length file, fr_data = [],
              fr_read = 0, fr_total_uncompressed = uncompressed_size, fr_wanted = uncompressed_target,
              fr_last_chunk = 0, fr_consumed = 0, fr_checkpoint = Some 0, fr_freed = 0, fr_needed = 0,
              fr_stall = stall, fr_done = False\<rparr>
        in if take (length magic_word) file = magic_word then
             (case drop (length magic_word) file of
                version # algorithm # _ \<Rightarrow>
                  assert_that (known_algorithm algorithm)
                    (assert_that (length file \<ge> length magic_word + 32)
                      (Inr (r\<lparr>fr_version := version, fr_algorithm := algorithm,
                              fr_compressed := drop (length magic_word + 32) file,
                              fr_total_left := length file - (length magic_word + 32)\<rparr>)))
              | _ \<Rightarrow> Inl Out_of_range)
           else Inr r))"

definition reset_fixed_buffer :: "bytes \<Rightarrow> u8 \<Rightarrow> file_reader \<Rightarrow> file_reader result" where
  "reset_fixed_buffer data version r =
    (if \<not> fr_fixed r then Inl Aborted
     else if data = [] then Inl Aborted
     else Inr (r\<lparr>fr_data := data, fr_total_uncompressed := length data, fr_wanted := length data,
       fr_read := 0, fr_freed := 0, fr_checkpoint := None, fr_last_chunk := 0, fr_needed := 0,
       fr_done := True, fr_version := version\<rparr>))"

section \<open>Decompression\<close>

definition decompress_payload :: "decoder \<Rightarrow> u8 \<Rightarrow> nat \<Rightarrow> nat \<Rightarrow> bytes \<Rightarrow> bytes result" where
  "decompress_payload dx algorithm compressed_size uncompressed_size src =
    (if algorithm = compression_byte LAVATUBE_COMPRESSION_DENSITY then
       if length src < compressed_size then Inl Out_of_range
       else (case dx_density dx (take compressed_size src) uncompressed_size of
               None \<Rightarrow> Inl Aborted
             | Some out \<Rightarrow> Inr (take uncompressed_size (out @ replicate uncompressed_size 0)))
     else if algorithm = compression_byte LAVATUBE_COMPRESSION_LZ4 then
       if length src < compressed_size then Inl Out_of_range
       else (case dx_lz4 dx (take compressed_size src) uncompressed_size of
               None \<Rightarrow> Inl Aborted
             | Some out \<Rightarrow> if length out \<noteq> uncompressed_size then Inl Aborted else Inr out)
     else assert_that (algorithm = compression_byte LAVATUBE_COMPRESSION_UNCOMPRESSED)
       (if length src < uncompressed_size then Inl Out_of_range
        else Inr (take uncompressed_size src)))"

text \<open>Subtraction of 64-bit sizes, which wraps.\<close>

definition sub64 :: "nat \<Rightarrow> nat \<Rightarrow> nat" where
  "sub64 a b = (if b \<le> a then a - b else a + 2 ^ 64 - b)"

definition decompress_chunk :: "decoder \<Rightarrow> file_reader \<Rightarrow> file_reader result" where
  "decompress_chunk dx r =
    (if length (fr_compressed r) < 16 then Inl Out_of_range
     else
       let compressed_size = unat (take_le 8 (fr_compressed r) :: u64);
           uncompressed_size = unat (take_le 8 (drop 8 (fr_compressed r)) :: u64);
           src = drop 16 (fr_compressed r)
       in assert_that (compressed_size \<le> fr_total_left r)
         (assert_that (fr_total_uncompressed r \<ge> length (fr_data r) + uncompressed_size)
           (case decompress_payload dx (fr_algorithm r) compressed_size uncompressed_size src of
              Inl e \<Rightarrow> Inl e
            | Inr out \<Rightarrow>
                let left = sub64 (fr_total_left r) (compressed_size + 16);
                    data = fr_data r @ out
                in Inr (r\<lparr>fr_compressed := drop compressed_size src,
                     fr_consumed := fr_consumed r + 16 + compressed_size,
                     fr_data := data, fr_last_chunk := uncompressed_size, fr_total_left := left,
                     fr_done := (left = 0 \<or> length data \<ge> fr_wanted r \<or> fr_done r)\<rparr>))))"

lemma decompress_chunk_shrinks:
  "decompress_chunk dx r = Inr r' \<Longrightarrow> length (fr_compressed r') < length (fr_compressed r)"
  by (auto simp: decompress_chunk_def Let_def split: if_splits sum.splits)

text \<open>The decompressor thread's loop, without its pauses: it runs until \<open>done_decompressing\<close>.\<close>

function decompressor :: "decoder \<Rightarrow> file_reader \<Rightarrow> file_reader result" where
  "decompressor dx r =
    (if fr_done r then Inr r
     else case decompress_chunk dx r of Inl e \<Rightarrow> Inl e | Inr r' \<Rightarrow> decompressor dx r')"
  by pat_completeness auto
termination
  by (relation "measure (\<lambda>(_, r). length (fr_compressed r))") (auto simp: decompress_chunk_shrinks)

declare decompressor.simps [simp del]

text \<open>The pause condition of the thread: it is ahead of the reader by more than the preload size
  and the reader is not waiting for more.\<close>

definition throttled :: "nat \<Rightarrow> file_reader \<Rightarrow> bool" where
  "throttled active_preload r =
    (let preload_size = (if active_preload > 0 then active_preload else fr_last_chunk r)
     in preload_size > 0 \<and> length (fr_data r) > fr_read r + preload_size \<and>
        length (fr_data r) \<ge> fr_needed r)"

section \<open>Reading\<close>

text \<open>\<open>check_space\<close> when the calling thread decompresses itself (\<open>multithreaded_read\<close> off).\<close>

function fr_wait :: "decoder \<Rightarrow> nat \<Rightarrow> file_reader \<Rightarrow> file_reader result" where
  "fr_wait dx sz r =
    (if sz > length (fr_data r) - fr_read r then
       if \<not> length (fr_data r) + sz < fr_total_uncompressed r then Inl Assertion_failed
       else (case decompress_chunk dx r of
               Inl e \<Rightarrow> Inl e
             | Inr r' \<Rightarrow> if fr_stall r' then Inl Aborted else fr_wait dx sz r')
     else Inr r)"
  by pat_completeness auto
termination
  by (relation "measure (\<lambda>(_, _, r). length (fr_compressed r))") (auto simp: decompress_chunk_shrinks)

declare fr_wait.simps [simp del]

definition fr_check_space :: "decoder \<Rightarrow> nat \<Rightarrow> file_reader \<Rightarrow> file_reader result" where
  "fr_check_space dx sz r =
    (if sz > length (fr_data r) - fr_read r then
       if fr_fixed r then Inl Aborted
       else result_bind (fr_wait dx sz (r\<lparr>fr_needed := fr_read r + sz\<rparr>)) (\<lambda>r.
         Inr (r\<lparr>fr_needed := 0\<rparr>))
     else Inr r)"

text \<open>Reserve, copy out and advance, the common part of every read.\<close>

definition fr_take :: "decoder \<Rightarrow> nat \<Rightarrow> file_reader \<Rightarrow> (bytes \<times> file_reader) result" where
  "fr_take dx n r = result_bind (fr_check_space dx n r) (\<lambda>r.
    Inr (take n (drop (fr_read r) (fr_data r)), r\<lparr>fr_read := fr_read r + n\<rparr>))"

definition set_checkpoint :: "file_reader \<Rightarrow> file_reader" where
  "set_checkpoint r = r\<lparr>fr_checkpoint := Some (fr_read r)\<rparr>"

text \<open>Memory before the checkpoint is given back in whole pages; \<open>page\<close> is the page size and the
  output buffer starts on a page boundary, as \<open>mmap\<close> guarantees.\<close>

definition release_checkpoint :: "nat \<Rightarrow> file_reader \<Rightarrow> file_reader result" where
  "release_checkpoint page r =
    (case fr_checkpoint r of
       None \<Rightarrow> Inr r
     | Some cp \<Rightarrow>
         if fr_fixed r then Inr (r\<lparr>fr_checkpoint := None\<rparr>)
         else assert_that (cp \<ge> fr_freed r)
           (let pa_ptr = fr_freed r div page * page;
                pa_size = (cp - fr_freed r) div page * page
            in assert_that (pa_size \<le> fr_total_uncompressed r)
              (if pa_size > page then
                 assert_that (pa_ptr + pa_size \<le> cp)
                   (Inr (r\<lparr>fr_freed := pa_ptr + pa_size, fr_checkpoint := None\<rparr>))
               else Inr (r\<lparr>fr_checkpoint := None\<rparr>))))"

definition fr_finished :: "file_reader \<Rightarrow> bool" where
  "fr_finished r \<longleftrightarrow> fr_done r \<and> length (fr_data r) - fr_read r = 0"

text \<open>The reads both readers share, over any source of bytes.\<close>

definition read_value :: "(nat \<Rightarrow> 's \<Rightarrow> (bytes \<times> 's) result) \<Rightarrow> nat \<Rightarrow> 's \<Rightarrow> ('a::len word \<times> 's) result" where
  "read_value tk n s = result_bind (tk n s) (\<lambda>(b, s). Inr (from_le b, s))"

text \<open>An array of \<open>count\<close> elements of \<open>width\<close> bytes; its size is computed in \<open>unsigned\<close>.  The
  assertion holds at the program's calls, which pass a pointer exactly when there are elements.\<close>

definition read_array :: "(nat \<Rightarrow> 's \<Rightarrow> (bytes \<times> 's) result) \<Rightarrow> nat \<Rightarrow> nat \<Rightarrow> 's \<Rightarrow> (bytes \<times> 's) result" where
  "read_array tk width count s = tk (unat (of_nat (width * count) :: u32)) s"

definition read_string :: "(nat \<Rightarrow> 's \<Rightarrow> (bytes \<times> 's) result) \<Rightarrow> 's \<Rightarrow> (bytes option \<times> 's) result" where
  "read_string tk s = result_bind (read_value tk 2 s) (\<lambda>(len :: u16, s).
    if len > 0 then result_bind (read_array tk 1 (unat len) s) (\<lambda>(b, s). Inr (Some b, s))
    else Inr (None, s))"

fun read_string_array ::
  "(nat \<Rightarrow> 's \<Rightarrow> (bytes \<times> 's) result) \<Rightarrow> nat \<Rightarrow> 's \<Rightarrow> (bytes option list \<times> 's) result" where
  "read_string_array tk 0 s = Inr ([], s)"
| "read_string_array tk (Suc n) s = result_bind (read_string tk s) (\<lambda>(x, s).
    result_bind (read_string_array tk n s) (\<lambda>(xs, s). Inr (x # xs, s)))"

text \<open>\<open>read_patch\<close>.  A null buffer is \<open>None\<close>; the running count and the position are unbounded here
  and 64 bits wide in the source.  Each round reads at least the eight bytes of offset and size.\<close>

lemma fr_wait_progress:
  "fr_wait dx n r = Inr r' \<Longrightarrow>
    (r' = r \<or> length (fr_compressed r') < length (fr_compressed r)) \<and>
    fr_read r' = fr_read r \<and> n \<le> length (fr_data r') - fr_read r'"
proof (induction dx n r rule: fr_wait.induct)
  case (1 dx n r)
  show ?case
  proof (cases "n > length (fr_data r) - fr_read r")
    case False
    with 1(2) show ?thesis by (simp add: fr_wait.simps [of dx n r])
  next
    case True
    with 1(2) obtain r1 where r1: "decompress_chunk dx r = Inr r1" "\<not> fr_stall r1"
        "fr_wait dx n r1 = Inr r'" "length (fr_data r) + n < fr_total_uncompressed r"
      by (auto simp: fr_wait.simps [of dx n r] split: if_splits sum.splits)
    have "fr_read r1 = fr_read r"
      using r1(1) by (auto simp: decompress_chunk_def Let_def split: if_splits sum.splits)
    with 1(1) [OF True _ r1(1,2,3)] r1(4) decompress_chunk_shrinks [OF r1(1)] show ?thesis by auto
  qed
qed

lemma fr_take_progress:
  assumes "fr_take dx n r = Inr (b, r')"
  shows "length (fr_compressed r') < length (fr_compressed r) \<or>
    length (fr_compressed r') = length (fr_compressed r) \<and>
    (length (fr_data r') - fr_read r') + n = length (fr_data r) - fr_read r"
proof (cases "n > length (fr_data r) - fr_read r")
  case True
  then obtain r1 where r1: "fr_wait dx n (r\<lparr>fr_needed := fr_read r + n\<rparr>) = Inr r1"
      "r' = r1\<lparr>fr_needed := 0, fr_read := fr_read r1 + n\<rparr>"
    using assms by (auto simp: fr_take_def fr_check_space_def split: if_splits)
  from fr_wait_progress [OF r1(1)] r1(2) True show ?thesis by auto
next
  case False
  then show ?thesis using assms by (auto simp: fr_take_def fr_check_space_def)
qed

lemma fr_take3_progress:
  assumes "fr_take dx 4 r = Inr (a, r1)" "fr_take dx 4 r1 = Inr (b, r2)" "fr_take dx n r2 = Inr (c, r3)"
  shows "length (fr_compressed r3) < length (fr_compressed r) \<or>
    length (fr_compressed r3) = length (fr_compressed r) \<and>
    length (fr_data r3) - fr_read r3 < length (fr_data r) - fr_read r"
  using fr_take_progress [OF assms(1)] fr_take_progress [OF assms(2)] fr_take_progress [OF assms(3)]
  by linarith

function read_patch_loop ::
  "decoder \<Rightarrow> nat \<Rightarrow> bytes option \<Rightarrow> nat \<Rightarrow> nat \<Rightarrow> file_reader \<Rightarrow> (u32 \<times> bytes option \<times> file_reader) result" where
  "read_patch_loop dx maxsize buf position changed r =
    (case fr_take dx 4 r of Inl e \<Rightarrow> Inl e | Inr (ob, r1) \<Rightarrow>
     let off = unat (from_le ob :: u32); position1 = position + off in
     if \<not> (maxsize = 0 \<or> position1 \<le> maxsize) then Inl Assertion_failed else
     case fr_take dx 4 r1 of Inl e \<Rightarrow> Inl e | Inr (sb, r2) \<Rightarrow>
     let sz = unat (from_le sb :: u32) in
     case fr_take dx sz r2 of Inl e \<Rightarrow> Inl e | Inr (payload, r3) \<Rightarrow>
     if (case buf of None \<Rightarrow> False | Some b \<Rightarrow> sz > 0 \<and> position1 + sz > length b) then Inl Out_of_range
     else
       let buf' = map_option (\<lambda>b. if sz > 0 then overwrite b position1 payload else b) buf;
           position2 = position1 + sz; changed' = changed + sz in
       if \<not> (maxsize = 0 \<or> position2 \<le> maxsize) then Inl Assertion_failed
       else if off = 0 \<and> sz = 0 then Inr (of_nat changed', buf', r3)
       else read_patch_loop dx maxsize buf' position2 changed' r3)"
  by pat_completeness auto
termination
proof (relation "measures [\<lambda>(_, _, _, _, _, r). length (fr_compressed r),
    \<lambda>(_, _, _, _, _, r). length (fr_data r) - fr_read r]", goal_cases)
  case (2 dx maxsize buf position changed r b x y xa xb ba xc ya xd bb xe yb)
  then show ?case using fr_take3_progress [of dx r x y xc ya xd xe yb] by auto
qed simp

declare read_patch_loop.simps [simp del]

definition read_patch :: "decoder \<Rightarrow> bytes option \<Rightarrow> nat \<Rightarrow> file_reader \<Rightarrow> (u32 \<times> bytes option \<times> file_reader) result" where
  "read_patch dx buf maxsize = read_patch_loop dx maxsize buf 0 0"

section \<open>Sources of bytes\<close>

text \<open>What the typed reads need: taking \<open>n\<close> bytes off the front of what is left.\<close>

locale byte_source =
  fixes good :: "'s \<Rightarrow> bool" and rest :: "'s \<Rightarrow> bytes" and tk :: "nat \<Rightarrow> 's \<Rightarrow> (bytes \<times> 's) result"
  assumes tk_ok: "good s \<Longrightarrow> n \<le> length (rest s) \<Longrightarrow>
    \<exists>s'. tk n s = Inr (take n (rest s), s') \<and> good s' \<and> rest s' = drop n (rest s)"
begin

lemma tk_prefix:
  assumes "good s" "rest s = a @ b"
  obtains s' where "tk (length a) s = Inr (a, s')" "good s'" "rest s' = b"
  using tk_ok [OF assms(1), of "length a"] assms(2) by auto

lemma read_value_ok:
  fixes v :: "'a::len word"
  assumes "good s" "rest s = to_le n v @ t" "LENGTH('a) \<le> 8 * n"
  obtains s' where "read_value tk n s = Inr (v, s')" "good s'" "rest s' = t"
proof -
  obtain s' where "tk n s = Inr (to_le n v, s')" "good s'" "rest s' = t"
    using tk_prefix [OF assms(1,2)] by auto
  then show ?thesis using assms(3) by (intro that [of s']) (simp_all add: read_value_def)
qed

lemma read_array_ok:
  assumes "good s" "rest s = a @ t" "length a = width * count" "length a < 2 ^ 32"
  obtains s' where "read_array tk width count s = Inr (a, s')" "good s'" "rest s' = t"
proof -
  have "unat (of_nat (width * count) :: u32) = length a"
    using assms(3,4) unat_of_nat_less [of "width * count", where 'a = 32] by simp
  with tk_prefix [OF assms(1,2)] that show ?thesis unfolding read_array_def by metis
qed

lemma read_string_ok:
  assumes "good s" "rest s = to_le 2 (of_nat (length x) :: u16) @ x @ t" "length x < 2 ^ 16"
  obtains s' where "read_string tk s = Inr (if x = [] then None else Some x, s')" "good s'" "rest s' = t"
proof -
  obtain s1 where s1: "read_value tk 2 s = Inr (of_nat (length x) :: u16, s1)" "good s1" "rest s1 = x @ t"
    using read_value_ok [OF assms(1,2)] by auto
  have len: "unat (of_nat (length x) :: u16) = length x" using assms(3) by simp
  show ?thesis
  proof (cases "x = []")
    case True
    then show ?thesis using s1 by (intro that [of s1]) (auto simp: read_string_def)
  next
    case False
    obtain s2 where s2: "read_array tk 1 (length x) s1 = Inr (x, s2)" "good s2" "rest s2 = t"
      using read_array_ok [OF s1(2,3), of 1] assms(3) by auto
    have "0 < (of_nat (length x) :: u16)" using False len by (simp add: word_less_nat_alt)
    then show ?thesis using s1 s2 len False by (intro that [of s2]) (auto simp: read_string_def)
  qed
qed

end

definition fr_good :: "file_reader \<Rightarrow> bool" where
  "fr_good r \<longleftrightarrow> fr_read r \<le> length (fr_data r)"

definition fr_rest :: "file_reader \<Rightarrow> bytes" where
  "fr_rest r = drop (fr_read r) (fr_data r)"

interpretation fr: byte_source fr_good fr_rest "fr_take dx" for dx
proof (standard, goal_cases)
  case (1 r n)
  then show ?case by (auto simp: fr_good_def fr_rest_def fr_take_def fr_check_space_def add.commute)
qed

section \<open>Reading back what was written\<close>

text \<open>A chunk as the writer stores it, and its decoding.\<close>

definition encoded :: "codec \<Rightarrow> bytes \<Rightarrow> bytes \<Rightarrow> bool" where
  "encoded cx x enc \<longleftrightarrow> (\<exists>y. compress_payload cx x = Inr y \<and> length y < 2 ^ 63 \<and> length x < 2 ^ 32 \<and>
    enc = chunk_header (of_nat (length y)) (of_nat (length x)) @ y)"

definition decode_chunk :: "decoder \<Rightarrow> u8 \<Rightarrow> bytes \<Rightarrow> bytes" where
  "decode_chunk dx algorithm enc =
    (case decompress_payload dx algorithm (unat (take_le 8 enc :: u64))
       (unat (take_le 8 (drop 8 enc) :: u64)) (drop 16 enc) of
       Inl _ \<Rightarrow> [] | Inr x \<Rightarrow> x)"

text \<open>The documented behaviour of the libraries: compressing a chunk succeeds, something is not
  compressed to nothing, and decompressing the result with the size of the original as the expected
  size gives the original back.  An
  uncompressed stream needs nothing but the 16 bytes behind the buffer.\<close>

definition library_pair :: "(bytes \<Rightarrow> bytes option) \<Rightarrow> (bytes \<Rightarrow> nat \<Rightarrow> bytes option) \<Rightarrow> bool" where
  "library_pair c d \<longleftrightarrow> (\<forall>x. length x < 2 ^ 32 \<longrightarrow>
    (\<exists>y. c x = Some y \<and> length y < 2 ^ 63 \<and> (x \<noteq> [] \<longrightarrow> y \<noteq> []) \<and> d y (length x) = Some x))"

definition codec_pair :: "codec \<Rightarrow> decoder \<Rightarrow> bool" where
  "codec_pair cx dx \<longleftrightarrow>
    (case cx_type cx of
       LAVATUBE_COMPRESSION_UNCOMPRESSED \<Rightarrow> length (cx_slack cx) = 16
     | LAVATUBE_COMPRESSION_DENSITY \<Rightarrow> library_pair (cx_density cx) (dx_density dx)
     | LAVATUBE_COMPRESSION_LZ4 \<Rightarrow> library_pair (cx_lz4 cx) (dx_lz4 dx))"

abbreviation codec_algorithm :: "codec \<Rightarrow> u8" where
  "codec_algorithm cx \<equiv> compression_byte (cx_type cx)"

lemma codec_compress:
  assumes "codec_pair cx dx" "length x < 2 ^ 32"
  obtains y where "compress_payload cx x = Inr y" "length y < 2 ^ 63"
    "\<And>t. decompress_payload dx (codec_algorithm cx) (length y) (length x) (y @ t) = Inr x"
proof (cases "cx_type cx")
  case LAVATUBE_COMPRESSION_UNCOMPRESSED
  with assms show ?thesis
    by (intro that) (auto simp: codec_pair_def compress_payload_def decompress_payload_def)
next
  case LAVATUBE_COMPRESSION_DENSITY
  then obtain y where "cx_density cx x = Some y" "length y < 2 ^ 63" "dx_density dx y (length x) = Some x"
    using assms by (auto simp: codec_pair_def library_pair_def)
  with LAVATUBE_COMPRESSION_DENSITY show ?thesis
    by (intro that [of y]) (auto simp: compress_payload_def decompress_payload_def)
next
  case LAVATUBE_COMPRESSION_LZ4
  then obtain y where "cx_lz4 cx x = Some y" "length y < 2 ^ 63" "dx_lz4 dx y (length x) = Some x"
    using assms by (auto simp: codec_pair_def library_pair_def)
  with LAVATUBE_COMPRESSION_LZ4 show ?thesis
    by (intro that [of y]) (auto simp: compress_payload_def decompress_payload_def)
qed

lemma chunk_header_read [simp]:
  "length (chunk_header a b) = 16"
  "take_le 8 (chunk_header a b @ t) = a"
  "take_le 8 (drop 8 (chunk_header a b @ t)) = b"
  "drop 16 (chunk_header a b @ t) = t"
  by (simp_all add: chunk_header_def)

lemma encoded_decompress:
  assumes "codec_pair cx dx" "encoded cx x enc"
  obtains y where "enc = chunk_header (of_nat (length y)) (of_nat (length x)) @ y"
    "unat (of_nat (length y) :: u64) = length y" "unat (of_nat (length x) :: u64) = length x"
    "\<And>t. decompress_payload dx (codec_algorithm cx) (length y) (length x) (y @ t) = Inr x"
proof -
  obtain y where y: "compress_payload cx x = Inr y" "length y < 2 ^ 63" "length x < 2 ^ 32"
      "enc = chunk_header (of_nat (length y)) (of_nat (length x)) @ y"
    using assms(2) by (auto simp: encoded_def)
  show ?thesis
    using codec_compress [OF assms(1) y(3)] y by (intro that [OF y(4)]) auto
qed

lemma encoded_payload_nonempty:
  assumes "codec_pair cx dx" "encoded cx x enc" "x \<noteq> []"
  shows "16 < length enc"
proof -
  obtain y where y: "compress_payload cx x = Inr y" "length x < 2 ^ 32"
      "enc = chunk_header (of_nat (length y)) (of_nat (length x)) @ y"
    using assms(2) by (auto simp: encoded_def)
  have "y \<noteq> []"
    using y(1,2) assms(1,3)
    by (cases "cx_type cx") (fastforce simp: codec_pair_def library_pair_def compress_payload_def)+
  with y(3) show ?thesis by simp
qed

lemma decode_encoded:
  "codec_pair cx dx \<Longrightarrow> encoded cx x enc \<Longrightarrow> decode_chunk dx (codec_algorithm cx) enc = x"
  by (erule (1) encoded_decompress) (use append_Nil2 in \<open>metis decode_chunk_def chunk_header_read sum.case(2)\<close>)

lemma codec_chunk:
  assumes "codec_pair cx dx"
  shows "chunk_codec cx (decode_chunk dx (codec_algorithm cx))"
proof (standard, goal_cases)
  case (1 x)
  then show ?case using codec_compress [OF assms] by metis
next
  case (2 x y)
  then have "encoded cx x (chunk_header (of_nat (length y)) (of_nat (length x)) @ y)"
    using codec_compress [OF assms 2(1)] by (auto simp: encoded_def)
  then show ?case by (rule decode_encoded [OF assms])
qed

locale codec_library =
  fixes cx :: codec and dx :: decoder
  assumes libraries: "codec_pair cx dx"

sublocale codec_library \<subseteq> chunk_codec cx "decode_chunk dx (codec_algorithm cx)"
  by (rule codec_chunk [OF libraries])

definition plain_codec :: codec where
  "plain_codec = \<lparr>cx_type = LAVATUBE_COMPRESSION_UNCOMPRESSED, cx_density = (\<lambda>_. None),
    cx_lz4 = (\<lambda>_. None), cx_slack = replicate 16 0\<rparr>"

definition plain_decoder :: decoder where
  "plain_decoder = \<lparr>dx_density = (\<lambda>_ _. None), dx_lz4 = (\<lambda>_ _. None)\<rparr>"

interpretation plain: codec_library plain_codec plain_decoder
  by standard (simp add: codec_pair_def plain_codec_def)

lemma encoded_length: "encoded cx x enc \<Longrightarrow> 16 \<le> length enc"
  by (auto simp: encoded_def)

lemma decompress_chunk_ok:
  assumes "codec_pair cx dx" "encoded cx x enc" "fr_algorithm r = codec_algorithm cx"
    and "fr_compressed r = enc @ t" "fr_total_left r = length (enc @ t)"
    and "length (fr_data r) + length x \<le> fr_total_uncompressed r"
  shows "decompress_chunk dx r = Inr (r\<lparr>fr_compressed := t, fr_consumed := fr_consumed r + length enc,
    fr_data := fr_data r @ x, fr_last_chunk := length x, fr_total_left := length t,
    fr_done := (t = [] \<or> length (fr_data r @ x) \<ge> fr_wanted r \<or> fr_done r)\<rparr>)"
proof -
  obtain y where y: "enc = chunk_header (of_nat (length y)) (of_nat (length x)) @ y"
    "unat (of_nat (length y) :: u64) = length y" "unat (of_nat (length x) :: u64) = length x"
    "\<And>t. decompress_payload dx (codec_algorithm cx) (length y) (length x) (y @ t) = Inr x"
    using encoded_decompress [OF assms(1,2)] by metis
  have hdr: "take_le 8 (fr_compressed r) = (of_nat (length y) :: u64)"
    "take_le 8 (drop 8 (fr_compressed r)) = (of_nat (length x) :: u64)"
    "drop 16 (fr_compressed r) = y @ t" "\<not> length (fr_compressed r) < 16"
    using assms(4) y(1) chunk_header_read(2-4) by (auto simp: chunk_header_def)
  show ?thesis
    using assms(3,5,6) y(1) unfolding decompress_chunk_def hdr y(2,3) Let_def
    by (simp add: hdr(4) y(4) sub64_def add.assoc)
qed

lemma decompressor_all:
  assumes "codec_pair cx dx" "list_all2 (encoded cx) xs encs" "fr_algorithm r = codec_algorithm cx"
    and "fr_compressed r = concat encs" "fr_total_left r = length (concat encs)"
    and "fr_total_uncompressed r = length (fr_data r) + length (concat xs)"
    and "fr_wanted r = fr_total_uncompressed r" "\<not> fr_done r" "concat xs \<noteq> []"
  shows "\<exists>r'. decompressor dx r = Inr r' \<and> fr_data r' = fr_data r @ concat xs \<and>
    fr_read r' = fr_read r \<and> fr_done r'"
  using assms(2-)
proof (induction xs encs arbitrary: r rule: list_all2_induct)
  case (Cons x xs enc encs)
  define r1 where "r1 = r\<lparr>fr_compressed := concat encs, fr_consumed := fr_consumed r + length enc,
    fr_data := fr_data r @ x, fr_last_chunk := length x, fr_total_left := length (concat encs),
    fr_done := (concat encs = [] \<or> length (fr_data r @ x) \<ge> fr_wanted r \<or> fr_done r)\<rparr>"
  have step: "decompress_chunk dx r = Inr r1"
    unfolding r1_def using Cons.prems by (intro decompress_chunk_ok [OF assms(1) Cons.hyps(1)]) auto
  show ?case
  proof (cases "fr_done r1")
    case True
    have "concat xs = []"
    proof (cases "concat encs = []")
      case True
      moreover have "\<forall>e\<in>set encs. e \<noteq> []"
        using Cons.hyps(2) encoded_length
        by (fastforce simp: in_set_conv_nth list_all2_conv_all_nth)
      ultimately have "encs = []" by (cases encs) auto
      with Cons.hyps(2) show ?thesis by simp
    qed (use True Cons.prems in \<open>auto simp: r1_def\<close>)
    moreover have "decompressor dx r = Inr r1"
      using True step Cons.prems(6) by (simp add: decompressor.simps [of dx r] decompressor.simps [of dx r1])
    ultimately show ?thesis using True by (auto simp: r1_def)
  next
    case False
    have "concat xs \<noteq> []" using False Cons.prems by (auto simp: r1_def)
    with Cons.IH [of r1] False Cons.prems step show ?thesis
      by (auto simp: decompressor.simps [of dx r] r1_def)
  qed
qed simp

subsection \<open>Patches\<close>

lemma fr_take_prefix:
  assumes "fr_good r" "fr_rest r = a @ b" "length a = n"
  shows "fr_take dx n r = Inr (a, r\<lparr>fr_read := fr_read r + n\<rparr>) \<and>
    fr_good (r\<lparr>fr_read := fr_read r + n\<rparr>) \<and> fr_rest (r\<lparr>fr_read := fr_read r + n\<rparr>) = b"
proof -
  have "length (fr_data r) - fr_read r = length a + length b"
    using assms(2) by (metis fr_rest_def length_append length_drop)
  moreover have "drop (fr_read r) (fr_data r) = a @ b" using assms(2) by (simp add: fr_rest_def)
  moreover have "drop (fr_read r + n) (fr_data r) = b"
    using calculation(2) assms(3) by (metis add.commute append_eq_conv_conj drop_drop)
  ultimately show ?thesis
    using assms(1,3) by (auto simp: fr_take_def fr_check_space_def fr_good_def fr_rest_def)
qed

lemma read_patch_step:
  assumes "fr_good r" "fr_rest r = to_le 4 (off :: u32) @ to_le 4 (of_nat (length p) :: u32) @ p @ t"
    and "length p < 2 ^ 32" "position + unat off + length p \<le> length buf" "length buf \<le> maxsize"
  shows "read_patch_loop dx maxsize (Some buf) position changed r =
    (let r' = r\<lparr>fr_read := fr_read r + 8 + length p\<rparr>; buf' = overwrite buf (position + unat off) p in
     if off = 0 \<and> p = [] then Inr (of_nat changed, Some buf', r')
     else read_patch_loop dx maxsize (Some buf') (position + unat off + length p) (changed + length p) r')"
    and "fr_good (r\<lparr>fr_read := fr_read r + 8 + length p\<rparr>)"
    and "fr_rest (r\<lparr>fr_read := fr_read r + 8 + length p\<rparr>) = t"
proof -
  let ?r1 = "r\<lparr>fr_read := fr_read r + 4\<rparr>" and ?r2 = "r\<lparr>fr_read := fr_read r + 4 + 4\<rparr>"
  have 1: "fr_take dx 4 r = Inr (to_le 4 off, ?r1)" "fr_good ?r1"
      "fr_rest ?r1 = to_le 4 (of_nat (length p) :: u32) @ p @ t"
    using fr_take_prefix [OF assms(1,2), of 4 dx] by auto
  have 2: "fr_take dx 4 ?r1 = Inr (to_le 4 (of_nat (length p) :: u32), ?r2)" "fr_good ?r2"
      "fr_rest ?r2 = p @ t"
    using fr_take_prefix [OF 1(2,3), of 4 dx] by auto
  have 3: "fr_take dx (length p) ?r2 = Inr (p, r\<lparr>fr_read := fr_read r + 8 + length p\<rparr>)"
      "fr_good (r\<lparr>fr_read := fr_read r + 8 + length p\<rparr>)"
      "fr_rest (r\<lparr>fr_read := fr_read r + 8 + length p\<rparr>) = t"
    using fr_take_prefix [OF 2(2,3) refl, of dx] by (auto simp: add.assoc)
  have len: "unat (of_nat (length p) :: u32) = length p" using assms(3) by simp
  have off0: "unat off = 0 \<longleftrightarrow> off = 0" by (simp add: unat_eq_0)
  show "read_patch_loop dx maxsize (Some buf) position changed r =
    (let r' = r\<lparr>fr_read := fr_read r + 8 + length p\<rparr>; buf' = overwrite buf (position + unat off) p in
     if off = 0 \<and> p = [] then Inr (of_nat changed, Some buf', r')
     else read_patch_loop dx maxsize (Some buf') (position + unat off + length p) (changed + length p) r')"
    using assms(4,5) 3(1) by (subst read_patch_loop.simps) (auto simp: 1(1) 2(1) len Let_def off0 not_less)
  show "fr_good (r\<lparr>fr_read := fr_read r + 8 + length p\<rparr>)"
    and "fr_rest (r\<lparr>fr_read := fr_read r + 8 + length p\<rparr>) = t" by (rule 3(2), rule 3(3))
qed

lemma records_end_ge: "pos \<le> records_end pos recs"
  by (induction pos recs rule: records_end.induct) auto

lemma read_patch_records:
  assumes "fr_good r" "fr_rest r = patch_bytes recs @ t"
    and "\<forall>(_, p)\<in>set recs. p \<noteq> [] \<and> length p < 2 ^ 32"
    and "records_end position recs \<le> length buf" "length buf \<le> maxsize"
  shows "\<exists>r'. read_patch_loop dx maxsize (Some buf) position changed r =
      Inr (of_nat (changed + sum_list (map (length \<circ> snd) recs)), Some (apply_records position recs buf), r') \<and>
    fr_good r' \<and> fr_rest r' = t \<and> r' = r\<lparr>fr_read := fr_read r + length (patch_bytes recs)\<rparr>"
  using assms
proof (induction recs arbitrary: r buf position changed)
  case Nil
  then have "fr_rest r = to_le 4 (0 :: u32) @ to_le 4 (of_nat (length ([] :: bytes)) :: u32) @ [] @ t"
    by (simp add: patch_bytes_def)
  note step = read_patch_step [OF Nil(1) this]
  from step(1) [of position buf maxsize dx changed] step(2,3) [of position buf maxsize] Nil
  show ?case by (simp add: patch_bytes_def)
next
  case (Cons rec recs)
  obtain off p where rec: "rec = (off, p)" by fastforce
  let ?buf = "overwrite buf (position + unat off) p"
  let ?r = "r\<lparr>fr_read := fr_read r + 8 + length p\<rparr>"
  have rest: "fr_rest r = to_le 4 off @ to_le 4 (of_nat (length p) :: u32) @ p @ (patch_bytes recs @ t)"
    using Cons.prems(2) by (simp add: patch_bytes_def record_bytes_def rec)
  have p: "p \<noteq> []" "length p < 2 ^ 32" using Cons.prems(3) rec by auto
  have fits: "position + unat off + length p \<le> length buf"
    using Cons.prems(4) records_end_ge [of "position + unat off + length p" recs] rec by simp
  note step = read_patch_step [OF Cons.prems(1) rest p(2) fits Cons.prems(5)]
  have "length ?buf = length buf" using fits by simp
  with Cons.IH [OF step(2,3), of "position + unat off + length p" ?buf "changed + length p"] Cons.prems(3-5)
  show ?case by (simp add: step(1) p(1) rec Let_def add.assoc patch_bytes_def record_bytes_def)
qed

text \<open>What is stored for a string, and what it is read back as.\<close>

definition string_bytes :: "bytes option \<Rightarrow> bytes" where
  "string_bytes x = (case x of None \<Rightarrow> to_le 2 (0 :: u16) | Some t \<Rightarrow> to_le 2 (of_nat (length t) :: u16) @ t)"

definition read_back :: "bytes option \<Rightarrow> bytes option" where
  "read_back x = (if x = Some [] then None else x)"

definition short_string :: "bytes option \<Rightarrow> bool" where
  "short_string x = (case x of None \<Rightarrow> True | Some t \<Rightarrow> length t < 2 ^ 16)"

context chunk_codec
begin

lemma write_string_array_emits:
  "\<forall>x\<in>set xs. short_string x \<Longrightarrow>
    emits fw_inv (fw_stream dec) (write_string_array cx xs) (concat (map string_bytes xs))"
proof (induction xs)
  case Nil
  then show ?case by (simp add: emits_def)
next
  case (Cons x xs)
  have "emits fw_inv (fw_stream dec) (write_string cx x) (string_bytes x)"
  proof (cases x)
    case None
    then show ?thesis
      using write_value_emits [of 2 "0 :: u16"] by (simp add: write_string_def write_uint16_t_def string_bytes_def emits_def del: to_le_zero)
  next
    case (Some t)
    then show ?thesis using write_string_emits [of t] Cons.prems by (simp add: string_bytes_def short_string_def)
  qed
  moreover have "emits fw_inv (fw_stream dec) (write_string_array cx xs) (concat (map string_bytes xs))"
    using Cons by simp
  ultimately have "emits fw_inv (fw_stream dec) (\<lambda>s. result_bind (write_string cx x s) (write_string_array cx xs))
      (string_bytes x @ concat (map string_bytes xs))" by (rule emits_bind)
  then show ?case by (simp add: emits_def)
qed

end

context byte_source
begin

lemma read_back_ok:
  assumes "good s" "rest s = string_bytes x @ t" "short_string x"
  obtains s' where "read_string tk s = Inr (read_back x, s')" "good s'" "rest s' = t"
proof (cases x)
  case None
  then have "rest s = to_le 2 (of_nat (length ([] :: bytes)) :: u16) @ [] @ t"
    using assms(2) by (simp add: string_bytes_def)
  from read_string_ok [OF assms(1) this] obtain s' where "read_string tk s = Inr (None, s')" "good s'" "rest s' = t"
    by auto
  with None that show ?thesis by (simp add: read_back_def)
next
  case (Some y)
  then have "rest s = to_le 2 (of_nat (length y) :: u16) @ y @ t" "length y < 2 ^ 16"
    using assms(2,3) by (simp_all add: string_bytes_def short_string_def)
  from read_string_ok [OF assms(1) this] obtain s' where
    "read_string tk s = Inr (if y = [] then None else Some y, s')" "good s'" "rest s' = t" .
  with Some that show ?thesis by (auto simp: read_back_def split: if_splits)
qed

lemma read_string_array_ok:
  assumes "good s" "rest s = concat (map string_bytes xs) @ t" "\<forall>x\<in>set xs. short_string x"
  shows "\<exists>s'. read_string_array tk (length xs) s = Inr (map read_back xs, s') \<and> good s' \<and> rest s' = t"
  using assms
proof (induction xs arbitrary: s)
  case (Cons x xs)
  have "rest s = string_bytes x @ (concat (map string_bytes xs) @ t)" using Cons.prems(2) by simp
  from read_back_ok [OF Cons.prems(1) this] Cons.prems(3) obtain s1 where
    s1: "read_string tk s = Inr (read_back x, s1)" "good s1" "rest s1 = concat (map string_bytes xs) @ t"
    by auto
  from Cons.IH [OF s1(2,3)] Cons.prems(3) s1(1) show ?case by auto
qed simp

end

section \<open>Properties\<close>

text \<open>C5: a memory patch round trip.  For any clone and changed memory, any 8-byte-scan area
  \<open>[off, off + sz)\<close> that fits in both and in 32 bits, and any well-formed writer, \<open>write_patch\<close>
  succeeds, brings the clone up to date on exactly that area, and appends to the stream bytes from
  which \<open>read_patch\<close>, given a buffer with the old contents, reproduces the updated contents, reports
  the same number of changed bytes and stops exactly behind the patch.\<close>

theorem patch_round_trip:
  assumes "codec_pair cx dx" "fw_inv w"
    and "unat off + sz \<le> length orig" "unat off + sz \<le> length chng" "unat off + sz < 2 ^ 32 - 8"
  shows "\<exists>n patch w'.
    write_patch cx orig chng off sz w =
      Inr (of_nat n, overwrite orig (unat off) (take sz (drop (unat off) chng)), w') \<and>
    fw_inv w' \<and>
    fw_stream (decode_chunk dx (codec_algorithm cx)) w' =
      fw_stream (decode_chunk dx (codec_algorithm cx)) w @ patch \<and>
    (\<forall>r t. fr_good r \<and> fr_rest r = patch @ t \<longrightarrow>
      (\<exists>r'. read_patch dx (Some orig) (length orig) r =
          Inr (of_nat n, Some (overwrite orig (unat off) (take sz (drop (unat off) chng))), r') \<and>
        fr_good r' \<and> fr_rest r' = t))"
proof -
  obtain recs w' where w: "write_patch cx orig chng off sz w =
        Inr (of_nat (sum_list (map (length \<circ> snd) recs)), overwrite orig (unat off) (take sz (drop (unat off) chng)), w')"
      "fw_inv w'" "fw_stream (decode_chunk dx (codec_algorithm cx)) w' =
        fw_stream (decode_chunk dx (codec_algorithm cx)) w @ patch_bytes recs"
    and recs: "apply_records 0 recs orig = overwrite orig (unat off) (take sz (drop (unat off) chng))"
      "records_end 0 recs \<le> unat off + sz" "\<forall>(_, p)\<in>set recs. p \<noteq> [] \<and> length p \<le> sz"
    by (rule chunk_codec.write_patch_ok [OF codec_chunk [OF assms(1)] assms(2-5)])
  have "\<exists>r'. read_patch dx (Some orig) (length orig) r =
      Inr (of_nat (sum_list (map (length \<circ> snd) recs)), Some (apply_records 0 recs orig), r') \<and>
      fr_good r' \<and> fr_rest r' = t" if "fr_good r" "fr_rest r = patch_bytes recs @ t" for r t
    unfolding read_patch_def
    using read_patch_records [OF that, of 0 orig "length orig" dx 0] recs(2,3) assms(3,5) by fastforce
  with w recs(1) show ?thesis by metis
qed

theorem patch_round_trip_witness:
  "\<exists>n patch w'.
    write_patch plain_codec [1, 2, 3, 4, 5, 6, 7, 8, 9, 10] [1, 2, 3, 4, 5, 6, 7, 8, 9, 0] 1 9
      (file_writer_set plain_codec (file_writer_new 64)) =
      Inr (of_nat n, [1, 2, 3, 4, 5, 6, 7, 8, 9, 0], w') \<and>
    (\<forall>r t. fr_good r \<and> fr_rest r = patch @ t \<longrightarrow>
      (\<exists>r'. read_patch plain_decoder (Some [1, 2, 3, 4, 5, 6, 7, 8, 9, 10])
          (length [1 :: u8, 2, 3, 4, 5, 6, 7, 8, 9, 10]) r =
          Inr (of_nat n, Some [1, 2, 3, 4, 5, 6, 7, 8, 9, 0], r') \<and> fr_good r' \<and> fr_rest r' = t))"
proof -
  have "codec_pair plain_codec plain_decoder" by (rule plain.libraries)
  moreover have "fw_inv (file_writer_set plain_codec (file_writer_new 64))"
    by (simp add: fw_inv_def file_writer_set_def file_writer_new_def write_chunk_def)
  ultimately show ?thesis
    using patch_round_trip [of plain_codec plain_decoder "file_writer_set plain_codec (file_writer_new 64)"
        1 9 "[1, 2, 3, 4, 5, 6, 7, 8, 9, 10]" "[1, 2, 3, 4, 5, 6, 7, 8, 9, 0]"]
    by (simp add: overwrite_def) blast
qed

text \<open>C33: what \<open>find_patch_start\<close> returns.  It is the offset, relative to \<open>off\<close>, of the first
  8-byte word (the last one may be shorter) in which the two areas differ: a multiple of 8, with
  everything before it equal and a difference inside the word; or the size when the areas are
  equal.  The fast path over 256-byte blocks does not show.\<close>

theorem find_patch_start_spec:
  assumes "off + sz \<le> length orig" "off + sz \<le> length chng"
  shows "let p = find_patch_start orig chng off sz in
    p \<le> sz \<and> (p = sz \<or> p mod 8 = 0) \<and> (\<forall>k<p. orig ! (off + k) = chng ! (off + k)) \<and>
    (p < sz \<longrightarrow> (\<exists>k. p \<le> k \<and> k < p + 8 \<and> k < sz \<and> orig ! (off + k) \<noteq> chng ! (off + k)))"
proof -
  define p where "p = find_patch_start orig chng off sz"
  note props = find_patch_start_props [OF p_def]
  have "orig ! (off + k) = chng ! (off + k)" if "k < p" for k
  proof -
    have "take p (drop off orig) ! k = take p (drop off chng) ! k"
      using props(2) by (simp add: same_at_def)
    then show ?thesis using that assms props(1) by simp
  qed
  moreover have "\<exists>k. p \<le> k \<and> k < p + 8 \<and> k < sz \<and> orig ! (off + k) \<noteq> chng ! (off + k)" if "p < sz"
  proof (rule ccontr)
    assume none: "\<not> ?thesis"
    have "take (min 8 (sz - p)) (drop p (drop off orig)) = take (min 8 (sz - p)) (drop p (drop off chng))"
    proof (rule nth_equalityI)
      fix i assume "i < length (take (min 8 (sz - p)) (drop p (drop off orig)))"
      then have i: "i < min 8 (sz - p)" by simp
      with none that have "orig ! (off + (p + i)) = chng ! (off + (p + i))" by auto
      moreover have "off + p \<le> length orig" "off + p \<le> length chng" using that assms by simp_all
      ultimately show "take (min 8 (sz - p)) (drop p (drop off orig)) ! i =
          take (min 8 (sz - p)) (drop p (drop off chng)) ! i"
        using i by (simp add: ac_simps)
    qed (use assms in simp)
    with props(3) that show False by (simp add: same_at_def)
  qed
  ultimately show ?thesis
    using props(1) find_patch_start_aligned [of orig chng off sz] by (simp add: p_def Let_def)
qed

theorem find_patch_start_spec_witness:
  "let p = find_patch_start (replicate 24 0) (replicate 17 0 @ [1] @ replicate 6 0) 0 24 in
    p \<le> 24 \<and> (p = 24 \<or> p mod 8 = 0) \<and>
    (\<forall>k<p. (replicate 24 0 :: bytes) ! (0 + k) = (replicate 17 0 @ [1] @ replicate 6 0) ! (0 + k)) \<and>
    (p < 24 \<longrightarrow> (\<exists>k. p \<le> k \<and> k < p + 8 \<and> k < 24 \<and>
      (replicate 24 0 :: bytes) ! (0 + k) \<noteq> (replicate 17 0 @ [1] @ replicate 6 0) ! (0 + k)))"
  by (rule find_patch_start_spec) simp_all

text \<open>Strings.  \<open>write_string_array\<close> succeeds on strings shorter than 64 KiB and appends bytes
  from which \<open>read_string_array\<close>, reading as many strings from the streaming reader, returns the
  strings written and stops behind them, whatever follows; an absent string and an empty one are
  both read back as absent.\<close>

theorem string_array_round_trip:
  assumes "codec_pair cx dx" "fw_inv w" "\<forall>x\<in>set xs. short_string x"
  shows "\<exists>b w'. write_string_array cx xs w = Inr w' \<and>
    fw_stream (decode_chunk dx (codec_algorithm cx)) w' =
      fw_stream (decode_chunk dx (codec_algorithm cx)) w @ b \<and>
    (\<forall>r t. fr_good r \<and> fr_rest r = b @ t \<longrightarrow>
      (\<exists>r'. read_string_array (fr_take dx) (length xs) r = Inr (map read_back xs, r') \<and>
        fr_good r' \<and> fr_rest r' = t))"
proof -
  obtain w' where "write_string_array cx xs w = Inr w'"
      "fw_stream (decode_chunk dx (codec_algorithm cx)) w' =
        fw_stream (decode_chunk dx (codec_algorithm cx)) w @ concat (map string_bytes xs)"
    using chunk_codec.write_string_array_emits [OF codec_chunk [OF assms(1)] assms(3)] assms(2)
    unfolding emits_def by blast
  with fr.read_string_array_ok [OF _ _ assms(3)] show ?thesis by metis
qed

theorem string_array_round_trip_witness:
  "\<exists>b w'. write_string_array plain_codec [Some [104, 105], None, Some []]
      (file_writer_set plain_codec (file_writer_new 64)) = Inr w' \<and>
    (\<forall>r t. fr_good r \<and> fr_rest r = b @ t \<longrightarrow>
      (\<exists>r'. read_string_array (fr_take plain_decoder) (length [Some [104, 105], None, Some ([] :: bytes)]) r =
        Inr ([Some [104, 105], None, None], r') \<and> fr_good r' \<and> fr_rest r' = t))"
proof -
  have "fw_inv (file_writer_set plain_codec (file_writer_new 64))"
    by (simp add: fw_inv_def file_writer_set_def file_writer_new_def write_chunk_def)
  from string_array_round_trip [OF plain.libraries this, of "[Some [104, 105], None, Some []]"]
  show ?thesis by (simp add: short_string_def read_back_def) blast
qed

text \<open>A \<open>std::string\<close> of 64 KiB or more is not read back.  \<open>write_string(const std::string&)\<close>
  stores the length modulo 65536 and then all bytes; the reader takes the shorter string and leaves
  the remaining bytes of the string in front of whatever was written next.\<close>

theorem long_std_string_desyncs:
  assumes "codec_pair cx dx" "fw_inv w" "length t = 2 ^ 16 + k" "0 < k" "k < 2 ^ 16"
  shows "\<exists>b w'. write_std_string cx t w = Inr w' \<and>
    fw_stream (decode_chunk dx (codec_algorithm cx)) w' =
      fw_stream (decode_chunk dx (codec_algorithm cx)) w @ b \<and>
    (\<forall>r u. fr_good r \<and> fr_rest r = b @ u \<longrightarrow>
      (\<exists>r'. read_string (fr_take dx) r = Inr (Some (take k t), r') \<and> fr_rest r' = drop k t @ u))"
proof -
  let ?st = "fw_stream (decode_chunk dx (codec_algorithm cx))"
  have len: "(of_nat (length t) :: u16) = of_nat k" by (simp add: assms(3))
  have "emits fw_inv ?st (write_array cx t) t"
    using assms(3,5) by (intro chunk_codec.write_array_emits [OF codec_chunk [OF assms(1)]]) simp
  from emits_bind [OF chunk_codec.write_value_emits [OF codec_chunk [OF assms(1)], of 2 "of_nat k :: u16"] this]
  have "emits fw_inv ?st (write_std_string cx t) (to_le 2 (of_nat k :: u16) @ t)"
    using assms(4) unfolding emits_def write_std_string_def len by (simp add: assms(3))
  then obtain w' where w': "write_std_string cx t w = Inr w'"
      "?st w' = ?st w @ to_le 2 (of_nat k :: u16) @ t"
    using assms(2) by (auto simp: emits_def)
  have "\<exists>r'. read_string (fr_take dx) r = Inr (Some (take k t), r') \<and> fr_rest r' = drop k t @ u"
    if r: "fr_good r" "fr_rest r = (to_le 2 (of_nat k :: u16) @ t) @ u" for r u
  proof -
    have rest: "fr_rest r = to_le 2 (of_nat (length (take k t)) :: u16) @ take k t @ (drop k t @ u)"
      using r(2) assms(3) by simp
    have "length (take k t) < 2 ^ 16" using assms(5) by simp
    from fr.read_string_ok [OF r(1) rest this] obtain r' where
      "read_string (fr_take dx) r = Inr (if take k t = [] then None else Some (take k t), r')"
      "fr_rest r' = drop k t @ u" .
    moreover have "take k t \<noteq> []" using assms(3,4) by auto
    ultimately show ?thesis by auto
  qed
  with w' show ?thesis by blast
qed

theorem long_std_string_desyncs_witness:
  "\<exists>b w'. write_std_string plain_codec (replicate 65537 7) (file_writer_set plain_codec (file_writer_new 100)) = Inr w' \<and>
    (\<forall>r u. fr_good r \<and> fr_rest r = b @ u \<longrightarrow>
      (\<exists>r'. read_string (fr_take plain_decoder) r = Inr (Some (take 1 (replicate 65537 7)), r') \<and>
        fr_rest r' = drop 1 (replicate 65537 7) @ u))"
proof -
  have "fw_inv (file_writer_set plain_codec (file_writer_new 100))"
    by (simp add: fw_inv_def file_writer_set_def file_writer_new_def write_chunk_def)
  moreover have "length (replicate 65537 (7 :: u8)) = 2 ^ 16 + 1" "(0 :: nat) < 1" "(1 :: nat) < 2 ^ 16"
    by simp_all
  ultimately show ?thesis by (metis long_std_string_desyncs [OF plain.libraries])
qed

text \<open>The wait loop of the reader asserts on a legitimate read.  When everything decompressed so
  far has been read and the next read asks for exactly the rest of the stream, \<open>check_space\<close> fails
  its assertion \<open>current_write + size < total_uncompressed\<close> instead of waiting for the last chunk.\<close>

theorem last_read_fails_assertion:
  assumes "\<not> fr_fixed r" "fr_read r = length (fr_data r)" "0 < n"
    and "fr_total_uncompressed r = length (fr_data r) + n"
  shows "fr_take dx n r = Inl Assertion_failed"
  using assms by (simp add: fr_take_def fr_check_space_def fr_wait.simps)

theorem last_read_fails_assertion_witness:
  "\<exists>r. file_reader_init (stream_header LAVATUBE_COMPRESSION_UNCOMPRESSED @ chunk_header 20 4 @ replicate 20 0)
      4 4 False = Inr r \<and> fr_take plain_decoder 4 r = Inl Assertion_failed"
proof -
  obtain r where r: "file_reader_init (stream_header LAVATUBE_COMPRESSION_UNCOMPRESSED @ chunk_header 20 4 @ replicate 20 0)
      4 4 False = Inr r" "\<not> fr_fixed r" "fr_read r = length (fr_data r)" "fr_total_uncompressed r = length (fr_data r) + 4"
    by (simp add: file_reader_init_def stream_header_def magic_word_def known_algorithm_def Let_def)
  with last_read_fails_assertion [of r 4 plain_decoder] show ?thesis by auto
qed

end
