(* ===== verification/Pipeline.thy ===== *)
theory Pipeline
  imports FileReader
begin

text \<open>The threads of a \<open>file_writer\<close> (\<^verbatim>\<open>src/filewriter.cpp\<close>): the recording thread that fills chunks
  and finally calls \<open>finalize\<close>, the compressor thread and the serializer thread.  Each critical
  section under \<open>chunk_mutex\<close> and each piece of work between two of them is one step; a state
  records the chunk each thread holds between its steps.  The steps of a thread that finds no work
  and sleeps change nothing and are left out.\<close>

section \<open>State and steps\<close>

datatype stage = Recording | Joining_compressor | Joining_serializer | Closed

record pipeline =
  pl_writer :: file_writer
  pl_comp :: "bytes option"
  pl_ser :: "bytes option"
  pl_comp_running :: bool
  pl_ser_running :: bool
  pl_stage :: stage

definition pipeline_start :: "codec \<Rightarrow> file_writer \<Rightarrow> pipeline" where
  "pipeline_start cx w = \<lparr>pl_writer = file_writer_set cx w, pl_comp = None, pl_ser = None,
    pl_comp_running = True, pl_ser_running = True, pl_stage = Recording\<rparr>"

text \<open>The compressor: stealing the oldest chunk or leaving when there is none and the feed is done,
  then compressing it and handing it over.\<close>

definition compressor_take :: "pipeline \<Rightarrow> pipeline" where
  "compressor_take p =
    (let w = pl_writer p in
     if fw_uncompressed w \<noteq> [] then
       p\<lparr>pl_comp := Some (last (fw_uncompressed w)),
         pl_writer := w\<lparr>fw_uncompressed := butlast (fw_uncompressed w)\<rparr>\<rparr>
     else if fw_done_feeding w then p\<lparr>pl_comp_running := False\<rparr>
     else p)"

definition compressor_work :: "codec \<Rightarrow> pipeline \<Rightarrow> pipeline result" where
  "compressor_work cx p =
    (case pl_comp p of
       None \<Rightarrow> Inr p
     | Some x \<Rightarrow>
         if length x > 0 then
           result_bind (compress_chunk cx x (pl_writer p)) (\<lambda>(y, w).
             Inr (p\<lparr>pl_comp := None, pl_writer := hand_over y w\<rparr>))
         else Inr (p\<lparr>pl_comp := None\<rparr>))"

definition serializer_take :: "pipeline \<Rightarrow> pipeline" where
  "serializer_take p =
    (let w = pl_writer p in
     if fw_compressed w \<noteq> [] then
       p\<lparr>pl_ser := Some (last (fw_compressed w)),
         pl_writer := w\<lparr>fw_compressed := butlast (fw_compressed w)\<rparr>\<rparr>
     else if fw_done_compressing w then p\<lparr>pl_ser_running := False\<rparr>
     else p)"

definition serializer_work :: "pipeline \<Rightarrow> pipeline" where
  "serializer_work p =
    (case pl_ser p of
       None \<Rightarrow> p
     | Some y \<Rightarrow>
         if length y > 0 then p\<lparr>pl_ser := None, pl_writer := write_chunk y (pl_writer p)\<rparr>
         else p\<lparr>pl_ser := None\<rparr>)"

text \<open>\<open>finalize\<close>: the last chunk is handed over and the feed is declared done; then the compressor
  is joined and compression is declared done; then the serializer is joined and the lists must be
  empty.\<close>

definition finalize_feed :: "codec \<Rightarrow> pipeline \<Rightarrow> pipeline result" where
  "finalize_feed cx p =
    (let w = pl_writer p in
     assert_that (fw_held w = [])
       (result_bind
         (if \<not> fw_mt_compress w then
            result_bind (compress_chunk cx (fw_chunk w) w) (\<lambda>(y, w). Inr (hand_over y w))
          else Inr (w\<lparr>fw_uncompressed := fw_chunk w # fw_uncompressed w\<rparr>))
         (\<lambda>w'. Inr (p\<lparr>pl_stage := Joining_compressor,
            pl_writer := w'\<lparr>fw_chunk := [], fw_cap := fw_chunk_size w, fw_done_feeding := True\<rparr>\<rparr>))))"

definition finalize_compressed :: "pipeline \<Rightarrow> pipeline" where
  "finalize_compressed p = p\<lparr>pl_stage := Joining_serializer,
    pl_writer := (pl_writer p)\<lparr>fw_done_compressing := True\<rparr>\<rparr>"

definition finalize_close :: "pipeline \<Rightarrow> pipeline result" where
  "finalize_close p = assert_that (fw_uncompressed (pl_writer p) = [] \<and> fw_compressed (pl_writer p) = [])
    (Inr (p\<lparr>pl_stage := Closed\<rparr>))"

text \<open>One step of one thread, with the bytes it adds to the recorded stream.\<close>

inductive pipe_step :: "codec \<Rightarrow> pipeline \<Rightarrow> bytes \<Rightarrow> pipeline \<Rightarrow> bool" for cx where
  record_bytes: "pl_stage p = Recording \<Longrightarrow> length data \<le> n \<Longrightarrow> n < 2 ^ 32 \<Longrightarrow>
    append_bytes cx n data (pl_writer p) = Inr w' \<Longrightarrow> pipe_step cx p data (p\<lparr>pl_writer := w'\<rparr>)"
| record_freeze: "pl_stage p = Recording \<Longrightarrow> pipe_step cx p [] (p\<lparr>pl_writer := freeze (pl_writer p)\<rparr>)"
| record_thaw: "pl_stage p = Recording \<Longrightarrow> pipe_step cx p [] (p\<lparr>pl_writer := thaw (pl_writer p)\<rparr>)"
| take_uncompressed: "pl_comp_running p \<Longrightarrow> pl_comp p = None \<Longrightarrow>
    fw_uncompressed (pl_writer p) \<noteq> [] \<or> fw_done_feeding (pl_writer p) \<Longrightarrow>
    pipe_step cx p [] (compressor_take p)"
| compress: "pl_comp p \<noteq> None \<Longrightarrow> compressor_work cx p = Inr p' \<Longrightarrow> pipe_step cx p [] p'"
| take_compressed: "pl_ser_running p \<Longrightarrow> pl_ser p = None \<Longrightarrow>
    fw_compressed (pl_writer p) \<noteq> [] \<or> fw_done_compressing (pl_writer p) \<Longrightarrow>
    pipe_step cx p [] (serializer_take p)"
| serialize: "pl_ser p \<noteq> None \<Longrightarrow> pipe_step cx p [] (serializer_work p)"
| finalize: "pl_stage p = Recording \<Longrightarrow> finalize_feed cx p = Inr p' \<Longrightarrow> pipe_step cx p [] p'"
| join_compressor: "pl_stage p = Joining_compressor \<Longrightarrow> \<not> pl_comp_running p \<Longrightarrow>
    pipe_step cx p [] (finalize_compressed p)"
| join_serializer: "pl_stage p = Joining_serializer \<Longrightarrow> \<not> pl_ser_running p \<Longrightarrow>
    finalize_close p = Inr p' \<Longrightarrow> pipe_step cx p [] p'"

inductive pipe_run :: "codec \<Rightarrow> pipeline \<Rightarrow> bytes \<Rightarrow> pipeline \<Rightarrow> bool" for cx p where
  start: "pipe_run cx p [] p"
| step: "pipe_run cx p s q \<Longrightarrow> pipe_step cx q data q' \<Longrightarrow> pipe_run cx p (s @ data) q'"

text \<open>A schedule is a sequence of turns; \<open>perform\<close> is the step the thread whose turn it is takes,
  \<open>Inl\<close> when it has none or fails.\<close>

datatype turn = Write bytes | Freeze | Thaw | Finalize | Compressor | Serializer

fun perform :: "codec \<Rightarrow> turn \<Rightarrow> pipeline \<Rightarrow> (bytes \<times> pipeline) result" where
  "perform cx (Write data) p =
   (if pl_stage p \<noteq> Recording \<or> unat (of_nat (length data) :: u32) \<noteq> length data then Inl Aborted
    else result_bind (append_bytes cx (length data) data (pl_writer p)) (\<lambda>w. Inr (data, p\<lparr>pl_writer := w\<rparr>)))"
| "perform cx Freeze p = (if pl_stage p \<noteq> Recording then Inl Aborted
    else Inr ([], p\<lparr>pl_writer := freeze (pl_writer p)\<rparr>))"
| "perform cx Thaw p = (if pl_stage p \<noteq> Recording then Inl Aborted
    else Inr ([], p\<lparr>pl_writer := thaw (pl_writer p)\<rparr>))"
| "perform cx Finalize p =
    (case pl_stage p of
       Recording \<Rightarrow> result_bind (finalize_feed cx p) (\<lambda>p. Inr ([], p))
     | Joining_compressor \<Rightarrow>
         if pl_comp_running p then Inl Aborted else Inr ([], finalize_compressed p)
     | Joining_serializer \<Rightarrow>
         if pl_ser_running p then Inl Aborted else result_bind (finalize_close p) (\<lambda>p. Inr ([], p))
     | Closed \<Rightarrow> Inl Aborted)"
| "perform cx Compressor p =
    (if pl_comp p \<noteq> None then result_bind (compressor_work cx p) (\<lambda>p. Inr ([], p))
     else if pl_comp_running p \<and> (fw_uncompressed (pl_writer p) \<noteq> [] \<or> fw_done_feeding (pl_writer p))
     then Inr ([], compressor_take p) else Inl Aborted)"
| "perform cx Serializer p =
    (if pl_ser p \<noteq> None then Inr ([], serializer_work p)
     else if pl_ser_running p \<and> (fw_compressed (pl_writer p) \<noteq> [] \<or> fw_done_compressing (pl_writer p))
     then Inr ([], serializer_take p) else Inl Aborted)"

fun run_schedule :: "codec \<Rightarrow> turn list \<Rightarrow> bytes \<Rightarrow> pipeline \<Rightarrow> (bytes \<times> pipeline) result" where
  "run_schedule cx [] s p = Inr (s, p)"
| "run_schedule cx (t # ts) s p =
    result_bind (perform cx t p) (\<lambda>(data, p). run_schedule cx ts (s @ data) p)"

lemma fits_u32: "unat (of_nat n :: u32) = n \<Longrightarrow> n < 2 ^ 32"
  using unsigned_less [where 'a = nat, of "of_nat n :: u32"] by simp

lemma perform_step: "perform cx t p = Inr (data, q) \<Longrightarrow> pipe_step cx p data q"
  using fits_u32 by (cases t) (auto split: if_splits stage.splits intro: pipe_step.intros)

lemma run_schedule_run:
  "run_schedule cx ts s p = Inr (s', q) \<Longrightarrow> pipe_run cx p0 s p \<Longrightarrow> pipe_run cx p0 s' q"
  by (induction cx ts s p rule: run_schedule.induct)
    (auto dest!: perform_step intro: pipe_run.step)

lemma run_schedule_reaches:
  assumes "case run_schedule cx ts [] p of Inl _ \<Rightarrow> False | Inr (s, q) \<Rightarrow> P s q"
  shows "\<exists>s q. pipe_run cx p s q \<and> P s q"
  using assms run_schedule_run [OF _ pipe_run.start]
  by (cases "run_schedule cx ts [] p") (auto split: prod.splits, blast)

section \<open>Invariant\<close>

text \<open>All bytes between the recording thread and the file, in order.\<close>

definition pl_stream :: "(bytes \<Rightarrow> bytes) \<Rightarrow> pipeline \<Rightarrow> bytes" where
  "pl_stream dec p =
    concat (map dec (tl (fw_file (pl_writer p)))) @ (case pl_ser p of None \<Rightarrow> [] | Some y \<Rightarrow> dec y) @
    concat (map dec (rev (fw_compressed (pl_writer p)))) @ (case pl_comp p of None \<Rightarrow> [] | Some x \<Rightarrow> x) @
    concat (rev (fw_uncompressed (pl_writer p))) @ concat (rev (fw_held (pl_writer p))) @
    fw_chunk (pl_writer p)"

text \<open>The chunks in compressed form are encodings, and short enough to be encoded in any other
  list; each stage of \<open>finalize\<close> has drained the lists before it.\<close>

definition chunk_ok :: "codec \<Rightarrow> (bytes \<Rightarrow> bytes) \<Rightarrow> bytes \<Rightarrow> bool" where
  "chunk_ok cx dec y \<longleftrightarrow> encoded cx (dec y) y \<and> dec y \<noteq> []"

definition pl_inv :: "codec \<Rightarrow> (bytes \<Rightarrow> bytes) \<Rightarrow> pipeline \<Rightarrow> bool" where
  "pl_inv cx dec p \<longleftrightarrow>
    fw_inv (pl_writer p) \<and> hd (fw_file (pl_writer p)) = stream_header (cx_type cx) \<and>
    fw_mt_compress (pl_writer p) \<and>
    (\<not> fw_mt_write (pl_writer p) \<longrightarrow> pl_ser p = None) \<and>
    (\<forall>y\<in>set (tl (fw_file (pl_writer p))) \<union> set (fw_compressed (pl_writer p)) \<union> set_option (pl_ser p).
      chunk_ok cx dec y) \<and>
    (\<forall>x\<in>set (fw_uncompressed (pl_writer p)) \<union> set (fw_held (pl_writer p)) \<union> set_option (pl_comp p).
      length x < 2 ^ 32) \<and>
    (pl_stage p \<noteq> Recording \<longleftrightarrow> fw_done_feeding (pl_writer p)) \<and>
    (pl_stage p \<in> {Joining_serializer, Closed} \<longleftrightarrow> fw_done_compressing (pl_writer p)) \<and>
    (\<not> pl_comp_running p \<longrightarrow> fw_done_feeding (pl_writer p) \<and> fw_uncompressed (pl_writer p) = [] \<and> pl_comp p = None) \<and>
    (\<not> pl_ser_running p \<longrightarrow> fw_done_compressing (pl_writer p) \<and> fw_compressed (pl_writer p) = [] \<and> pl_ser p = None) \<and>
    (fw_done_feeding (pl_writer p) \<longrightarrow> fw_chunk (pl_writer p) = [] \<and> fw_held (pl_writer p) = []) \<and>
    (fw_done_compressing (pl_writer p) \<longrightarrow> \<not> pl_comp_running p) \<and>
    (pl_stage p = Closed \<longrightarrow> \<not> pl_ser_running p)"

lemma append_bytes_mt:
  assumes "append_bytes cx n data w = Inr w'" "fw_mt_compress w" "fw_inv w" "length data \<le> n" "n < 2 ^ 32"
  obtains c u h d b where
    "w' = w\<lparr>fw_cap := c, fw_uncompressed := u, fw_held := h, fw_chunk := d, fw_bytes := b\<rparr>"
    "concat (rev u) @ concat (rev h) @ d =
      concat (rev (fw_uncompressed w)) @ concat (rev (fw_held w)) @ fw_chunk w @ data"
    "set u \<union> set h \<subseteq> insert (fw_chunk w) (set (fw_uncompressed w) \<union> set (fw_held w))"
    "length d \<le> c" "c < 2 ^ 32" "\<not> fw_holding w \<longrightarrow> h = []"
proof -
  let ?c = "if n > fw_chunk_size w then n else fw_chunk_size w"
  let ?b = "fw_bytes w + of_nat (length data)"
  have inv: "fw_cap w < 2 ^ 32" "?c < 2 ^ 32" "\<not> fw_holding w \<longrightarrow> fw_held w = []"
    using assms(3,5) by (auto simp: fw_inv_def)
  consider (full_held) "n > fw_cap w - fw_uidx w" "fw_holding w"
    | (full) "n > fw_cap w - fw_uidx w" "\<not> fw_holding w" | (room) "\<not> n > fw_cap w - fw_uidx w"
    by blast
  then show ?thesis
  proof cases
    case full_held
    then have "w' = w\<lparr>fw_cap := ?c, fw_uncompressed := fw_uncompressed w,
        fw_held := fw_chunk w # fw_held w, fw_chunk := data, fw_bytes := ?b\<rparr>"
      using assms(1,4) by (auto simp: append_bytes_def check_space_def make_space_def copy_bytes_def fw_uidx_def split: if_splits)
    then show ?thesis by (rule that) (use assms(4) full_held inv in simp_all)
  next
    case full
    then have "w' = w\<lparr>fw_cap := ?c, fw_uncompressed := fw_chunk w # fw_uncompressed w,
        fw_held := fw_held w, fw_chunk := data, fw_bytes := ?b\<rparr>"
      using assms(1,2,4) by (auto simp: append_bytes_def check_space_def make_space_def copy_bytes_def fw_uidx_def split: if_splits)
    then show ?thesis by (rule that) (use assms(4) full inv in simp_all)
  next
    case room
    then have "w' = w\<lparr>fw_cap := fw_cap w, fw_uncompressed := fw_uncompressed w, fw_held := fw_held w,
        fw_chunk := fw_chunk w @ data, fw_bytes := ?b\<rparr>" "length (fw_chunk w @ data) \<le> fw_cap w"
      using assms(1) by (auto simp: append_bytes_def check_space_def copy_bytes_def fw_uidx_def split: if_splits)
    then show ?thesis by (intro that) (use inv in auto)
  qed
qed

lemma compress_chunk_encoded:
  assumes "codec_pair cx dx" "length x < 2 ^ 32"
  obtains y a b where "encoded cx x y" "decode_chunk dx (codec_algorithm cx) y = x"
    "\<And>w. compress_chunk cx x w = Inr (y, w\<lparr>fw_compressed_sizes := a w, fw_uncompressed_sizes := b w\<rparr>)"
proof -
  obtain z where z: "compress_payload cx x = Inr z" "length z < 2 ^ 63"
    using codec_compress [OF assms] by metis
  then have "encoded cx x (chunk_header (of_nat (length z)) (of_nat (length x)) @ z)"
    using assms(2) by (auto simp: encoded_def)
  with z decode_encoded [OF assms(1)] show ?thesis
    by (intro that [where a = "\<lambda>w. fw_compressed_sizes w @ [of_nat (length z)]"
          and b = "\<lambda>w. fw_uncompressed_sizes w @ [of_nat (length x)]"]) (auto simp: compress_chunk_def)
qed

lemma compressor_take_inv:
  assumes "pl_inv cx dec p" "pl_comp_running p" "pl_comp p = None"
  shows "pl_inv cx dec (compressor_take p) \<and> pl_stream dec (compressor_take p) = pl_stream dec p"
proof (cases "fw_uncompressed (pl_writer p) = []")
  case True
  then show ?thesis using assms by (auto simp: compressor_take_def pl_inv_def pl_stream_def)
next
  case False
  then obtain u x where u: "fw_uncompressed (pl_writer p) = u @ [x]" by (metis append_butlast_last_id)
  then show ?thesis
    using assms by (auto simp: compressor_take_def pl_inv_def pl_stream_def fw_inv_def Let_def)
qed

lemma serializer_take_inv:
  assumes "pl_inv cx dec p" "pl_ser_running p" "pl_ser p = None"
  shows "pl_inv cx dec (serializer_take p) \<and> pl_stream dec (serializer_take p) = pl_stream dec p"
proof (cases "fw_compressed (pl_writer p) = []")
  case True
  then show ?thesis using assms by (auto simp: serializer_take_def pl_inv_def pl_stream_def)
next
  case False
  then obtain u x where u: "fw_compressed (pl_writer p) = u @ [x]" by (metis append_butlast_last_id)
  then show ?thesis
    using assms by (auto simp: serializer_take_def pl_inv_def pl_stream_def fw_inv_def Let_def)
qed

lemma compressor_work_inv:
  assumes "codec_pair cx dx" "dec = decode_chunk dx (codec_algorithm cx)"
    and "pl_inv cx dec p" "pl_comp p = Some x" "compressor_work cx p = Inr p'"
  shows "pl_inv cx dec p' \<and> pl_stream dec p' = pl_stream dec p"
proof (cases "x = []")
  case True
  then have p': "p' = p\<lparr>pl_comp := None\<rparr>" using assms(4,5) by (simp add: compressor_work_def)
  show ?thesis unfolding p' using True assms(3,4) by (simp add: pl_inv_def pl_stream_def) blast
next
  case False
  have "length x < 2 ^ 32" using assms(3,4) by (auto simp: pl_inv_def)
  from compress_chunk_encoded [OF assms(1) this] obtain y a b where
    y: "encoded cx x y" "dec y = x" "\<And>w. compress_chunk cx x w =
      Inr (y, w\<lparr>fw_compressed_sizes := a w, fw_uncompressed_sizes := b w\<rparr>)"
    unfolding assms(2) by metis
  have ok: "chunk_ok cx dec y" using y False by (simp add: chunk_ok_def)
  let ?w = "(pl_writer p)\<lparr>fw_compressed_sizes := a (pl_writer p), fw_uncompressed_sizes := b (pl_writer p)\<rparr>"
  have p': "p' = p\<lparr>pl_comp := None, pl_writer := hand_over y ?w\<rparr>"
    using assms(4,5) False y(3) by (simp add: compressor_work_def)
  show ?thesis
  proof (cases "fw_mt_write (pl_writer p)")
    case True
    then have "hand_over y ?w = ?w\<lparr>fw_compressed := y # fw_compressed (pl_writer p)\<rparr>"
      by (simp add: hand_over_def)
    then show ?thesis
      unfolding p' using ok y(2) assms(3,4) True by (simp add: pl_inv_def pl_stream_def fw_inv_def) blast
  next
    case False
    then have "hand_over y ?w = ?w\<lparr>fw_file := fw_file (pl_writer p) @ [y]\<rparr>"
      by (simp add: hand_over_def write_chunk_def)
    then show ?thesis
      unfolding p' using ok y(2) assms(3,4) False by (simp add: pl_inv_def pl_stream_def fw_inv_def) blast
  qed
qed

lemma serializer_work_inv:
  assumes "pl_inv cx dec p" "pl_ser p = Some y"
  shows "pl_inv cx dec (serializer_work p) \<and> pl_stream dec (serializer_work p) = pl_stream dec p"
proof -
  have "y \<noteq> []" using assms encoded_length [of cx "dec y" y] by (auto simp: pl_inv_def chunk_ok_def)
  with assms show ?thesis
    by (auto simp: serializer_work_def write_chunk_def pl_inv_def pl_stream_def fw_inv_def tl_append Let_def
        split: list.splits)
qed

lemma finalize_feed_inv:
  assumes "pl_inv cx dec p" "pl_stage p = Recording" "finalize_feed cx p = Inr p'"
  shows "pl_inv cx dec p' \<and> pl_stream dec p' = pl_stream dec p"
proof -
  let ?w = "pl_writer p"
  have p': "fw_held ?w = []" "p' = p\<lparr>pl_stage := Joining_compressor,
      pl_writer := ?w\<lparr>fw_uncompressed := fw_chunk ?w # fw_uncompressed ?w, fw_chunk := [],
        fw_cap := fw_chunk_size ?w, fw_done_feeding := True\<rparr>\<rparr>"
    using assms by (auto simp: finalize_feed_def pl_inv_def Let_def)
  moreover have "length (fw_chunk ?w) < 2 ^ 32" using assms(1) by (auto simp: pl_inv_def fw_inv_def)
  ultimately show ?thesis
    using assms(1,2) unfolding p'(2) by (auto simp: pl_inv_def pl_stream_def fw_inv_def Let_def)
qed

text \<open>Every step keeps the invariant and appends to the stream what it says.\<close>

lemma pipe_step_inv:
  assumes "codec_pair cx dx" "dec = decode_chunk dx (codec_algorithm cx)"
    and "pipe_step cx p data p'" "pl_inv cx dec p"
  shows "pl_inv cx dec p' \<and> pl_stream dec p' = pl_stream dec p @ data"
  using assms(3,4)
proof (cases rule: pipe_step.cases)
  case (record_bytes n w')
  have inv: "fw_inv (pl_writer p)" "fw_mt_compress (pl_writer p)" using assms(4) by (auto simp: pl_inv_def)
  from append_bytes_mt [OF record_bytes(5) inv(2,1) record_bytes(3,4)] obtain c u h d b where
    w': "w' = (pl_writer p)\<lparr>fw_cap := c, fw_uncompressed := u, fw_held := h, fw_chunk := d, fw_bytes := b\<rparr>"
    "concat (rev u) @ concat (rev h) @ d =
      concat (rev (fw_uncompressed (pl_writer p))) @ concat (rev (fw_held (pl_writer p))) @ fw_chunk (pl_writer p) @ data"
    "set u \<union> set h \<subseteq> insert (fw_chunk (pl_writer p)) (set (fw_uncompressed (pl_writer p)) \<union> set (fw_held (pl_writer p)))"
    "length d \<le> c" "c < 2 ^ 32" "\<not> fw_holding (pl_writer p) \<longrightarrow> h = []" .
  have "length (fw_chunk (pl_writer p)) < 2 ^ 32" using inv(1) by (auto simp: fw_inv_def)
  then have "\<forall>x\<in>set u \<union> set h \<union> set_option (pl_comp p). length x < 2 ^ 32"
    using w'(3) assms(4) unfolding pl_inv_def by blast
  with w'(2,4-6) record_bytes(2) assms(4) show ?thesis
    unfolding record_bytes(1) w'(1) by (simp add: pl_inv_def pl_stream_def fw_inv_def) blast
next
  case record_freeze
  then show ?thesis using assms(4) by (auto simp: pl_inv_def pl_stream_def freeze_def fw_inv_def Let_def)
next
  case record_thaw
  then show ?thesis using assms(4) by (auto simp: pl_inv_def pl_stream_def thaw_def fw_inv_def Let_def)
next
  case take_uncompressed
  then show ?thesis using compressor_take_inv [OF assms(4)] by simp
next
  case compress
  then show ?thesis using compressor_work_inv [OF assms(1,2,4)] by auto
next
  case take_compressed
  then show ?thesis using serializer_take_inv [OF assms(4)] by simp
next
  case serialize
  then show ?thesis using serializer_work_inv [OF assms(4)] by auto
next
  case finalize
  then show ?thesis using finalize_feed_inv [OF assms(4)] by auto
next
  case join_compressor
  then show ?thesis using assms(4) by (simp add: pl_inv_def pl_stream_def finalize_compressed_def fw_inv_def)
next
  case join_serializer
  then have p': "p' = p\<lparr>pl_stage := Closed\<rparr>" by (simp add: finalize_close_def)
  show ?thesis unfolding p' using assms(4) join_serializer(1-3) by (simp add: pl_inv_def pl_stream_def)
qed

lemma pipe_run_inv:
  assumes "codec_pair cx dx" "dec = decode_chunk dx (codec_algorithm cx)"
    and "pipe_run cx p s q" "pl_inv cx dec p"
  shows "pl_inv cx dec q \<and> pl_stream dec q = pl_stream dec p @ s"
  using assms(3)
proof (induction rule: pipe_run.induct)
  case start
  then show ?case using assms(4) by simp
next
  case (step s q data q')
  with pipe_step_inv [OF assms(1,2) step(2)] show ?case by simp
qed

text \<open>A writer as the constructor makes it, with any chunk size.\<close>

lemma pipeline_start_inv:
  assumes "0 < chunksize" "chunksize < 2 ^ 32"
  shows "pl_inv cx dec (pipeline_start cx (file_writer_new chunksize))"
    and "pl_stream dec (pipeline_start cx (file_writer_new chunksize)) = []"
  using assms
  by (simp_all add: pl_inv_def pl_stream_def pipeline_start_def file_writer_set_def file_writer_new_def
      write_chunk_def fw_inv_def)

section \<open>Progress of finalization\<close>

definition stage_weight :: "stage \<Rightarrow> nat" where
  "stage_weight s = (case s of Recording \<Rightarrow> 3 | Joining_compressor \<Rightarrow> 2 | Joining_serializer \<Rightarrow> 1 | Closed \<Rightarrow> 0)"

definition work_left :: "pipeline \<Rightarrow> nat" where
  "work_left p = 4 * length (fw_uncompressed (pl_writer p)) + (if pl_comp p = None then 0 else 3) +
    2 * length (fw_compressed (pl_writer p)) + (if pl_ser p = None then 0 else 1) +
    of_bool (pl_comp_running p) + of_bool (pl_ser_running p) + stage_weight (pl_stage p)"

lemma compressor_work_measure:
  assumes "compressor_work cx p = Inr p'" "pl_comp p = Some x"
  shows "work_left p' < work_left p"
proof (cases "x = []")
  case True
  then have "p' = p\<lparr>pl_comp := None\<rparr>" using assms by (simp add: compressor_work_def)
  then show ?thesis using assms(2) by (simp add: work_left_def)
next
  case False
  then obtain y w where y: "compress_chunk cx x (pl_writer p) = Inr (y, w)"
      "p' = p\<lparr>pl_comp := None, pl_writer := hand_over y w\<rparr>"
    using assms by (auto simp: compressor_work_def)
  have "fw_uncompressed w = fw_uncompressed (pl_writer p)" "fw_compressed w = fw_compressed (pl_writer p)"
    using y(1) by (auto simp: compress_chunk_def)
  then show ?thesis
    unfolding y(2) using assms(2) by (simp add: work_left_def hand_over_def write_chunk_def)
qed

lemma finalizing_step_decreases:
  assumes "pipe_step cx p data p'" "pl_stage p \<noteq> Recording"
  shows "work_left p' < work_left p"
  using assms
proof (cases rule: pipe_step.cases)
  case take_uncompressed
  then show ?thesis
    by (cases "fw_uncompressed (pl_writer p)" rule: rev_cases) (auto simp: compressor_take_def work_left_def)
next
  case take_compressed
  then show ?thesis
    by (cases "fw_compressed (pl_writer p)" rule: rev_cases) (auto simp: serializer_take_def work_left_def)
next
  case compress
  then show ?thesis using compressor_work_measure by auto
next
  case serialize
  then obtain y where "pl_ser p = Some y" by blast
  then show ?thesis using serialize(2) by (cases "y = []") (simp_all add: serializer_work_def write_chunk_def work_left_def)
next
  case join_compressor
  then show ?thesis by (simp add: finalize_compressed_def work_left_def stage_weight_def)
next
  case join_serializer
  then have "p' = p\<lparr>pl_stage := Closed\<rparr>" by (simp add: finalize_close_def)
  with join_serializer(2) show ?thesis by (simp add: work_left_def stage_weight_def)
qed simp_all

lemma finalizing_step_stage:
  assumes "pipe_step cx p data p'" "pl_stage p \<noteq> Recording"
  shows "pl_stage p' \<noteq> Recording"
  using assms
  by (cases rule: pipe_step.cases)
    (auto simp: compressor_take_def compressor_work_def serializer_take_def serializer_work_def
      finalize_compressed_def finalize_close_def Let_def split: option.splits if_splits)

lemma compressor_work_total:
  assumes "codec_pair cx dx" "pl_inv cx dec p" "pl_comp p = Some x"
  shows "\<exists>p'. compressor_work cx p = Inr p'"
proof -
  have "length x < 2 ^ 32" using assms(2,3) by (auto simp: pl_inv_def)
  from codec_compress [OF assms(1) this] obtain y where "compress_payload cx x = Inr y" by blast
  then show ?thesis using assms(3) by (auto simp: compressor_work_def compress_chunk_def)
qed

lemma finalizing_step_exists:
  assumes "codec_pair cx dx" "pl_inv cx dec p" "pl_stage p \<noteq> Recording" "pl_stage p \<noteq> Closed"
  shows "\<exists>p'. pipe_step cx p [] p'"
proof (cases "pl_stage p = Joining_compressor")
  case True
  then have feed: "fw_done_feeding (pl_writer p)" using assms(2) by (auto simp: pl_inv_def)
  show ?thesis
  proof (cases "pl_comp_running p")
    case False
    then show ?thesis using pipe_step.join_compressor True by blast
  next
    case running: True
    show ?thesis
    proof (cases "pl_comp p")
      case None
      then show ?thesis using pipe_step.take_uncompressed running feed by blast
    next
      case (Some x)
      then show ?thesis using compressor_work_total [OF assms(1,2)] pipe_step.compress by blast
    qed
  qed
next
  case False
  then have stage: "pl_stage p = Joining_serializer" using assms(3,4) by (cases "pl_stage p") auto
  then have comp: "fw_done_compressing (pl_writer p)" using assms(2) by (auto simp: pl_inv_def)
  show ?thesis
  proof (cases "pl_ser_running p")
    case False
    then have "finalize_close p = Inr (p\<lparr>pl_stage := Closed\<rparr>)"
      using assms(2) comp by (auto simp: finalize_close_def pl_inv_def)
    then show ?thesis using pipe_step.join_serializer stage False by blast
  next
    case True
    then show ?thesis using pipe_step.take_compressed pipe_step.serialize comp by blast
  qed
qed

lemma pipe_run_trans:
  "pipe_run cx q t r \<Longrightarrow> pipe_run cx p s q \<Longrightarrow> pipe_run cx p (s @ t) r"
proof (induction rule: pipe_run.induct)
  case (step t q' data q'')
  then show ?case using pipe_run.step [of cx p "s @ t"] by simp
qed simp

lemma finalizing_closes:
  assumes "codec_pair cx dx" "dec = decode_chunk dx (codec_algorithm cx)"
    and "pl_inv cx dec p" "pl_stage p \<noteq> Recording"
  shows "\<exists>q. pipe_run cx p [] q \<and> pl_stage q = Closed"
  using assms(3,4)
proof (induction "work_left p" arbitrary: p rule: less_induct)
  case less
  show ?case
  proof (cases "pl_stage p = Closed")
    case True
    then show ?thesis using pipe_run.start by blast
  next
    case False
    from finalizing_step_exists [OF assms(1) less.prems this] obtain p' where p': "pipe_step cx p [] p'"
      by blast
    have "pl_inv cx dec p'" using pipe_step_inv [OF assms(1,2) p' less.prems(1)] by blast
    moreover have "pl_stage p' \<noteq> Recording" using finalizing_step_stage p' less.prems(2) by blast
    moreover have "work_left p' < work_left p" using finalizing_step_decreases p' less.prems(2) by blast
    ultimately obtain q where "pipe_run cx p' [] q" "pl_stage q = Closed" using less.hyps by blast
    with pipe_run_trans [of cx p' "[]" q p "[]"] pipe_run.step [OF pipe_run.start p'] show ?thesis by auto
  qed
qed

section \<open>From the recording thread to the reader\<close>

lemma closed_stream:
  assumes "pl_inv cx dec p" "pl_stage p = Closed"
  shows "pl_stream dec p = concat (map dec (tl (fw_file (pl_writer p))))"
    and "concat (fw_file (pl_writer p)) = stream_header (cx_type cx) @ concat (tl (fw_file (pl_writer p)))"
    and "list_all2 (encoded cx) (map dec (tl (fw_file (pl_writer p)))) (tl (fw_file (pl_writer p)))"
    and "\<forall>x\<in>set (map dec (tl (fw_file (pl_writer p)))). x \<noteq> []"
proof -
  show "pl_stream dec p = concat (map dec (tl (fw_file (pl_writer p))))"
    using assms by (auto simp: pl_inv_def pl_stream_def)
  show "concat (fw_file (pl_writer p)) = stream_header (cx_type cx) @ concat (tl (fw_file (pl_writer p)))"
    using assms(1) by (cases "fw_file (pl_writer p)") (auto simp: pl_inv_def fw_inv_def)
  show "list_all2 (encoded cx) (map dec (tl (fw_file (pl_writer p)))) (tl (fw_file (pl_writer p)))"
    using assms(1) by (auto simp: pl_inv_def chunk_ok_def list_all2_conv_all_nth)
  show "\<forall>x\<in>set (map dec (tl (fw_file (pl_writer p)))). x \<noteq> []"
    using assms(1) by (auto simp: pl_inv_def chunk_ok_def)
qed

lemma known_compression_byte: "known_algorithm (compression_byte ct)"
  by (cases ct) (simp_all add: known_algorithm_def)

lemma init_header:
  assumes "0 < n"
  shows "\<exists>r. file_reader_init (stream_header ct @ body) n n stall = Inr r \<and> fr_compressed r = body \<and>
    fr_total_left r = length body \<and> fr_algorithm r = compression_byte ct \<and> fr_version r = 3 \<and>
    fr_data r = [] \<and> fr_read r = 0 \<and> fr_total_uncompressed r = n \<and> fr_wanted r = n \<and> \<not> fr_done r"
  using assms known_compression_byte [of ct]
  by (simp add: file_reader_init_def stream_header_def magic_word_def Let_def)

section \<open>Properties\<close>

text \<open>C2: the capture-to-replay round trip over all interleavings.  Take a recording with the
  default threading, any chunk size, and any schedule of the recording, compressor and serializer
  threads that ends with the file closed, and let \<open>s\<close> be the bytes the recording thread wrote, in
  order.  Then the file is accepted by \<open>file_reader\<close>, opened with the recorded size, and the
  decompressor delivers exactly \<open>s\<close>.  The hypothesis on the libraries is that decompressing gives
  back what was compressed.\<close>

theorem recorded_stream_is_replayed:
  assumes "codec_pair cx dx" "0 < chunksize" "chunksize < 2 ^ 32"
    and "pipe_run cx (pipeline_start cx (file_writer_new chunksize)) s p"
    and "pl_stage p = Closed" "s \<noteq> []"
  shows "\<exists>r r'. file_reader_init (concat (fw_file (pl_writer p))) (length s) (length s) stall = Inr r \<and>
    decompressor dx r = Inr r' \<and> fr_rest r' = s \<and> fr_good r' \<and> fr_done r' \<and> fr_version r = 3"
proof -
  define dec where "dec = decode_chunk dx (codec_algorithm cx)"
  have inv: "pl_inv cx dec p" "pl_stream dec p = s"
    using pipe_run_inv [OF assms(1) dec_def assms(4) pipeline_start_inv(1) [OF assms(2,3)]]
      pipeline_start_inv(2) [OF assms(2,3)] by auto
  note closed = closed_stream [OF inv(1) assms(5)]
  let ?chunks = "tl (fw_file (pl_writer p))"
  obtain r where r: "file_reader_init (concat (fw_file (pl_writer p))) (length s) (length s) stall = Inr r"
      "fr_compressed r = concat ?chunks" "fr_total_left r = length (concat ?chunks)"
      "fr_algorithm r = codec_algorithm cx" "fr_version r = 3" "fr_data r = []" "fr_read r = 0"
      "fr_total_uncompressed r = length s" "fr_wanted r = length s" "\<not> fr_done r"
    using init_header [of "length s" "cx_type cx" "concat ?chunks" stall] assms(6) closed(2) by auto
  have s: "s = concat (map dec ?chunks)" using closed(1) inv(2) by simp
  obtain r' where "decompressor dx r = Inr r'" "fr_data r' = s" "fr_read r' = 0" "fr_done r'"
    using decompressor_all [OF assms(1) closed(3) r(4,2,3)] r s assms(6) by auto
  with r(1,5) show ?thesis by (auto simp: fr_rest_def fr_good_def)
qed

definition sample_schedule :: "turn list" where
  "sample_schedule = [Write [1, 2, 3], Finalize, Compressor, Compressor, Compressor, Finalize,
    Serializer, Serializer, Serializer, Finalize]"

lemma sample_recording:
  "\<exists>p. pipe_run plain_codec (pipeline_start plain_codec (file_writer_new 8)) [1, 2, 3] p \<and>
    pl_stage p = Joining_compressor"
proof -
  have "case run_schedule plain_codec (take 2 sample_schedule) [] (pipeline_start plain_codec (file_writer_new 8)) of
      Inl _ \<Rightarrow> False | Inr (s, p) \<Rightarrow> s = [1, 2, 3] \<and> pl_stage p = Joining_compressor"
    by code_simp
  from run_schedule_reaches [OF this] show ?thesis by blast
qed

lemma sample_closed:
  "\<exists>p. pipe_run plain_codec (pipeline_start plain_codec (file_writer_new 8)) [1, 2, 3] p \<and> pl_stage p = Closed"
proof -
  have "case run_schedule plain_codec sample_schedule [] (pipeline_start plain_codec (file_writer_new 8)) of
      Inl _ \<Rightarrow> False | Inr (s, p) \<Rightarrow> s = [1, 2, 3] \<and> pl_stage p = Closed"
    by code_simp
  from run_schedule_reaches [OF this] show ?thesis by blast
qed

theorem recorded_stream_is_replayed_witness:
  "\<exists>p r r'. pipe_run plain_codec (pipeline_start plain_codec (file_writer_new 8)) [1, 2, 3] p \<and>
    file_reader_init (concat (fw_file (pl_writer p))) (length [1 :: u8, 2, 3]) (length [1 :: u8, 2, 3]) False = Inr r \<and>
    decompressor plain_decoder r = Inr r' \<and> fr_rest r' = [1, 2, 3]"
proof -
  obtain p where p: "pipe_run plain_codec (pipeline_start plain_codec (file_writer_new 8)) [1, 2, 3] p"
      "pl_stage p = Closed"
    using sample_closed by blast
  with recorded_stream_is_replayed [OF plain.libraries _ _ p, of False] show ?thesis by auto
qed

text \<open>C22: finalizing never gets stuck and always ends.  In every state that a recording can reach
  after \<open>finalize\<close> has handed over the last chunk and before the file is closed, some thread can
  take a step, and every step of any thread takes strictly less work to the end; so under every
  schedule \<open>finalize\<close> returns, its assertions that the lists are empty included.\<close>

theorem finalize_terminates:
  assumes "codec_pair cx dx" "0 < chunksize" "chunksize < 2 ^ 32"
    and "pipe_run cx (pipeline_start cx (file_writer_new chunksize)) s p" "pl_stage p \<noteq> Recording"
  shows "(pl_stage p \<noteq> Closed \<longrightarrow> (\<exists>p'. pipe_step cx p [] p')) \<and>
    (\<forall>data p'. pipe_step cx p data p' \<longrightarrow> work_left p' < work_left p) \<and>
    (\<exists>q. pipe_run cx p [] q \<and> pl_stage q = Closed)"
proof -
  have inv: "pl_inv cx (decode_chunk dx (codec_algorithm cx)) p"
    using pipe_run_inv [OF assms(1) refl assms(4) pipeline_start_inv(1) [OF assms(2,3)]] by blast
  show ?thesis
    using finalizing_step_exists [OF assms(1) inv assms(5)] finalizing_step_decreases assms(5)
      finalizing_closes [OF assms(1) refl inv assms(5)] by blast
qed

theorem finalize_terminates_witness:
  "\<exists>p q. pipe_run plain_codec (pipeline_start plain_codec (file_writer_new 8)) [1, 2, 3] p \<and>
    pl_stage p = Joining_compressor \<and> (\<exists>p'. pipe_step plain_codec p [] p') \<and>
    pipe_run plain_codec p [] q \<and> pl_stage q = Closed"
proof -
  have small: "(0 :: nat) < 8" "(8 :: nat) < 2 ^ 32" by simp_all
  obtain p where p: "pipe_run plain_codec (pipeline_start plain_codec (file_writer_new 8)) [1, 2, 3] p"
      "pl_stage p = Joining_compressor"
    using sample_recording by blast
  with finalize_terminates [OF plain.libraries small p(1)] show ?thesis by auto
qed

text \<open>The state of a writer whose compression thread was switched off, as the option
  \<open>p__disable_multithread_compress\<close> does before the file is opened; \<open>set\<close> starts the thread all
  the same.\<close>

definition single_threaded_start :: "codec \<Rightarrow> nat \<Rightarrow> pipeline" where
  "single_threaded_start cx chunksize =
    pipeline_start cx ((file_writer_new chunksize)\<lparr>fw_mt_compress := False\<rparr>)"

text \<open>With \<open>multithreaded_compress\<close> off, chunks change places.  A packet that spans two
  chunks is held back while it is recorded and then put on the list of the compressor thread, while
  \<open>finalize\<close> compresses the last chunk itself: recording the bytes 1, 2, 3, 4 with a chunk size of 2
  has a schedule whose file holds them in the order 3, 4, 1, 2.\<close>

theorem single_threaded_compress_reorders:
  "\<exists>p. pipe_run plain_codec (single_threaded_start plain_codec 2) [1, 2, 3, 4] p \<and> pl_stage p = Closed \<and>
    concat (map (decode_chunk plain_decoder (codec_algorithm plain_codec)) (tl (fw_file (pl_writer p)))) =
      [3, 4, 1, 2]"
proof -
  let ?turns = "[Write [1, 2], Freeze, Write [3, 4], Thaw, Finalize, Compressor, Compressor, Compressor, Finalize,
    Serializer, Serializer, Serializer, Serializer, Serializer, Finalize]"
  have "case run_schedule plain_codec ?turns [] (single_threaded_start plain_codec 2) of
      Inl _ \<Rightarrow> False
    | Inr (s, p) \<Rightarrow> s = [1, 2, 3, 4] \<and> pl_stage p = Closed \<and>
        concat (map (decode_chunk plain_decoder (codec_algorithm plain_codec)) (tl (fw_file (pl_writer p)))) =
          [3, 4, 1, 2]"
    by code_simp
  from run_schedule_reaches [OF this] show ?thesis by blast
qed

end
