(* ===== verification/Json.thy ===== *)
theory Json
  imports Prelude "HOL-Library.AList"
begin

text \<open>JSON values as the program uses them through jsoncpp's \<open>Json::Value\<close>, after the vendored
  \<^verbatim>\<open>external/jsoncpp/src/lib_json/json_value.cpp\<close>.  \<open>JReal m k\<close> is the real number \<open>m\<close> divided by \<open>2 ^ k\<close>, which every
  finite floating point number is; infinities and not-a-number are refused by all functions below like a real number
  that is too large.  Looking up a member of a value that is neither an object nor null fails an assertion of the
  library.\<close>

datatype json =
    JNull
  | JBool bool
  | JInt int
  | JReal int nat
  | JString string
  | JArray "json list"
  | JObject "(string \<times> json) list"

text \<open>\<open>operator[]\<close> of a constant value and \<open>isMember\<close>: a member that is absent is null.\<close>

definition json_get :: "string \<Rightarrow> json \<Rightarrow> json result" where
  "json_get k v = (case v of
     JObject kvs \<Rightarrow> Inr (case map_of kvs k of None \<Rightarrow> JNull | Some x \<Rightarrow> x)
   | JNull \<Rightarrow> Inr JNull
   | _ \<Rightarrow> Inl Aborted)"

definition json_is_member :: "string \<Rightarrow> json \<Rightarrow> bool result" where
  "json_is_member k v = (case v of
     JObject kvs \<Rightarrow> Inr (map_of kvs k \<noteq> None)
   | JNull \<Rightarrow> Inr False
   | _ \<Rightarrow> Inl Aborted)"

definition json_is_array :: "json \<Rightarrow> bool" where
  "json_is_array v = (case v of JArray _ \<Rightarrow> True | _ \<Rightarrow> False)"

definition json_elements :: "json \<Rightarrow> json list" where
  "json_elements v = (case v of JArray xs \<Rightarrow> xs | _ \<Rightarrow> [])"

definition json_is_object :: "json \<Rightarrow> bool" where
  "json_is_object v = (case v of JObject _ \<Rightarrow> True | _ \<Rightarrow> False)"

text \<open>\<open>isUInt\<close> and \<open>isUInt64\<close> accept an integer in the range, also as a real number.\<close>

definition json_is_uint :: "nat \<Rightarrow> json \<Rightarrow> bool" where
  "json_is_uint bits v = (case v of
     JInt i \<Rightarrow> 0 \<le> i \<and> i < 2 ^ bits
   | JReal m k \<Rightarrow> 0 \<le> m \<and> m < 2 ^ bits * 2 ^ k \<and> m mod 2 ^ k = 0
   | _ \<Rightarrow> False)"

text \<open>\<open>asUInt\<close> and \<open>asUInt64\<close>: a real number is cut to an integer, null is zero, and a number outside the range, a string,
  an array or an object throws.\<close>

definition json_as_uint :: "nat \<Rightarrow> json \<Rightarrow> nat result" where
  "json_as_uint bits v = (case v of
     JInt i \<Rightarrow> if 0 \<le> i \<and> i < 2 ^ bits then Inr (nat i) else Inl Aborted
   | JReal m k \<Rightarrow> if 0 \<le> m \<and> m \<le> (2 ^ bits - 1) * 2 ^ k then Inr (nat (m div 2 ^ k)) else Inl Aborted
   | JNull \<Rightarrow> Inr 0
   | JBool b \<Rightarrow> Inr (if b then 1 else 0)
   | _ \<Rightarrow> Inl Aborted)"

text \<open>A value that passes the test is converted.\<close>

lemma json_is_uint_as:
  assumes "json_is_uint bits v"
  shows "\<exists>n. json_as_uint bits v = Inr n \<and> n < 2 ^ bits"
proof (cases v)
  case (JInt i)
  then show ?thesis using assms by (auto simp: json_is_uint_def json_as_uint_def nat_less_iff)
next
  case (JReal m k)
  have m: "0 \<le> m" "m < 2 ^ bits * 2 ^ k" "m mod 2 ^ k = 0" using assms by (simp_all add: JReal json_is_uint_def)
  then obtain n where n: "m = n * 2 ^ k" by (metis dvd_div_mult_self mod_eq_0_iff_dvd)
  then have "0 \<le> n" "n < 2 ^ bits" using m(1,2) by (simp_all add: zero_le_mult_iff)
  then show ?thesis using n by (simp add: JReal json_as_uint_def nat_less_iff)
qed (use assms in \<open>simp_all add: json_is_uint_def\<close>)

end
