(* ===== verification/RandomAccess.thy ===== *)
theory RandomAccess
  imports Pipeline Json
begin

text \<open>The seekable reader of a stream: the class \<open>random_access_file_reader\<close> of
  \<^verbatim>\<open>src/random_access_file_reader.h\<close> and \<^verbatim>\<open>src/random_access_file_reader.cpp\<close>.  Opening scans the chunk
  headers; reads find the chunk of the current position by binary search, decompress it unless it
  is the one held, and copy.  Positions and sizes are natural numbers below \<open>2 ^ 64\<close>.\<close>

section \<open>State\<close>

record random_access_chunk_info =
  ci_compressed_offset :: nat
  ci_compressed_size :: nat
  ci_uncompressed_offset :: nat
  ci_uncompressed_size :: nat

record packet_checkpoint =
  cp_packet :: nat
  cp_position :: nat

record random_access_file_reader =
  ra_mapped :: bytes
  ra_chunks :: "random_access_chunk_info list"
  ra_checkpoints :: "packet_checkpoint list"
  ra_chunk_data :: bytes
  ra_total :: nat
  ra_position :: nat
  ra_loaded :: "nat option"
  ra_decompressions :: nat
  ra_algorithm :: u8
  ra_version :: u8

section \<open>Opening\<close>

text \<open>The scan over the chunk headers; \<open>rest\<close> is the mapped file from \<open>stream_offset\<close> on.\<close>

function scan_chunks :: "bytes \<Rightarrow> nat \<Rightarrow> nat \<Rightarrow> random_access_chunk_info list result" where
  "scan_chunks rest stream_offset uncompressed_offset =
    (if rest = [] then Inr []
     else if length rest < 16 then Inl Aborted
     else
       let compressed_size = unat (take_le 8 rest :: u64);
           uncompressed_size = unat (take_le 8 (drop 8 rest) :: u64)
       in if compressed_size = 0 \<or> uncompressed_size = 0 then Inl Aborted
          else if compressed_size > length rest - 16 then Inl Aborted
          else if uncompressed_size + uncompressed_offset \<ge> 2 ^ 64 then Inl Aborted
          else result_bind (scan_chunks (drop (16 + compressed_size) rest)
                 (stream_offset + 16 + compressed_size) (uncompressed_offset + uncompressed_size)) (\<lambda>infos.
               Inr (\<lparr>ci_compressed_offset = stream_offset + 16, ci_compressed_size = compressed_size,
                     ci_uncompressed_offset = uncompressed_offset,
                     ci_uncompressed_size = uncompressed_size\<rparr> # infos)))"
  by pat_completeness auto
termination by (relation "measure (\<lambda>(rest, _, _). length rest)") auto

declare scan_chunks.simps [simp del]

definition chunks_end :: "random_access_chunk_info list \<Rightarrow> nat" where
  "chunks_end infos = (if infos = [] then 0
    else ci_uncompressed_offset (last infos) + ci_uncompressed_size (last infos))"

definition ra_initialize :: "bytes \<Rightarrow> random_access_file_reader result" where
  "ra_initialize file =
    (if file = [] then Inl Aborted
     else
       let has_magic = (length file \<ge> length magic_word \<and> take (length magic_word) file = magic_word);
           header_size = length magic_word + 32
       in if has_magic \<and> length file < header_size then Inl Aborted
          else
            let version = (if has_magic then file ! length magic_word else 0);
                algorithm = (if has_magic then file ! (length magic_word + 1)
                             else compression_byte LAVATUBE_COMPRESSION_DENSITY);
                stream_offset = (if has_magic then header_size else 0)
            in if \<not> known_algorithm algorithm then Inl Aborted
               else result_bind (scan_chunks (drop stream_offset file) stream_offset 0) (\<lambda>infos.
                 if infos = [] then Inl Aborted
                 else Inr \<lparr>ra_mapped = file, ra_chunks = infos, ra_checkpoints = [], ra_chunk_data = [],
                        ra_total = chunks_end infos, ra_position = 0, ra_loaded = None,
                        ra_decompressions = 0, ra_algorithm = algorithm, ra_version = version\<rparr>))"

section \<open>Reading\<close>

text \<open>The binary search both \<open>find_chunk\<close> and \<open>seek_to_packet\<close> run: the number of elements at the
  front of the list for which the test holds.\<close>

function search_first :: "(nat \<Rightarrow> bool) \<Rightarrow> nat \<Rightarrow> nat \<Rightarrow> nat" where
  "search_first below first last' =
    (if first < last' then
       let middle = first + (last' - first) div 2 in
       if below middle then search_first below (middle + 1) last' else search_first below first middle
     else first)"
  by pat_completeness auto
termination by (relation "measure (\<lambda>(_, first, last'). last' - first)") auto

declare search_first.simps [simp del]

definition find_chunk :: "random_access_file_reader \<Rightarrow> nat \<Rightarrow> nat result" where
  "find_chunk ra position = assert_that (position < ra_total ra)
    (let first = search_first (\<lambda>m. ci_uncompressed_offset (ra_chunks ra ! m) \<le> position) 0 (length (ra_chunks ra))
     in assert_that (first > 0) (Inr (first - 1)))"

abbreviation INT_MAX :: nat where "INT_MAX \<equiv> 2 ^ 31 - 1"

definition load_payload :: "decoder \<Rightarrow> random_access_file_reader \<Rightarrow> random_access_chunk_info \<Rightarrow> bytes result" where
  "load_payload dx ra info =
    (let source = drop (ci_compressed_offset info) (ra_mapped ra);
         csize = ci_compressed_size info; usize = ci_uncompressed_size info in
     if ra_algorithm ra = compression_byte LAVATUBE_COMPRESSION_DENSITY then
       (case dx_density dx (take csize source) usize of
          None \<Rightarrow> Inl Aborted | Some out \<Rightarrow> if length out \<noteq> usize then Inl Aborted else Inr out)
     else if ra_algorithm ra = compression_byte LAVATUBE_COMPRESSION_LZ4 then
       if csize > INT_MAX \<or> usize > INT_MAX then Inl Aborted
       else (case dx_lz4 dx (take csize source) usize of
               None \<Rightarrow> Inl Aborted | Some out \<Rightarrow> if length out \<noteq> usize then Inl Aborted else Inr out)
     else assert_that (ra_algorithm ra = compression_byte LAVATUBE_COMPRESSION_UNCOMPRESSED)
       (if csize \<noteq> usize \<and> \<not> (usize < 2 ^ 64 - 16 \<and> csize = usize + 16) then Inl Aborted
        else Inr (take usize source)))"

definition load_chunk :: "decoder \<Rightarrow> nat \<Rightarrow> random_access_file_reader \<Rightarrow> random_access_file_reader result" where
  "load_chunk dx i ra =
    (if ra_loaded ra = Some i then Inr ra
     else if length (ra_chunks ra) \<le> i then Inl Out_of_range
     else result_bind (load_payload dx ra (ra_chunks ra ! i)) (\<lambda>data.
       Inr (ra\<lparr>ra_chunk_data := data, ra_loaded := Some i, ra_decompressions := ra_decompressions ra + 1\<rparr>)))"

definition seek :: "nat \<Rightarrow> random_access_file_reader \<Rightarrow> random_access_file_reader result" where
  "seek position ra = (if position > ra_total ra then Inl Aborted else Inr (ra\<lparr>ra_position := position\<rparr>))"

text \<open>The copy loop.  A round copies at least one byte, so \<open>byte_count\<close> rounds are enough; running out
  of rounds stands for a loop that does not end.\<close>

fun read_rounds :: "decoder \<Rightarrow> nat \<Rightarrow> nat \<Rightarrow> random_access_file_reader \<Rightarrow> (bytes \<times> random_access_file_reader) result" where
  "read_rounds dx 0 byte_count ra = (if byte_count = 0 then Inr ([], ra) else Inl Out_of_range)"
| "read_rounds dx (Suc rounds) byte_count ra =
    (if byte_count = 0 then Inr ([], ra)
     else
       result_bind (find_chunk ra (ra_position ra)) (\<lambda>i.
       result_bind (load_chunk dx i ra) (\<lambda>ra1.
         let info = ra_chunks ra1 ! i;
             off = ra_position ra1 - ci_uncompressed_offset info;
             available = ci_uncompressed_size info - off;
             copy_size = min byte_count available
         in result_bind (read_rounds dx rounds (byte_count - copy_size)
              (ra1\<lparr>ra_position := ra_position ra1 + copy_size\<rparr>)) (\<lambda>(out, ra2).
            Inr (take copy_size (drop off (ra_chunk_data ra1)) @ out, ra2)))))"

definition ra_read_bytes :: "decoder \<Rightarrow> nat \<Rightarrow> random_access_file_reader \<Rightarrow> (bytes \<times> random_access_file_reader) result" where
  "ra_read_bytes dx byte_count ra =
    (if byte_count > ra_total ra - ra_position ra then Inl Aborted
     else read_rounds dx byte_count byte_count ra)"

definition ra_read_string :: "decoder \<Rightarrow> random_access_file_reader \<Rightarrow> (bytes \<times> random_access_file_reader) result" where
  "ra_read_string dx ra = result_bind (read_value (ra_read_bytes dx) 2 ra) (\<lambda>(len :: u16, ra).
    if len > 0 then ra_read_bytes dx (unat len) ra else Inr ([], ra))"

section \<open>Packet checkpoints\<close>

text \<open>A member that has to be an unsigned integer of some width.\<close>

definition uint_member :: "nat \<Rightarrow> string \<Rightarrow> json \<Rightarrow> nat result" where
  "uint_member bits k v = result_bind (json_is_member k v) (\<lambda>there. if \<not> there then Inl Aborted else
    result_bind (json_get k v) (\<lambda>x. if \<not> json_is_uint bits x then Inl Aborted else json_as_uint bits x))"

text \<open>The checks on one entry, given the entries accepted before it, newest first.\<close>

definition checkpoint_entry :: "nat \<Rightarrow> packet_checkpoint list \<Rightarrow> json \<Rightarrow> packet_checkpoint result" where
  "checkpoint_entry limit before v =
    (if \<not> json_is_object v then Inl Aborted
     else
       result_bind (uint_member 32 ''packet'' v) (\<lambda>packet.
       result_bind (uint_member 64 ''position'' v) (\<lambda>position.
         if position \<ge> limit then Inl Aborted
         else if before = [] \<and> (packet \<noteq> 0 \<or> position \<noteq> 0) then Inl Aborted
         else if before \<noteq> [] \<and> (packet \<le> cp_packet (hd before) \<or> position \<le> cp_position (hd before))
         then Inl Aborted
         else Inr \<lparr>cp_packet = packet, cp_position = position\<rparr>)))"

fun load_checkpoints :: "nat \<Rightarrow> packet_checkpoint list \<Rightarrow> json list \<Rightarrow> packet_checkpoint list result" where
  "load_checkpoints limit before [] = Inr (rev before)"
| "load_checkpoints limit before (v # vs) =
    result_bind (checkpoint_entry limit before v) (\<lambda>c. load_checkpoints limit (c # before) vs)"

definition load_packet_checkpoints :: "json \<Rightarrow> random_access_file_reader \<Rightarrow> random_access_file_reader result" where
  "load_packet_checkpoints frame_info ra =
    result_bind (json_is_member ''packet_checkpoints'' frame_info) (\<lambda>there.
    if \<not> there then Inr (ra\<lparr>ra_checkpoints := []\<rparr>)
    else result_bind (json_get ''packet_checkpoints'' frame_info) (\<lambda>vs.
      if \<not> json_is_array vs then Inl Aborted
      else result_bind (load_checkpoints (ra_total ra) [] (json_elements vs)) (\<lambda>cs.
        Inr (ra\<lparr>ra_checkpoints := cs\<rparr>))))"

definition seek_to_packet :: "nat \<Rightarrow> random_access_file_reader \<Rightarrow> (nat \<times> random_access_file_reader) result" where
  "seek_to_packet packet ra =
    (if ra_checkpoints ra = [] then result_bind (seek 0 ra) (\<lambda>ra. Inr (0, ra))
     else
       let first = search_first (\<lambda>m. cp_packet (ra_checkpoints ra ! m) \<le> packet) 0 (length (ra_checkpoints ra))
       in assert_that (first > 0)
         (let c = ra_checkpoints ra ! (first - 1)
          in result_bind (seek (cp_position c) ra) (\<lambda>ra. Inr (cp_packet c, ra))))"

section \<open>Search\<close>

lemma search_first_correct:
  assumes "\<And>m m'. m < m' \<Longrightarrow> m' < n \<Longrightarrow> below m' \<Longrightarrow> below m"
    and "first \<le> last'" "last' \<le> n" "\<forall>m<first. below m" "\<forall>m. last' \<le> m \<and> m < n \<longrightarrow> \<not> below m"
  shows "search_first below first last' \<le> n \<and> (\<forall>m < search_first below first last'. below m) \<and>
    (\<forall>m. search_first below first last' \<le> m \<and> m < n \<longrightarrow> \<not> below m)"
  using assms
proof (induction below first last' rule: search_first.induct)
  case (1 below first last')
  define middle where "middle = first + (last' - first) div 2"
  show ?case
  proof (cases "first < last'")
    case False
    then have "search_first below first last' = first" by (subst search_first.simps) simp
    then show ?thesis using False 1(4-7) by simp
  next
    case True
    then have mid: "first \<le> middle" "middle < last'" by (auto simp: middle_def)
    show ?thesis
    proof (cases "below middle")
      case below: True
      have eq: "search_first below first last' = search_first below (middle + 1) last'"
        using True below by (simp add: search_first.simps [of below first last'] middle_def)
      have "\<forall>m<middle + 1. below m"
        using 1(3) [of _ middle] below mid 1(5) by (metis less_Suc_eq Suc_eq_plus1 le_trans less_le_trans)
      then show ?thesis
        unfolding eq using 1(5,7) mid by (intro 1(1) [OF True middle_def below 1(3)]) auto
    next
      case above: False
      have eq: "search_first below first last' = search_first below first middle"
        using True above by (simp add: search_first.simps [of below first last'] middle_def)
      have "\<forall>m. middle \<le> m \<and> m < n \<longrightarrow> \<not> below m"
        using 1(3) [of middle] above by (metis le_neq_implies_less)
      then show ?thesis
        unfolding eq using 1(5,6) mid by (intro 1(2) [OF True middle_def above 1(3)]) auto
    qed
  qed
qed

section \<open>Invariant\<close>

fun contiguous :: "nat \<Rightarrow> random_access_chunk_info list \<Rightarrow> bool" where
  "contiguous off [] = True"
| "contiguous off (i # is) = (ci_uncompressed_offset i = off \<and> 0 < ci_uncompressed_size i \<and>
    contiguous (off + ci_uncompressed_size i) is)"

definition payload :: "decoder \<Rightarrow> random_access_file_reader \<Rightarrow> random_access_chunk_info \<Rightarrow> bytes" where
  "payload dx ra info = (case load_payload dx ra info of Inl _ \<Rightarrow> [] | Inr b \<Rightarrow> b)"

definition ra_stream :: "decoder \<Rightarrow> random_access_file_reader \<Rightarrow> bytes" where
  "ra_stream dx ra = concat (map (payload dx ra) (ra_chunks ra))"

definition ra_inv :: "decoder \<Rightarrow> random_access_file_reader \<Rightarrow> bool" where
  "ra_inv dx ra \<longleftrightarrow> contiguous 0 (ra_chunks ra) \<and>
    ra_total ra = sum_list (map ci_uncompressed_size (ra_chunks ra)) \<and>
    ra_position ra \<le> ra_total ra \<and>
    (\<forall>info\<in>set (ra_chunks ra). load_payload dx ra info = Inr (payload dx ra info) \<and>
      length (payload dx ra info) = ci_uncompressed_size info) \<and>
    (\<forall>i. ra_loaded ra = Some i \<longrightarrow> i < length (ra_chunks ra) \<and>
      ra_chunk_data ra = payload dx ra (ra_chunks ra ! i))"

lemma contiguous_offset:
  "contiguous off is \<Longrightarrow> i < length is \<Longrightarrow>
    ci_uncompressed_offset (is ! i) = off + sum_list (map ci_uncompressed_size (take i is)) \<and>
    0 < ci_uncompressed_size (is ! i)"
proof (induction off "is" arbitrary: i rule: contiguous.induct)
  case (2 off a "is")
  then show ?case by (cases i) auto
qed simp

lemma sum_take_split:
  "i < length xs \<Longrightarrow> sum_list (map f xs) =
    sum_list (map f (take i xs)) + f (xs ! i) + sum_list (map f (drop (Suc i) xs))" for f :: "_ \<Rightarrow> nat"
  by (subst id_take_nth_drop, assumption) (simp add: add.assoc)

lemma sum_take_Suc:
  "i < length xs \<Longrightarrow> sum_list (map f (take (Suc i) xs)) = sum_list (map f (take i xs)) + f (xs ! i)" for f :: "_ \<Rightarrow> nat"
  by (simp add: take_Suc_conv_app_nth)

lemma sum_take_mono:
  "i \<le> j \<Longrightarrow> sum_list (map f (take i xs)) \<le> sum_list (map f (take j xs))" for f :: "_ \<Rightarrow> nat"
  by (metis le_add1 le_add_diff_inverse map_append sum_list_append take_add)

lemma find_chunk_ok:
  assumes "ra_inv dx ra" "position < ra_total ra"
  obtains i where "find_chunk ra position = Inr i" "i < length (ra_chunks ra)"
    "sum_list (map ci_uncompressed_size (take i (ra_chunks ra))) \<le> position"
    "position < sum_list (map ci_uncompressed_size (take i (ra_chunks ra))) + ci_uncompressed_size (ra_chunks ra ! i)"
proof -
  let ?is = "ra_chunks ra" and ?n = "length (ra_chunks ra)"
  let ?below = "\<lambda>m. ci_uncompressed_offset (?is ! m) \<le> position"
  let ?sum = "\<lambda>i. sum_list (map ci_uncompressed_size (take i ?is))"
  define k where "k = search_first ?below 0 ?n"
  have off: "ci_uncompressed_offset (?is ! m) = ?sum m" if "m < ?n" for m
    using contiguous_offset [OF _ that] assms(1) by (auto simp: ra_inv_def)
  have mono: "?below m" if "m < m'" "m' < ?n" "?below m'" for m m'
    using that off sum_take_mono [of m m' ci_uncompressed_size ?is] by simp
  have k: "k \<le> ?n \<and> (\<forall>m<k. ?below m) \<and> (\<forall>m. k \<le> m \<and> m < ?n \<longrightarrow> \<not> ?below m)"
    unfolding k_def by (rule search_first_correct [OF mono]) auto
  have "0 < ?n" using assms by (auto simp: ra_inv_def)
  have "k \<noteq> 0"
  proof
    assume "k = 0"
    with k \<open>0 < ?n\<close> off [of 0] show False by auto
  qed
  have total: "ra_total ra = ?sum ?n" using assms(1) by (simp add: ra_inv_def)
  have upper: "position < ?sum k"
  proof (cases "k < ?n")
    case True
    then show ?thesis using k off by (metis le_refl not_le)
  next
    case False
    then have "k = ?n" using k by linarith
    then show ?thesis using total assms(2) by (simp only:)
  qed
  have step: "?sum k = ?sum (k - 1) + ci_uncompressed_size (?is ! (k - 1))"
    using sum_take_Suc [of "k - 1" ?is ci_uncompressed_size] \<open>k \<noteq> 0\<close> conjunct1 [OF k] by simp
  have "find_chunk ra position = Inr (k - 1)" using assms(2) \<open>k \<noteq> 0\<close> by (simp add: find_chunk_def Let_def k_def)
  moreover have "k - 1 < ?n" using \<open>k \<noteq> 0\<close> k by linarith
  moreover have "?sum (k - 1) \<le> position"
  proof -
    have "?below (k - 1)" using k \<open>k \<noteq> 0\<close> by simp
    with off [OF calculation(2)] show ?thesis by simp
  qed
  moreover have "position < ?sum (k - 1) + ci_uncompressed_size (?is ! (k - 1))" using upper step by simp
  ultimately show ?thesis by (rule that)
qed

lemma load_payload_dep:
  "ra_mapped ra = ra_mapped ra' \<Longrightarrow> ra_algorithm ra = ra_algorithm ra' \<Longrightarrow> load_payload dx ra = load_payload dx ra'"
  by (rule ext) (simp only: load_payload_def)

lemma load_payload_cong [simp]:
  "load_payload dx (ra\<lparr>ra_chunk_data := a, ra_loaded := b, ra_decompressions := c\<rparr>) = load_payload dx ra"
  "load_payload dx (ra\<lparr>ra_position := d\<rparr>) = load_payload dx ra"
  "load_payload dx (ra\<lparr>ra_checkpoints := e\<rparr>) = load_payload dx ra"
  by (rule load_payload_dep; simp)+

lemma payload_cong [simp]:
  "payload dx (ra\<lparr>ra_chunk_data := a, ra_loaded := b, ra_decompressions := c\<rparr>) = payload dx ra"
  "payload dx (ra\<lparr>ra_position := d\<rparr>) = payload dx ra"
  "payload dx (ra\<lparr>ra_checkpoints := e\<rparr>) = payload dx ra"
  by (auto simp: fun_eq_iff payload_def)

lemma load_chunk_ok:
  assumes "ra_inv dx ra" "i < length (ra_chunks ra)"
  obtains ra' where "load_chunk dx i ra = Inr ra'" "ra_inv dx ra'" "ra_chunk_data ra' = payload dx ra (ra_chunks ra ! i)"
    "ra_chunks ra' = ra_chunks ra" "ra_position ra' = ra_position ra" "payload dx ra' = payload dx ra"
    "ra_total ra' = ra_total ra"
proof (cases "ra_loaded ra = Some i")
  case True
  then show ?thesis using assms by (intro that [of ra]) (auto simp: load_chunk_def ra_inv_def)
next
  case False
  let ?ra = "ra\<lparr>ra_chunk_data := payload dx ra (ra_chunks ra ! i), ra_loaded := Some i,
    ra_decompressions := ra_decompressions ra + 1\<rparr>"
  have "load_payload dx ra (ra_chunks ra ! i) = Inr (payload dx ra (ra_chunks ra ! i))"
    using assms by (auto simp: ra_inv_def)
  with False assms show ?thesis
    by (intro that [of ?ra]) (auto simp: load_chunk_def ra_inv_def)
qed

lemma payload_lengths:
  assumes "ra_inv dx ra" "set is \<subseteq> set (ra_chunks ra)"
  shows "length (concat (map (payload dx ra) is)) = sum_list (map ci_uncompressed_size is)"
  using assms by (induction "is") (auto simp: ra_inv_def)

lemma stream_at_chunk:
  assumes "ra_inv dx ra" "i < length (ra_chunks ra)"
  shows "drop (sum_list (map ci_uncompressed_size (take i (ra_chunks ra)))) (ra_stream dx ra) =
    payload dx ra (ra_chunks ra ! i) @ concat (map (payload dx ra) (drop (Suc i) (ra_chunks ra)))"
proof -
  have "ra_chunks ra = take i (ra_chunks ra) @ ra_chunks ra ! i # drop (Suc i) (ra_chunks ra)"
    by (rule id_take_nth_drop) (rule assms(2))
  then have "ra_stream dx ra = concat (map (payload dx ra) (take i (ra_chunks ra))) @
      payload dx ra (ra_chunks ra ! i) @ concat (map (payload dx ra) (drop (Suc i) (ra_chunks ra)))"
    unfolding ra_stream_def by (metis concat.simps(2) concat_append list.simps(9) map_append)
  moreover have "length (concat (map (payload dx ra) (take i (ra_chunks ra)))) =
      sum_list (map ci_uncompressed_size (take i (ra_chunks ra)))"
    by (rule payload_lengths [OF assms(1)]) (rule set_take_subset)
  ultimately show ?thesis by simp
qed

lemma take_drop_split:
  assumes "c \<le> n" "drop p xs = a @ b" "c \<le> length a - k" "k \<le> length a"
  shows "take n (drop (p + k) xs) = take c (drop k a) @ take (n - c) (drop (p + k + c) xs)"
proof -
  have "drop (p + k) xs = drop k a @ b" using assms(2,4) by (metis add.commute append_eq_conv_conj drop_drop drop_append diff_is_0_eq drop0)
  then have "take n (drop (p + k) xs) = take c (drop k a @ b) @ take (n - c) (drop c (drop (p + k) xs))"
    using assms(1) by (metis le_add_diff_inverse take_add)
  moreover have "take c (drop k a @ b) = take c (drop k a)" using assms(3) by simp
  ultimately show ?thesis by (simp add: add.commute)
qed

lemma read_rounds_ok:
  assumes "ra_inv dx ra" "n \<le> rounds" "n \<le> ra_total ra - ra_position ra"
  shows "\<exists>ra'. read_rounds dx rounds n ra = Inr (take n (drop (ra_position ra) (ra_stream dx ra)), ra') \<and>
    ra_inv dx ra' \<and> ra_stream dx ra' = ra_stream dx ra \<and> ra_position ra' = ra_position ra + n"
  using assms
proof (induction rounds arbitrary: n ra)
  case (Suc rounds)
  show ?case
  proof (cases "n = 0")
    case False
    let ?sum = "\<lambda>i. sum_list (map ci_uncompressed_size (take i (ra_chunks ra)))"
    have "ra_position ra < ra_total ra" using False Suc.prems(3) by simp
    from find_chunk_ok [OF Suc.prems(1) this] obtain i where
      i: "find_chunk ra (ra_position ra) = Inr i" "i < length (ra_chunks ra)" "?sum i \<le> ra_position ra"
        "ra_position ra < ?sum i + ci_uncompressed_size (ra_chunks ra ! i)" .
    from load_chunk_ok [OF Suc.prems(1) i(2)] obtain ra1 where
      ra1: "load_chunk dx i ra = Inr ra1" "ra_inv dx ra1" "ra_chunk_data ra1 = payload dx ra (ra_chunks ra ! i)"
        "ra_chunks ra1 = ra_chunks ra" "ra_position ra1 = ra_position ra" "payload dx ra1 = payload dx ra"
        "ra_total ra1 = ra_total ra" .
    have off: "ci_uncompressed_offset (ra_chunks ra ! i) = ?sum i"
      using contiguous_offset [OF _ i(2)] Suc.prems(1) by (auto simp: ra_inv_def)
    have len: "length (payload dx ra (ra_chunks ra ! i)) = ci_uncompressed_size (ra_chunks ra ! i)"
      using Suc.prems(1) i(2) by (auto simp: ra_inv_def)
    define k c where "k = ra_position ra - ?sum i"
      and "c = min n (ci_uncompressed_size (ra_chunks ra ! i) - k)"
    have c: "0 < c" "c \<le> n" "k + c \<le> ci_uncompressed_size (ra_chunks ra ! i)"
      using False i(3,4) by (auto simp: c_def k_def)
    let ?ra2 = "ra1\<lparr>ra_position := ra_position ra1 + c\<rparr>"
    have ra2: "ra_inv dx ?ra2" "ra_stream dx ?ra2 = ra_stream dx ra"
      using ra1 c(2) Suc.prems(3) by (auto simp: ra_inv_def ra_stream_def)
    have "\<exists>ra'. read_rounds dx rounds (n - c) ?ra2 =
        Inr (take (n - c) (drop (ra_position ?ra2) (ra_stream dx ?ra2)), ra') \<and>
        ra_inv dx ra' \<and> ra_stream dx ra' = ra_stream dx ?ra2 \<and> ra_position ra' = ra_position ?ra2 + (n - c)"
      using Suc.prems(2,3) c ra1(5,7) by (intro Suc.IH [OF ra2(1)]) simp_all
    moreover have "take n (drop (ra_position ra) (ra_stream dx ra)) =
        take c (drop k (payload dx ra (ra_chunks ra ! i))) @ take (n - c) (drop (ra_position ra + c) (ra_stream dx ra))"
      using take_drop_split [OF c(2) stream_at_chunk [OF Suc.prems(1) i(2)], of k] c(3) i(3) len by (simp add: k_def)
    ultimately show ?thesis
      using i(1) ra1 ra2(2) False c(2) off by (auto simp: Let_def k_def [symmetric] c_def [symmetric])
  qed (use Suc.prems(1) in auto)
qed auto

section \<open>Opening a recording\<close>

fun chunk_infos :: "nat \<Rightarrow> nat \<Rightarrow> bytes list \<Rightarrow> bytes list \<Rightarrow> random_access_chunk_info list" where
  "chunk_infos off u (x # xs) (enc # encs) =
    \<lparr>ci_compressed_offset = off + 16, ci_compressed_size = length enc - 16,
     ci_uncompressed_offset = u, ci_uncompressed_size = length x\<rparr> #
    chunk_infos (off + length enc) (u + length x) xs encs"
| "chunk_infos off u _ _ = []"

lemma scan_chunks_encoded:
  assumes "codec_pair cx dx" "list_all2 (encoded cx) xs encs" "\<forall>x\<in>set xs. x \<noteq> []"
    and "u + length (concat xs) < 2 ^ 64"
  shows "scan_chunks (concat encs) off u = Inr (chunk_infos off u xs encs)"
  using assms(2-)
proof (induction xs encs arbitrary: off u rule: list_all2_induct)
  case Nil
  then show ?case by (simp add: scan_chunks.simps)
next
  case (Cons x xs enc encs)
  obtain y where y: "enc = chunk_header (of_nat (length y)) (of_nat (length x)) @ y"
    "unat (of_nat (length y) :: u64) = length y" "unat (of_nat (length x) :: u64) = length x"
    using encoded_decompress [OF assms(1) Cons.hyps(1)] by metis
  have ne: "x \<noteq> []" "y \<noteq> []"
    using Cons.prems(1) encoded_payload_nonempty [OF assms(1) Cons.hyps(1)] y(1) by auto
  let ?rest = "concat (enc # encs)"
  have hdr: "take_le 8 ?rest = (of_nat (length y) :: u64)" "take_le 8 (drop 8 ?rest) = (of_nat (length x) :: u64)"
    "drop (16 + length y) ?rest = concat encs" "\<not> length ?rest < 16" "?rest \<noteq> []" "length y \<le> length ?rest - 16"
    using y(1) by (auto simp: chunk_header_def)
  have small: "\<not> 2 ^ 64 \<le> length x + u" using Cons.prems(2) by simp
  have IH: "scan_chunks (concat encs) (off + 16 + length y) (u + length x) =
      Inr (chunk_infos (off + length enc) (u + length x) xs encs)"
    using Cons.IH [of "u + length x" "off + length enc"] Cons.prems y(1) by (simp add: add.assoc)
  show ?case
    unfolding scan_chunks.simps [of ?rest] hdr y(2,3) Let_def IH
    using ne small hdr(4-6) y(1) by (simp del: concat.simps add: add.commute)
qed

lemma chunk_infos_shape:
  assumes "list_all2 R xs encs" "\<forall>x\<in>set xs. x \<noteq> []"
  shows "contiguous u (chunk_infos off u xs encs) \<and>
    map ci_uncompressed_size (chunk_infos off u xs encs) = map length xs"
  using assms by (induction xs encs arbitrary: off u rule: list_all2_induct) auto

lemma chunks_end_contiguous:
  "contiguous u is \<Longrightarrow> is \<noteq> [] \<Longrightarrow> chunks_end is = u + sum_list (map ci_uncompressed_size is)"
  by (induction u "is" rule: contiguous.induct) (auto simp: chunks_end_def)

lemma load_payload_encoded:
  assumes "codec_pair cx dx" "encoded cx x enc" "ra_algorithm ra = codec_algorithm cx"
    and "drop off (ra_mapped ra) = enc @ t"
    and "cx_type cx = LAVATUBE_COMPRESSION_LZ4 \<longrightarrow> length enc \<le> INT_MAX \<and> length x \<le> INT_MAX"
  shows "load_payload dx ra \<lparr>ci_compressed_offset = off + 16, ci_compressed_size = length enc - 16,
    ci_uncompressed_offset = u, ci_uncompressed_size = length x\<rparr> = Inr x"
proof -
  obtain y where y: "compress_payload cx x = Inr y" "length x < 2 ^ 32"
      "enc = chunk_header (of_nat (length y)) (of_nat (length x)) @ y"
    using assms(2) by (auto simp: encoded_def)
  have source: "drop (off + 16) (ra_mapped ra) = y @ t"
    using assms(4) y(3) by (metis add.commute append.assoc chunk_header_read(4) drop_drop)
  have csize: "length enc - 16 = length y" using y(3) by simp
  show ?thesis
  proof (cases "cx_type cx")
    case LAVATUBE_COMPRESSION_UNCOMPRESSED
    then have "y = x @ cx_slack cx" "length (cx_slack cx) = 16"
      using y(1) assms(1) by (auto simp: compress_payload_def codec_pair_def)
    with LAVATUBE_COMPRESSION_UNCOMPRESSED show ?thesis
      using assms(3) y(2) by (simp add: load_payload_def source csize)
  next
    case LAVATUBE_COMPRESSION_DENSITY
    then have "dx_density dx y (length x) = Some x"
      using y assms(1) by (auto simp: compress_payload_def codec_pair_def library_pair_def split: option.splits)
    with LAVATUBE_COMPRESSION_DENSITY show ?thesis
      using assms(3) by (simp add: load_payload_def source csize)
  next
    case LAVATUBE_COMPRESSION_LZ4
    then have "dx_lz4 dx y (length x) = Some x"
      using y assms(1) by (auto simp: compress_payload_def codec_pair_def library_pair_def split: option.splits)
    with LAVATUBE_COMPRESSION_LZ4 show ?thesis
      using assms(3,5) y(3) by (simp add: load_payload_def source csize)
  qed
qed

lemma chunk_infos_payloads:
  assumes "codec_pair cx dx" "list_all2 (encoded cx) xs encs" "ra_algorithm ra = codec_algorithm cx"
    and "drop off (ra_mapped ra) = concat encs"
    and "cx_type cx = LAVATUBE_COMPRESSION_LZ4 \<longrightarrow> length (concat encs) \<le> INT_MAX \<and> length (concat xs) \<le> INT_MAX"
  shows "map (payload dx ra) (chunk_infos off u xs encs) = xs \<and>
    (\<forall>info\<in>set (chunk_infos off u xs encs). load_payload dx ra info = Inr (payload dx ra info) \<and>
      length (payload dx ra info) = ci_uncompressed_size info)"
  using assms(2-)
proof (induction xs encs arbitrary: off u rule: list_all2_induct)
  case (Cons x xs enc encs)
  let ?info = "\<lparr>ci_compressed_offset = off + 16, ci_compressed_size = length enc - 16,
    ci_uncompressed_offset = u, ci_uncompressed_size = length x\<rparr>"
  have load: "load_payload dx ra ?info = Inr x"
    using Cons.prems by (intro load_payload_encoded [OF assms(1) Cons.hyps(1)]) auto
  have "drop (off + length enc) (ra_mapped ra) = concat encs"
    using Cons.prems(2) by (metis add.commute append_eq_conv_conj concat.simps(2) drop_drop)
  with Cons.IH [OF Cons.prems(1), of "off + length enc" "u + length x"] Cons.prems(3) load
  show ?case by (auto simp: payload_def)
qed simp

lemma ra_initialize_recording:
  assumes "codec_pair cx dx" "list_all2 (encoded cx) xs encs" "\<forall>x\<in>set xs. x \<noteq> []" "xs \<noteq> []"
    and "length (concat xs) < 2 ^ 64"
    and "cx_type cx = LAVATUBE_COMPRESSION_LZ4 \<longrightarrow> length (concat encs) \<le> INT_MAX \<and> length (concat xs) \<le> INT_MAX"
  obtains ra where "ra_initialize (stream_header (cx_type cx) @ concat encs) = Inr ra" "ra_inv dx ra"
    "ra_stream dx ra = concat xs" "ra_position ra = 0" "ra_total ra = length (concat xs)" "ra_version ra = 3"
proof -
  let ?file = "stream_header (cx_type cx) @ concat encs"
  define infos where "infos = chunk_infos 39 0 xs encs"
  let ?ra = "\<lparr>ra_mapped = ?file, ra_chunks = infos, ra_checkpoints = [], ra_chunk_data = [],
    ra_total = chunks_end infos, ra_position = 0, ra_loaded = None, ra_decompressions = 0,
    ra_algorithm = codec_algorithm cx, ra_version = 3\<rparr>"
  have ne: "infos \<noteq> []" using assms(2,4) by (auto simp: infos_def neq_Nil_conv list_all2_Cons1)
  have scan: "scan_chunks (concat encs) 39 0 = Inr infos"
    unfolding infos_def using assms(5) by (intro scan_chunks_encoded [OF assms(1-3)]) simp
  have drop: "drop 39 ?file = concat encs" by (simp add: stream_header_def magic_word_def)
  have init: "ra_initialize ?file = Inr ?ra"
    using scan drop ne known_compression_byte [of "cx_type cx"]
    by (simp add: ra_initialize_def stream_header_def magic_word_def Let_def)
  have shape: "contiguous 0 infos" "map ci_uncompressed_size infos = map length xs"
    using chunk_infos_shape [OF assms(2,3), of 0 39] by (auto simp: infos_def)
  have pay: "map (payload dx ?ra) infos = xs" "\<forall>info\<in>set infos. load_payload dx ?ra info = Inr (payload dx ?ra info) \<and>
      length (payload dx ?ra info) = ci_uncompressed_size info"
    using chunk_infos_payloads [OF assms(1,2), of ?ra 39 0] drop assms(6) by (auto simp: infos_def)
  have total: "chunks_end infos = length (concat xs)"
    using chunks_end_contiguous [OF shape(1) ne] shape(2) by (simp add: length_concat)
  show ?thesis
    using pay shape total by (intro that [OF init]) (simp_all add: ra_inv_def ra_stream_def length_concat)
qed

section \<open>The reader as a source of bytes\<close>

definition ra_rest :: "decoder \<Rightarrow> random_access_file_reader \<Rightarrow> bytes" where
  "ra_rest dx ra = drop (ra_position ra) (ra_stream dx ra)"

lemma ra_stream_length: "ra_inv dx ra \<Longrightarrow> length (ra_stream dx ra) = ra_total ra"
  using payload_lengths [of dx ra "ra_chunks ra"] by (simp add: ra_stream_def ra_inv_def)

interpretation ra: byte_source "ra_inv dx" "ra_rest dx" "ra_read_bytes dx" for dx
proof (standard, goal_cases)
  case (1 s n)
  then have "n \<le> ra_total s - ra_position s" by (simp add: ra_rest_def ra_stream_length)
  with read_rounds_ok [OF 1(1) order_refl this] show ?case
    by (auto simp: ra_read_bytes_def ra_rest_def add.commute)
qed

lemma seek_ok:
  assumes "ra_inv dx ra" "p \<le> length (ra_stream dx ra)"
  shows "seek p ra = Inr (ra\<lparr>ra_position := p\<rparr>)" "ra_inv dx (ra\<lparr>ra_position := p\<rparr>)"
    "ra_rest dx (ra\<lparr>ra_position := p\<rparr>) = drop p (ra_stream dx ra)"
  using assms ra_stream_length [OF assms(1)]
  by (auto simp: seek_def ra_inv_def ra_rest_def ra_stream_def)

section \<open>Checkpoints\<close>

definition checkpoints_sorted :: "packet_checkpoint list \<Rightarrow> bool" where
  "checkpoints_sorted cs \<longleftrightarrow>
    sorted_wrt (\<lambda>a b. cp_packet a < cp_packet b \<and> cp_position a < cp_position b) cs \<and>
    (cs \<noteq> [] \<longrightarrow> cp_packet (hd cs) = 0 \<and> cp_position (hd cs) = 0)"

lemma checkpoint_entry_ok:
  assumes "checkpoint_entry limit before v = Inr c"
  shows "cp_position c < limit \<and> (before = [] \<longrightarrow> cp_packet c = 0 \<and> cp_position c = 0) \<and>
    (before \<noteq> [] \<longrightarrow> cp_packet (hd before) < cp_packet c \<and> cp_position (hd before) < cp_position c)"
  using assms by (auto simp: checkpoint_entry_def split: if_splits)

lemma load_checkpoints_sorted:
  assumes "load_checkpoints limit before vs = Inr cs" "checkpoints_sorted (rev before)"
    and "\<forall>c\<in>set before. cp_position c < limit"
  shows "checkpoints_sorted cs \<and> (\<forall>c\<in>set cs. cp_position c < limit)"
  using assms
proof (induction limit before vs rule: load_checkpoints.induct)
  case (2 limit before v vs)
  then obtain c where c: "checkpoint_entry limit before v = Inr c" "load_checkpoints limit (c # before) vs = Inr cs"
    by auto
  note entry = checkpoint_entry_ok [OF c(1)]
  have "\<forall>b\<in>set before. cp_packet b < cp_packet c \<and> cp_position b < cp_position c"
  proof (cases before)
    case (Cons b bs)
    have "\<forall>a\<in>set bs. cp_packet a < cp_packet b \<and> cp_position a < cp_position b"
      using 2(3) Cons by (auto simp: checkpoints_sorted_def sorted_wrt_append)
    with entry Cons show ?thesis by fastforce
  qed simp
  moreover have "before \<noteq> [] \<Longrightarrow> hd (rev before @ [c]) = hd (rev before)" by simp
  ultimately have "checkpoints_sorted (rev (c # before))"
    using 2(3) entry by (cases "before = []") (auto simp: checkpoints_sorted_def sorted_wrt_append)
  with 2(1) [OF c(2)] 2(4) entry show ?case by auto
qed auto

lemma load_packet_checkpoints_ok:
  assumes "load_packet_checkpoints fi ra = Inr ra'"
  shows "\<exists>cs. ra' = ra\<lparr>ra_checkpoints := cs\<rparr> \<and> checkpoints_sorted cs \<and> (\<forall>c\<in>set cs. cp_position c < ra_total ra)"
  using assms load_checkpoints_sorted [of "ra_total ra" "[]"]
  by (auto simp: load_packet_checkpoints_def checkpoints_sorted_def Let_def split: if_splits)

lemma seek_to_packet_ok:
  assumes "checkpoints_sorted cs" "cs \<noteq> []" "\<forall>c\<in>set cs. cp_position c < ra_total ra"
    and "ra_checkpoints ra = cs"
  obtains c where "c \<in> set cs" "seek_to_packet packet ra = Inr (cp_packet c, ra\<lparr>ra_position := cp_position c\<rparr>)"
    "cp_packet c \<le> packet" "\<forall>d\<in>set cs. cp_packet d \<le> packet \<longrightarrow> cp_packet d \<le> cp_packet c"
proof -
  let ?below = "\<lambda>m. cp_packet (cs ! m) \<le> packet"
  define k where "k = search_first ?below 0 (length cs)"
  have lt: "cp_packet (cs ! i) < cp_packet (cs ! j)" if "i < j" "j < length cs" for i j
    using assms(1) that by (auto simp: checkpoints_sorted_def sorted_wrt_iff_nth_less)
  have mono: "?below m" if "m < m'" "m' < length cs" "?below m'" for m m'
    using lt [OF that(1,2)] that(3) by simp
  have k: "k \<le> length cs \<and> (\<forall>m<k. ?below m) \<and> (\<forall>m. k \<le> m \<and> m < length cs \<longrightarrow> \<not> ?below m)"
    unfolding k_def by (rule search_first_correct [OF mono]) auto
  have "?below 0" using assms(1,2) by (simp add: checkpoints_sorted_def hd_conv_nth)
  then have "k \<noteq> 0" using k assms(2) by auto
  then have in_range: "k - 1 < length cs" "?below (k - 1)" using k by auto
  show ?thesis
  proof (rule that)
    show "cs ! (k - 1) \<in> set cs" "cp_packet (cs ! (k - 1)) \<le> packet" using in_range by auto
    show "seek_to_packet packet ra = Inr (cp_packet (cs ! (k - 1)), ra\<lparr>ra_position := cp_position (cs ! (k - 1))\<rparr>)"
      using assms(2-4) \<open>k \<noteq> 0\<close> in_range by (simp add: seek_to_packet_def Let_def seek_def k_def not_less less_imp_le)
    show "\<forall>d\<in>set cs. cp_packet d \<le> packet \<longrightarrow> cp_packet d \<le> cp_packet (cs ! (k - 1))"
    proof (intro ballI impI)
      fix d assume "d \<in> set cs" "cp_packet d \<le> packet"
      then obtain j where j: "j < length cs" "d = cs ! j" by (auto simp: in_set_conv_nth)
      with k \<open>cp_packet d \<le> packet\<close> have "j < k" by (meson not_le)
      then have "j = k - 1 \<or> j < k - 1" by linarith
      then show "cp_packet d \<le> cp_packet (cs ! (k - 1))"
        using j lt [of j "k - 1"] in_range by auto
    qed
  qed
qed

section \<open>Properties\<close>

text \<open>C7: random access to a recording.  For any closed recording of the bytes \<open>s\<close> (any schedule,
  default threading), the random-access reader opens the file, and from then on seeking to any
  position \<open>p\<close> and reading any \<open>n\<close> bytes with \<open>p + n\<close> inside the stream gives exactly the bytes
  \<open>s\<close> has there, whatever was read before: the statement holds again for the reader state it
  leaves.  For LZ4 the stream and the file must be within the library's \<open>int\<close> sizes.\<close>

theorem random_access_reads_recording:
  assumes "codec_pair cx dx" "0 < chunksize" "chunksize < 2 ^ 32"
    and "pipe_run cx (pipeline_start cx (file_writer_new chunksize)) s w"
    and "pl_stage w = Closed" "s \<noteq> []" "length s < 2 ^ 64"
    and "cx_type cx = LAVATUBE_COMPRESSION_LZ4 \<longrightarrow> length (concat (fw_file (pl_writer w))) \<le> INT_MAX \<and> length s \<le> INT_MAX"
  shows "\<exists>ra. ra_initialize (concat (fw_file (pl_writer w))) = Inr ra \<and> ra_inv dx ra \<and> ra_stream dx ra = s \<and>
    (\<forall>ra' p n. ra_inv dx ra' \<and> ra_stream dx ra' = s \<and> p + n \<le> length s \<longrightarrow>
      (\<exists>ra1 ra2. seek p ra' = Inr ra1 \<and> ra_read_bytes dx n ra1 = Inr (take n (drop p s), ra2) \<and>
        ra_inv dx ra2 \<and> ra_stream dx ra2 = s))"
proof -
  define dec where "dec = decode_chunk dx (codec_algorithm cx)"
  have inv: "pl_inv cx dec w" "pl_stream dec w = s"
    using pipe_run_inv [OF assms(1) dec_def assms(4) pipeline_start_inv(1) [OF assms(2,3)]]
      pipeline_start_inv(2) [OF assms(2,3)] by auto
  note closed = closed_stream [OF inv(1) assms(5)]
  let ?chunks = "tl (fw_file (pl_writer w))"
  have s: "s = concat (map dec ?chunks)" using closed(1) inv(2) by simp
  have ne: "map dec ?chunks \<noteq> []" using s assms(6) by auto
  have lz4: "cx_type cx = LAVATUBE_COMPRESSION_LZ4 \<longrightarrow> length (concat ?chunks) \<le> INT_MAX \<and>
      length (concat (map dec ?chunks)) \<le> INT_MAX"
    using assms(8) s unfolding closed(2) by auto
  have "length (concat (map dec ?chunks)) < 2 ^ 64" using assms(7) s by simp
  from ra_initialize_recording [OF assms(1) closed(3,4) ne this lz4] obtain ra where
    ra: "ra_initialize (concat (fw_file (pl_writer w))) = Inr ra" "ra_inv dx ra" "ra_stream dx ra = s"
    unfolding closed(2) s [symmetric] .
  have "\<exists>ra1 ra2. seek p ra' = Inr ra1 \<and> ra_read_bytes dx n ra1 = Inr (take n (drop p s), ra2) \<and>
        ra_inv dx ra2 \<and> ra_stream dx ra2 = s"
    if "ra_inv dx ra'" "ra_stream dx ra' = s" "p + n \<le> length s" for ra' p n
  proof -
    let ?ra1 = "ra'\<lparr>ra_position := p\<rparr>"
    have "p \<le> length (ra_stream dx ra')" using that(2,3) by simp
    note seek = seek_ok [OF that(1) this]
    have st: "ra_stream dx ?ra1 = s" "ra_total ?ra1 = length s"
      using that(2) ra_stream_length [OF that(1)] by (simp_all add: ra_stream_def)
    from read_rounds_ok [OF seek(2) order_refl, of n] that(3) st seek(1) show ?thesis
      by (fastforce simp: ra_read_bytes_def)
  qed
  with ra show ?thesis by blast
qed

theorem random_access_reads_recording_witness:
  "\<exists>w ra ra1 ra2. pipe_run plain_codec (pipeline_start plain_codec (file_writer_new 8)) [1, 2, 3] w \<and>
    ra_initialize (concat (fw_file (pl_writer w))) = Inr ra \<and> seek 1 ra = Inr ra1 \<and>
    ra_read_bytes plain_decoder 2 ra1 = Inr ([2, 3], ra2)"
proof -
  obtain w where w: "pipe_run plain_codec (pipeline_start plain_codec (file_writer_new 8)) [1, 2, 3] w" "pl_stage w = Closed"
    using sample_closed by blast
  have "cx_type plain_codec \<noteq> LAVATUBE_COMPRESSION_LZ4" by (simp add: plain_codec_def)
  with random_access_reads_recording [OF plain.libraries _ _ w] obtain ra where
    ra: "ra_initialize (concat (fw_file (pl_writer w))) = Inr ra" "ra_inv plain_decoder ra" "ra_stream plain_decoder ra = [1, 2, 3]"
      "\<forall>ra' p n. ra_inv plain_decoder ra' \<and> ra_stream plain_decoder ra' = [1, 2, 3] \<and> p + n \<le> length [1 :: u8, 2, 3] \<longrightarrow>
        (\<exists>ra1 ra2. seek p ra' = Inr ra1 \<and> ra_read_bytes plain_decoder n ra1 = Inr (take n (drop p [1, 2, 3]), ra2) \<and>
          ra_inv plain_decoder ra2 \<and> ra_stream plain_decoder ra2 = [1, 2, 3])"
    by auto
  from ra(4) [rule_format, of ra 1 2] ra(2,3) w(1) ra(1) show ?thesis by auto
qed

text \<open>C34: seeking to a packet.  After the checkpoints of a frame file have been accepted, seeking to
  any packet succeeds, goes to the position of a recorded checkpoint at or before the packet, and no
  recorded checkpoint in between is missed; without checkpoints it goes to the start and says packet
  zero.\<close>

theorem seek_to_packet_closest:
  assumes "ra_inv dx ra" "load_packet_checkpoints fi ra = Inr ra'"
  shows "\<exists>c ra''. seek_to_packet packet ra' = Inr (c, ra'') \<and> ra_inv dx ra'' \<and>
    (if ra_checkpoints ra' = [] then c = 0 \<and> ra_position ra'' = 0
     else (\<exists>cp\<in>set (ra_checkpoints ra'). cp_packet cp = c \<and> ra_position ra'' = cp_position cp) \<and> c \<le> packet \<and>
       (\<forall>cp\<in>set (ra_checkpoints ra'). cp_packet cp \<le> packet \<longrightarrow> cp_packet cp \<le> c))"
proof -
  obtain cs where cs: "ra' = ra\<lparr>ra_checkpoints := cs\<rparr>" "checkpoints_sorted cs" "\<forall>c\<in>set cs. cp_position c < ra_total ra"
    using load_packet_checkpoints_ok [OF assms(2)] by blast
  have inv: "ra_inv dx (ra'\<lparr>ra_position := p\<rparr>)" if "p \<le> ra_total ra" for p
    using assms(1) that by (auto simp: cs(1) ra_inv_def)
  show ?thesis
  proof (cases "cs = []")
    case True
    then show ?thesis using inv [of 0] by (simp add: cs(1) seek_to_packet_def seek_def)
  next
    case False
    have "\<forall>c\<in>set cs. cp_position c < ra_total ra'" "ra_checkpoints ra' = cs" using cs by simp_all
    from seek_to_packet_ok [OF cs(2) False this, of packet] obtain c where
      "c \<in> set cs" "seek_to_packet packet ra' = Inr (cp_packet c, ra'\<lparr>ra_position := cp_position c\<rparr>)"
      "cp_packet c \<le> packet" "\<forall>d\<in>set cs. cp_packet d \<le> packet \<longrightarrow> cp_packet d \<le> cp_packet c" .
    with inv [of "cp_position c"] cs False show ?thesis by (auto simp: less_imp_le)
  qed
qed

definition sample_frames :: json where
  "sample_frames = JObject [(''packet_checkpoints'', JArray
    [JObject [(''packet'', JInt 0), (''position'', JInt 0)], JObject [(''packet'', JReal 10 1), (''position'', JInt 2)]])]"

theorem seek_to_packet_closest_witness:
  "\<exists>ra ra' ra''. ra_stream plain_decoder ra = [1, 2, 3] \<and> load_packet_checkpoints sample_frames ra = Inr ra' \<and>
    seek_to_packet 7 ra' = Inr (5, ra'') \<and> ra_position ra'' = 2"
proof -
  let ?x = "[1, 2, 3] :: bytes" and ?y = "[1, 2, 3] @ replicate 16 0 :: bytes"
  have "encoded plain_codec ?x (chunk_header (of_nat (length ?y)) (of_nat (length ?x)) @ ?y)"
    by (auto simp: encoded_def compress_payload_def plain_codec_def)
  then have all: "list_all2 (encoded plain_codec) [?x] [chunk_header (of_nat (length ?y)) (of_nat (length ?x)) @ ?y]"
    by simp
  have small: "\<forall>x\<in>set [?x]. x \<noteq> []" "[?x] \<noteq> []" "length (concat [?x]) < 2 ^ 64" by simp_all
  have "cx_type plain_codec = LAVATUBE_COMPRESSION_LZ4 \<longrightarrow>
      length (concat [chunk_header (of_nat (length ?y)) (of_nat (length ?x)) @ ?y]) \<le> INT_MAX \<and> length (concat [?x]) \<le> INT_MAX"
    by (simp add: plain_codec_def)
  from ra_initialize_recording [OF plain.libraries all small this] obtain ra where
    "ra_inv plain_decoder ra" "ra_stream plain_decoder ra = concat [?x]" "ra_total ra = length (concat [?x])" .
  then have ra: "ra_inv plain_decoder ra" "ra_stream plain_decoder ra = ?x" "ra_total ra = 3" by simp_all
  let ?cs = "[\<lparr>cp_packet = 0, cp_position = 0\<rparr>, \<lparr>cp_packet = 5, cp_position = 2\<rparr>]"
  have load: "load_packet_checkpoints sample_frames ra = Inr (ra\<lparr>ra_checkpoints := ?cs\<rparr>)"
    using ra(3) by (simp add: load_packet_checkpoints_def sample_frames_def json_is_member_def json_get_def
        json_is_array_def json_elements_def checkpoint_entry_def uint_member_def json_is_object_def json_is_uint_def json_as_uint_def)
  from seek_to_packet_closest [OF ra(1) load, of 7] obtain c ra'' where
    "seek_to_packet 7 (ra\<lparr>ra_checkpoints := ?cs\<rparr>) = Inr (c, ra'')" "c = 5 \<and> ra_position ra'' = 2"
    by auto
  with load ra(2) show ?thesis by blast
qed

end
