(* ===== verification/Containers.thy ===== *)
theory Containers
  imports Prelude "HOL-Library.AList"
begin

text \<open>The special containers of \<^verbatim>\<open>src/containers.h\<close>: the maps between handles and indices used while
  replaying (\<open>replay_remap\<close>) and while capturing (\<open>trace_remap\<close>), the growing vector \<open>trace_data\<close>,
  and
  the argument pool \<open>memory_pool\<close>.  Hash maps are association lists; their
  locks make each operation atomic, so an operation is one function.\<close>

abbreviation CONTAINER_INVALID_INDEX :: u32 where "CONTAINER_INVALID_INDEX \<equiv> - 1"
abbreviation CONTAINER_NULL_VALUE :: u32 where "CONTAINER_NULL_VALUE \<equiv> - 2"

section \<open>Sources of changes\<close>

record change_source =
  cs_packet :: u32
  cs_frame :: u32
  cs_thread :: u8
  cs_packet_type :: u8
  cs_call_id :: u16

definition change_source_new :: change_source where
  "change_source_new = \<lparr>cs_packet = - 1, cs_frame = - 1, cs_thread = - 1, cs_packet_type = - 1, cs_call_id = - 1\<rparr>"

definition change_source_self_test :: "change_source \<Rightarrow> bool" where
  "change_source_self_test c \<longleftrightarrow> cs_packet c \<noteq> - 1 \<and> cs_thread c \<noteq> - 1 \<and>
    (cs_packet_type c = 2 \<longrightarrow> cs_call_id c \<noteq> - 1) \<and> cs_frame c \<noteq> - 1"

section \<open>The concurrent map\<close>

type_synonym ('k, 'v) cmap = "('k \<times> 'v) list"

definition cmap_at :: "'k \<Rightarrow> ('k, 'v) cmap \<Rightarrow> 'v result" where
  "cmap_at k m = (case map_of m k of None \<Rightarrow> Inl Out_of_range | Some v \<Rightarrow> Inr v)"

definition cmap_insert :: "'k \<Rightarrow> 'v \<Rightarrow> ('k, 'v) cmap \<Rightarrow> ('k, 'v) cmap" where
  "cmap_insert k v m = AList.update k v m"

definition cmap_count :: "'k \<Rightarrow> ('k, 'v) cmap \<Rightarrow> nat" where
  "cmap_count k m = (if map_of m k = None then 0 else 1)"

definition cmap_size :: "('k, 'v) cmap \<Rightarrow> nat" where
  "cmap_size m = length m"

lemma cmap_at_insert [simp]:
  "cmap_at k (cmap_insert k v m) = Inr v"
  "k \<noteq> k' \<Longrightarrow> cmap_at k (cmap_insert k' v m) = cmap_at k m"
  by (simp_all add: cmap_at_def cmap_insert_def update_conv)

lemma cmap_count_insert [simp]:
  "cmap_count k (cmap_insert k v m) = 1"
  "k \<noteq> k' \<Longrightarrow> cmap_count k (cmap_insert k' v m) = cmap_count k m"
  by (simp_all add: cmap_count_def cmap_insert_def update_conv)

lemma cmap_count_at: "cmap_count k m \<noteq> 0 \<longleftrightarrow> (\<exists>v. cmap_at k m = Inr v)"
  by (simp add: cmap_count_def cmap_at_def split: option.splits)

section \<open>Handles while replaying\<close>

record replay_remap =
  rr_remapping :: "u64 list"
  rr_reverse :: "(u64, u32) cmap"

definition rr_new :: replay_remap where
  "rr_new = \<lparr>rr_remapping = [], rr_reverse = []\<rparr>"

definition rr_resize :: "u32 \<Rightarrow> replay_remap \<Rightarrow> replay_remap" where
  "rr_resize n rr = rr\<lparr>rr_remapping := take (unat n) (rr_remapping rr) @
    replicate (unat n - length (rr_remapping rr)) 0\<rparr>"

text \<open>\<open>remapping.at(index)\<close>, which throws out of range.\<close>

definition rr_slot :: "u32 \<Rightarrow> replay_remap \<Rightarrow> u64 result" where
  "rr_slot i rr = (if unat i < length (rr_remapping rr) then Inr (rr_remapping rr ! unat i) else Inl Out_of_range)"

definition rr_set :: "u32 \<Rightarrow> u64 \<Rightarrow> replay_remap \<Rightarrow> replay_remap result" where
  "rr_set i h rr = result_bind (rr_slot i rr) (\<lambda>v.
    assert_that (v = 0) (assert_that (h \<noteq> 0)
      (Inr (rr\<lparr>rr_remapping := (rr_remapping rr)[unat i := h], rr_reverse := cmap_insert h i (rr_reverse rr)\<rparr>))))"

text \<open>\<open>replace\<close> uses the unchecked \<open>operator[]\<close>.\<close>

definition rr_replace :: "u32 \<Rightarrow> u64 \<Rightarrow> replay_remap \<Rightarrow> replay_remap result" where
  "rr_replace i h rr = (if unat i < length (rr_remapping rr) then
      Inr (rr\<lparr>rr_remapping := (rr_remapping rr)[unat i := h], rr_reverse := cmap_insert h i (rr_reverse rr)\<rparr>)
    else Inl Out_of_range)"

definition rr_at :: "u32 \<Rightarrow> replay_remap \<Rightarrow> u64 result" where
  "rr_at i rr = (if i = CONTAINER_NULL_VALUE then Inr 0
    else result_bind (rr_slot i rr) (\<lambda>v. assert_that (v \<noteq> 0) (Inr v)))"

definition rr_index :: "u64 \<Rightarrow> replay_remap \<Rightarrow> u32 result" where
  "rr_index h rr = (if h = 0 then Inr 0 else cmap_at h (rr_reverse rr))"

definition rr_index_or_invalid :: "u64 \<Rightarrow> replay_remap \<Rightarrow> u32 result" where
  "rr_index_or_invalid h rr = (if h = 0 then Inr CONTAINER_NULL_VALUE
    else if cmap_count h (rr_reverse rr) = 0 then Inr CONTAINER_INVALID_INDEX
    else cmap_at h (rr_reverse rr))"

definition rr_contains :: "u32 \<Rightarrow> replay_remap \<Rightarrow> bool result" where
  "rr_contains i rr = (if i = CONTAINER_NULL_VALUE then Inr False
    else result_bind (rr_slot i rr) (\<lambda>v. Inr (v \<noteq> 0)))"

definition rr_unset :: "u32 \<Rightarrow> replay_remap \<Rightarrow> replay_remap result" where
  "rr_unset i rr = (if i = CONTAINER_NULL_VALUE then Inr rr
    else result_bind (rr_slot i rr) (\<lambda>v. assert_that (v \<noteq> 0)
      (Inr (rr\<lparr>rr_reverse := cmap_insert v 0 (rr_reverse rr), rr_remapping := (rr_remapping rr)[unat i := 0]\<rparr>))))"

definition rr_clear :: "replay_remap \<Rightarrow> replay_remap" where
  "rr_clear rr = rr\<lparr>rr_remapping := [], rr_reverse := []\<rparr>"

definition rr_size :: "replay_remap \<Rightarrow> nat" where
  "rr_size rr = cmap_size (rr_reverse rr)"

section \<open>Handles while capturing\<close>

text \<open>The tracked objects are known by their index, which \<open>add\<close> keeps unique: a pointer to an object
  is its index, a null pointer is \<open>None\<close>.\<close>

datatype index_mode = Mode_unknown | Mode_automatic | Mode_desired

record tracked =
  t_index :: u32
  t_creation :: change_source
  t_last_modified :: change_source
  t_destroyed :: change_source

record trace_remap =
  tr_size :: u32
  tr_mode :: index_mode
  tr_lookup :: "(u64, u32 option) cmap"
  tr_storage :: "tracked list"

definition tr_new :: trace_remap where
  "tr_new = \<lparr>tr_size = 0, tr_mode = Mode_unknown, tr_lookup = [(0, None)], tr_storage = []\<rparr>"

definition tr_insert :: "tracked \<Rightarrow> tracked list \<Rightarrow> tracked list result" where
  "tr_insert p st =
    (let k = length (takeWhile (\<lambda>q. t_index q < t_index p) st)
     in assert_that (k = length st \<or> t_index (st ! k) \<noteq> t_index p) (Inr (take k st @ p # drop k st)))"

definition tr_add :: "u64 \<Rightarrow> change_source \<Rightarrow> u32 \<Rightarrow> trace_remap \<Rightarrow> (u32 \<times> trace_remap) result" where
  "tr_add key current desired_index tr = assert_that (key \<noteq> 0)
    (let uses_desired = (desired_index \<noteq> CONTAINER_INVALID_INDEX);
         requested = (if uses_desired then Mode_desired else Mode_automatic);
         mode = (if tr_mode tr = Mode_unknown then requested else tr_mode tr)
     in assert_that (mode = requested)
       (let i = (if uses_desired then desired_index else tr_size tr);
            counted = (if uses_desired then tr_size tr else tr_size tr + 1);
            p = \<lparr>t_index = i, t_creation = current, t_last_modified = current, t_destroyed = change_source_new\<rparr>
        in result_bind (tr_insert p (tr_storage tr)) (\<lambda>st.
          Inr (i, tr\<lparr>tr_mode := mode, tr_lookup := cmap_insert key (Some i) (tr_lookup tr), tr_storage := st,
            tr_size := (if uses_desired then max counted (desired_index + 1) else counted)\<rparr>))))"

text \<open>\<open>unset\<close> writes through the pointer it finds, which must not be null.\<close>

definition tr_unset :: "u64 \<Rightarrow> change_source \<Rightarrow> trace_remap \<Rightarrow> (u32 option \<times> trace_remap) result" where
  "tr_unset key current tr =
    (if key = 0 then Inr (None, tr)
     else result_bind (cmap_at key (tr_lookup tr)) (\<lambda>p.
       case p of
         None \<Rightarrow> Inl Aborted
       | Some i \<Rightarrow> Inr (Some i, tr\<lparr>tr_lookup := cmap_insert key None (tr_lookup tr),
           tr_storage := map (\<lambda>q. if t_index q = i then q\<lparr>t_destroyed := current\<rparr> else q) (tr_storage tr)\<rparr>)))"

definition tr_at :: "u64 \<Rightarrow> trace_remap \<Rightarrow> u32 option result" where
  "tr_at key tr = cmap_at key (tr_lookup tr)"

definition tr_index_or_null :: "u64 \<Rightarrow> trace_remap \<Rightarrow> u32 result" where
  "tr_index_or_null key tr = (if key = 0 then Inr CONTAINER_NULL_VALUE
    else result_bind (cmap_at key (tr_lookup tr)) (\<lambda>p.
      case p of None \<Rightarrow> Inl Assertion_failed | Some i \<Rightarrow> Inr i))"

definition tr_contains :: "u64 \<Rightarrow> trace_remap \<Rightarrow> bool" where
  "tr_contains key tr \<longleftrightarrow> key \<noteq> 0 \<and> cmap_count key (tr_lookup tr) > 0 \<and> cmap_at key (tr_lookup tr) \<noteq> Inr None"

definition tr_clear :: "trace_remap \<Rightarrow> trace_remap" where
  "tr_clear tr = tr\<lparr>tr_lookup := cmap_insert 0 None [], tr_storage := [], tr_size := 0, tr_mode := Mode_unknown\<rparr>"

section \<open>The growing vector\<close>

text \<open>An entry is a null pointer, points to an element, or still points to an element that \<open>clear\<close> has deleted; using such a
  pointer is undefined.  Vectors that were outgrown are kept until \<open>clear\<close>, because readers may still hold them.\<close>

datatype 'a slot = Nullptr | Element 'a | Deleted

record 'a trace_data =
  td_size :: u32
  td_current :: "'a slot list"
  td_old :: "'a slot list list"

definition td_new :: "'a trace_data" where
  "td_new = \<lparr>td_size = 0, td_current = replicate 64 Nullptr, td_old = []\<rparr>"

definition td_at :: "u32 \<Rightarrow> 'a trace_data \<Rightarrow> 'a result" where
  "td_at index td = (if unat index < length (td_current td) then
      (case td_current td ! unat index of Element x \<Rightarrow> Inr x | _ \<Rightarrow> Inl Undefined_behaviour) else Inl Out_of_range)"

definition td_emplace_back :: "'a \<Rightarrow> 'a trace_data \<Rightarrow> 'a trace_data result" where
  "td_emplace_back x td =
    (let vec = td_current td; n = unat (td_size td) in
     if length vec = n then
       let make = vec @ replicate (length vec) Nullptr in
       if n < length make then
         Inr (td\<lparr>td_old := td_old td @ [vec], td_current := make[n := Element x], td_size := td_size td + 1\<rparr>)
       else Inl Out_of_range
     else if n < length vec then Inr (td\<lparr>td_current := vec[n := Element x], td_size := td_size td + 1\<rparr>)
     else Inl Out_of_range)"

text \<open>The loop of \<open>clear\<close> runs down from \<open>msize - 1\<close> as a signed integer; the pointers stay in the vector.\<close>

fun delete_elements :: "nat \<Rightarrow> 'a slot list \<Rightarrow> 'a slot list result" where
  "delete_elements 0 vec = Inr vec"
| "delete_elements (Suc i) vec =
    (if i < length vec then
       (case vec ! i of Nullptr \<Rightarrow> delete_elements i vec | Element _ \<Rightarrow> delete_elements i (vec[i := Deleted])
        | Deleted \<Rightarrow> Inl Undefined_behaviour)
     else Inl Out_of_range)"

definition td_clear :: "'a trace_data \<Rightarrow> 'a trace_data result" where
  "td_clear td = result_bind (delete_elements (nat (sint (td_size td - 1) + 1)) (td_current td)) (\<lambda>vec.
    Inr (td\<lparr>td_old := [], td_size := 0, td_current := vec\<rparr>))"

section \<open>The argument pool\<close>

text \<open>A pointer is a 64-bit address; \<open>mp_data\<close> is the address of the pool's first byte.  \<open>std_align\<close> is
  \<open>std::align\<close>: the padding to the next aligned address, if padding and size fit in the space.\<close>

record memory_pool =
  mp_data :: u64
  mp_size :: u64
  mp_index :: u64

definition std_align :: "u64 \<Rightarrow> u64 \<Rightarrow> u64 \<Rightarrow> u64 \<Rightarrow> (u64 \<times> u64) option" where
  "std_align alignment sz ptr space =
    (if space < sz then None
     else let diff = (- ptr) mod alignment in
       if diff > space - sz then None else Some (ptr + diff, space - diff))"

definition allocate_aligned :: "u64 \<Rightarrow> u64 \<Rightarrow> u64 \<Rightarrow> memory_pool \<Rightarrow> u64 option \<times> memory_pool" where
  "allocate_aligned count size_of alignment mp =
    (if count = 0 then (None, mp)
     else let allocsize = count * size_of in
       if mp_index mp + allocsize > mp_size mp then (None, mp)
       else case std_align alignment allocsize (mp_data mp + mp_index mp) (mp_size mp - (mp_index mp + allocsize)) of
         None \<Rightarrow> (None, mp)
       | Some (r, space) \<Rightarrow> (Some r, mp\<lparr>mp_index := mp_size mp - space\<rparr>))"

definition pool_allocate :: "u64 \<Rightarrow> u64 \<Rightarrow> u64 \<Rightarrow> memory_pool \<Rightarrow> u64 option \<times> memory_pool" where
  "pool_allocate count size_of align_of mp = allocate_aligned count size_of (max align_of 2) mp"

definition pool_spend :: "u64 \<Rightarrow> memory_pool \<Rightarrow> memory_pool" where
  "pool_spend count mp = mp\<lparr>mp_index := mp_index mp + count\<rparr>"

definition pool_reset :: "memory_pool \<Rightarrow> memory_pool" where
  "pool_reset mp = mp\<lparr>mp_index := 0\<rparr>"

lemma unat_UINT32_MAX: "unat UINT32_MAX = 2 ^ 32 - 1"
  by (simp add: unsigned_minus_1_eq_mask mask_eq_exp_minus_1)

section \<open>Lookup tables\<close>

text \<open>What the clients of a lookup table rely on: a stored value is found under its key, and storing it
  leaves the other keys alone.  \<open>proper\<close> are the keys that may be stored (not the null value).\<close>

locale lookup_table =
  fixes put :: "'k \<Rightarrow> 'v \<Rightarrow> 's \<Rightarrow> 's result"
    and get :: "'k \<Rightarrow> 's \<Rightarrow> 'v result"
    and proper :: "'k \<Rightarrow> bool"
  assumes get_put_same: "put k v s = Inr s' \<Longrightarrow> proper k \<Longrightarrow> get k s' = Inr v"
    and get_put_other: "put k v s = Inr s' \<Longrightarrow> k' \<noteq> k \<Longrightarrow> proper k' \<Longrightarrow> get k' s' = get k' s"
begin

fun put_all :: "('k \<times> 'v) list \<Rightarrow> 's \<Rightarrow> 's result" where
  "put_all [] s = Inr s"
| "put_all ((k, v) # kvs) s = result_bind (put k v s) (put_all kvs)"

lemma get_put_all_other:
  "put_all kvs s = Inr s' \<Longrightarrow> k \<notin> fst ` set kvs \<Longrightarrow> proper k \<Longrightarrow> get k s' = get k s"
proof (induction kvs arbitrary: s)
  case (Cons kv kvs)
  obtain k' v where kv: "kv = (k', v)" by force
  with Cons.prems obtain s1 where "put k' v s = Inr s1" "put_all kvs s1 = Inr s'" by auto
  with Cons kv show ?case by (auto simp: get_put_other)
qed simp

lemma get_put_all:
  assumes "put_all kvs s = Inr s'" "distinct (map fst kvs)" "(k, v) \<in> set kvs" "proper k"
  shows "get k s' = Inr v"
  using assms
proof (induction kvs arbitrary: s)
  case (Cons kv kvs)
  obtain k' v' where kv: "kv = (k', v')" by force
  with Cons.prems obtain s1 where s1: "put k' v' s = Inr s1" "put_all kvs s1 = Inr s'" by auto
  show ?case
  proof (cases "k' = k")
    case True
    with Cons.prems(2) kv have fresh: "k \<notin> fst ` set kvs" by auto
    with Cons.prems(3) kv True have "v' = v" by (force simp: image_iff)
    then show ?thesis
      using get_put_all_other [OF s1(2) fresh Cons.prems(4)] get_put_same [OF s1(1)] True Cons.prems(4) by simp
  next
    case False
    with Cons.prems(3) kv have "(k, v) \<in> set kvs" by auto
    then show ?thesis using Cons.IH [OF s1(2)] Cons.prems(2,4) kv by simp
  qed
qed simp

end

lemma rr_slot_update:
  "unat i < length (rr_remapping rr) \<Longrightarrow>
    rr_slot j (rr\<lparr>rr_remapping := (rr_remapping rr)[unat i := h], rr_reverse := m\<rparr>) =
    (if j = i then Inr h else rr_slot j rr)"
  by (auto simp: rr_slot_def nth_list_update word_unat_eq_iff)

lemma rr_set_eq_Inr:
  "rr_set i h rr = Inr rr' \<longleftrightarrow> unat i < length (rr_remapping rr) \<and> rr_remapping rr ! unat i = 0 \<and> h \<noteq> 0 \<and>
    rr' = rr\<lparr>rr_remapping := (rr_remapping rr)[unat i := h], rr_reverse := cmap_insert h i (rr_reverse rr)\<rparr>"
  by (auto simp: rr_set_def rr_slot_def)

interpretation by_index: lookup_table rr_set rr_at "\<lambda>i. i \<noteq> CONTAINER_NULL_VALUE"
proof unfold_locales
  fix i h rr rr'
  assume "rr_set i h rr = Inr rr'" "i \<noteq> CONTAINER_NULL_VALUE"
  then show "rr_at i rr' = Inr h" by (auto simp: rr_set_eq_Inr rr_at_def rr_slot_update)
next
  fix i h rr rr' j
  assume "rr_set i h rr = Inr rr'" "j \<noteq> i" "j \<noteq> CONTAINER_NULL_VALUE"
  then show "rr_at j rr' = rr_at j rr" by (auto simp: rr_set_eq_Inr rr_at_def rr_slot_update)
qed

interpretation by_handle: lookup_table "\<lambda>h i. rr_set i h" rr_index "\<lambda>h. h \<noteq> 0"
proof unfold_locales
  fix i h rr rr'
  assume "rr_set i h rr = Inr rr'" "h \<noteq> 0"
  then show "rr_index h rr' = Inr i" by (auto simp: rr_set_eq_Inr rr_index_def)
next
  fix i h rr rr' h'
  assume "rr_set i h rr = Inr rr'" "h' \<noteq> h" "h' \<noteq> 0"
  then show "rr_index h' rr' = rr_index h' rr" by (auto simp: rr_set_eq_Inr rr_index_def)
qed

text \<open>What a replay does: after sizing the table it stores the handle of every index.\<close>

fun rr_set_all :: "(u32 \<times> u64) list \<Rightarrow> replay_remap \<Rightarrow> replay_remap result" where
  "rr_set_all [] rr = Inr rr"
| "rr_set_all ((i, h) # ihs) rr = result_bind (rr_set i h rr) (rr_set_all ihs)"

lemma rr_set_all_by_index: "rr_set_all ihs rr = by_index.put_all ihs rr"
  by (induction ihs arbitrary: rr) (auto simp: result_bind_def split: sum.splits)

lemma rr_set_all_by_handle: "rr_set_all ihs rr = by_handle.put_all (map prod.swap ihs) rr"
  by (induction ihs arbitrary: rr) (auto simp: result_bind_def split: sum.splits)

lemma rr_set_all_succeeds:
  assumes "distinct (map fst ihs)"
    "\<forall>(i, h) \<in> set ihs. unat i < length (rr_remapping rr) \<and> rr_remapping rr ! unat i = 0 \<and> h \<noteq> 0"
  shows "\<exists>rr'. rr_set_all ihs rr = Inr rr'"
  using assms
proof (induction ihs arbitrary: rr)
  case (Cons ih ihs)
  obtain i h where ih: "ih = (i, h)" by force
  define rr1 where "rr1 = rr\<lparr>rr_remapping := (rr_remapping rr)[unat i := h], rr_reverse := cmap_insert h i (rr_reverse rr)\<rparr>"
  have set1: "rr_set i h rr = Inr rr1"
    using Cons.prems(2) ih by (simp add: rr_set_eq_Inr rr1_def)
  have "\<exists>rr'. rr_set_all ihs rr1 = Inr rr'"
  proof (rule Cons.IH)
    show "distinct (map fst ihs)" using Cons.prems(1) by simp
    show "\<forall>(j, g) \<in> set ihs. unat j < length (rr_remapping rr1) \<and> rr_remapping rr1 ! unat j = 0 \<and> g \<noteq> 0"
    proof clarify
      fix j g assume jg: "(j, g) \<in> set ihs"
      have "j \<noteq> i" using Cons.prems(1) ih jg by force
      then have "unat j \<noteq> unat i" by (simp add: word_unat_eq_iff)
      then show "unat j < length (rr_remapping rr1) \<and> rr_remapping rr1 ! unat j = 0 \<and> g \<noteq> 0"
        using Cons.prems(2) jg by (auto simp: rr1_def)
    qed
  qed
  then show ?case by (simp add: ih set1)
qed simp

section \<open>The capture side\<close>

fun tr_add_all :: "(u64 \<times> change_source) list \<Rightarrow> trace_remap \<Rightarrow> trace_remap result" where
  "tr_add_all [] tr = Inr tr"
| "tr_add_all ((key, c) # ks) tr =
    result_bind (tr_add key c CONTAINER_INVALID_INDEX tr) (\<lambda>(_, tr'). tr_add_all ks tr')"

text \<open>Invariant of a table with automatic indices: the storage holds the objects \<open>0, \<dots>, size - 1\<close> in
  order, and every pointer of the lookup points into it.\<close>

definition tr_inv :: "trace_remap \<Rightarrow> bool" where
  "tr_inv tr \<longleftrightarrow> tr_mode tr \<noteq> Mode_desired \<and> length (tr_storage tr) = unat (tr_size tr) \<and>
    (\<forall>k < length (tr_storage tr). unat (t_index (tr_storage tr ! k)) = k) \<and>
    (\<forall>key i. map_of (tr_lookup tr) key = Some (Some i) \<longrightarrow> i < tr_size tr \<and> key \<noteq> 0)"

lemma tr_inv_new: "tr_inv tr_new"
  by (simp add: tr_inv_def tr_new_def)

lemma tr_insert_last:
  assumes "\<forall>q \<in> set st. t_index q < t_index p"
  shows "tr_insert p st = Inr (st @ [p])"
proof -
  have all: "takeWhile (\<lambda>q. t_index q < t_index p) st = st" using assms by (simp add: takeWhile_eq_all_conv)
  show ?thesis unfolding tr_insert_def Let_def all by simp
qed

lemma tr_add_automatic:
  assumes "tr_inv tr" "key \<noteq> 0" "tr_size tr \<noteq> UINT32_MAX"
  shows "tr_add key c CONTAINER_INVALID_INDEX tr = Inr (tr_size tr,
    tr\<lparr>tr_mode := Mode_automatic, tr_lookup := cmap_insert key (Some (tr_size tr)) (tr_lookup tr),
       tr_storage := tr_storage tr @ [\<lparr>t_index = tr_size tr, t_creation = c, t_last_modified = c, t_destroyed = change_source_new\<rparr>],
       tr_size := tr_size tr + 1\<rparr>)"
proof -
  have "t_index q < tr_size tr" if "q \<in> set (tr_storage tr)" for q
    using that assms(1) by (auto simp: tr_inv_def in_set_conv_nth word_less_nat_alt)
  moreover have "tr_mode tr = Mode_unknown \<or> tr_mode tr = Mode_automatic"
    using assms(1) by (cases "tr_mode tr") (auto simp: tr_inv_def)
  ultimately show ?thesis using assms(2) by (auto simp: tr_add_def Let_def tr_insert_last)
qed

lemma tr_add_inv:
  assumes "tr_inv tr" "tr_size tr \<noteq> UINT32_MAX" "tr_add key c CONTAINER_INVALID_INDEX tr = Inr (i, tr')"
  shows "tr_inv tr'"
proof -
  have key: "key \<noteq> 0" using assms(3) by (auto simp: tr_add_def)
  have less: "i < tr_size tr + 1" if "i < tr_size tr" for i
    using that assms(2) by (simp add: word_less_nat_alt unat_succ)
  have self: "tr_size tr < tr_size tr + 1" using assms(2) by (simp add: word_less_nat_alt unat_succ)
  have tr': "tr' = tr\<lparr>tr_mode := Mode_automatic, tr_lookup := cmap_insert key (Some (tr_size tr)) (tr_lookup tr),
       tr_storage := tr_storage tr @ [\<lparr>t_index = tr_size tr, t_creation = c, t_last_modified = c, t_destroyed = change_source_new\<rparr>],
       tr_size := tr_size tr + 1\<rparr>"
    using tr_add_automatic [OF assms(1) key assms(2), of c] assms(3) by simp
  show ?thesis using assms(1,2) less self key unfolding tr' tr_inv_def
    by (auto simp: unat_succ nth_append less_Suc_eq cmap_insert_def update_conv split: if_splits)
qed

lemma tr_unset_inv: "tr_inv tr \<Longrightarrow> tr_unset key c tr = Inr (p, tr') \<Longrightarrow> tr_inv tr'"
  unfolding tr_inv_def tr_unset_def
  by (fastforce simp: cmap_insert_def update_conv split: if_splits option.splits)

lemma tr_add_eq_Inr:
  assumes "tr_add key c d tr = Inr (i, tr')"
  shows "key \<noteq> 0" "tr_lookup tr' = cmap_insert key (Some i) (tr_lookup tr)"
  using assms by (auto simp: tr_add_def Let_def split: if_splits)

interpretation capture: lookup_table
  "\<lambda>key i tr. result_bind (tr_add key c d tr) (\<lambda>(j, tr'). assert_that (j = i) (Inr tr'))"
  tr_index_or_null "\<lambda>key. key \<noteq> 0" for c d
  by unfold_locales (auto dest!: tr_add_eq_Inr(2) simp: tr_index_or_null_def)

lemma tr_add_all_run:
  assumes "tr_inv tr" "\<forall>(key, c) \<in> set ks. key \<noteq> 0" "unat (tr_size tr) + length ks < 2 ^ 32"
  shows "\<exists>tr'. tr_add_all ks tr = Inr tr' \<and> tr_inv tr' \<and> unat (tr_size tr') = unat (tr_size tr) + length ks"
  using assms
proof (induction ks arbitrary: tr)
  case (Cons kc ks)
  obtain key c where kc: "kc = (key, c)" by force
  have room: "tr_size tr \<noteq> UINT32_MAX"
    using Cons.prems(3) unat_UINT32_MAX by auto
  obtain tr1 where add: "tr_add key c CONTAINER_INVALID_INDEX tr = Inr (tr_size tr, tr1)" and size1: "tr_size tr1 = tr_size tr + 1"
    using tr_add_automatic [OF Cons.prems(1) _ room, of key c] Cons.prems(2) kc by force
  have "\<exists>tr'. tr_add_all ks tr1 = Inr tr' \<and> tr_inv tr' \<and> unat (tr_size tr') = unat (tr_size tr1) + length ks"
  proof (rule Cons.IH)
    show "tr_inv tr1" by (rule tr_add_inv [OF Cons.prems(1) room add])
    show "\<forall>(key, c) \<in> set ks. key \<noteq> 0" using Cons.prems(2) by simp
    show "unat (tr_size tr1) + length ks < 2 ^ 32" using Cons.prems(3) by (simp add: size1 unat_succ [OF room])
  qed
  then show ?case by (auto simp: kc add size1 unat_succ [OF room])
qed simp

lemma tr_add_all_other:
  "tr_add_all ks tr = Inr tr' \<Longrightarrow> key \<notin> fst ` set ks \<Longrightarrow> key \<noteq> 0 \<Longrightarrow> tr_index_or_null key tr' = tr_index_or_null key tr"
proof (induction ks arbitrary: tr)
  case (Cons kc ks)
  obtain k c where kc: "kc = (k, c)" by force
  obtain i tr1 where add: "tr_add k c CONTAINER_INVALID_INDEX tr = Inr (i, tr1)" "tr_add_all ks tr1 = Inr tr'"
    using Cons.prems(1) kc by auto
  have "tr_index_or_null key tr1 = tr_index_or_null key tr"
    using capture.get_put_other [where k = k and c = c and d = CONTAINER_INVALID_INDEX and v = i and s = tr and s' = tr1 and k' = key] add(1) Cons.prems kc by force
  with Cons add(2) show ?case by auto
qed simp

lemma tr_add_all_index:
  assumes "tr_inv tr" "\<forall>(key, c) \<in> set ks. key \<noteq> 0" "unat (tr_size tr) + length ks < 2 ^ 32"
    and "distinct (map fst ks)" "tr_add_all ks tr = Inr tr'" "n < length ks"
  shows "tr_index_or_null (fst (ks ! n)) tr' = Inr (tr_size tr + of_nat n)"
  using assms
proof (induction ks arbitrary: tr n)
  case (Cons kc ks)
  obtain key c where kc: "kc = (key, c)" by force
  have room: "tr_size tr \<noteq> UINT32_MAX"
    using Cons.prems(3) unat_UINT32_MAX by auto
  have key: "key \<noteq> 0" using Cons.prems(2) kc by simp
  obtain tr1 where add: "tr_add key c CONTAINER_INVALID_INDEX tr = Inr (tr_size tr, tr1)" and size1: "tr_size tr1 = tr_size tr + 1"
    using tr_add_automatic [OF Cons.prems(1) key room, of c] by force
  have rest: "tr_add_all ks tr1 = Inr tr'" using Cons.prems(5) by (simp add: kc add)
  show ?case
  proof (cases n)
    case 0
    have "tr_index_or_null key tr1 = Inr (tr_size tr)"
      using capture.get_put_same [where k = key and c = c and d = CONTAINER_INVALID_INDEX and v = "tr_size tr" and s = tr and s' = tr1] add key by simp
    moreover have "key \<notin> fst ` set ks" using Cons.prems(4) kc by simp
    ultimately show ?thesis using tr_add_all_other [OF rest] key by (simp add: 0 kc)
  next
    case (Suc m)
    have "tr_index_or_null (fst (ks ! m)) tr' = Inr (tr_size tr1 + of_nat m)"
    proof (rule Cons.IH [OF _ _ _ _ rest])
      show "tr_inv tr1" by (rule tr_add_inv [OF Cons.prems(1) room add])
      show "\<forall>(key, c) \<in> set ks. key \<noteq> 0" using Cons.prems(2) by simp
      show "unat (tr_size tr1) + length ks < 2 ^ 32" using Cons.prems(3) by (simp add: size1 unat_succ [OF room])
    qed (use Cons.prems Suc in auto)
    then show ?thesis by (simp add: Suc size1 algebra_simps)
  qed
qed simp

text \<open>C13: Handles survive replay.  Give every captured handle an automatic index in a fresh \<open>trace_remap\<close>
  and store, in a \<open>replay_remap\<close> sized for them, a replay handle for each index.  Then both tables
  are built without a failed assertion, the index the capture writes for its \<open>n\<close>-th handle is \<open>n\<close>,
  the replay reads that index back as the \<open>n\<close>-th replay handle, and null stays null.\<close>

theorem handles_survive_replay:
  assumes "\<forall>(key, c) \<in> set ks. key \<noteq> 0" "distinct (map fst ks)" "length ks < 2 ^ 32 - 2"
    and "length hs = length ks" "0 \<notin> set hs"
  shows "\<exists>tr rr. tr_add_all ks tr_new = Inr tr \<and>
    rr_set_all (zip (map of_nat [0..<length hs]) hs) (rr_resize (of_nat (length hs)) rr_new) = Inr rr \<and>
    (\<forall>n < length ks. result_bind (tr_index_or_null (fst (ks ! n)) tr) (\<lambda>i. rr_at i rr) = Inr (hs ! n)) \<and>
    result_bind (tr_index_or_null 0 tr) (\<lambda>i. rr_at i rr) = Inr 0"
proof -
  let ?ihs = "zip (map of_nat [0..<length hs]) hs :: (u32 \<times> u64) list"
  let ?rr0 = "rr_resize (of_nat (length hs)) rr_new"
  have small: "unat (of_nat n :: u32) = n" if "n \<le> length hs" for n
    using that assms(3,4) by (simp add: unat_of_nat take_bit_nat_eq_self_iff)
  obtain tr where tr: "tr_add_all ks tr_new = Inr tr"
    using tr_add_all_run [OF tr_inv_new assms(1)] assms(3) by (auto simp: tr_new_def)
  have index: "tr_index_or_null (fst (ks ! n)) tr = Inr (of_nat n)" if "n < length ks" for n
    using tr_add_all_index [OF tr_inv_new assms(1) _ assms(2) tr that] assms(3) by (simp add: tr_new_def)
  have rr0: "rr_remapping ?rr0 = replicate (length hs) 0" by (simp add: rr_resize_def rr_new_def small)
  have "inj_on (of_nat :: nat \<Rightarrow> u32) {0..<length hs}"
    by (rule inj_onI) (metis atLeastLessThan_iff less_imp_le small)
  then have dist: "distinct (map fst ?ihs)" by (simp add: distinct_map)
  have "\<forall>(i, h) \<in> set ?ihs. unat i < length (rr_remapping ?rr0) \<and> rr_remapping ?rr0 ! unat i = 0 \<and> h \<noteq> 0"
    using assms(5) by (auto simp: set_zip rr0 small) (metis nth_mem)
  from rr_set_all_succeeds [OF dist this] obtain rr where rr: "rr_set_all ?ihs ?rr0 = Inr rr" by blast
  have at: "rr_at (of_nat n) rr = Inr (hs ! n)" if "n < length hs" for n
  proof (rule by_index.get_put_all [OF rr [unfolded rr_set_all_by_index] dist])
    show "(of_nat n, hs ! n) \<in> set ?ihs" using that by (auto simp: set_zip intro: exI [of _ n])
    have "unat (CONTAINER_NULL_VALUE) = 2 ^ 32 - 2" by simp
    then show "(of_nat n :: u32) \<noteq> CONTAINER_NULL_VALUE"
      using small [of n] that assms(3,4) by (metis less_imp_le nat_less_le order_less_trans)
  qed
  have "result_bind (tr_index_or_null 0 tr) (\<lambda>i. rr_at i rr) = Inr 0"
    by (simp add: tr_index_or_null_def rr_at_def)
  with tr rr index at assms(4) show ?thesis by auto
qed

theorem handles_survive_replay_witness:
  "\<exists>tr rr. tr_add_all [(5, change_source_new), (9, change_source_new)] tr_new = Inr tr \<and>
    rr_set_all [(0, 100), (1, 200)] (rr_resize 2 rr_new) = Inr rr \<and>
    result_bind (tr_index_or_null 9 tr) (\<lambda>i. rr_at i rr) = Inr 200"
proof -
  let ?ks = "[(5, change_source_new), (9, change_source_new)] :: (u64 \<times> change_source) list"
  have prems: "\<forall>(key, c) \<in> set ?ks. key \<noteq> 0" "distinct (map fst ?ks)" "length ?ks < 2 ^ 32 - 2"
    "length [100, 200 :: u64] = length ?ks" "0 \<notin> set [100, 200 :: u64]" by simp_all
  have zip: "zip (map of_nat [0..<length [100, 200 :: u64]]) [100, 200] = [(0, 100), (1, 200 :: u64)]"
    "(of_nat (length [100, 200 :: u64]) :: u32) = 2" by (simp_all add: upt_rec)
  have second: "1 < length ?ks" "fst (?ks ! 1) = 9" "[100, 200 :: u64] ! 1 = 200" by simp_all
  show ?thesis using handles_survive_replay [OF prems] unfolding zip by (metis second)
qed

text \<open>Unsetting an index keeps the reverse entry of its handle and points it at index 0, so a handle that
  is gone is reported as the handle of index 0 instead of as invalid.\<close>

lemma rr_unset_reverse:
  assumes "rr_unset i rr = Inr rr'" "rr_at i rr = Inr h" "i \<noteq> CONTAINER_NULL_VALUE"
  shows "rr_contains i rr' = Inr False" "rr_index_or_invalid h rr' = Inr 0"
  using assms by (auto simp: rr_unset_def rr_at_def rr_slot_def rr_contains_def rr_index_or_invalid_def
    split: if_splits)

text \<open>An index that is unset in a \<open>replay_remap\<close> no longer holds a handle, but the reverse lookup of
  the old handle then answers index 0, neither \<open>CONTAINER_INVALID_INDEX\<close> nor the old index.\<close>

theorem unset_handle_aliases_index_zero:
  assumes "rr_set i h rr = Inr rr1" "i \<noteq> CONTAINER_NULL_VALUE"
  shows "\<exists>rr2. rr_unset i rr1 = Inr rr2 \<and> rr_contains i rr2 = Inr False \<and> rr_index_or_invalid h rr2 = Inr 0"
proof -
  have at: "rr_at i rr1 = Inr h" by (rule by_index.get_put_same [OF assms])
  then obtain rr2 where unset: "rr_unset i rr1 = Inr rr2" using assms(2) by (auto simp: rr_at_def rr_unset_def)
  with rr_unset_reverse [OF unset at assms(2)] show ?thesis by blast
qed

theorem unset_handle_aliases_index_zero_witness:
  "\<exists>rr1 rr2. rr_set 3 77 (rr_resize 5 rr_new) = Inr rr1 \<and> rr_unset 3 rr1 = Inr rr2 \<and>
    rr_index_or_invalid 77 rr2 = Inr 0"
proof -
  obtain rr1 where rr1: "rr_set 3 77 (rr_resize 5 rr_new) = Inr rr1"
    by (simp add: rr_set_def rr_slot_def rr_resize_def rr_new_def)
  with unset_handle_aliases_index_zero [OF rr1] show ?thesis by auto
qed

section \<open>The growing vector holds what was appended\<close>

definition td_inv :: "'a list \<Rightarrow> 'a trace_data \<Rightarrow> bool" where
  "td_inv xs td \<longleftrightarrow> unat (td_size td) = length xs \<and> length xs \<le> length (td_current td) \<and> 64 \<le> length (td_current td) \<and>
    (\<forall>k < length xs. td_current td ! k = Element (xs ! k)) \<and>
    (\<forall>k < length (td_current td). length xs \<le> k \<longrightarrow> td_current td ! k \<in> {Nullptr, Deleted})"

lemma td_inv_new: "td_inv [] td_new"
  by (simp add: td_inv_def td_new_def)

lemma td_inv_emplace_back:
  assumes "td_inv xs td" "length xs < 2 ^ 32 - 1"
  shows "\<exists>td'. td_emplace_back x td = Inr td' \<and> td_inv (xs @ [x]) td'"
proof -
  have n: "unat (td_size td) = length xs" and next_size: "unat (td_size td + 1) = Suc (length xs)"
    using assms by (simp_all add: td_inv_def unat_word_ariths)
  define vec where "vec = (if length (td_current td) = length xs then td_current td @ replicate (length xs) Nullptr else td_current td)"
  have vec: "length xs < length vec" "64 \<le> length vec" "\<forall>k < length xs. vec ! k = Element (xs ! k)"
    "\<forall>k < length vec. length xs \<le> k \<longrightarrow> vec ! k \<in> {Nullptr, Deleted}"
    using assms(1) by (auto simp: td_inv_def vec_def nth_append)
  obtain td' where td': "td_emplace_back x td = Inr td'" "td_current td' = vec[length xs := Element x]" "td_size td' = td_size td + 1"
    using vec(1) n by (auto simp: td_emplace_back_def Let_def vec_def split: if_splits)
  have "td_inv (xs @ [x]) td'" using vec td' next_size by (auto simp: td_inv_def nth_append less_Suc_eq)
  then show ?thesis using td'(1) by blast
qed

lemma delete_elements_ok:
  assumes "n \<le> length vec" "\<forall>k < n. \<exists>x. vec ! k = Element x"
  shows "\<exists>vec'. delete_elements n vec = Inr vec' \<and> length vec' = length vec \<and>
    (\<forall>k < length vec. vec' ! k = (if k < n then Deleted else vec ! k))"
  using assms
proof (induction n arbitrary: vec)
  case (Suc n)
  then obtain x where "vec ! n = Element x" by blast
  moreover from Suc.prems obtain vec' where "delete_elements n (vec[n := Deleted]) = Inr vec'" "length vec' = length vec"
    "\<forall>k < length vec. vec' ! k = (if k < n then Deleted else vec[n := Deleted] ! k)"
    using Suc.IH [of "vec[n := Deleted]"] by auto
  ultimately show ?case using Suc.prems(1) by (intro exI [of _ vec']) (auto simp: less_Suc_eq)
qed simp

lemma td_inv_clear:
  assumes "td_inv xs td" "length xs \<le> 2 ^ 31"
  shows "\<exists>td'. td_clear td = Inr td' \<and> td_inv [] td'"
proof -
  have size: "unat (td_size td) = length xs" using assms(1) by (simp add: td_inv_def)
  have "td_size td = of_nat (length xs)" unfolding size [symmetric] by simp
  then have one: "td_size td - 1 = word_of_int (int (length xs) - 1)" by simp
  have "sint (word_of_int (int (length xs) - 1) :: u32) = int (length xs) - 1"
    unfolding signed_of_int using assms(2) by (subst signed_take_bit_int_eq_self) simp_all
  then have "sint (td_size td - 1) = int (length xs) - 1" unfolding one .
  then have count: "nat (sint (td_size td - 1) + 1) = length xs" by simp
  obtain vec where vec: "delete_elements (length xs) (td_current td) = Inr vec" "length vec = length (td_current td)"
    "\<forall>k < length (td_current td). vec ! k = (if k < length xs then Deleted else td_current td ! k)"
    using delete_elements_ok [of "length xs" "td_current td"] assms(1) by (auto simp: td_inv_def)
  then show ?thesis using assms(1) by (simp add: td_clear_def count td_inv_def)
qed

text \<open>Any sequence of appending and clearing, on the vector and on a list.\<close>

datatype 'a vector_op = Emplace_back 'a | Clear_vector

fun td_run :: "'a vector_op list \<Rightarrow> 'a trace_data \<Rightarrow> 'a trace_data result" where
  "td_run [] td = Inr td"
| "td_run (Emplace_back x # ops) td = result_bind (td_emplace_back x td) (td_run ops)"
| "td_run (Clear_vector # ops) td = result_bind (td_clear td) (td_run ops)"

fun list_run :: "'a vector_op list \<Rightarrow> 'a list \<Rightarrow> 'a list" where
  "list_run [] xs = xs"
| "list_run (Emplace_back x # ops) xs = list_run ops (xs @ [x])"
| "list_run (Clear_vector # ops) xs = list_run ops []"

lemma td_run_inv:
  assumes "td_inv xs td" "length xs + length ops \<le> 2 ^ 31"
  shows "\<exists>td'. td_run ops td = Inr td' \<and> td_inv (list_run ops xs) td'"
  using assms
proof (induction ops arbitrary: xs td)
  case (Cons op ops)
  show ?case
  proof (cases op)
    case (Emplace_back x)
    obtain td1 where "td_emplace_back x td = Inr td1" "td_inv (xs @ [x]) td1"
      using td_inv_emplace_back [OF Cons.prems(1), of x] Cons.prems(2) by auto
    then show ?thesis using Cons.IH [of "xs @ [x]" td1] Cons.prems(2) Emplace_back by simp
  next
    case Clear_vector
    obtain td1 where "td_clear td = Inr td1" "td_inv [] td1" using td_inv_clear [OF Cons.prems(1)] Cons.prems(2) by auto
    then show ?thesis using Cons.IH [of "[]" td1] Cons.prems(2) Clear_vector by simp
  qed
qed simp

text \<open>C35: The growing vector \<open>trace_data\<close> refines a list.  After any sequence of at most 2^31 appends and clears the
  size is the number of elements since the last clear and \<open>at\<close> returns each of them; an index at or beyond the size
  throws when it is outside the vector, and otherwise finds a null pointer or the pointer to a deleted element.\<close>

theorem trace_data_refines_list:
  assumes "length ops \<le> 2 ^ 31"
  shows "\<exists>td. td_run ops td_new = Inr td \<and> unat (td_size td) = length (list_run ops []) \<and>
    (\<forall>i. td_at i td = (if unat i < length (list_run ops []) then Inr (list_run ops [] ! unat i)
       else if unat i < length (td_current td) then Inl Undefined_behaviour else Inl Out_of_range))"
proof -
  obtain td where td: "td_run ops td_new = Inr td" "td_inv (list_run ops []) td"
    using td_run_inv [OF td_inv_new, of ops] assms by auto
  show ?thesis
    by (rule exI [of _ td]) (use td in \<open>auto simp: td_inv_def td_at_def split: slot.splits\<close>)
qed

theorem trace_data_refines_list_witness:
  "\<exists>td. td_run [Emplace_back CHR ''a'', Emplace_back CHR ''b'', Clear_vector, Emplace_back CHR ''c''] td_new = Inr td \<and>
    td_at 0 td = Inr (CHR ''c'') \<and> td_at 1 td \<noteq> Inr (CHR ''b'')"
proof -
  let ?ops = "[Emplace_back CHR ''a'', Emplace_back CHR ''b'', Clear_vector, Emplace_back CHR ''c'']"
  have few: "length ?ops \<le> 2 ^ 31" and elements: "list_run ?ops [] = ''c''" by simp_all
  obtain td where td: "td_run ?ops td_new = Inr td" "\<forall>i. td_at i td = (if unat i < length ''c'' then Inr (''c'' ! unat i)
       else if unat i < length (td_current td) then Inl Undefined_behaviour else Inl Out_of_range)"
    using trace_data_refines_list [OF few, unfolded elements] by blast
  show ?thesis using td(1) spec [OF td(2), of 0] spec [OF td(2), of 1] by (intro exI [of _ td]) simp
qed

section \<open>The pool hands out disjoint aligned blocks\<close>

definition pool_inv :: "memory_pool \<Rightarrow> bool" where
  "pool_inv mp \<longleftrightarrow> unat (mp_index mp) \<le> unat (mp_size mp) \<and> unat (mp_size mp) < 2 ^ 32 \<and>
    unat (mp_data mp) + unat (mp_size mp) < 2 ^ 64"

lemma mod_aligned:
  fixes p :: u64
  assumes "k < 64"
  shows "(p + (- p) mod 2 ^ k) mod 2 ^ k = 0"
proof -
  have "take_bit k (p + take_bit k (- p)) = 0"
    by transfer (simp add: take_bit_eq_mod mod_simps)
  then show ?thesis by (simp add: take_bit_eq_mod)
qed

lemma allocate_aligned_block:
  assumes "pool_inv mp" "allocate_aligned count size_of (2 ^ k) mp = (Some r, mp')" "k < 64"
  shows "r mod 2 ^ k = 0" "pool_inv mp'" "mp_data mp' = mp_data mp" "mp_size mp' = mp_size mp"
    "unat (mp_data mp) + unat (mp_index mp) \<le> unat r"
    "unat r + unat (count * size_of) = unat (mp_data mp) + unat (mp_index mp')"
proof -
  define a i n d where "a = count * size_of" and "i = mp_index mp" and "n = mp_size mp" and "d = mp_data mp"
  define e where "e = (- (d + i)) mod 2 ^ k"
  have iv: "unat i \<le> unat n" "unat n < 2 ^ 32" "unat d + unat n < 2 ^ 64"
    using assms(1) by (simp_all add: pool_inv_def i_def n_def d_def)
  have ok: "i + a \<le> n" "a \<le> n - (i + a)" "e \<le> n - (i + a) - a"
    and r: "r = d + i + e" and mp': "mp' = mp\<lparr>mp_index := n - (n - (i + a) - e)\<rparr>"
    using assms(2) by (auto simp: allocate_aligned_def std_align_def Let_def a_def i_def n_def d_def e_def not_less split: if_splits)
  have "unat a \<le> unat n - unat (i + a)" using ok(1,2) by (metis unat_sub word_le_nat_alt)
  then have "unat a < 2 ^ 32" using iv(2) by linarith
  then have ia: "unat (i + a) = unat i + unat a" using iv by (intro unat_add_small) simp
  have fit: "unat (i + a) \<le> unat n" using ok(1) by (simp add: word_le_nat_alt)
  have "unat e \<le> unat n - unat (i + a) - unat a" using ok by (metis unat_sub word_le_nat_alt)
  then have total: "unat i + unat a + unat e \<le> unat n" using ia fit by linarith
  have di: "unat (d + i) = unat d + unat i" using iv by (intro unat_add_small) simp
  have r_nat: "unat r = unat d + unat i + unat e" unfolding r using iv total di by (subst unat_add_small) simp_all
  define w where "w = n - (i + a) - e"
  have w: "unat w = unat n - (unat i + unat a) - unat e"
    unfolding w_def using ok ia total by (subst unat_sub) (auto simp: word_le_nat_alt unat_sub)
  then have "unat (n - w) = unat n - unat w" by (intro unat_sub) (simp add: word_le_nat_alt)
  with w total have index': "unat (mp_index mp') = unat i + unat a + unat e" by (simp add: mp' flip: w_def)
  show "r mod 2 ^ k = 0" unfolding r e_def by (rule mod_aligned [OF assms(3)])
  show "mp_data mp' = mp_data mp" "mp_size mp' = mp_size mp" by (simp_all add: mp')
  then show "pool_inv mp'" using assms(1) index' total by (simp add: pool_inv_def n_def)
  show "unat (mp_data mp) + unat (mp_index mp) \<le> unat r" using r_nat by (simp add: d_def i_def)
  show "unat r + unat (count * size_of) = unat (mp_data mp) + unat (mp_index mp')"
    using r_nat index' by (simp add: a_def d_def)
qed

text \<open>A run of allocations: the blocks handed out, as address, size and exponent of the alignment.  A
  request is a count, an element size and the exponent of its alignment.\<close>

fun pool_run :: "(u64 \<times> u64 \<times> nat) list \<Rightarrow> memory_pool \<Rightarrow> (u64 \<times> nat \<times> nat) list" where
  "pool_run [] mp = []"
| "pool_run ((count, size_of, k) # reqs) mp =
    (case allocate_aligned count size_of (2 ^ k) mp of
       (None, mp') \<Rightarrow> pool_run reqs mp'
     | (Some r, mp') \<Rightarrow> (r, unat (count * size_of), k) # pool_run reqs mp')"

fun blocks_ok :: "nat \<Rightarrow> nat \<Rightarrow> (u64 \<times> nat \<times> nat) list \<Rightarrow> bool" where
  "blocks_ok lo hi [] = True"
| "blocks_ok lo hi ((r, n, k) # bs) =
    (lo \<le> unat r \<and> unat r + n \<le> hi \<and> r mod 2 ^ k = 0 \<and> blocks_ok (unat r + n) hi bs)"

lemma blocks_ok_nth:
  "blocks_ok lo hi bs \<Longrightarrow> i < length bs \<Longrightarrow> bs ! i = (r, n, k) \<Longrightarrow>
    lo \<le> unat r \<and> unat r + n \<le> hi \<and> r mod 2 ^ k = 0"
proof (induction lo hi bs arbitrary: i rule: blocks_ok.induct)
  case (2 lo hi r0 n0 k0 bs)
  show ?case
  proof (cases i)
    case (Suc j)
    then have "unat r0 + n0 \<le> unat r \<and> unat r + n \<le> hi \<and> r mod 2 ^ k = 0" using 2(1) [of j] 2(2-4) by simp
    with 2(2) show ?thesis by simp
  qed (use 2 in simp)
qed simp

lemma blocks_ok_ordered:
  "blocks_ok lo hi bs \<Longrightarrow> i < j \<Longrightarrow> j < length bs \<Longrightarrow> bs ! i = (r, n, k) \<Longrightarrow> bs ! j = (r', n', k') \<Longrightarrow>
    unat r + n \<le> unat r'"
proof (induction lo hi bs arbitrary: i j rule: blocks_ok.induct)
  case (2 lo hi r0 n0 k0 bs)
  obtain j' where j: "j = Suc j'" using 2(3) by (cases j) auto
  show ?case
  proof (cases i)
    case 0
    then show ?thesis using blocks_ok_nth [of "unat r0 + n0" hi bs j' r' n' k'] 2(2-6) by (simp add: j)
  next
    case (Suc i')
    then show ?thesis using 2(1) [of i' j'] 2(2-6) by (simp add: j)
  qed
qed simp

lemma allocate_aligned_None: "allocate_aligned c z al mp = (None, mp') \<Longrightarrow> mp' = mp"
  by (auto simp: allocate_aligned_def Let_def split: if_splits option.splits)

lemma pool_run_blocks:
  assumes "pool_inv mp" "\<forall>(c, z, k) \<in> set reqs. k < 64"
  shows "blocks_ok (unat (mp_data mp) + unat (mp_index mp)) (unat (mp_data mp) + unat (mp_size mp)) (pool_run reqs mp)"
  using assms
proof (induction reqs arbitrary: mp)
  case (Cons req reqs)
  obtain c z k where req: "req = (c, z, k)" by (cases req)
  obtain res mp1 where alloc: "allocate_aligned c z (2 ^ k) mp = (res, mp1)" by force
  show ?case
  proof (cases res)
    case None
    with alloc have "mp1 = mp" by (auto dest: allocate_aligned_None)
    with Cons None alloc show ?thesis by (simp add: req)
  next
    case (Some r)
    have k: "k < 64" using Cons.prems(2) req by simp
    note block = allocate_aligned_block [OF Cons.prems(1) alloc [unfolded Some] k]
    have "blocks_ok (unat r + unat (c * z)) (unat (mp_data mp) + unat (mp_size mp)) (pool_run reqs mp1)"
      using Cons.IH [OF block(2)] Cons.prems(2) by (simp add: block(3,4,6))
    moreover have "unat r + unat (c * z) \<le> unat (mp_data mp) + unat (mp_size mp)"
      using block(2,4,6) by (simp add: pool_inv_def)
    ultimately show ?thesis using block(1,5) by (simp add: req alloc Some)
  qed
qed simp

lemma pool_run_exponent: "(r, n, k) \<in> set (pool_run reqs mp) \<Longrightarrow> \<exists>c z. (c, z, k) \<in> set reqs"
proof (induction reqs mp rule: pool_run.induct)
  case (2 count size_of k0 reqs mp)
  obtain res mp' where alloc: "allocate_aligned count size_of (2 ^ k0) mp = (res, mp')" by force
  show ?case
  proof (cases res)
    case None
    then show ?thesis using 2 alloc by auto
  next
    case (Some a)
    then show ?thesis using 2(2) [OF alloc [symmetric] Some] 2(3) alloc by auto
  qed
qed simp

lemma unat_two_power: "k < 64 \<Longrightarrow> unat (2 ^ k :: u64) = 2 ^ k"
proof -
  assume k: "k < 64"
  then have "(2 :: nat) ^ k < 2 ^ 64" by (intro power_strict_increasing) simp_all
  moreover have "(2 ^ k :: u64) = of_nat (2 ^ k)" by simp
  ultimately show ?thesis unfolding \<open>2 ^ k = of_nat (2 ^ k)\<close> unsigned_of_nat using k by (simp add: take_bit_nat_eq_self)
qed

text \<open>C26: The argument pool is safe: whatever sequence of counts, element sizes and power-of-two
  alignments is requested, multiplications that wrap included, every block handed out lies inside the
  pool and has the alignment asked for, and no block overlaps one that was handed out after it.\<close>

theorem pool_blocks_disjoint:
  assumes "pool_inv mp" "\<forall>(c, z, k) \<in> set reqs. k < 64"
    and "i < length (pool_run reqs mp)" "pool_run reqs mp ! i = (r, n, k)"
  shows "{unat r..<unat r + n} \<subseteq> {unat (mp_data mp)..<unat (mp_data mp) + unat (mp_size mp)} \<and> unat r mod 2 ^ k = 0 \<and>
    (\<forall>j r' n' k'. i < j \<and> j < length (pool_run reqs mp) \<and> pool_run reqs mp ! j = (r', n', k') \<longrightarrow>
      {unat r..<unat r + n} \<inter> {unat r'..<unat r' + n'} = {})"
proof -
  note ok = pool_run_blocks [OF assms(1,2)]
  have k: "k < 64" using pool_run_exponent [of r n k reqs mp] nth_mem [OF assms(3)] assms(2,4) by fastforce
  have "r mod 2 ^ k = 0" using blocks_ok_nth [OF ok assms(3,4)] by simp
  then have "unat r mod 2 ^ k = 0" using unat_two_power [OF k] by (metis unat_mod unat_0)
  then show ?thesis
    using blocks_ok_nth [OF ok assms(3,4)] blocks_ok_ordered [OF ok _ _ assms(4)] by fastforce
qed

theorem pool_blocks_disjoint_witness:
  "let run = pool_run [(3, 1, 0), (2, 4, 2)] \<lparr>mp_data = 100, mp_size = 64, mp_index = 0\<rparr> in
    map (\<lambda>(r, n, k). (unat r, n, k)) run = [(100, 3, 0), (104, 8, 2)] \<and>
    {unat (fst (run ! 0))..<unat (fst (run ! 0)) + 3} \<inter> {unat (fst (run ! 1))..<unat (fst (run ! 1)) + 8} = {} \<and>
    {unat (fst (run ! 1))..<unat (fst (run ! 1)) + 8} \<subseteq> {100..<164} \<and> unat (fst (run ! 1)) mod 4 = 0"
proof -
  let ?mp = "\<lparr>mp_data = 100, mp_size = 64, mp_index = 0\<rparr>" and ?reqs = "[(3, 1, 0), (2, 4, 2)] :: (u64 \<times> u64 \<times> nat) list"
  have run: "pool_run ?reqs ?mp = [(100, 3, 0), (104, 8, 2)]" by code_simp
  have inv: "pool_inv ?mp" "\<forall>(c, z, k) \<in> set ?reqs. k < 64" by (simp_all add: pool_inv_def)
  have one: "0 < length (pool_run ?reqs ?mp)" "pool_run ?reqs ?mp ! 0 = (100, 3, 0)"
    and two: "1 < length (pool_run ?reqs ?mp)" "pool_run ?reqs ?mp ! 1 = (104, 8, 2)" unfolding run by simp_all
  have "{unat (100 :: u64)..<unat (100 :: u64) + 3} \<inter> {unat (104 :: u64)..<unat (104 :: u64) + 8} = {}"
    using pool_blocks_disjoint [OF inv one] two by (metis zero_less_one)
  moreover have "{unat (104 :: u64)..<unat (104 :: u64) + 8} \<subseteq> {100..<164}" "unat (104 :: u64) mod 4 = 0"
    using pool_blocks_disjoint [OF inv two] by simp_all
  ultimately show ?thesis unfolding Let_def run by simp
qed

text \<open>\<open>memory_pool\<close> refuses requests that fit: \<open>allocate_aligned\<close> subtracts the block from the space
  before \<open>std::align\<close> checks the block against it, so a request larger than half of what is left fails.\<close>

theorem pool_refuses_more_than_half:
  assumes "pool_inv mp" "unat (mp_size mp) - unat (mp_index mp) < 2 * unat (count * size_of)"
  shows "allocate_aligned count size_of alignment mp = (None, mp)"
proof (rule ccontr)
  define a i n where "a = count * size_of" and "i = mp_index mp" and "n = mp_size mp"
  assume "allocate_aligned count size_of alignment mp \<noteq> (None, mp)"
  then have ok: "i + a \<le> n" "a \<le> n - (i + a)"
    by (auto simp: allocate_aligned_def std_align_def Let_def a_def i_def n_def not_less split: if_splits)
  have iv: "unat i \<le> unat n" "unat n < 2 ^ 32" using assms(1) by (simp_all add: pool_inv_def i_def n_def)
  have a: "unat a \<le> unat n - unat (i + a)" using ok by (metis unat_sub word_le_nat_alt)
  then have "unat (i + a) = unat i + unat a" using iv by (intro unat_add_small) simp
  with a have "2 * unat a \<le> unat n - unat i" using ok(1) by (simp add: word_le_nat_alt)
  with assms(2) show False by (simp add: a_def i_def n_def)
qed

theorem pool_refuses_more_than_half_witness:
  "allocate_aligned 40 1 1 \<lparr>mp_data = 100, mp_size = 64, mp_index = 0\<rparr> = (None, \<lparr>mp_data = 100, mp_size = 64, mp_index = 0\<rparr>)"
  by (rule pool_refuses_more_than_half) (simp_all add: pool_inv_def)

end
