(* ===== verification/Suballocator.thy ===== *)
theory Suballocator
  imports Containers
begin

unbundle bit_operations_syntax

text \<open>The suballocator of \<^verbatim>\<open>src/suballocator.cpp\<close>: replayed images, buffers, tensors and data graph
  sessions are placed inside a few large device memory heaps, each owned by one thread.

  A \<open>heap*\<close> is the thread and the position of the heap in that thread's list, which only grows until
  \<open>destroy\<close>.  What the Vulkan driver answers to an allocation is an argument of the operations
  (\<open>vk_answer\<close>).  Debug prints are left out.\<close>

section \<open>Data\<close>

datatype object_type = Type_unknown | Type_buffer | Type_image | Type_tensor | Type_session

fun type_code :: "object_type \<Rightarrow> nat" where
  "type_code Type_unknown = 0"
| "type_code Type_buffer = 9"
| "type_code Type_image = 10"
| "type_code Type_tensor = 1000460000"
| "type_code Type_session = 1000507000"

datatype lava_tiling = TILING_OPTIMAL | TILING_LINEAR | TILING_DRM

record suballocation =
  sa_type :: object_type
  sa_native :: u64
  sa_size :: u64
  sa_offset :: u64
  sa_alignment :: u64
  sa_index :: u32
  sa_bind_point :: u32
  sa_object_index :: u32
  sa_alias_member :: bool

definition suballocation_new :: suballocation where
  "suballocation_new = \<lparr>sa_type = Type_unknown, sa_native = 0, sa_size = 0, sa_offset = 0, sa_alignment = 0, sa_index = 0,
    sa_bind_point = 0x7FFFFFFF, sa_object_index = CONTAINER_INVALID_INDEX, sa_alias_member = False\<rparr>"

record heap =
  hp_tid :: nat
  hp_memoryTypeIndex :: nat
  hp_mem :: u64
  hp_free :: u64
  hp_total :: u64
  hp_flags :: u32
  hp_allocflags :: u32
  hp_dedicated :: bool
  hp_alias_group :: bool
  hp_subs :: "suballocation list"
  hp_deletes :: "u32 list"
  hp_tiling :: lava_tiling
  hp_mapped :: u64

type_synonym heap_ptr = "nat \<times> nat"

record lookup =
  lk_home :: "heap_ptr option"
  lk_offset :: u64
  lk_size :: u64
  lk_initialized :: bool
  lk_alias_member :: bool

definition lookup_new :: lookup where
  "lookup_new = \<lparr>lk_home = None, lk_offset = 0, lk_size = 0, lk_initialized = False, lk_alias_member = False\<rparr>"

record datagraph_lookup =
  dg_bind_point :: u32
  dg_object_index :: u32
  dg_loc :: lookup

record memory_requirements =
  mr_size :: u64
  mr_alignment :: u64
  mr_memoryTypeBits :: u32
  mr_prefers_dedicated :: bool
  mr_requires_dedicated :: bool
  mr_memory_flags :: u32
  mr_allocate_flags :: u32

record alias_group =
  ag_capture_memory_index :: u32
  ag_capture_offset :: u64
  ag_size :: u64
  ag_alignment :: u64
  ag_reqs :: memory_requirements
  ag_tiling :: lava_tiling
  ag_home :: "heap_ptr option"

text \<open>\<open>al_group\<close> is the position of the group in the list of groups.\<close>

record alias_lookup =
  al_group :: "nat option"
  al_offset :: u64

definition alias_lookup_new :: alias_lookup where
  "alias_lookup_new = \<lparr>al_group = None, al_offset = 0\<rparr>"

record suballocator =
  sb_run :: bool
  sb_min_heap_size :: u64
  sb_heaps :: "heap list list"
  sb_memory_types :: "u32 list"
  sb_images :: "lookup list"
  sb_buffers :: "lookup list"
  sb_tensors :: "lookup list"
  sb_sessions :: "datagraph_lookup list list"
  sb_image_alias :: "alias_lookup list"
  sb_buffer_alias :: "alias_lookup list"
  sb_tensor_alias :: "alias_lookup list"
  sb_alias_groups :: "alias_group list"
  sb_allow_mixed_tiling :: bool
  sb_max_allocations :: u32
  sb_used_bytes :: u64
  sb_used_count :: u32
  sb_allocated_bytes :: u64
  sb_allocated_heaps :: u32

record suballoc_location =
  loc_memory :: u64
  loc_offset :: u64
  loc_size :: u64
  loc_needs_init :: bool
  loc_needs_flush :: bool
  loc_mapped :: u64

text \<open>The driver's answer to \<open>vkAllocateMemory\<close> and \<open>vkMapMemory\<close> (\<open>malloc\<close> when nothing is run): the
  memory handle and the address it is mapped at; \<open>None\<close> is a failure.\<close>

record vk_answer =
  va_memory :: "u64 option"
  va_mapped :: "u64 option"

section \<open>Helpers\<close>

abbreviation DEVICE_LOCAL_BIT :: u32 where "DEVICE_LOCAL_BIT \<equiv> 1"
abbreviation HOST_VISIBLE_BIT :: u32 where "HOST_VISIBLE_BIT \<equiv> 2"
abbreviation HOST_COHERENT_BIT :: u32 where "HOST_COHERENT_BIT \<equiv> 4"
abbreviation HOST_CACHED_BIT :: u32 where "HOST_CACHED_BIT \<equiv> 8"
abbreviation LAZILY_ALLOCATED_BIT :: u32 where "LAZILY_ALLOCATED_BIT \<equiv> 16"
abbreviation DEVICE_ADDRESS_BIT :: u32 where "DEVICE_ADDRESS_BIT \<equiv> 2"

definition queue_delete :: "u32 \<Rightarrow> heap \<Rightarrow> heap" where
  "queue_delete d h = h\<lparr>hp_deletes := hp_deletes h @ [d]\<rparr>"

definition take_pending_deletes :: "heap \<Rightarrow> u32 list \<times> heap" where
  "take_pending_deletes h = (hp_deletes h, h\<lparr>hp_deletes := []\<rparr>)"

definition pending_delete_count :: "heap \<Rightarrow> nat" where
  "pending_delete_count h = length (hp_deletes h)"

definition has_pending_delete :: "heap \<Rightarrow> u32 \<Rightarrow> bool" where
  "has_pending_delete h d \<longleftrightarrow> d \<in> set (hp_deletes h)"

definition prune_memory_flags :: "u32 \<Rightarrow> u32" where
  "prune_memory_flags flags =
    (if flags AND HOST_COHERENT_BIT \<noteq> 0 \<or> flags AND HOST_CACHED_BIT \<noteq> 0 then flags AND NOT DEVICE_LOCAL_BIT else flags)"

definition needs_flush :: "suballocator \<Rightarrow> nat \<Rightarrow> bool" where
  "needs_flush sb t \<longleftrightarrow> sb_memory_types sb ! t AND HOST_COHERENT_BIT = 0"

fun first_memory_type :: "nat \<Rightarrow> u32 list \<Rightarrow> u32 \<Rightarrow> u32 \<Rightarrow> nat option" where
  "first_memory_type i [] type_filter properties = None"
| "first_memory_type i (t # ts) type_filter properties =
    (if type_filter AND push_bit i 1 \<noteq> 0 \<and> t AND properties = properties then Some i
     else first_memory_type (i + 1) ts type_filter properties)"

definition get_device_memory_type :: "suballocator \<Rightarrow> u32 \<Rightarrow> u32 \<Rightarrow> nat result" where
  "get_device_memory_type sb type_filter properties =
    (case first_memory_type 0 (sb_memory_types sb) type_filter properties of
       Some i \<Rightarrow> Inr i
     | None \<Rightarrow> (case first_memory_type 0 (sb_memory_types sb) type_filter
             (properties AND NOT (HOST_CACHED_BIT OR LAZILY_ALLOCATED_BIT)) of
         Some i \<Rightarrow> Inr i
       | None \<Rightarrow> Inl Aborted))"

definition thread_heaps :: "suballocator \<Rightarrow> nat \<Rightarrow> heap list result" where
  "thread_heaps sb tid = (if tid < length (sb_heaps sb) then Inr (sb_heaps sb ! tid) else Inl Aborted)"

definition heap_at :: "suballocator \<Rightarrow> heap_ptr \<Rightarrow> heap" where
  "heap_at sb p = sb_heaps sb ! fst p ! snd p"

definition set_heap :: "heap_ptr \<Rightarrow> heap \<Rightarrow> suballocator \<Rightarrow> suballocator" where
  "set_heap p h sb = sb\<lparr>sb_heaps := (sb_heaps sb)[fst p := (sb_heaps sb ! fst p)[snd p := h]]\<rparr>"

definition at_offset :: "u64 \<Rightarrow> u64 \<Rightarrow> u64" where
  "at_offset mapped off = (if mapped \<noteq> 0 then mapped + off else 0)"

section \<open>Binding\<close>

definition bound_lookup :: "heap_ptr \<Rightarrow> suballocation \<Rightarrow> lookup" where
  "bound_lookup p s = \<lparr>lk_home = Some p, lk_offset = sa_offset s, lk_size = sa_size s,
    lk_initialized = sa_alias_member s, lk_alias_member = sa_alias_member s\<rparr>"

definition bind_tables :: "heap_ptr \<Rightarrow> suballocation \<Rightarrow> suballocator \<Rightarrow> suballocator result" where
  "bind_tables p s sb =
    (let i = unat (sa_index s) in
     case sa_type s of
       Type_image \<Rightarrow> if i \<ge> length (sb_images sb) then Inl Aborted
         else Inr (sb\<lparr>sb_images := (sb_images sb)[i := bound_lookup p s]\<rparr>)
     | Type_tensor \<Rightarrow> if i \<ge> length (sb_tensors sb) then Inl Aborted
         else Inr (sb\<lparr>sb_tensors := (sb_tensors sb)[i := bound_lookup p s]\<rparr>)
     | Type_session \<Rightarrow> if i \<ge> length (sb_sessions sb) then Inl Aborted
         else if (\<exists>e \<in> set (sb_sessions sb ! i). dg_bind_point e = sa_bind_point s \<and> dg_object_index e = sa_object_index s)
         then Inl Aborted
         else Inr (sb\<lparr>sb_sessions := (sb_sessions sb)[i := sb_sessions sb ! i @
           [\<lparr>dg_bind_point = sa_bind_point s, dg_object_index = sa_object_index s,
             dg_loc = (bound_lookup p s)\<lparr>lk_initialized := False, lk_alias_member := False\<rparr>\<rparr>]]\<rparr>)
     | Type_buffer \<Rightarrow> if i \<ge> length (sb_buffers sb) then Inl Aborted
         else Inr (sb\<lparr>sb_buffers := (sb_buffers sb)[i := bound_lookup p s]\<rparr>)
     | Type_unknown \<Rightarrow> Inl Assertion_failed)"

definition bind :: "heap_ptr \<Rightarrow> heap \<Rightarrow> suballocation \<Rightarrow> suballocator \<Rightarrow> suballocator result" where
  "bind p h s sb = assert_that (hp_mem h \<noteq> 0) (assert_that (sa_alignment s \<noteq> 0)
    (result_bind (bind_tables p s sb) (\<lambda>sb'.
      assert_that (sa_offset s + sa_size s \<le> hp_total h) (Inr sb'))))"

section \<open>A new heap\<close>

definition allocation_size :: "suballocator \<Rightarrow> suballocation \<Rightarrow> bool \<Rightarrow> bool \<Rightarrow> u64" where
  "allocation_size sb s dedicated alias = (if dedicated \<or> alias then sa_size s else max (sb_min_heap_size sb) (sa_size s))"

definition obtain_memory :: "vk_answer \<Rightarrow> bool \<Rightarrow> bool \<Rightarrow> (u64 \<times> u64) option" where
  "obtain_memory vk run host_visible =
    (if run then
       (case va_memory vk of
          None \<Rightarrow> None
        | Some mem \<Rightarrow> if host_visible then map_option (Pair mem) (va_mapped vk) else Some (mem, 0))
     else (let mem = (case va_memory vk of None \<Rightarrow> 0 | Some mem \<Rightarrow> mem) in Some (mem, mem)))"

definition heap_new :: "u64 \<Rightarrow> u64 \<Rightarrow> u64 \<Rightarrow> nat \<Rightarrow> nat \<Rightarrow> suballocation \<Rightarrow> u32 \<Rightarrow> lava_tiling \<Rightarrow> bool \<Rightarrow> u32 \<Rightarrow> bool \<Rightarrow> heap" where
  "heap_new bytes mem mapped tid memoryTypeIndex s flags tiling dedicated allocflags alias =
    \<lparr>hp_tid = tid, hp_memoryTypeIndex = memoryTypeIndex, hp_mem = mem, hp_free = bytes - sa_size s,
     hp_total = bytes, hp_flags = flags, hp_allocflags = allocflags, hp_dedicated = dedicated,
     hp_alias_group = alias, hp_subs = [s], hp_deletes = [], hp_tiling = tiling, hp_mapped = mapped\<rparr>"

definition push_heap :: "nat \<Rightarrow> heap \<Rightarrow> suballocator \<Rightarrow> suballocator" where
  "push_heap tid h sb = sb\<lparr>sb_heaps := (sb_heaps sb)[tid := sb_heaps sb ! tid @ [h]],
    sb_allocated_bytes := sb_allocated_bytes sb + hp_total h, sb_allocated_heaps := sb_allocated_heaps sb + 1\<rparr>"

definition allocate :: "vk_answer \<Rightarrow> nat \<Rightarrow> nat \<Rightarrow> suballocation \<Rightarrow> u32 \<Rightarrow> lava_tiling \<Rightarrow> bool \<Rightarrow> u32 \<Rightarrow> bool \<Rightarrow>
    suballocator \<Rightarrow> (suballoc_location \<times> suballocator) result" where
  "allocate vk tid memoryTypeIndex s flags tiling dedicated allocflags alias sb =
    assert_that (dedicated \<longrightarrow> sa_type s \<noteq> Type_unknown)
    (let bytes = allocation_size sb s dedicated alias;
         host_visible = (sb_memory_types sb ! memoryTypeIndex AND HOST_VISIBLE_BIT \<noteq> 0)
     in assert_that (bytes < 1024 * 1024 * 1024)
       (case obtain_memory vk (sb_run sb) host_visible of
          None \<Rightarrow> Inl Aborted
        | Some (mem, mapped) \<Rightarrow>
            (let h = heap_new bytes mem mapped tid memoryTypeIndex s flags tiling dedicated allocflags alias in
             result_bind (thread_heaps sb tid) (\<lambda>hs.
             result_bind (if alias then Inr (push_heap tid h sb)
                 else bind (tid, length hs) h (s\<lparr>sa_offset := 0\<rparr>) (push_heap tid h sb)) (\<lambda>sb'.
             Inr (\<lparr>loc_memory = mem, loc_offset = 0, loc_size = sa_size s, loc_needs_init = True,
               loc_needs_flush = needs_flush sb memoryTypeIndex, loc_mapped = mapped\<rparr>, sb'))))))"

section \<open>Placing an object in a heap\<close>

text \<open>The pending deletes of a heap: every suballocation whose offset is listed is erased.\<close>

fun erase_deleted :: "u32 list \<Rightarrow> suballocation list \<Rightarrow> u64 \<Rightarrow> suballocation list \<times> u64" where
  "erase_deleted ds [] free = ([], free)"
| "erase_deleted ds (s # ss) free =
    (if sa_offset s \<in> ucast ` set ds then erase_deleted ds ss (free + sa_size s)
     else (case erase_deleted ds ss free of (ss', free') \<Rightarrow> (s # ss', free')))"

definition finalize_deletes :: "heap \<Rightarrow> heap" where
  "finalize_deletes h =
    (case take_pending_deletes h of (ds, h1) \<Rightarrow>
       if ds = [] then h1
       else (case erase_deleted ds (hp_subs h1) (hp_free h1) of (ss, free) \<Rightarrow>
         let h2 = h1\<lparr>hp_subs := ss, hp_free := free\<rparr> in
         if hp_dedicated h2 \<and> ss = [] \<and> hp_mem h2 \<noteq> 0
         then h2\<lparr>hp_mem := 0, hp_mapped := 0, hp_free := 0, hp_total := 0\<rparr>
         else h2))"

definition heap_suits :: "suballocator \<Rightarrow> nat \<Rightarrow> nat \<Rightarrow> suballocation \<Rightarrow> u32 \<Rightarrow> lava_tiling \<Rightarrow> u32 \<Rightarrow> heap \<Rightarrow> bool" where
  "heap_suits sb tid memoryTypeIndex s flags tiling allocflags h \<longleftrightarrow>
    hp_mem h \<noteq> 0 \<and> \<not> hp_dedicated h \<and> \<not> hp_alias_group h \<and> hp_tid h = tid \<and> flags AND hp_flags h = flags \<and>
    (allocflags AND DEVICE_ADDRESS_BIT \<noteq> 0 \<longrightarrow> hp_allocflags h AND DEVICE_ADDRESS_BIT \<noteq> 0) \<and>
    hp_free h \<ge> sa_size s \<and> hp_memoryTypeIndex h = memoryTypeIndex \<and>
    (hp_tiling h = tiling \<or> sb_allow_mixed_tiling sb)"

text \<open>The scan for an unused segment; the result is the offset found and the new list.\<close>

fun scan_holes :: "u64 \<Rightarrow> suballocation \<Rightarrow> suballocation list \<Rightarrow> (u64 \<times> suballocation list) option" where
  "scan_holes total_size s [] = None"
| "scan_holes total_size s [it] =
    (let start = sa_offset it + sa_size it in
     case std_align (sa_alignment s) (sa_size s) start (total_size - start) of
       None \<Rightarrow> None
     | Some (off, _) \<Rightarrow> Some (off, [it, s\<lparr>sa_offset := off\<rparr>]))"
| "scan_holes total_size s (it # nxt # rest) =
    (let start = sa_offset it + sa_size it in
     case std_align (sa_alignment s) (sa_size s) start (sa_offset nxt - start) of
       Some (off, _) \<Rightarrow> Some (off, it # s\<lparr>sa_offset := off\<rparr> # nxt # rest)
     | None \<Rightarrow> map_option (\<lambda>(off, ss). (off, it # ss)) (scan_holes total_size s (nxt # rest)))"

definition place :: "suballocation \<Rightarrow> heap \<Rightarrow> (u64 \<times> suballocation list) option" where
  "place s h =
    (case hp_subs h of
       [] \<Rightarrow> Some (0, [s\<lparr>sa_offset := 0\<rparr>])
     | f # ss \<Rightarrow> if sa_offset f \<ge> sa_size s then Some (0, s\<lparr>sa_offset := 0\<rparr> # f # ss)
         else scan_holes (hp_total h) s (f # ss))"

text \<open>The loop over the heaps of the thread, starting at heap \<open>k\<close>.  \<open>None\<close> is that no heap had room.\<close>

fun try_heaps :: "nat \<Rightarrow> nat \<Rightarrow> suballocation \<Rightarrow> u32 \<Rightarrow> lava_tiling \<Rightarrow> u32 \<Rightarrow> nat \<Rightarrow> nat \<Rightarrow> suballocator \<Rightarrow>
    (suballoc_location option \<times> suballocator) result" where
  "try_heaps tid memoryTypeIndex s flags tiling allocflags 0 k sb = Inr (None, sb)"
| "try_heaps tid memoryTypeIndex s flags tiling allocflags (Suc n) k sb =
    (let h = finalize_deletes (heap_at sb (tid, k)); sb1 = set_heap (tid, k) h sb in
     case (if heap_suits sb tid memoryTypeIndex s flags tiling allocflags h then place s h else None) of
       None \<Rightarrow> try_heaps tid memoryTypeIndex s flags tiling allocflags n (k + 1) sb1
     | Some (off, ss) \<Rightarrow>
         result_bind (bind (tid, k) h (s\<lparr>sa_offset := off\<rparr>) sb1) (\<lambda>sb2.
           Inr (Some \<lparr>loc_memory = hp_mem h, loc_offset = off, loc_size = sa_size s, loc_needs_init = True,
               loc_needs_flush = needs_flush sb (hp_memoryTypeIndex h), loc_mapped = at_offset (hp_mapped h) off\<rparr>,
             set_heap (tid, k) (h\<lparr>hp_subs := ss, hp_free := hp_free h - sa_size s\<rparr>) sb2)))"

definition suballocate :: "vk_answer \<Rightarrow> nat \<Rightarrow> nat \<Rightarrow> suballocation \<Rightarrow> u32 \<Rightarrow> lava_tiling \<Rightarrow> u32 \<Rightarrow> suballocator \<Rightarrow>
    (suballoc_location \<times> suballocator) result" where
  "suballocate vk tid memoryTypeIndex s flags tiling allocflags sb =
    assert_that (sa_alignment s \<noteq> 0)
    (let sb0 = sb\<lparr>sb_used_count := sb_used_count sb + 1, sb_used_bytes := sb_used_bytes sb + sa_size s\<rparr> in
     result_bind (thread_heaps sb0 tid) (\<lambda>hs.
       result_bind (try_heaps tid memoryTypeIndex s flags tiling allocflags (length hs) 0 sb0) (\<lambda>(found, sb1).
         case found of
           Some loc \<Rightarrow> Inr (loc, sb1)
         | None \<Rightarrow> allocate vk tid memoryTypeIndex s flags tiling False allocflags False sb1)))"

section \<open>Objects and their memory requirements\<close>

text \<open>What the suballocator reads of a \<open>trackedobject\<close>.  \<open>so_req_size\<close> is the size required when the trace
  was captured, \<open>so_reqs\<close> what the replay device requires.  \<open>so_swapchain\<close> is set for swapchain images only,
  \<open>so_address_usage\<close> for buffers whose usage has the shader device address bit.\<close>

record sub_object =
  so_type :: object_type
  so_index :: u32
  so_parent_device_index :: u32
  so_backing_index :: u32
  so_size :: u64
  so_offset :: u64
  so_req_size :: u64
  so_reqs :: memory_requirements
  so_dedicated_allocation :: bool
  so_memory_flags :: u32
  so_tiling :: lava_tiling
  so_swapchain :: bool
  so_address_usage :: bool

definition merge_memory_requirements :: "memory_requirements \<Rightarrow> memory_requirements \<Rightarrow> memory_requirements" where
  "merge_memory_requirements r1 r2 = \<lparr>
    mr_size = max (mr_size r1) (mr_size r2), mr_alignment = max (mr_alignment r1) (mr_alignment r2),
    mr_memoryTypeBits = mr_memoryTypeBits r1 AND mr_memoryTypeBits r2,
    mr_prefers_dedicated = (mr_prefers_dedicated r1 \<or> mr_prefers_dedicated r2),
    mr_requires_dedicated = (mr_requires_dedicated r1 \<or> mr_requires_dedicated r2),
    mr_memory_flags = mr_memory_flags r1 OR mr_memory_flags r2,
    mr_allocate_flags = mr_allocate_flags r1 OR mr_allocate_flags r2\<rparr>"

definition get_fake_memory_requirements :: "sub_object \<Rightarrow> memory_requirements" where
  "get_fake_memory_requirements x = \<lparr>mr_size = so_size x, mr_alignment = 1, mr_memoryTypeBits = 1,
    mr_prefers_dedicated = (so_type x = Type_buffer \<and> so_address_usage x), mr_requires_dedicated = False,
    mr_memory_flags = so_memory_flags x,
    mr_allocate_flags = (if so_type x = Type_buffer \<and> so_address_usage x then DEVICE_ADDRESS_BIT else 0)\<rparr>"

text \<open>\<open>get_tracked{image,buffer,tensor}_memory_requirements\<close>: \<open>answer\<close> is what the driver reports for the
  object's creation parameters; the dedicated flags stay unset unless \<open>use_dedicated\<close>.\<close>

definition get_tracked_memory_requirements :: "bool \<Rightarrow> memory_requirements \<Rightarrow> sub_object \<Rightarrow> memory_requirements result" where
  "get_tracked_memory_requirements use_dedicated answer x =
    (let address = (so_type x = Type_buffer \<and> so_address_usage x);
         r = \<lparr>mr_size = mr_size answer, mr_alignment = mr_alignment answer, mr_memoryTypeBits = mr_memoryTypeBits answer,
           mr_prefers_dedicated = (use_dedicated \<and> mr_prefers_dedicated answer \<or> address),
           mr_requires_dedicated = (use_dedicated \<and> mr_requires_dedicated answer),
           mr_memory_flags = so_memory_flags x,
           mr_allocate_flags = (if address then DEVICE_ADDRESS_BIT else 0)\<rparr>
     in assert_that (so_type x = Type_image \<longrightarrow> mr_alignment r \<noteq> 0) (Inr r))"

section \<open>Alias groups\<close>

definition capture_offset_less :: "sub_object \<Rightarrow> sub_object \<Rightarrow> bool" where
  "capture_offset_less l r \<longleftrightarrow>
    (if so_offset l \<noteq> so_offset r then so_offset l < so_offset r
     else if so_type l \<noteq> so_type r then type_code (so_type l) < type_code (so_type r)
     else so_index l < so_index r)"

fun insert_capture :: "sub_object \<Rightarrow> sub_object list \<Rightarrow> sub_object list" where
  "insert_capture x [] = [x]"
| "insert_capture x (y # ys) = (if capture_offset_less y x then y # insert_capture x ys else x # y # ys)"

definition sort_capture :: "sub_object list \<Rightarrow> sub_object list" where
  "sort_capture xs = foldr insert_capture xs []"

definition shares_memory :: "u32 \<Rightarrow> sub_object \<Rightarrow> bool" where
  "shares_memory device_index x \<longleftrightarrow>
    so_parent_device_index x = device_index \<and> so_backing_index x \<noteq> UINT32_MAX \<and> so_req_size x > 0"

definition alias_table :: "object_type \<Rightarrow> suballocator \<Rightarrow> alias_lookup list option" where
  "alias_table t sb = (case t of
     Type_image \<Rightarrow> Some (sb_image_alias sb)
   | Type_tensor \<Rightarrow> Some (sb_tensor_alias sb)
   | Type_buffer \<Rightarrow> Some (sb_buffer_alias sb)
   | _ \<Rightarrow> None)"

definition get_alias_lookup :: "object_type \<Rightarrow> u32 \<Rightarrow> suballocator \<Rightarrow> alias_lookup option result" where
  "get_alias_lookup t index sb = (case alias_table t sb of
     None \<Rightarrow> Inr None
   | Some tab \<Rightarrow> if unat index \<ge> length tab then Inl Aborted else Inr (Some (tab ! unat index)))"

definition set_alias_lookup :: "object_type \<Rightarrow> u32 \<Rightarrow> alias_lookup \<Rightarrow> suballocator \<Rightarrow> suballocator" where
  "set_alias_lookup t index a sb = (case t of
     Type_image \<Rightarrow> sb\<lparr>sb_image_alias := (sb_image_alias sb)[unat index := a]\<rparr>
   | Type_tensor \<Rightarrow> sb\<lparr>sb_tensor_alias := (sb_tensor_alias sb)[unat index := a]\<rparr>
   | Type_buffer \<Rightarrow> sb\<lparr>sb_buffer_alias := (sb_buffer_alias sb)[unat index := a]\<rparr>
   | _ \<Rightarrow> sb)"

text \<open>The objects after the first that start before the end of the captured range so far.\<close>

fun take_overlapping :: "u64 \<Rightarrow> sub_object list \<Rightarrow> (sub_object list \<times> sub_object list) result" where
  "take_overlapping capture_end [] = Inr ([], [])"
| "take_overlapping capture_end (x # xs) =
    (if so_offset x < capture_end then
       (if so_offset x > UINT64_MAX - so_req_size x then Inl Aborted
        else result_bind (take_overlapping (max capture_end (so_offset x + so_req_size x)) xs) (\<lambda>(g, rest). Inr (x # g, rest)))
     else Inr ([], x # xs))"

fun add_members :: "nat \<Rightarrow> bool \<Rightarrow> sub_object list \<Rightarrow> alias_group \<Rightarrow> suballocator \<Rightarrow> (alias_group \<times> suballocator) result" where
  "add_members gi have_requirements [] g sb = Inr (g, sb)"
| "add_members gi have_requirements (x # xs) g sb =
    (let relative_offset = so_offset x - ag_capture_offset g; alignment = mr_alignment (so_reqs x) in
     if alignment = 0 \<or> relative_offset mod alignment \<noteq> 0 then Inl Aborted
     else if relative_offset > UINT64_MAX - mr_size (so_reqs x) then Inl Aborted
     else let g' = g\<lparr>ag_size := max (ag_size g) (relative_offset + mr_size (so_reqs x)),
                     ag_alignment := max (ag_alignment g) alignment,
                     ag_reqs := (if have_requirements then merge_memory_requirements (ag_reqs g) (so_reqs x) else so_reqs x)\<rparr>
       in result_bind (get_alias_lookup (so_type x) (so_index x) sb) (\<lambda>a.
         assert_that (case a of None \<Rightarrow> False | Some al \<Rightarrow> al_group al = None)
           (add_members gi True xs g' (set_alias_lookup (so_type x) (so_index x) \<lparr>al_group = Some gi, al_offset = relative_offset\<rparr> sb))))"

definition make_group :: "u32 \<Rightarrow> sub_object \<Rightarrow> sub_object list \<Rightarrow> suballocator \<Rightarrow> suballocator result" where
  "make_group memory x xs sb =
    (let g = \<lparr>ag_capture_memory_index = memory, ag_capture_offset = so_offset x, ag_size = 0, ag_alignment = 1,
         ag_reqs = so_reqs x, ag_tiling = so_tiling x, ag_home = None\<rparr> in
     result_bind (add_members (length (sb_alias_groups sb)) False (x # xs) g sb) (\<lambda>(g1, sb1).
       let g2 = g1\<lparr>ag_reqs := (ag_reqs g1)\<lparr>mr_size := ag_size g1, mr_alignment := ag_alignment g1\<rparr>\<rparr> in
       if mr_memoryTypeBits (ag_reqs g2) = 0 then Inl Aborted
       else if mr_requires_dedicated (ag_reqs g2) then Inl Aborted
       else Inr (sb1\<lparr>sb_alias_groups := sb_alias_groups sb1 @ [g2]\<rparr>)))"

lemma take_overlapping_append: "take_overlapping e xs = Inr (g, rest) \<Longrightarrow> xs = g @ rest"
  by (induction e xs arbitrary: g rest rule: take_overlapping.induct) (auto split: if_splits)

function alias_loop :: "u32 \<Rightarrow> sub_object list \<Rightarrow> suballocator \<Rightarrow> suballocator result" where
  "alias_loop memory [] sb = Inr sb"
| "alias_loop memory (x # xs) sb =
    (if so_offset x > UINT64_MAX - so_req_size x then Inl Aborted
     else (case take_overlapping (so_offset x + so_req_size x) xs of
        Inl e \<Rightarrow> Inl e
      | Inr (members, rest) \<Rightarrow>
          if members = [] then alias_loop memory rest sb
          else (case make_group memory x members sb of
             Inl e \<Rightarrow> Inl e
           | Inr sb' \<Rightarrow> alias_loop memory rest sb')))"
  by pat_completeness auto
termination
  by (relation "measure (\<lambda>(_, xs, _). length xs)") (auto dest!: take_overlapping_append)

fun alias_memories :: "sub_object list \<Rightarrow> u32 list \<Rightarrow> suballocator \<Rightarrow> suballocator result" where
  "alias_memories xs [] sb = Inr sb"
| "alias_memories xs (m # ms) sb =
    result_bind (alias_loop m (sort_capture (filter (\<lambda>x. so_backing_index x = m) xs)) sb) (alias_memories xs ms)"

definition prepare_alias_groups :: "u32 \<Rightarrow> sub_object list \<Rightarrow> sub_object list \<Rightarrow> sub_object list \<Rightarrow> suballocator \<Rightarrow> suballocator result" where
  "prepare_alias_groups device_index images buffers tensors sb =
    (let xs = filter (shares_memory device_index) (images @ buffers @ tensors) in
     alias_memories xs (sort (remdups (map so_backing_index xs))) sb)"

section \<open>Creation\<close>

text \<open>What \<open>create\<close> reads from the physical device.\<close>

record device_limits =
  dl_memory_types :: "u32 list"
  dl_bufferImageGranularity :: u64
  dl_maxMemoryAllocationCount :: u32

definition is_aliased :: "suballocator \<Rightarrow> sub_object \<Rightarrow> bool result" where
  "is_aliased sb x = result_bind (get_alias_lookup (so_type x) (so_index x) sb)
    (\<lambda>a. Inr (case a of None \<Rightarrow> False | Some al \<Rightarrow> al_group al \<noteq> None))"

definition owned :: "u32 \<Rightarrow> sub_object \<Rightarrow> bool" where
  "owned device_index x \<longleftrightarrow> so_parent_device_index x = device_index \<and> \<not> so_swapchain x"

text \<open>\<open>pick\<close> decides, from the remaining budget and the object, whether the object becomes dedicated.\<close>

fun assign_dedicated :: "u32 \<Rightarrow> (u32 \<Rightarrow> sub_object \<Rightarrow> bool) \<Rightarrow> suballocator \<Rightarrow> sub_object list \<Rightarrow> u32 \<Rightarrow> (sub_object list \<times> u32) result" where
  "assign_dedicated device_index pick sb [] budget = Inr ([], budget)"
| "assign_dedicated device_index pick sb (x # xs) budget =
    (if \<not> owned device_index x then
       result_bind (assign_dedicated device_index pick sb xs budget) (\<lambda>(ys, b). Inr (x # ys, b))
     else result_bind (is_aliased sb x) (\<lambda>al.
       if \<not> al \<and> pick budget x
       then result_bind (assign_dedicated device_index pick sb xs (if budget \<noteq> 0 then budget - 1 else 0))
         (\<lambda>(ys, b). Inr (x\<lparr>so_dedicated_allocation := True\<rparr> # ys, b))
       else result_bind (assign_dedicated device_index pick sb xs budget) (\<lambda>(ys, b). Inr (x # ys, b))))"

definition required_dedicated :: "u32 \<Rightarrow> sub_object \<Rightarrow> bool" where
  "required_dedicated budget x \<longleftrightarrow> mr_requires_dedicated (so_reqs x)"

definition preferred_dedicated :: "u32 \<Rightarrow> sub_object \<Rightarrow> bool" where
  "preferred_dedicated budget x \<longleftrightarrow> \<not> so_dedicated_allocation x \<and> mr_prefers_dedicated (so_reqs x) \<and> budget \<noteq> 0"

text \<open>Images, buffers and tensors in turn share one budget.\<close>

definition assign_all :: "u32 \<Rightarrow> (u32 \<Rightarrow> sub_object \<Rightarrow> bool) \<Rightarrow> suballocator \<Rightarrow>
    sub_object list \<times> sub_object list \<times> sub_object list \<Rightarrow> u32 \<Rightarrow>
    ((sub_object list \<times> sub_object list \<times> sub_object list) \<times> u32) result" where
  "assign_all device_index pick sb = (\<lambda>(images, buffers, tensors) budget.
    result_bind (assign_dedicated device_index pick sb images budget) (\<lambda>(is, b1).
    result_bind (assign_dedicated device_index pick sb buffers b1) (\<lambda>(bs, b2).
    result_bind (assign_dedicated device_index pick sb tensors b2) (\<lambda>(ts, b3).
    Inr ((is, bs, ts), b3)))))"

fun query_all :: "(sub_object \<Rightarrow> memory_requirements result) \<Rightarrow> (sub_object \<Rightarrow> bool) \<Rightarrow> sub_object list \<Rightarrow> sub_object list result" where
  "query_all query wanted [] = Inr []"
| "query_all query wanted (x # xs) =
    (if wanted x then result_bind (query x) (\<lambda>r. result_bind (query_all query wanted xs) (\<lambda>ys. Inr (x\<lparr>so_reqs := r\<rparr> # ys)))
     else result_bind (query_all query wanted xs) (\<lambda>ys. Inr (x # ys)))"

fun dedicate_unaliased :: "u32 \<Rightarrow> suballocator \<Rightarrow> sub_object list \<Rightarrow> sub_object list result" where
  "dedicate_unaliased device_index sb [] = Inr []"
| "dedicate_unaliased device_index sb (x # xs) =
    (if so_parent_device_index x \<noteq> device_index then result_bind (dedicate_unaliased device_index sb xs) (\<lambda>ys. Inr (x # ys))
     else result_bind (is_aliased sb x) (\<lambda>al. result_bind (dedicate_unaliased device_index sb xs) (\<lambda>ys.
       Inr ((if al then x else x\<lparr>so_dedicated_allocation := True\<rparr>) # ys))))"

definition create_empty :: "device_limits \<Rightarrow> u64 option \<Rightarrow> nat \<Rightarrow> nat \<Rightarrow> nat \<Rightarrow> nat \<Rightarrow> nat \<Rightarrow> bool \<Rightarrow> suballocator" where
  "create_empty lim heap_size n_images n_buffers n_tensors n_sessions thread_count run = \<lparr>
    sb_run = run,
    sb_min_heap_size = (case heap_size of None \<Rightarrow> 1024 * 1024 * 32 | Some n \<Rightarrow> n),
    sb_heaps = replicate thread_count [],
    sb_memory_types = (if run then dl_memory_types lim else [0x7FFFFFFF]),
    sb_images = replicate n_images lookup_new,
    sb_buffers = replicate n_buffers lookup_new,
    sb_tensors = replicate n_tensors lookup_new,
    sb_sessions = replicate n_sessions [],
    sb_image_alias = replicate n_images alias_lookup_new,
    sb_buffer_alias = replicate n_buffers alias_lookup_new,
    sb_tensor_alias = replicate n_tensors alias_lookup_new,
    sb_alias_groups = [],
    sb_allow_mixed_tiling = (if run then dl_bufferImageGranularity lim = 1 else True),
    sb_max_allocations = (if run then dl_maxMemoryAllocationCount lim - 64 else UINT32_MAX),
    sb_used_bytes = 0, sb_used_count = 0, sb_allocated_bytes = 0, sb_allocated_heaps = 0\<rparr>"

definition create :: "device_limits \<Rightarrow> (sub_object \<Rightarrow> memory_requirements) \<Rightarrow> bool \<Rightarrow> u64 option \<Rightarrow> u32 \<Rightarrow>
    sub_object list \<times> sub_object list \<times> sub_object list \<Rightarrow> nat \<Rightarrow> nat \<Rightarrow> bool \<Rightarrow>
    ((sub_object list \<times> sub_object list \<times> sub_object list) \<times> suballocator) result" where
  "create lim driver use_dedicated heap_size device_index = (\<lambda>(images, buffers, tensors) n_sessions thread_count run.
    let sb = create_empty lim heap_size (length images) (length buffers) (length tensors) n_sessions thread_count run;
        query = (if run then (\<lambda>x. get_tracked_memory_requirements use_dedicated (driver x) x)
          else (\<lambda>x. Inr (get_fake_memory_requirements x)));
        wanted = (if run then owned device_index else (\<lambda>x. so_parent_device_index x = device_index))
    in assert_that (sb_memory_types sb \<noteq> [])
      (result_bind (query_all query wanted images) (\<lambda>is.
       result_bind (query_all query wanted buffers) (\<lambda>bs.
       result_bind (query_all query wanted tensors) (\<lambda>ts.
       result_bind (prepare_alias_groups device_index is bs ts sb) (\<lambda>sb1.
       if run then
         (let groups = length (sb_alias_groups sb1);
              budget = (if groups \<ge> unat (sb_max_allocations sb1) then 0 else sb_max_allocations sb1 - of_nat groups)
          in result_bind (assign_all device_index required_dedicated sb1 (is, bs, ts) budget) (\<lambda>(objs1, b1).
             result_bind (assign_all device_index preferred_dedicated sb1 objs1 b1) (\<lambda>(objs2, b2).
             Inr (objs2, sb1\<lparr>sb_max_allocations := b2\<rparr>))))
       else
         result_bind (dedicate_unaliased device_index sb1 is) (\<lambda>is'.
         result_bind (dedicate_unaliased device_index sb1 bs) (\<lambda>bs'.
         result_bind (dedicate_unaliased device_index sb1 ts) (\<lambda>ts'.
         Inr ((is', bs', ts'), sb1))))))))))"

section \<open>The public operations\<close>

definition add_alias_member :: "vk_answer \<Rightarrow> nat \<Rightarrow> u64 \<Rightarrow> sub_object \<Rightarrow> nat \<Rightarrow> u64 \<Rightarrow> suballocator \<Rightarrow>
    (suballoc_location \<times> suballocator) result" where
  "add_alias_member vk tid native x gi off sb =
    (let g = sb_alias_groups sb ! gi in
     result_bind
       (case ag_home g of
          Some p \<Rightarrow> Inr (p, sb)
        | None \<Rightarrow>
            (let flags = prune_memory_flags (mr_memory_flags (ag_reqs g)) in
             result_bind (get_device_memory_type sb (mr_memoryTypeBits (ag_reqs g)) flags) (\<lambda>t.
             let reservation = suballocation_new\<lparr>sa_size := ag_size g, sa_alignment := ag_alignment g, sa_index := ag_capture_memory_index g\<rparr>;
                 sb0 = sb\<lparr>sb_used_count := sb_used_count sb + 1, sb_used_bytes := sb_used_bytes sb + ag_size g\<rparr>
             in result_bind (allocate vk tid t reservation flags (ag_tiling g) False (mr_allocate_flags (ag_reqs g)) True sb0) (\<lambda>(_, sb1).
               let p = (tid, length (sb_heaps sb1 ! tid) - 1)
               in Inr (p, sb1\<lparr>sb_alias_groups := (sb_alias_groups sb1)[gi := g\<lparr>ag_home := Some p\<rparr>]\<rparr>)))))
       (\<lambda>(p, sb1).
         let h = heap_at sb1 p;
             member = suballocation_new\<lparr>sa_type := so_type x, sa_native := native, sa_size := mr_size (so_reqs x), sa_offset := off,
               sa_index := so_index x, sa_alignment := mr_alignment (so_reqs x), sa_alias_member := True\<rparr>
         in result_bind (bind p h member sb1) (\<lambda>sb2.
           Inr (\<lparr>loc_memory = hp_mem h, loc_offset = off, loc_size = sa_size member, loc_needs_init = True,
             loc_needs_flush = needs_flush sb1 (hp_memoryTypeIndex h), loc_mapped = at_offset (hp_mapped h) off\<rparr>, sb2))))"

definition object_suballocation :: "u64 \<Rightarrow> sub_object \<Rightarrow> suballocation" where
  "object_suballocation native x = suballocation_new\<lparr>sa_type := so_type x, sa_native := native, sa_size := mr_size (so_reqs x),
    sa_offset := 0, sa_index := so_index x, sa_alignment := mr_alignment (so_reqs x)\<rparr>"

definition place_object :: "vk_answer \<Rightarrow> nat \<Rightarrow> nat \<Rightarrow> suballocation \<Rightarrow> u32 \<Rightarrow> lava_tiling \<Rightarrow> bool \<Rightarrow> u32 \<Rightarrow> suballocator \<Rightarrow>
    (suballoc_location \<times> suballocator) result" where
  "place_object vk tid t s flags tiling dedicated allocflags sb =
    (if dedicated then allocate vk tid t s flags tiling True allocflags False sb
     else suballocate vk tid t s flags tiling allocflags sb)"

definition add_trackedobject :: "vk_answer \<Rightarrow> nat \<Rightarrow> u64 \<Rightarrow> sub_object \<Rightarrow> suballocator \<Rightarrow> (suballoc_location \<times> suballocator) result" where
  "add_trackedobject vk tid native x sb =
    assert_that (mr_alignment (so_reqs x) \<noteq> 0)
    (result_bind (get_alias_lookup (so_type x) (so_index x) sb) (\<lambda>a.
       case Option.bind a al_group of
         Some gi \<Rightarrow> add_alias_member vk tid native x gi (al_offset (the a)) sb
       | None \<Rightarrow>
         (let flags = prune_memory_flags (so_memory_flags x) in
          result_bind (get_device_memory_type sb (mr_memoryTypeBits (so_reqs x)) flags) (\<lambda>t.
            place_object vk tid t (object_suballocation native x) flags (so_tiling x) (so_dedicated_allocation x)
              (mr_allocate_flags (so_reqs x)) sb))))"

text \<open>A data graph session has bindings, each with its own requirements.\<close>

record session_binding =
  bn_bind_point :: u32
  bn_object_index :: u32
  bn_reqs :: memory_requirements
  bn_dedicated_allocation :: bool
  bn_memory_flags :: u32

fun get_binding :: "u32 \<Rightarrow> u32 \<Rightarrow> session_binding list \<Rightarrow> session_binding option" where
  "get_binding bind_point object_index [] = None"
| "get_binding bind_point object_index (b # bs) =
    (if bn_bind_point b = bind_point \<and> bn_object_index b = object_index then Some b else get_binding bind_point object_index bs)"

fun set_binding :: "session_binding \<Rightarrow> session_binding list \<Rightarrow> session_binding list" where
  "set_binding b [] = []"
| "set_binding b (c # cs) =
    (if bn_bind_point c = bn_bind_point b \<and> bn_object_index c = bn_object_index b then b # cs else c # set_binding b cs)"

definition session_suballocation :: "u64 \<Rightarrow> u32 \<Rightarrow> session_binding \<Rightarrow> suballocation" where
  "session_suballocation native index b = suballocation_new\<lparr>sa_type := Type_session, sa_native := native,
    sa_size := mr_size (bn_reqs b), sa_offset := 0, sa_index := index, sa_alignment := mr_alignment (bn_reqs b),
    sa_bind_point := bn_bind_point b, sa_object_index := bn_object_index b\<rparr>"

text \<open>A binding that is missing is appended without requirements, which aborts.\<close>

definition add_datagraphpipelinesession :: "vk_answer \<Rightarrow> nat \<Rightarrow> u64 \<Rightarrow> u32 \<Rightarrow> session_binding list \<Rightarrow> u32 \<Rightarrow> u32 \<Rightarrow> suballocator \<Rightarrow>
    (suballoc_location \<times> session_binding list \<times> suballocator) result" where
  "add_datagraphpipelinesession vk tid native index bindings bind_point object_index sb =
    (case get_binding bind_point object_index bindings of
       None \<Rightarrow> Inl Aborted
     | Some b \<Rightarrow>
         if mr_alignment (bn_reqs b) = 0 then Inl Aborted
         else
           (let dedicated = (bn_dedicated_allocation b \<or> mr_requires_dedicated (bn_reqs b));
                flags = prune_memory_flags (bn_memory_flags b);
                b' = b\<lparr>bn_dedicated_allocation := dedicated, bn_reqs := (bn_reqs b)\<lparr>mr_memory_flags := bn_memory_flags b\<rparr>\<rparr>;
                bindings' = set_binding b' bindings
            in result_bind (get_device_memory_type sb (mr_memoryTypeBits (bn_reqs b)) flags) (\<lambda>t.
               result_bind (place_object vk tid t (session_suballocation native index b) flags TILING_LINEAR dedicated
                   (mr_allocate_flags (bn_reqs b)) sb)
                 (\<lambda>(loc, sb'). Inr (loc, bindings', sb')))))"

text \<open>Freeing: the lookup forgets its heap, and the offset is queued for the thread that owns the heap.\<close>

definition release_lookup :: "lookup \<Rightarrow> suballocator \<Rightarrow> suballocator" where
  "release_lookup l sb = (case lk_home l of
     None \<Rightarrow> sb
   | Some p \<Rightarrow> if lk_alias_member l then sb else set_heap p (queue_delete (ucast (lk_offset l)) (heap_at sb p)) sb)"

definition free_image :: "u32 \<Rightarrow> suballocator \<Rightarrow> suballocator result" where
  "free_image i sb =
    (if i = CONTAINER_NULL_VALUE then Inr sb
     else if unat i \<ge> length (sb_images sb) then Inl Out_of_range
     else let l = sb_images sb ! unat i; sb' = release_lookup l sb in
       Inr (sb'\<lparr>sb_images := (sb_images sb')[unat i := l\<lparr>lk_home := None\<rparr>]\<rparr>))"

definition free_buffer :: "u32 \<Rightarrow> suballocator \<Rightarrow> suballocator result" where
  "free_buffer i sb =
    (if i = CONTAINER_NULL_VALUE then Inr sb
     else if unat i \<ge> length (sb_buffers sb) then Inl Out_of_range
     else let l = sb_buffers sb ! unat i; sb' = release_lookup l sb in
       Inr (sb'\<lparr>sb_buffers := (sb_buffers sb')[unat i := l\<lparr>lk_home := None\<rparr>]\<rparr>))"

definition free_tensor :: "u32 \<Rightarrow> suballocator \<Rightarrow> suballocator result" where
  "free_tensor i sb =
    (if i = CONTAINER_NULL_VALUE then Inr sb
     else if unat i \<ge> length (sb_tensors sb) then Inl Out_of_range
     else let l = sb_tensors sb ! unat i; sb' = release_lookup l sb in
       Inr (sb'\<lparr>sb_tensors := (sb_tensors sb')[unat i := l\<lparr>lk_home := None\<rparr>]\<rparr>))"

definition release_session_entry :: "datagraph_lookup \<Rightarrow> suballocator \<Rightarrow> suballocator" where
  "release_session_entry e sb = (case lk_home (dg_loc e) of
     None \<Rightarrow> sb
   | Some p \<Rightarrow> set_heap p (queue_delete (ucast (lk_offset (dg_loc e))) (heap_at sb p)) sb)"

definition free_datagraphpipelinesession :: "u32 \<Rightarrow> suballocator \<Rightarrow> suballocator result" where
  "free_datagraphpipelinesession i sb =
    (if i = CONTAINER_NULL_VALUE then Inr sb
     else if unat i \<ge> length (sb_sessions sb) then Inl Out_of_range
     else let sb' = fold release_session_entry (sb_sessions sb ! unat i) sb in
       Inr (sb'\<lparr>sb_sessions := (sb_sessions sb')[unat i := []]\<rparr>))"

text \<open>Finding an object's memory; the first query after binding reports that the memory needs initialising.\<close>

definition lookup_location :: "suballocator \<Rightarrow> lookup \<Rightarrow> suballoc_location result" where
  "lookup_location sb l = (case lk_home l of
     None \<Rightarrow> Inl Aborted
   | Some p \<Rightarrow> let h = heap_at sb p in
       Inr \<lparr>loc_memory = hp_mem h, loc_offset = lk_offset l, loc_size = lk_size l, loc_needs_init = \<not> lk_initialized l,
         loc_needs_flush = needs_flush sb (hp_memoryTypeIndex h), loc_mapped = at_offset (hp_mapped h) (lk_offset l)\<rparr>)"

definition find_image_memory :: "u32 \<Rightarrow> suballocator \<Rightarrow> (suballoc_location \<times> suballocator) result" where
  "find_image_memory i sb =
    (if unat i \<ge> length (sb_images sb) then Inl Out_of_range
     else result_bind (lookup_location sb (sb_images sb ! unat i)) (\<lambda>loc.
       Inr (loc, sb\<lparr>sb_images := (sb_images sb)[unat i := (sb_images sb ! unat i)\<lparr>lk_initialized := True\<rparr>]\<rparr>)))"

definition find_buffer_memory :: "u32 \<Rightarrow> suballocator \<Rightarrow> (suballoc_location \<times> suballocator) result" where
  "find_buffer_memory i sb =
    (if unat i \<ge> length (sb_buffers sb) then Inl Out_of_range
     else result_bind (lookup_location sb (sb_buffers sb ! unat i)) (\<lambda>loc.
       Inr (loc, sb\<lparr>sb_buffers := (sb_buffers sb)[unat i := (sb_buffers sb ! unat i)\<lparr>lk_initialized := True\<rparr>]\<rparr>)))"

definition find_tensor_memory :: "u32 \<Rightarrow> suballocator \<Rightarrow> (suballoc_location \<times> suballocator) result" where
  "find_tensor_memory i sb =
    (if unat i \<ge> length (sb_tensors sb) then Inl Out_of_range
     else result_bind (lookup_location sb (sb_tensors sb ! unat i)) (\<lambda>loc.
       Inr (loc, sb\<lparr>sb_tensors := (sb_tensors sb)[unat i := (sb_tensors sb ! unat i)\<lparr>lk_initialized := True\<rparr>]\<rparr>)))"

fun find_entry :: "u32 \<Rightarrow> u32 \<Rightarrow> datagraph_lookup list \<Rightarrow> nat option" where
  "find_entry bind_point object_index [] = None"
| "find_entry bind_point object_index (e # es) =
    (if dg_bind_point e = bind_point \<and> dg_object_index e = object_index then Some 0
     else map_option Suc (find_entry bind_point object_index es))"

definition find_datagraphpipelinesession_memory :: "u32 \<Rightarrow> u32 \<Rightarrow> u32 \<Rightarrow> suballocator \<Rightarrow> (suballoc_location \<times> suballocator) result" where
  "find_datagraphpipelinesession_memory i bind_point object_index sb =
    (if unat i \<ge> length (sb_sessions sb) then Inl Out_of_range
     else let es = sb_sessions sb ! unat i in
       case find_entry bind_point object_index es of
         None \<Rightarrow> Inl Aborted
       | Some k \<Rightarrow> result_bind (lookup_location sb (dg_loc (es ! k))) (\<lambda>loc.
           Inr (loc, sb\<lparr>sb_sessions := (sb_sessions sb)[unat i :=
             es[k := (es ! k)\<lparr>dg_loc := (dg_loc (es ! k))\<lparr>lk_initialized := True\<rparr>\<rparr>]]\<rparr>)))"

definition destroy :: "suballocator \<Rightarrow> suballocator" where
  "destroy sb = sb\<lparr>sb_heaps := map (\<lambda>_. []) (sb_heaps sb), sb_images := [], sb_buffers := [], sb_tensors := [],
    sb_image_alias := [], sb_buffer_alias := [], sb_tensor_alias := [], sb_alias_groups := [], sb_sessions := []\<rparr>"

section \<open>The self test\<close>

definition lookup_backed :: "suballocator \<Rightarrow> lookup \<Rightarrow> bool" where
  "lookup_backed sb l \<longleftrightarrow> (case lk_home l of
     None \<Rightarrow> True
   | Some p \<Rightarrow> let h = heap_at sb p in
       lk_size l \<noteq> 0 \<and>
       (if lk_alias_member l then hp_alias_group h \<and> lk_offset l + lk_size l \<le> hp_total h
        else \<exists>s \<in> set (hp_subs h). sa_offset s = lk_offset l \<and> sa_size s = lk_size l))"

definition session_backed :: "suballocator \<Rightarrow> datagraph_lookup \<Rightarrow> bool" where
  "session_backed sb e \<longleftrightarrow> (let l = dg_loc e in case lk_home l of
     None \<Rightarrow> True
   | Some p \<Rightarrow> lk_size l \<noteq> 0 \<and> (\<exists>s \<in> set (hp_subs (heap_at sb p)). sa_offset s = lk_offset l \<and> sa_size s = lk_size l \<and>
       sa_type s = Type_session \<and> sa_bind_point s = dg_bind_point e \<and> sa_object_index s = dg_object_index e))"

definition self_test_lookups :: "suballocator \<Rightarrow> bool" where
  "self_test_lookups sb \<longleftrightarrow> (\<forall>l \<in> set (sb_images sb). lookup_backed sb l) \<and> (\<forall>l \<in> set (sb_buffers sb). lookup_backed sb l) \<and>
    (\<forall>l \<in> set (sb_tensors sb). lookup_backed sb l) \<and> (\<forall>es \<in> set (sb_sessions sb). \<forall>e \<in> set es. session_backed sb e)"

definition find_memory :: "suballocation \<Rightarrow> suballocator \<Rightarrow> (suballoc_location \<times> suballocator) result" where
  "find_memory s sb = (case sa_type s of
     Type_image \<Rightarrow> find_image_memory (sa_index s) sb
   | Type_tensor \<Rightarrow> find_tensor_memory (sa_index s) sb
   | Type_session \<Rightarrow> find_datagraphpipelinesession_memory (sa_index s) (sa_bind_point s) (sa_object_index s) sb
   | Type_buffer \<Rightarrow> find_buffer_memory (sa_index s) sb
   | Type_unknown \<Rightarrow> Inl Assertion_failed)"

text \<open>One pass over the suballocations of a heap: \<open>prev_end\<close> is the end of the previous one, \<open>- 1\<close> before
  the first, \<open>freed\<close>, \<open>used\<close> and \<open>found\<close> are the counters.\<close>

fun walk_subs :: "heap \<Rightarrow> suballocation list \<Rightarrow> int \<Rightarrow> u64 \<Rightarrow> u64 \<Rightarrow> nat \<Rightarrow> suballocator \<Rightarrow>
    (int \<times> u64 \<times> u64 \<times> nat \<times> suballocator) result" where
  "walk_subs h [] prev_end freed used found sb = Inr (prev_end, freed, used, found, sb)"
| "walk_subs h (s # ss) prev_end freed used found sb =
    assert_that (sint (sa_offset s) \<ge> prev_end)
      (let freed' = (if prev_end \<ge> 0 then freed + (sa_offset s - of_int prev_end) else freed);
           used' = used + sa_size s;
           end' = sint (sa_offset s + sa_size s)
       in assert_that (sa_type s \<noteq> Type_unknown)
         (if has_pending_delete h (ucast (sa_offset s)) then walk_subs h ss end' freed' used' found sb
          else result_bind (find_memory s sb) (\<lambda>(loc, sb').
            assert_that (loc_memory loc = hp_mem h \<and> loc_offset loc = sa_offset s \<and> loc_size loc = sa_size s)
              (walk_subs h ss end' freed' used' (found + 1) sb'))))"

definition self_test_heap :: "heap \<Rightarrow> nat \<Rightarrow> suballocator \<Rightarrow> (nat \<times> suballocator) result" where
  "self_test_heap h found sb =
    assert_that (hp_free h \<le> hp_total h)
    (if hp_alias_group h then
       (case hp_subs h of
          [s] \<Rightarrow> assert_that (sa_offset s = 0 \<and> sa_size s = hp_total h \<and> hp_free h = 0) (Inr (found + 1, sb))
        | _ \<Rightarrow> Inl Assertion_failed)
     else
       result_bind (walk_subs h (hp_subs h) (- 1) (case hp_subs h of [] \<Rightarrow> 0 | s # _ \<Rightarrow> sa_offset s) 0 found sb)
         (\<lambda>(prev_end, freed, used, found', sb').
           let freed' = (if prev_end \<ge> 0 then freed + (hp_total h - of_int prev_end) else hp_total h)
           in assert_that (hp_free h = freed' \<and> freed' + used = hp_total h) (Inr (found', sb'))))"

fun self_test_heaps :: "heap list \<Rightarrow> nat \<Rightarrow> suballocator \<Rightarrow> (nat \<times> suballocator) result" where
  "self_test_heaps [] found sb = Inr (found, sb)"
| "self_test_heaps (h # hs) found sb = result_bind (self_test_heap h found sb) (\<lambda>(n, sb'). self_test_heaps hs n sb')"

definition self_test :: "suballocator \<Rightarrow> (nat \<times> suballocator) result" where
  "self_test sb = assert_that (self_test_lookups sb) (self_test_heaps (concat (sb_heaps sb)) 0 sb)"

section \<open>Figures\<close>

record suballoc_metrics =
  sm_used :: u64
  sm_allocated :: u64
  sm_heaps :: u32
  sm_objects :: u32

definition performance :: "suballocator \<Rightarrow> suballoc_metrics" where
  "performance sb = \<lparr>sm_used = sb_used_bytes sb, sm_allocated = sb_allocated_bytes sb, sm_heaps = sb_allocated_heaps sb,
    sm_objects = sb_used_count sb\<rparr>"

end
