(* ===== verification/SuballocatorHeaps.thy ===== *)
theory SuballocatorHeaps
  imports Suballocator
begin

text \<open>The heaps of the suballocator: the suballocations of a heap are ordered, disjoint and inside the
  heap, and its free bytes are the bytes not suballocated.  Every operation keeps this, and a new
  suballocation is aligned and overlaps no other.\<close>

section \<open>Aligned segments\<close>

lemma std_align_segment:
  assumes "std_align al sz ptr space = Some (off, left)" "unat ptr + unat space < 2 ^ 64"
  shows "unat ptr \<le> unat off" "unat off + unat sz \<le> unat ptr + unat space"
    "al = 2 ^ k \<Longrightarrow> k < 64 \<Longrightarrow> off mod al = 0"
proof -
  define diff where "diff = (- ptr) mod al"
  have ok: "sz \<le> space" "diff \<le> space - sz" and off: "off = ptr + diff"
    using assms(1) by (auto simp: std_align_def Let_def diff_def not_less split: if_splits)
  have "unat diff + unat sz \<le> unat space" using ok by (metis unat_sub word_le_nat_alt le_diff_conv2)
  moreover from this have "unat off = unat ptr + unat diff" unfolding off using assms(2) by (intro unat_add_small) simp
  ultimately show "unat ptr \<le> unat off" "unat off + unat sz \<le> unat ptr + unat space" by linarith+
  show "off mod al = 0" if "al = 2 ^ k" "k < 64" using mod_aligned [OF that(2)] by (simp add: off diff_def that(1))
qed

section \<open>The suballocations of one heap\<close>

fun subs_ok :: "nat \<Rightarrow> nat \<Rightarrow> suballocation list \<Rightarrow> bool" where
  "subs_ok lo hi [] = (lo \<le> hi)"
| "subs_ok lo hi (s # ss) = (lo \<le> unat (sa_offset s) \<and> subs_ok (unat (sa_offset s) + unat (sa_size s)) hi ss)"

definition used_size :: "suballocation list \<Rightarrow> nat" where
  "used_size ss = (\<Sum>s \<leftarrow> ss. unat (sa_size s))"

lemma used_size_simps [simp]:
  "used_size [] = 0"
  "used_size (s # ss) = unat (sa_size s) + used_size ss"
  by (simp_all add: used_size_def)

definition heap_ok :: "heap \<Rightarrow> bool" where
  "heap_ok h \<longleftrightarrow> unat (hp_total h) < 2 ^ 30 \<and> subs_ok 0 (unat (hp_total h)) (hp_subs h) \<and>
    unat (hp_free h) + used_size (hp_subs h) = unat (hp_total h)"

lemma subs_ok_le: "subs_ok lo hi ss \<Longrightarrow> lo + used_size ss \<le> hi"
  by (induction lo hi ss rule: subs_ok.induct) auto

lemma subs_ok_mono: "subs_ok lo hi ss \<Longrightarrow> lo' \<le> lo \<Longrightarrow> subs_ok lo' hi ss"
  by (induction lo hi ss arbitrary: lo' rule: subs_ok.induct) auto

lemma subs_ok_bounds:
  "subs_ok lo hi ss \<Longrightarrow> s \<in> set ss \<Longrightarrow> lo \<le> unat (sa_offset s) \<and> unat (sa_offset s) + unat (sa_size s) \<le> hi"
  by (induction lo hi ss rule: subs_ok.induct) (fastforce dest: subs_ok_le)+

lemma subs_ok_disjoint:
  "subs_ok lo hi (xs @ s # ys) \<Longrightarrow> t \<in> set xs \<union> set ys \<Longrightarrow>
    unat (sa_offset t) + unat (sa_size t) \<le> unat (sa_offset s) \<or>
    unat (sa_offset s) + unat (sa_size s) \<le> unat (sa_offset t)"
proof (induction xs arbitrary: lo)
  case Nil
  then show ?case using subs_ok_bounds by fastforce
next
  case (Cons x xs)
  then show ?case using subs_ok_bounds [of "unat (sa_offset x) + unat (sa_size x)" hi "xs @ s # ys" s] by auto
qed

lemma subs_ok_filter: "subs_ok lo hi ss \<Longrightarrow> subs_ok lo hi (filter P ss)"
proof (induction lo hi ss rule: subs_ok.induct)
  case (2 lo hi s ss)
  then have "subs_ok (unat (sa_offset s) + unat (sa_size s)) hi (filter P ss)" by simp
  with 2(2) show ?case by (auto intro: subs_ok_mono)
qed simp

lemma used_size_filter: "used_size (filter P ss) \<le> used_size ss"
  by (induction ss) auto

lemma erase_deleted_filter: "fst (erase_deleted ds ss free) = filter (\<lambda>s. sa_offset s \<notin> ucast ` set ds) ss"
  by (induction ds ss free rule: erase_deleted.induct) (auto split: prod.splits)

lemma erase_deleted_free:
  "unat free + used_size ss < 2 ^ 64 \<Longrightarrow>
    unat (snd (erase_deleted ds ss free)) + used_size (fst (erase_deleted ds ss free)) = unat free + used_size ss"
proof (induction ds ss free rule: erase_deleted.induct)
  case (2 ds s ss free)
  have "unat (free + sa_size s) = unat free + unat (sa_size s)" using 2(3) by (intro unat_add_small) simp
  with 2 show ?case by (auto split: prod.splits)
qed simp

lemma finalize_deletes_ok:
  assumes "heap_ok h"
  shows "heap_ok (finalize_deletes h)"
proof (cases "hp_deletes h = []")
  case True
  then show ?thesis using assms by (simp add: finalize_deletes_def take_pending_deletes_def heap_ok_def)
next
  case False
  obtain ss free where erase: "erase_deleted (hp_deletes h) (hp_subs h) (hp_free h) = (ss, free)" by force
  have "unat (hp_free h) + used_size (hp_subs h) < 2 ^ 64" using assms by (simp add: heap_ok_def)
  from erase_deleted_free [OF this, of "hp_deletes h"] have free: "unat free + used_size ss = unat (hp_total h)"
    using assms by (simp add: erase heap_ok_def)
  have ss: "subs_ok 0 (unat (hp_total h)) ss"
    using erase_deleted_filter [of "hp_deletes h" "hp_subs h" "hp_free h"] assms
    by (simp add: erase heap_ok_def subs_ok_filter)
  show ?thesis using False free ss assms
    by (simp add: finalize_deletes_def take_pending_deletes_def erase heap_ok_def Let_def)
qed

section \<open>Placing a suballocation\<close>

definition placed :: "u64 \<Rightarrow> suballocation \<Rightarrow> suballocation list \<Rightarrow> u64 \<Rightarrow> suballocation list \<Rightarrow> bool" where
  "placed tot s ss off ss' \<longleftrightarrow> (\<exists>xs ys. ss = xs @ ys \<and> ss' = xs @ s\<lparr>sa_offset := off\<rparr> # ys)"

lemma scan_holes_placed: "scan_holes tot s ss = Some (off, ss') \<Longrightarrow> placed tot s ss off ss'"
proof (induction tot s ss arbitrary: ss' rule: scan_holes.induct)
  case (2 tot s it)
  then have "[it] = [it] @ [] \<and> ss' = [it] @ s\<lparr>sa_offset := off\<rparr> # []" by (auto simp: Let_def split: option.splits)
  then show ?case unfolding placed_def by blast
next
  case (3 tot s it nxt rest)
  show ?case
  proof (cases "std_align (sa_alignment s) (sa_size s) (sa_offset it + sa_size it) (sa_offset nxt - (sa_offset it + sa_size it))")
    case None
    then obtain ss1 where "scan_holes tot s (nxt # rest) = Some (off, ss1)" "ss' = it # ss1" using 3(2) by (auto simp: Let_def)
    with 3(1) [OF refl None] have "placed tot s (nxt # rest) off ss1" by blast
    with \<open>ss' = it # ss1\<close> show ?thesis unfolding placed_def by (metis append_Cons)
  next
    case (Some r)
    then have "it # nxt # rest = [it] @ (nxt # rest) \<and> ss' = [it] @ s\<lparr>sa_offset := off\<rparr> # (nxt # rest)"
      using 3(2) by (auto simp: Let_def split: prod.splits)
    then show ?thesis unfolding placed_def by blast
  qed
qed simp

lemma scan_holes_ok:
  assumes "scan_holes tot s ss = Some (off, ss')" "subs_ok lo (unat tot) ss" "unat tot < 2 ^ 30"
  shows "subs_ok lo (unat tot) ss' \<and> (\<forall>k < 64. sa_alignment s = 2 ^ k \<longrightarrow> off mod sa_alignment s = 0)"
  using assms
proof (induction tot s ss arbitrary: lo ss' rule: scan_holes.induct)
  case (2 tot s it)
  define start where "start = sa_offset it + sa_size it"
  obtain r where al: "std_align (sa_alignment s) (sa_size s) start (tot - start) = Some (off, r)"
    and ss': "ss' = [it, s\<lparr>sa_offset := off\<rparr>]"
    using 2(1) by (auto simp: Let_def start_def split: option.splits)
  have "unat (sa_offset it) + unat (sa_size it) \<le> unat tot" using 2(2) by simp
  then have start: "unat start = unat (sa_offset it) + unat (sa_size it)" "start \<le> tot"
    using 2(3) unfolding start_def by (auto simp: word_le_nat_alt unat_add_small)
  then have "unat (tot - start) = unat tot - unat start" by (simp add: unat_sub)
  then have room: "unat start + unat (tot - start) = unat tot" using start(2) by (simp add: word_le_nat_alt)
  note seg = std_align_segment [OF al, unfolded room]
  show ?case using seg 2(2,3) start by (auto simp: ss')
next
  case (3 tot s it nxt rest)
  define start where "start = sa_offset it + sa_size it"
  have bound: "unat (sa_offset it) + unat (sa_size it) \<le> unat (sa_offset nxt)" "unat (sa_offset nxt) \<le> unat tot"
    using 3(3) subs_ok_le by fastforce+
  then have start: "unat start = unat (sa_offset it) + unat (sa_size it)" "start \<le> sa_offset nxt"
    using 3(4) unfolding start_def by (auto simp: word_le_nat_alt unat_add_small)
  then have "unat (sa_offset nxt - start) = unat (sa_offset nxt) - unat start" by (simp add: unat_sub)
  then have room: "unat start + unat (sa_offset nxt - start) = unat (sa_offset nxt)" using start(2) by (simp add: word_le_nat_alt)
  show ?case
  proof (cases "std_align (sa_alignment s) (sa_size s) start (sa_offset nxt - start)")
    case None
    then obtain ss1 where "scan_holes tot s (nxt # rest) = Some (off, ss1)" "ss' = it # ss1"
      using 3(2) by (auto simp: Let_def start_def)
    with 3(1) [OF refl None [unfolded start_def], of ss1 "unat (sa_offset it) + unat (sa_size it)"] 3(3,4) show ?thesis by simp
  next
    case (Some r)
    obtain r' where al: "std_align (sa_alignment s) (sa_size s) start (sa_offset nxt - start) = Some (off, r')"
      and ss': "ss' = it # s\<lparr>sa_offset := off\<rparr> # nxt # rest"
      using 3(2) Some by (auto simp: Let_def start_def split: prod.splits)
    note seg = std_align_segment [OF al, unfolded room]
    show ?thesis using seg 3(3,4) bound start by (auto simp: ss')
  qed
qed simp

lemma place_placed: "place s h = Some (off, ss') \<Longrightarrow> placed (hp_total h) s (hp_subs h) off ss'"
proof -
  assume at: "place s h = Some (off, ss')"
  show ?thesis
  proof (cases "hp_subs h")
    case Nil
    then show ?thesis using at by (auto simp: place_def placed_def)
  next
    case (Cons f ss)
    have front: "placed (hp_total h) s (f # ss) 0 (s\<lparr>sa_offset := 0\<rparr> # f # ss)"
      unfolding placed_def by (intro exI [of _ "[]"] exI [of _ "f # ss"]) simp
    show ?thesis using at front scan_holes_placed by (auto simp: place_def Cons split: if_splits)
  qed
qed

lemma placed_used_size: "placed tot s ss off ss' \<Longrightarrow> used_size ss' = used_size ss + unat (sa_size s)"
  by (auto simp: placed_def used_size_def)

lemma place_ok:
  assumes "heap_ok h" "sa_size s \<le> hp_free h" "place s h = Some (off, ss')"
  shows "heap_ok (h\<lparr>hp_subs := ss', hp_free := hp_free h - sa_size s\<rparr>)"
    and "k < 64 \<Longrightarrow> sa_alignment s = 2 ^ k \<Longrightarrow> off mod sa_alignment s = 0"
proof -
  have iv: "unat (hp_total h) < 2 ^ 30" "subs_ok 0 (unat (hp_total h)) (hp_subs h)"
    "unat (hp_free h) + used_size (hp_subs h) = unat (hp_total h)" using assms(1) by (simp_all add: heap_ok_def)
  have fits: "unat (sa_size s) \<le> unat (hp_free h)" using assms(2) by (simp add: word_le_nat_alt)
  have "subs_ok 0 (unat (hp_total h)) ss' \<and> (\<forall>k < 64. sa_alignment s = 2 ^ k \<longrightarrow> off mod sa_alignment s = 0)"
  proof (cases "hp_subs h")
    case Nil
    then show ?thesis using assms(3) iv fits by (auto simp: place_def)
  next
    case (Cons f ss)
    show ?thesis
    proof (cases "sa_size s \<le> sa_offset f")
      case True
      then show ?thesis using assms(3) iv Cons by (auto simp: place_def word_le_nat_alt)
    next
      case False
      then show ?thesis using assms(3) iv scan_holes_ok [of "hp_total h" s "f # ss" off ss' 0] by (simp add: place_def Cons)
    qed
  qed
  moreover have "unat (hp_free h - sa_size s) + used_size ss' = unat (hp_total h)"
    using placed_used_size [OF place_placed [OF assms(3)]] iv(3) fits by (simp add: unat_sub assms(2))
  ultimately show "heap_ok (h\<lparr>hp_subs := ss', hp_free := hp_free h - sa_size s\<rparr>)"
    and "k < 64 \<Longrightarrow> sa_alignment s = 2 ^ k \<Longrightarrow> off mod sa_alignment s = 0"
    using iv(1) by (auto simp: heap_ok_def)
qed

section \<open>All heaps\<close>

definition valid_ptr :: "suballocator \<Rightarrow> heap_ptr \<Rightarrow> bool" where
  "valid_ptr sb p \<longleftrightarrow> fst p < length (sb_heaps sb) \<and> snd p < length (sb_heaps sb ! fst p)"

definition heaps_ok :: "suballocator \<Rightarrow> bool" where
  "heaps_ok sb \<longleftrightarrow> (\<forall>p. valid_ptr sb p \<longrightarrow> heap_ok (heap_at sb p))"

lemma length_heaps_set_heap [simp]:
  "length (sb_heaps (set_heap p h sb)) = length (sb_heaps sb)"
  "length (sb_heaps (set_heap p h sb) ! t) = length (sb_heaps sb ! t)"
  by (auto simp: set_heap_def nth_list_update) (metis length_list_update list_update_beyond nth_list_update_eq nth_list_update_neq linorder_not_less)

lemma valid_ptr_set_heap [simp]: "valid_ptr (set_heap p h sb) q \<longleftrightarrow> valid_ptr sb q"
  by (simp add: valid_ptr_def)

lemma heap_at_set_heap: "valid_ptr sb p \<Longrightarrow> heap_at (set_heap p h sb) q = (if q = p then h else heap_at sb q)"
  by (cases p; cases q) (auto simp: heap_at_def set_heap_def valid_ptr_def nth_list_update)

lemma heaps_ok_set_heap: "heaps_ok sb \<Longrightarrow> valid_ptr sb p \<Longrightarrow> heap_ok h \<Longrightarrow> heaps_ok (set_heap p h sb)"
  by (simp add: heaps_ok_def heap_at_set_heap)

lemma bind_tables_heaps:
  assumes "bind_tables p s sb = Inr sb'"
  shows "sb_heaps sb' = sb_heaps sb" "sb_memory_types sb' = sb_memory_types sb" "sb_allow_mixed_tiling sb' = sb_allow_mixed_tiling sb"
    "sb_run sb' = sb_run sb" "sb_min_heap_size sb' = sb_min_heap_size sb" "sb_alias_groups sb' = sb_alias_groups sb"
  using assms by (auto simp: bind_tables_def Let_def split: object_type.splits if_splits)

lemma bind_eq_Inr:
  "bind p h s sb = Inr sb' \<longleftrightarrow> hp_mem h \<noteq> 0 \<and> sa_alignment s \<noteq> 0 \<and> bind_tables p s sb = Inr sb' \<and>
    sa_offset s + sa_size s \<le> hp_total h"
  by (auto simp: bind_def)

lemma bind_heaps: "bind p h s sb = Inr sb' \<Longrightarrow> sb_heaps sb' = sb_heaps sb"
  by (auto simp: bind_eq_Inr dest: bind_tables_heaps)

lemma heaps_cong:
  assumes "sb_heaps sb' = sb_heaps sb"
  shows "valid_ptr sb' p = valid_ptr sb p" "heap_at sb' p = heap_at sb p" "heaps_ok sb' = heaps_ok sb"
  using assms by (simp_all add: valid_ptr_def heap_at_def heaps_ok_def)

text \<open>What a successful placement leaves behind at heap \<open>p\<close>: the object between the others, at the offset returned.\<close>

definition stored_at :: "suballocator \<Rightarrow> heap_ptr \<Rightarrow> suballocation \<Rightarrow> suballoc_location \<Rightarrow> bool" where
  "stored_at sb p s loc \<longleftrightarrow> valid_ptr sb p \<and> loc_memory loc = hp_mem (heap_at sb p) \<and> loc_size loc = sa_size s \<and>
    (\<exists>xs ys. hp_subs (heap_at sb p) = xs @ s\<lparr>sa_offset := loc_offset loc\<rparr> # ys) \<and>
    (\<forall>k < 64. sa_alignment s = 2 ^ k \<longrightarrow> loc_offset loc mod sa_alignment s = 0)"

lemma try_heaps_ok:
  assumes "try_heaps tid t s flags tiling allocflags n k sb = Inr (found, sb')"
    and "heaps_ok sb" "tid < length (sb_heaps sb)" "k + n \<le> length (sb_heaps sb ! tid)"
  shows "heaps_ok sb'" "length (sb_heaps sb') = length (sb_heaps sb)"
    "\<And>loc. found = Some loc \<Longrightarrow> \<exists>j. stored_at sb' (tid, j) s loc"
proof -
  have "heaps_ok sb' \<and> length (sb_heaps sb') = length (sb_heaps sb) \<and> (\<forall>loc. found = Some loc \<longrightarrow> (\<exists>j. stored_at sb' (tid, j) s loc))"
    using assms
  proof (induction n arbitrary: k sb)
    case (Suc n)
    define h where "h = finalize_deletes (heap_at sb (tid, k))"
    define sb1 where "sb1 = set_heap (tid, k) h sb"
    have ptr: "valid_ptr sb (tid, k)" using Suc.prems(3,4) by (simp add: valid_ptr_def)
    have h_ok: "heap_ok h" unfolding h_def using Suc.prems(2) ptr by (simp add: finalize_deletes_ok heaps_ok_def)
    have sb1: "heaps_ok sb1" "valid_ptr sb1 (tid, k)" "heap_at sb1 (tid, k) = h"
      using Suc.prems(2) ptr h_ok by (simp_all add: sb1_def heaps_ok_set_heap heap_at_set_heap)
    show ?case
    proof (cases "if heap_suits sb tid t s flags tiling allocflags h then place s h else None")
      case None
      then have "try_heaps tid t s flags tiling allocflags n (k + 1) sb1 = Inr (found, sb')"
        using Suc.prems(1) by (simp add: Let_def flip: h_def sb1_def)
      from Suc.IH [OF this sb1(1)] show ?thesis using Suc.prems(3,4) by (simp add: sb1_def)
    next
      case (Some r)
      obtain off ss where r: "r = (off, ss)" by force
      have suits: "heap_suits sb tid t s flags tiling allocflags h" and at: "place s h = Some (off, ss)"
        using Some r by (auto split: if_splits)
      obtain sb2 where bound: "bind (tid, k) h (s\<lparr>sa_offset := off\<rparr>) sb1 = Inr sb2"
        and sb': "sb' = set_heap (tid, k) (h\<lparr>hp_subs := ss, hp_free := hp_free h - sa_size s\<rparr>) sb2"
        and found: "found = Some \<lparr>loc_memory = hp_mem h, loc_offset = off, loc_size = sa_size s, loc_needs_init = True,
          loc_needs_flush = needs_flush sb (hp_memoryTypeIndex h), loc_mapped = at_offset (hp_mapped h) off\<rparr>"
        using Suc.prems(1) suits at by (auto simp: Let_def simp flip: h_def sb1_def)
      note same = heaps_cong [OF bind_heaps [OF bound]]
      have fits: "sa_size s \<le> hp_free h" using suits by (simp add: heap_suits_def)
      have "heaps_ok sb'" unfolding sb'
        using sb1 place_ok(1) [OF h_ok fits at] by (intro heaps_ok_set_heap) (simp_all add: same)
      moreover have "length (sb_heaps sb') = length (sb_heaps sb)"
        unfolding sb' using bind_heaps [OF bound] by (simp add: sb1_def)
      moreover have "stored_at sb' (tid, k) s loc" if "found = Some loc" for loc
        using that found sb1 place_placed [OF at] place_ok(2) [OF h_ok fits at]
        unfolding stored_at_def sb' placed_def by (simp add: same heap_at_set_heap) fastforce
      ultimately show ?thesis by blast
    qed
  qed simp
  then show "heaps_ok sb'" "length (sb_heaps sb') = length (sb_heaps sb)"
    "\<And>loc. found = Some loc \<Longrightarrow> \<exists>j. stored_at sb' (tid, j) s loc" by blast+
qed

section \<open>New heaps\<close>

lemma heaps_ok_append:
  assumes "heaps_ok sb" "tid < length (sb_heaps sb)" "heap_ok h" "sb_heaps sb' = (sb_heaps sb)[tid := sb_heaps sb ! tid @ [h]]"
  shows "heaps_ok sb'" "valid_ptr sb' (tid, length (sb_heaps sb ! tid))" "heap_at sb' (tid, length (sb_heaps sb ! tid)) = h"
  using assms unfolding heaps_ok_def valid_ptr_def heap_at_def
  by (auto simp: nth_list_update nth_append less_Suc_eq)

lemma allocate_eq_Inr:
  assumes "allocate vk tid t s flags tiling dedicated allocflags alias sb = Inr (loc, sb')"
  obtains bytes mem mapped h where "bytes = allocation_size sb s dedicated alias" "bytes < 1024 * 1024 * 1024"
    "tid < length (sb_heaps sb)" "h = heap_new bytes mem mapped tid t s flags tiling dedicated allocflags alias"
    "if alias then sb' = push_heap tid h sb
     else bind (tid, length (sb_heaps sb ! tid)) h (s\<lparr>sa_offset := 0\<rparr>) (push_heap tid h sb) = Inr sb'"
    "loc = \<lparr>loc_memory = mem, loc_offset = 0, loc_size = sa_size s, loc_needs_init = True,
       loc_needs_flush = needs_flush sb t, loc_mapped = mapped\<rparr>"
    "dedicated \<Longrightarrow> sa_type s \<noteq> Type_unknown"
proof -
  define bytes where "bytes = allocation_size sb s dedicated alias"
  have small: "bytes < 1024 * 1024 * 1024" and typed: "dedicated \<longrightarrow> sa_type s \<noteq> Type_unknown"
    using assms by (simp_all add: allocate_def Let_def flip: bytes_def)
  obtain mem mapped where mem: "obtain_memory vk (sb_run sb) (sb_memory_types sb ! t AND HOST_VISIBLE_BIT \<noteq> 0) = Some (mem, mapped)"
    using assms by (simp add: allocate_def Let_def split: option.splits) fastforce
  define h where "h = heap_new bytes mem mapped tid t s flags tiling dedicated allocflags alias"
  have "result_bind (thread_heaps sb tid) (\<lambda>hs.
      result_bind (if alias then Inr (push_heap tid h sb) else bind (tid, length hs) h (s\<lparr>sa_offset := 0\<rparr>) (push_heap tid h sb))
        (\<lambda>sb'. Inr (\<lparr>loc_memory = mem, loc_offset = 0, loc_size = sa_size s, loc_needs_init = True,
          loc_needs_flush = needs_flush sb t, loc_mapped = mapped\<rparr>, sb'))) = Inr (loc, sb')"
    unfolding h_def using assms by (simp add: allocate_def Let_def mem flip: bytes_def)
  then have "tid < length (sb_heaps sb) \<and>
      (if alias then sb' = push_heap tid h sb
       else bind (tid, length (sb_heaps sb ! tid)) h (s\<lparr>sa_offset := 0\<rparr>) (push_heap tid h sb) = Inr sb') \<and>
      loc = \<lparr>loc_memory = mem, loc_offset = 0, loc_size = sa_size s, loc_needs_init = True,
        loc_needs_flush = needs_flush sb t, loc_mapped = mapped\<rparr>"
    by (auto simp: thread_heaps_def split: if_splits)
  with small typed show thesis using that [OF bytes_def small _ h_def] by blast
qed

lemma allocate_ok:
  assumes "allocate vk tid t s flags tiling dedicated allocflags alias sb = Inr (loc, sb')" "heaps_ok sb" "sa_offset s = 0"
  shows "heaps_ok sb'" "length (sb_heaps sb') = length (sb_heaps sb)" "stored_at sb' (tid, length (sb_heaps sb ! tid)) s loc"
  using assms(1)
proof (atomize (full), cases rule: allocate_eq_Inr)
  case (1 bytes mem mapped h)
  have heaps: "sb_heaps sb' = (sb_heaps sb)[tid := sb_heaps sb ! tid @ [h]]"
    using 1(5) bind_heaps by (auto simp: push_heap_def split: if_splits)
  have fits: "sa_size s \<le> bytes" by (simp add: 1(1) allocation_size_def)
  have "unat bytes < 2 ^ 30" using 1(2) by (simp add: word_less_nat_alt)
  then have ok: "heap_ok h" using fits assms(3) by (simp add: heap_ok_def heap_new_def 1(4) unat_sub word_le_nat_alt)
  note new = heaps_ok_append [OF assms(2) 1(3) ok heaps]
  have "s\<lparr>sa_offset := 0\<rparr> = s" using assms(3) by simp
  then have "stored_at sb' (tid, length (sb_heaps sb ! tid)) s loc"
    using new(2,3) by (auto simp: stored_at_def 1(4,6) heap_new_def intro!: exI [of _ "[]"])
  with new(1) heaps show "heaps_ok sb' \<and> length (sb_heaps sb') = length (sb_heaps sb) \<and>
      stored_at sb' (tid, length (sb_heaps sb ! tid)) s loc" by simp
qed

lemma suballocate_ok:
  assumes "suballocate vk tid t s flags tiling allocflags sb = Inr (loc, sb')" "heaps_ok sb" "sa_offset s = 0"
  shows "heaps_ok sb'" "length (sb_heaps sb') = length (sb_heaps sb)" "\<exists>j. stored_at sb' (tid, j) s loc"
proof -
  define sb0 where "sb0 = sb\<lparr>sb_used_count := sb_used_count sb + 1, sb_used_bytes := sb_used_bytes sb + sa_size s\<rparr>"
  have same: "sb_heaps sb0 = sb_heaps sb" by (simp add: sb0_def)
  obtain found sb1 where tid: "tid < length (sb_heaps sb0)"
    and tried_all: "try_heaps tid t s flags tiling allocflags (length (sb_heaps sb0 ! tid)) 0 sb0 = Inr (found, sb1)"
    and fin: "(case found of Some l \<Rightarrow> Inr (l, sb1)
      | None \<Rightarrow> allocate vk tid t s flags tiling False allocflags False sb1) = Inr (loc, sb')"
    using assms(1) by (auto simp: suballocate_def Let_def thread_heaps_def simp flip: sb0_def split: if_splits)
  have "heaps_ok sb0" using assms(2) heaps_cong(3) [OF same] by simp
  note tried = try_heaps_ok [OF tried_all this tid]
  have "heaps_ok sb' \<and> length (sb_heaps sb') = length (sb_heaps sb) \<and> (\<exists>j. stored_at sb' (tid, j) s loc)"
  proof (cases found)
    case None
    then show ?thesis using fin allocate_ok [of vk tid t s flags tiling False allocflags False sb1 loc sb'] tried(1,2) assms(3) same by auto
  next
    case (Some l)
    then show ?thesis using fin tried same by auto
  qed
  then show "heaps_ok sb'" "length (sb_heaps sb') = length (sb_heaps sb)" "\<exists>j. stored_at sb' (tid, j) s loc" by blast+
qed

text \<open>C11: Device memory is never handed out twice.  Placing an object of power-of-two alignment keeps
  every heap consistent (its suballocations ordered, disjoint and inside the heap, its free count the bytes not used);
  the location returned lies in a heap of the calling thread, is aligned, and overlaps no other suballocation
  of that heap.\<close>

theorem suballocation_disjoint:
  assumes "heaps_ok sb" "suballocate vk tid t s flags tiling allocflags sb = Inr (loc, sb')"
    and "sa_offset s = 0" "sa_alignment s = 2 ^ k" "k < 64"
  shows "heaps_ok sb' \<and> (\<exists>j xs ys. let h = heap_at sb' (tid, j) in
    hp_subs h = xs @ s\<lparr>sa_offset := loc_offset loc\<rparr> # ys \<and> loc_memory loc = hp_mem h \<and> loc_size loc = sa_size s \<and>
    loc_offset loc mod sa_alignment s = 0 \<and> unat (loc_offset loc) + unat (sa_size s) \<le> unat (hp_total h) \<and>
    (\<forall>u \<in> set xs \<union> set ys. {unat (sa_offset u)..<unat (sa_offset u) + unat (sa_size u)} \<inter>
      {unat (loc_offset loc)..<unat (loc_offset loc) + unat (sa_size s)} = {}))"
proof -
  have ok: "heaps_ok sb'" by (rule suballocate_ok(1) [OF assms(2,1,3)])
  obtain j where st: "stored_at sb' (tid, j) s loc" using suballocate_ok(3) [OF assms(2,1,3)] by blast
  define h where "h = heap_at sb' (tid, j)"
  obtain xs ys where subs: "hp_subs h = xs @ s\<lparr>sa_offset := loc_offset loc\<rparr> # ys"
    and loc: "loc_memory loc = hp_mem h" "loc_size loc = sa_size s" "loc_offset loc mod sa_alignment s = 0"
    using st assms(4,5) by (auto simp: stored_at_def h_def)
  have "heap_ok h" using ok st by (simp add: heaps_ok_def stored_at_def h_def)
  then have chain: "subs_ok 0 (unat (hp_total h)) (xs @ s\<lparr>sa_offset := loc_offset loc\<rparr> # ys)" by (simp add: heap_ok_def subs)
  from subs_ok_bounds [OF chain, of "s\<lparr>sa_offset := loc_offset loc\<rparr>"]
  have inside: "unat (loc_offset loc) + unat (sa_size s) \<le> unat (hp_total h)" by simp
  have "{unat (sa_offset u)..<unat (sa_offset u) + unat (sa_size u)} \<inter>
      {unat (loc_offset loc)..<unat (loc_offset loc) + unat (sa_size s)} = {}" if "u \<in> set xs \<union> set ys" for u
    using subs_ok_disjoint [OF chain that] by auto
  with subs loc inside have result: "hp_subs h = xs @ s\<lparr>sa_offset := loc_offset loc\<rparr> # ys \<and> loc_memory loc = hp_mem h \<and>
    loc_size loc = sa_size s \<and> loc_offset loc mod sa_alignment s = 0 \<and>
    unat (loc_offset loc) + unat (sa_size s) \<le> unat (hp_total h) \<and>
    (\<forall>u \<in> set xs \<union> set ys. {unat (sa_offset u)..<unat (sa_offset u) + unat (sa_size u)} \<inter>
      {unat (loc_offset loc)..<unat (loc_offset loc) + unat (sa_size s)} = {})" by blast
  show ?thesis unfolding Let_def
    by (rule conjI [OF ok], rule exI [of _ j], rule exI [of _ xs], rule exI [of _ ys], rule result [unfolded h_def])
qed

text \<open>A suballocator with one thread and one heap holding 4096 bytes at offset 0 and 256 at offset 8192.\<close>

definition sample_sub :: "u32 \<Rightarrow> u64 \<Rightarrow> u64 \<Rightarrow> suballocation" where
  "sample_sub i off sz = suballocation_new\<lparr>sa_type := Type_buffer, sa_index := i, sa_size := sz, sa_offset := off, sa_alignment := 256\<rparr>"

definition sample_suballocator :: suballocator where
  "sample_suballocator = (create_empty \<lparr>dl_memory_types = [6], dl_bufferImageGranularity = 1, dl_maxMemoryAllocationCount = 4096\<rparr>
      None 0 3 0 0 1 True)
    \<lparr>sb_heaps := [[(heap_new 65536 77 0 0 0 (sample_sub 0 0 4096) 6 TILING_LINEAR False 0 False)
      \<lparr>hp_subs := [sample_sub 0 0 4096, sample_sub 1 8192 256], hp_free := 61184\<rparr>]]\<rparr>"

theorem suballocation_disjoint_witness:
  "\<exists>loc sb'. suballocate \<lparr>va_memory = None, va_mapped = None\<rparr> 0 0 (sample_sub 2 0 5000) 6 TILING_LINEAR 0 sample_suballocator = Inr (loc, sb') \<and>
    heaps_ok sb'"
proof -
  have "heaps_ok sample_suballocator"
    unfolding heaps_ok_def valid_ptr_def heap_at_def sample_suballocator_def
    by (auto simp: less_Suc_eq heap_ok_def heap_new_def sample_sub_def)
  moreover have "isl (suballocate \<lparr>va_memory = None, va_mapped = None\<rparr> 0 0 (sample_sub 2 0 5000) 6 TILING_LINEAR 0 sample_suballocator) = False"
    by code_simp
  then obtain loc sb' where run:
    "suballocate \<lparr>va_memory = None, va_mapped = None\<rparr> 0 0 (sample_sub 2 0 5000) 6 TILING_LINEAR 0 sample_suballocator = Inr (loc, sb')"
    by (cases "suballocate \<lparr>va_memory = None, va_mapped = None\<rparr> 0 0 (sample_sub 2 0 5000) 6 TILING_LINEAR 0 sample_suballocator") auto
  moreover have "sa_offset (sample_sub 2 0 5000) = 0" "sa_alignment (sample_sub 2 0 5000) = 2 ^ 8"
    by (simp_all add: sample_sub_def)
  ultimately show ?thesis using suballocation_disjoint [OF _ run, where k = 8] by auto
qed

end
