(* ===== verification/SuballocatorTables.thy ===== *)
theory SuballocatorTables
  imports SuballocatorHeaps
begin

text \<open>The lookup tables of the suballocator agree with its heaps: an object is bound exactly when a heap
  holds a suballocation for it that is not waiting to be deleted.  The invariant holds after \<open>create\<close> and is
  kept by every operation, so the suballocator's own self test passes at every moment.\<close>

section \<open>Bound objects\<close>

datatype key = K_image nat | K_buffer nat | K_tensor nat | K_session nat u32 u32

definition sub_key :: "suballocation \<Rightarrow> key option" where
  "sub_key s = (case sa_type s of
     Type_image \<Rightarrow> Some (K_image (unat (sa_index s)))
   | Type_buffer \<Rightarrow> Some (K_buffer (unat (sa_index s)))
   | Type_tensor \<Rightarrow> Some (K_tensor (unat (sa_index s)))
   | Type_session \<Rightarrow> Some (K_session (unat (sa_index s)) (sa_bind_point s) (sa_object_index s))
   | Type_unknown \<Rightarrow> None)"

definition slot :: "nat \<Rightarrow> 'a list \<Rightarrow> 'a option" where
  "slot i xs = (if i < length xs then Some (xs ! i) else None)"

fun entry :: "suballocator \<Rightarrow> key \<Rightarrow> lookup option" where
  "entry sb (K_image i) = slot i (sb_images sb)"
| "entry sb (K_buffer i) = slot i (sb_buffers sb)"
| "entry sb (K_tensor i) = slot i (sb_tensors sb)"
| "entry sb (K_session i bp oi) = (case slot i (sb_sessions sb) of
     None \<Rightarrow> None
   | Some es \<Rightarrow> map_option (\<lambda>k. dg_loc (es ! k)) (find_entry bp oi es))"

definition place_of :: "lookup option \<Rightarrow> (heap_ptr \<times> u64 \<times> u64 \<times> bool) option" where
  "place_of l = (case l of
     None \<Rightarrow> None
   | Some l \<Rightarrow> map_option (\<lambda>p. (p, lk_offset l, lk_size l, lk_alias_member l)) (lk_home l))"

definition bound :: "suballocator \<Rightarrow> key \<Rightarrow> (heap_ptr \<times> u64 \<times> u64 \<times> bool) option" where
  "bound sb \<kappa> = place_of (entry sb \<kappa>)"

definition session_keys :: "datagraph_lookup list \<Rightarrow> (u32 \<times> u32) list" where
  "session_keys es = map (\<lambda>e. (dg_bind_point e, dg_object_index e)) es"

definition sessions_distinct :: "suballocator \<Rightarrow> bool" where
  "sessions_distinct sb \<longleftrightarrow> (\<forall>es \<in> set (sb_sessions sb). distinct (session_keys es))"

lemma slot_update [simp]: "slot i (xs[j := x]) = (if i = j \<and> j < length xs then Some x else slot i xs)"
  by (auto simp: slot_def)

lemma find_entry_None: "find_entry bp oi es = None \<longleftrightarrow> (bp, oi) \<notin> set (session_keys es)"
  by (induction es) (auto simp: session_keys_def)

lemma find_entry_Some:
  "find_entry bp oi es = Some k \<Longrightarrow> k < length es \<and> dg_bind_point (es ! k) = bp \<and> dg_object_index (es ! k) = oi"
proof (induction es arbitrary: k)
  case (Cons e es)
  then show ?case by (cases k) (auto split: if_splits)
qed simp

lemma find_entry_append:
  "find_entry bp oi (es @ [e]) = (case find_entry bp oi es of Some k \<Rightarrow> Some k
    | None \<Rightarrow> if dg_bind_point e = bp \<and> dg_object_index e = oi then Some (length es) else None)"
  by (induction es) (auto split: option.splits)

lemma find_entry_keys: "session_keys es' = session_keys es \<Longrightarrow> find_entry bp oi es' = find_entry bp oi es"
proof (induction es arbitrary: es')
  case (Cons e es)
  then obtain f fs where "es' = f # fs" by (cases es') (auto simp: session_keys_def)
  moreover from this have "dg_bind_point f = dg_bind_point e" "dg_object_index f = dg_object_index e" "session_keys fs = session_keys es"
    using Cons.prems by (simp_all add: session_keys_def)
  ultimately show ?case using Cons.IH [of fs] by simp
qed (simp add: session_keys_def)

lemma find_entry_nth:
  "distinct (session_keys es) \<Longrightarrow> k < length es \<Longrightarrow> find_entry (dg_bind_point (es ! k)) (dg_object_index (es ! k)) es = Some k"
proof (induction es arbitrary: k)
  case (Cons e es)
  show ?case
  proof (cases k)
    case (Suc j)
    then have "j < length es" using Cons.prems(2) by simp
    then have "(dg_bind_point (es ! j), dg_object_index (es ! j)) \<in> set (session_keys es)"
      unfolding session_keys_def by (metis (no_types, lifting) image_eqI list.set_map nth_mem)
    then have "\<not> (dg_bind_point e = dg_bind_point (es ! j) \<and> dg_object_index e = dg_object_index (es ! j))"
      using Cons.prems(1) by (auto simp: session_keys_def)
    then show ?thesis using Cons.IH [of j] Cons.prems(1) \<open>j < length es\<close> Suc by (simp add: session_keys_def)
  qed simp
qed simp

section \<open>What the operations do to the tables\<close>

lemma entry_heaps [simp]:
  "entry (sb\<lparr>sb_heaps := x\<rparr>) \<kappa> = entry sb \<kappa>"
  "entry (set_heap p h sb) \<kappa> = entry sb \<kappa>"
  "entry (push_heap tid h sb) \<kappa> = entry sb \<kappa>"
  "entry (sb\<lparr>sb_used_count := a, sb_used_bytes := b\<rparr>) \<kappa> = entry sb \<kappa>"
  "entry (sb\<lparr>sb_alias_groups := gs\<rparr>) \<kappa> = entry sb \<kappa>"
  by (cases \<kappa>; simp add: set_heap_def push_heap_def)+

lemma bound_heaps [simp]:
  "bound (sb\<lparr>sb_heaps := x\<rparr>) = bound sb"
  "bound (set_heap p h sb) = bound sb"
  "bound (push_heap tid h sb) = bound sb"
  "bound (sb\<lparr>sb_used_count := a, sb_used_bytes := b\<rparr>) = bound sb"
  "bound (sb\<lparr>sb_alias_groups := gs\<rparr>) = bound sb"
  by (simp_all add: bound_def fun_eq_iff)

lemma sessions_heaps [simp]:
  "sessions_distinct (set_heap p h sb) = sessions_distinct sb"
  "sessions_distinct (push_heap tid h sb) = sessions_distinct sb"
  "sessions_distinct (sb\<lparr>sb_used_count := a, sb_used_bytes := b\<rparr>) = sessions_distinct sb"
  "sessions_distinct (sb\<lparr>sb_alias_groups := gs\<rparr>) = sessions_distinct sb"
  by (simp_all add: sessions_distinct_def set_heap_def push_heap_def)

lemma bound_image: "xs = sb_images sb \<Longrightarrow> i < length xs \<Longrightarrow>
    bound (sb\<lparr>sb_images := xs[i := l]\<rparr>) = (bound sb)(K_image i := place_of (Some l))"
proof (rule ext)
  fix \<kappa> assume "xs = sb_images sb" "i < length xs"
  then show "bound (sb\<lparr>sb_images := xs[i := l]\<rparr>) \<kappa> = ((bound sb)(K_image i := place_of (Some l))) \<kappa>"
    by (cases \<kappa>) (auto simp: bound_def)
qed

lemma bound_buffer: "xs = sb_buffers sb \<Longrightarrow> i < length xs \<Longrightarrow>
    bound (sb\<lparr>sb_buffers := xs[i := l]\<rparr>) = (bound sb)(K_buffer i := place_of (Some l))"
proof (rule ext)
  fix \<kappa> assume "xs = sb_buffers sb" "i < length xs"
  then show "bound (sb\<lparr>sb_buffers := xs[i := l]\<rparr>) \<kappa> = ((bound sb)(K_buffer i := place_of (Some l))) \<kappa>"
    by (cases \<kappa>) (auto simp: bound_def)
qed

lemma bound_tensor: "xs = sb_tensors sb \<Longrightarrow> i < length xs \<Longrightarrow>
    bound (sb\<lparr>sb_tensors := xs[i := l]\<rparr>) = (bound sb)(K_tensor i := place_of (Some l))"
proof (rule ext)
  fix \<kappa> assume "xs = sb_tensors sb" "i < length xs"
  then show "bound (sb\<lparr>sb_tensors := xs[i := l]\<rparr>) \<kappa> = ((bound sb)(K_tensor i := place_of (Some l))) \<kappa>"
    by (cases \<kappa>) (auto simp: bound_def)
qed

lemmas bound_tables = bound_image bound_buffer bound_tensor

lemma bound_current:
  "i < length (sb_images sb) \<Longrightarrow> bound sb (K_image i) = place_of (Some (sb_images sb ! i))"
  "i < length (sb_buffers sb) \<Longrightarrow> bound sb (K_buffer i) = place_of (Some (sb_buffers sb ! i))"
  "i < length (sb_tensors sb) \<Longrightarrow> bound sb (K_tensor i) = place_of (Some (sb_tensors sb ! i))"
  by (simp_all add: bound_def slot_def)

lemma sessions_tables [simp]:
  "sessions_distinct (sb\<lparr>sb_images := x\<rparr>) = sessions_distinct sb"
  "sessions_distinct (sb\<lparr>sb_buffers := x\<rparr>) = sessions_distinct sb"
  "sessions_distinct (sb\<lparr>sb_tensors := x\<rparr>) = sessions_distinct sb"
  by (simp_all add: sessions_distinct_def)

lemma place_of_bound_lookup: "place_of (Some (bound_lookup p s)) = Some (p, sa_offset s, sa_size s, sa_alias_member s)"
  by (simp add: place_of_def bound_lookup_def)

lemma bind_tables_bound:
  assumes "bind_tables p s sb = Inr sb'"
  obtains \<kappa> where "sub_key s = Some \<kappa>"
    "bound sb' = (bound sb)(\<kappa> \<mapsto> (p, sa_offset s, sa_size s, sa_alias_member s \<and> sa_type s \<noteq> Type_session))"
    "sessions_distinct sb \<Longrightarrow> sessions_distinct sb'"
proof -
  have "\<exists>\<kappa>. sub_key s = Some \<kappa> \<and>
      bound sb' = (bound sb)(\<kappa> \<mapsto> (p, sa_offset s, sa_size s, sa_alias_member s \<and> sa_type s \<noteq> Type_session)) \<and>
      (sessions_distinct sb \<longrightarrow> sessions_distinct sb')"
  proof (cases "sa_type s")
    case Type_session
    define i where "i = unat (sa_index s)"
    define e where "e = \<lparr>dg_bind_point = sa_bind_point s, dg_object_index = sa_object_index s,
      dg_loc = (bound_lookup p s)\<lparr>lk_initialized := False, lk_alias_member := False\<rparr>\<rparr>"
    have i: "i < length (sb_sessions sb)" and fresh: "(sa_bind_point s, sa_object_index s) \<notin> set (session_keys (sb_sessions sb ! i))"
      and sb': "sb' = sb\<lparr>sb_sessions := (sb_sessions sb)[i := sb_sessions sb ! i @ [e]]\<rparr>"
      using assms Type_session by (auto simp: bind_tables_def Let_def i_def e_def session_keys_def not_le split: if_splits)
    have "bound sb' \<kappa> = ((bound sb)(K_session i (sa_bind_point s) (sa_object_index s) \<mapsto> (p, sa_offset s, sa_size s, False))) \<kappa>" for \<kappa>
    proof (cases \<kappa>)
      case (K_session j bp oi)
      have "bound sb' \<kappa> = bound sb \<kappa>" if "j \<noteq> i" using that by (simp add: bound_def sb' K_session)
      moreover have "bound sb' \<kappa> = (if bp = sa_bind_point s \<and> oi = sa_object_index s then Some (p, sa_offset s, sa_size s, False) else bound sb \<kappa>)"
        if "j = i"
      proof (cases "find_entry bp oi (sb_sessions sb ! i)")
        case None
        then show ?thesis using i that by (auto simp: bound_def sb' K_session find_entry_append e_def bound_lookup_def place_of_def slot_def)
      next
        case (Some k)
        then have "\<not> (bp = sa_bind_point s \<and> oi = sa_object_index s)" using fresh find_entry_None by (metis option.distinct(1))
        then show ?thesis using i that Some find_entry_Some [OF Some]
          by (auto simp: bound_def sb' K_session find_entry_append nth_append slot_def)
      qed
      ultimately show ?thesis using K_session by (cases "j = i") auto
    qed (simp_all add: bound_def sb')
    moreover have "sessions_distinct sb \<longrightarrow> sessions_distinct sb'"
      using fresh i unfolding sessions_distinct_def sb' by (auto simp: session_keys_def e_def dest!: set_update_subset_insert [THEN subsetD])
    ultimately show ?thesis using Type_session by (auto simp: sub_key_def i_def fun_eq_iff)
  next
    case Type_image
    then show ?thesis using assms
      by (cases "unat (sa_index s) < length (sb_images sb)") (auto simp: sub_key_def bind_tables_def Let_def bound_tables place_of_bound_lookup)
  next
    case Type_buffer
    then show ?thesis using assms
      by (cases "unat (sa_index s) < length (sb_buffers sb)") (auto simp: sub_key_def bind_tables_def Let_def bound_tables place_of_bound_lookup)
  next
    case Type_tensor
    then show ?thesis using assms
      by (cases "unat (sa_index s) < length (sb_tensors sb)") (auto simp: sub_key_def bind_tables_def Let_def bound_tables place_of_bound_lookup)
  qed (use assms in \<open>simp add: bind_tables_def Let_def\<close>)
  then show thesis using that by blast
qed

section \<open>The invariant\<close>

definition waiting :: "heap \<Rightarrow> u64 \<Rightarrow> bool" where
  "waiting h off \<longleftrightarrow> ucast off \<in> set (hp_deletes h)"

text \<open>A heap of an alias group holds one reservation for the whole heap, any other heap only suballocations of
  objects that are bound to it or whose delete is waiting.\<close>

definition heap_tables_ok :: "(key \<Rightarrow> (heap_ptr \<times> u64 \<times> u64 \<times> bool) option) \<Rightarrow> heap_ptr \<Rightarrow> heap \<Rightarrow> bool" where
  "heap_tables_ok b p h \<longleftrightarrow>
    (if hp_alias_group h then hp_deletes h = [] \<and> hp_free h = 0 \<and> (\<exists>r. hp_subs h = [r] \<and> sa_offset r = 0 \<and> sa_size r = hp_total h)
     else \<forall>s \<in> set (hp_subs h). \<exists>\<kappa>. sub_key s = Some \<kappa> \<and> sa_size s \<noteq> 0 \<and>
       (waiting h (sa_offset s) \<or> b \<kappa> = Some (p, sa_offset s, sa_size s, False)))"

definition key_ok :: "heap \<Rightarrow> key \<Rightarrow> u64 \<Rightarrow> u64 \<Rightarrow> bool \<Rightarrow> bool" where
  "key_ok h \<kappa> off sz al \<longleftrightarrow> sz \<noteq> 0 \<and>
    (if al then hp_alias_group h \<and> off + sz \<le> hp_total h \<and> (\<forall>i bp oi. \<kappa> \<noteq> K_session i bp oi)
     else \<not> hp_alias_group h \<and> \<not> waiting h off \<and> (\<exists>s \<in> set (hp_subs h). sub_key s = Some \<kappa> \<and> sa_offset s = off \<and> sa_size s = sz))"

definition tables_ok :: "suballocator \<Rightarrow> bool" where
  "tables_ok sb \<longleftrightarrow> heaps_ok sb \<and> sessions_distinct sb \<and>
    (\<forall>p. valid_ptr sb p \<longrightarrow> heap_tables_ok (bound sb) p (heap_at sb p)) \<and>
    (\<forall>\<kappa> p off sz al. bound sb \<kappa> = Some (p, off, sz, al) \<longrightarrow> valid_ptr sb p \<and> key_ok (heap_at sb p) \<kappa> off sz al) \<and>
    (\<forall>g \<in> set (sb_alias_groups sb). \<forall>p. ag_home g = Some p \<longrightarrow> valid_ptr sb p \<and> hp_alias_group (heap_at sb p))"

lemma ucast_small: "unat (off :: u64) < 2 ^ 32 \<Longrightarrow> (ucast (ucast off :: u32) :: u64) = off"
  by (simp add: word_unat_eq_iff unsigned_ucast_eq unsigned_take_bit_eq take_bit_nat_eq_self)

lemma ucast_wide: "(ucast (ucast (x :: u32) :: u64) :: u32) = x"
proof -
  have "unat x < 2 ^ 64" using unsigned_less [of x, where 'a = nat] by simp
  then show ?thesis by (simp add: word_unat_eq_iff unsigned_ucast_eq unsigned_take_bit_eq take_bit_nat_eq_self)
qed

lemma deleted_offset:
  fixes off :: u64 and D :: "u32 set"
  assumes "unat off < 2 ^ 32"
  shows "off \<in> ucast ` D \<longleftrightarrow> ucast off \<in> D"
proof
  assume "off \<in> ucast ` D"
  then show "ucast off \<in> D" by (auto simp: ucast_wide)
next
  assume "ucast off \<in> D"
  then show "off \<in> ucast ` D" by (rule rev_image_eqI) (simp add: ucast_small [OF assms])
qed

lemma ucast_inj: "unat (a :: u64) < 2 ^ 32 \<Longrightarrow> unat b < 2 ^ 32 \<Longrightarrow> (ucast a :: u32) = ucast b \<Longrightarrow> a = b"
  by (metis ucast_small)

section \<open>Steps of the invariant\<close>

text \<open>The invariant is about the heaps and the bound objects only.\<close>

lemma tables_okI:
  assumes "heaps_ok sb" "sessions_distinct sb" "\<And>p. valid_ptr sb p \<Longrightarrow> heap_tables_ok (bound sb) p (heap_at sb p)"
    and "\<And>\<kappa> p off sz al. bound sb \<kappa> = Some (p, off, sz, al) \<Longrightarrow> valid_ptr sb p \<and> key_ok (heap_at sb p) \<kappa> off sz al"
    and "\<And>g p. g \<in> set (sb_alias_groups sb) \<Longrightarrow> ag_home g = Some p \<Longrightarrow> valid_ptr sb p \<and> hp_alias_group (heap_at sb p)"
  shows "tables_ok sb"
  using assms unfolding tables_ok_def by blast

lemma tables_okD:
  assumes "tables_ok sb"
  shows "heaps_ok sb" "sessions_distinct sb" "valid_ptr sb p \<Longrightarrow> heap_tables_ok (bound sb) p (heap_at sb p)"
    "bound sb \<kappa> = Some (p, off, sz, al) \<Longrightarrow> valid_ptr sb p \<and> key_ok (heap_at sb p) \<kappa> off sz al"
    "g \<in> set (sb_alias_groups sb) \<Longrightarrow> ag_home g = Some p \<Longrightarrow> valid_ptr sb p \<and> hp_alias_group (heap_at sb p)"
  using assms unfolding tables_ok_def by blast+

lemma heaps_okD: "heaps_ok sb \<Longrightarrow> valid_ptr sb p \<Longrightarrow> heap_ok (heap_at sb p)"
  unfolding heaps_ok_def by blast

lemma heap_offset_small: "heap_ok h \<Longrightarrow> s \<in> set (hp_subs h) \<Longrightarrow> unat (sa_offset s) < 2 ^ 32"
  using subs_ok_bounds [of 0 "unat (hp_total h)" "hp_subs h" s] by (simp add: heap_ok_def)

lemma subs_same_offset:
  "subs_ok lo hi ss \<Longrightarrow> s \<in> set ss \<Longrightarrow> t \<in> set ss \<Longrightarrow> sa_size s \<noteq> 0 \<Longrightarrow> sa_size t \<noteq> 0 \<Longrightarrow> sa_offset s = sa_offset t \<Longrightarrow> s = t"
proof (induction lo hi ss rule: subs_ok.induct)
  case (2 lo hi u ss)
  have later: "unat (sa_offset u) + unat (sa_size u) \<le> unat (sa_offset v)" if "v \<in> set ss" for v
    using subs_ok_bounds that 2(2) by auto
  have "s = u \<longleftrightarrow> t = u"
  proof
    show "t = u" if "s = u"
    proof (rule ccontr)
      assume "t \<noteq> u"
      then show False using later [of t] 2(4,5,7) that by (simp add: word_unat_eq_iff)
    qed
    show "s = u" if "t = u"
    proof (rule ccontr)
      assume "s \<noteq> u"
      then show False using later [of s] 2(3,6,7) that by (simp add: word_unat_eq_iff)
    qed
  qed
  then show ?case using 2 by auto
qed simp

lemma finalize_deletes_subs:
  "hp_subs (finalize_deletes h) = filter (\<lambda>s. sa_offset s \<notin> ucast ` set (hp_deletes h)) (hp_subs h)"
  "hp_deletes (finalize_deletes h) = []" "hp_alias_group (finalize_deletes h) = hp_alias_group h"
proof -
  obtain ss free where "erase_deleted (hp_deletes h) (hp_subs h) (hp_free h) = (ss, free)" by force
  moreover from this have "ss = filter (\<lambda>s. sa_offset s \<notin> ucast ` set (hp_deletes h)) (hp_subs h)"
    using erase_deleted_filter [of "hp_deletes h" "hp_subs h" "hp_free h"] by simp
  ultimately show "hp_subs (finalize_deletes h) = filter (\<lambda>s. sa_offset s \<notin> ucast ` set (hp_deletes h)) (hp_subs h)"
    "hp_deletes (finalize_deletes h) = []" "hp_alias_group (finalize_deletes h) = hp_alias_group h"
    by (simp_all add: finalize_deletes_def take_pending_deletes_def Let_def)
qed

lemma finalize_deletes_none: "hp_deletes h = [] \<Longrightarrow> finalize_deletes h = h"
  by (simp add: finalize_deletes_def take_pending_deletes_def)

lemma sb_alias_groups_set_heap [simp]: "sb_alias_groups (set_heap p h sb) = sb_alias_groups sb"
  by (simp add: set_heap_def)

text \<open>A step that changes one heap, and the bindings to that heap only.\<close>

lemma tables_ok_set_heap:
  assumes "tables_ok sb" "valid_ptr sb p" "heap_ok h" "hp_alias_group h = hp_alias_group (heap_at sb p)"
    and "sb_heaps sb' = sb_heaps (set_heap p h sb)" "sb_alias_groups sb' = sb_alias_groups sb" "sessions_distinct sb'"
    and "heap_tables_ok (bound sb') p h"
    and other_heap: "\<And>q. q \<noteq> p \<Longrightarrow> valid_ptr sb q \<Longrightarrow> heap_tables_ok (bound sb') q (heap_at sb q)"
    and this_key: "\<And>\<kappa> off sz al. bound sb' \<kappa> = Some (p, off, sz, al) \<Longrightarrow> key_ok h \<kappa> off sz al"
    and other_key: "\<And>\<kappa> q off sz al. q \<noteq> p \<Longrightarrow> bound sb' \<kappa> = Some (q, off, sz, al) \<Longrightarrow> bound sb \<kappa> = Some (q, off, sz, al)"
  shows "tables_ok sb'"
proof (rule tables_okI)
  note iv = tables_okD [OF assms(1)]
  have valid: "valid_ptr sb' q = valid_ptr sb q" for q using heaps_cong(1) [OF assms(5)] by simp
  have at: "heap_at sb' q = (if q = p then h else heap_at sb q)" for q
    using heaps_cong(2) [OF assms(5)] heap_at_set_heap [OF assms(2)] by simp
  show "heaps_ok sb'" using heaps_cong(3) [OF assms(5)] heaps_ok_set_heap [OF iv(1) assms(2,3)] by simp
  show "sessions_distinct sb'" by (rule assms(7))
  show "heap_tables_ok (bound sb') q (heap_at sb' q)" if "valid_ptr sb' q" for q
    unfolding at using that valid assms(8) other_heap by (cases "q = p") simp_all
  show "valid_ptr sb' q \<and> key_ok (heap_at sb' q) \<kappa> off sz al" if "bound sb' \<kappa> = Some (q, off, sz, al)" for \<kappa> q off sz al
  proof (cases "q = p")
    case True
    then show ?thesis using this_key that assms(2) by (simp add: valid at)
  next
    case False
    then show ?thesis using iv(4) [OF other_key [OF False that]] by (simp add: valid at)
  qed
  show "valid_ptr sb' q \<and> hp_alias_group (heap_at sb' q)" if "g \<in> set (sb_alias_groups sb')" "ag_home g = Some q" for g q
    using iv(5) [of g q] that assms(4,6) by (auto simp: valid at)
qed

text \<open>Carrying out the pending deletes of one heap.\<close>



lemma finalize_tables:
  assumes "tables_ok sb" "valid_ptr sb p"
  shows "tables_ok (set_heap p (finalize_deletes (heap_at sb p)) sb)"
proof -
  define h where "h = heap_at sb p"
  note iv = tables_okD [OF assms(1)]
  have h_ok: "heap_ok h" unfolding h_def by (rule heaps_okD [OF iv(1) assms(2)])
  have kept: "s \<in> set (hp_subs (finalize_deletes h)) \<longleftrightarrow> s \<in> set (hp_subs h) \<and> \<not> waiting h (sa_offset s)" for s
    using deleted_offset [of "sa_offset s" "set (hp_deletes h)"] heap_offset_small [OF h_ok, of s]
    by (auto simp: finalize_deletes_subs waiting_def)
  have tab: "heap_tables_ok (bound sb) p h" using iv(3) assms(2) by (simp add: h_def)
  have heap: "heap_tables_ok (bound sb) p (finalize_deletes h)"
  proof (cases "hp_alias_group h")
    case True
    then show ?thesis using tab finalize_deletes_none [of h] by (simp add: heap_tables_ok_def)
  next
    case False
    then show ?thesis using tab by (auto simp: heap_tables_ok_def finalize_deletes_subs(3) kept)
  qed
  have key: "key_ok (finalize_deletes h) \<kappa> off sz al" if "key_ok h \<kappa> off sz al" for \<kappa> off sz al
  proof (cases al)
    case True
    then have "finalize_deletes h = h" using that tab by (intro finalize_deletes_none) (simp add: key_ok_def heap_tables_ok_def)
    then show ?thesis using that by simp
  next
    case False
    then show ?thesis using that kept finalize_deletes_subs(2,3) by (fastforce simp: key_ok_def waiting_def)
  qed
  show ?thesis unfolding h_def [symmetric]
  proof (rule tables_ok_set_heap [OF assms])
    show "heap_ok (finalize_deletes h)" using h_ok by (rule finalize_deletes_ok)
    show "hp_alias_group (finalize_deletes h) = hp_alias_group (heap_at sb p)" by (simp add: finalize_deletes_subs(3) h_def)
    show "heap_tables_ok (bound (set_heap p (finalize_deletes h) sb)) p (finalize_deletes h)" using heap by simp
    show "heap_tables_ok (bound (set_heap p (finalize_deletes h) sb)) q (heap_at sb q)" if "valid_ptr sb q" for q
      using iv(3) [OF that] by simp
    show "key_ok (finalize_deletes h) \<kappa> off sz al"
      if "bound (set_heap p (finalize_deletes h) sb) \<kappa> = Some (p, off, sz, al)" for \<kappa> off sz al
      using key iv(4) that by (simp add: h_def)
  qed (use iv(2) in simp_all)
qed

text \<open>Placing an object that is not bound: its suballocation joins the heap at \<open>p\<close>, whose deletes are done.\<close>

lemma insert_tables:
  assumes "tables_ok sb" "valid_ptr sb p" "heap_ok h'" "\<not> hp_alias_group h" "hp_deletes h = []"
    and "h = heap_at sb p" "hp_alias_group h' = hp_alias_group h" "hp_deletes h' = []"
    and subs: "set (hp_subs h') = insert s (set (hp_subs h))"
    and bind: "bind_tables p s sb = Inr sb1" and fresh: "\<And>\<kappa>. sub_key s = Some \<kappa> \<Longrightarrow> bound sb \<kappa> = None"
    and "sa_size s \<noteq> 0" "\<not> sa_alias_member s"
  shows "tables_ok (set_heap p h' sb1)"
  using bind
proof (cases rule: bind_tables_bound)
  case (1 \<kappa>)
  note iv = tables_okD [OF assms(1)]
  have tabs: "bound sb1 = (bound sb)(\<kappa> \<mapsto> (p, sa_offset s, sa_size s, False))" using 1(2) assms(13) by simp
  have free: "bound sb \<kappa> = None" by (rule fresh [OF 1(1)])
  have keep: "heap_tables_ok (bound sb1) q g" if "heap_tables_ok (bound sb) q g" for q g
    using that free unfolding heap_tables_ok_def tabs by (auto split: if_splits) (metis option.distinct(1))+
  have key_old: "key_ok h' \<kappa>' off sz al" if "key_ok h \<kappa>' off sz al" for \<kappa>' off sz al
    using that assms(4,5,7,8) subs by (auto simp: key_ok_def waiting_def)
  show ?thesis
  proof (rule tables_ok_set_heap [OF assms(1,2,3)])
    show "hp_alias_group h' = hp_alias_group (heap_at sb p)" using assms(6,7) by simp
    show "sb_heaps (set_heap p h' sb1) = sb_heaps (set_heap p h' sb)"
      using bind_tables_heaps(1) [OF bind] by (simp add: set_heap_def)
    show "sb_alias_groups (set_heap p h' sb1) = sb_alias_groups sb" using bind_tables_heaps(6) [OF bind] by simp
    show "sessions_distinct (set_heap p h' sb1)" using 1(3) iv(2) by simp
    have "heap_tables_ok (bound sb1) p h" using keep iv(3) [OF assms(2)] assms(6) by simp
    then show "heap_tables_ok (bound (set_heap p h' sb1)) p h'"
      using assms(4,5,7,8,12) subs 1(1) by (auto simp: heap_tables_ok_def tabs waiting_def)
    show "heap_tables_ok (bound (set_heap p h' sb1)) q (heap_at sb q)" if "valid_ptr sb q" for q
      using keep iv(3) [OF that] by simp
    show "key_ok h' \<kappa>' off sz al" if "bound (set_heap p h' sb1) \<kappa>' = Some (p, off, sz, al)" for \<kappa>' off sz al
    proof (cases "\<kappa>' = \<kappa>")
      case True
      then show ?thesis using that assms(4,7,8,12) subs 1(1) by (auto simp: tabs key_ok_def waiting_def)
    next
      case False
      then have "bound sb \<kappa>' = Some (p, off, sz, al)" using that by (simp add: tabs)
      from iv(4) [OF this] show ?thesis using key_old assms(6) by simp
    qed
    show "bound sb \<kappa>' = Some (q, off, sz, al)" if "q \<noteq> p" "bound (set_heap p h' sb1) \<kappa>' = Some (q, off, sz, al)" for \<kappa>' q off sz al
      using that by (auto simp: tabs split: if_splits)
  qed
qed

text \<open>Freeing a bound object: it is unbound, and its offset waits in the heap.\<close>

lemma free_tables:
  assumes "tables_ok sb" "bound sb \<kappa> = Some (p, off, sz, False)"
    and "sb_heaps sb' = sb_heaps (set_heap p (queue_delete (ucast off) (heap_at sb p)) sb)"
    and "sb_alias_groups sb' = sb_alias_groups sb" "sessions_distinct sb'" "bound sb' = (bound sb)(\<kappa> := None)"
  shows "tables_ok sb'"
proof -
  note iv = tables_okD [OF assms(1)]
  define h where "h = heap_at sb p"
  define h' where "h' = queue_delete (ucast off) h"
  have valid: "valid_ptr sb p" and key: "key_ok h \<kappa> off sz False" using iv(4) [OF assms(2)] by (simp_all add: h_def)
  then obtain s where s: "s \<in> set (hp_subs h)" "sub_key s = Some \<kappa>" "sa_offset s = off" "sa_size s = sz"
    and own: "\<not> hp_alias_group h" by (auto simp: key_ok_def)
  have h_ok: "heap_ok h" unfolding h_def by (rule heaps_okD [OF iv(1) valid])
  have tab: "heap_tables_ok (bound sb) p h" using iv(3) [OF valid] by (simp add: h_def)
  have wait: "waiting h' x \<longleftrightarrow> waiting h x \<or> ucast x = (ucast off :: u32)" for x by (auto simp: waiting_def h'_def queue_delete_def)
  have unbound: "heap_tables_ok (bound sb') q g" if "q \<noteq> p" "heap_tables_ok (bound sb) q g" for q g
  proof -
    have "bound sb' \<kappa>' = Some (q, off', sz', False)" if "bound sb \<kappa>' = Some (q, off', sz', False)" for \<kappa>' off' sz'
      using that \<open>q \<noteq> p\<close> assms(2,6) by auto
    then show ?thesis using that(2) unfolding heap_tables_ok_def by (auto split: if_splits)
  qed
  have same: "hp_subs h' = hp_subs h" "hp_alias_group h' = hp_alias_group h" "heap_ok h' = heap_ok h"
    by (simp_all add: h'_def queue_delete_def heap_ok_def)
  show ?thesis
  proof (rule tables_ok_set_heap [OF assms(1) valid])
    show "heap_ok h'" using h_ok same by simp
    show "hp_alias_group h' = hp_alias_group (heap_at sb p)" using same by (simp add: h_def)
    show "sb_heaps sb' = sb_heaps (set_heap p h' sb)" using assms(3) by (simp add: h'_def h_def)
    show "heap_tables_ok (bound sb') p h'"
      unfolding heap_tables_ok_def same using own
    proof (simp, intro ballI)
      fix t assume t: "t \<in> set (hp_subs h)"
      then obtain \<kappa>' where k: "sub_key t = Some \<kappa>'" "sa_size t \<noteq> 0"
        "waiting h (sa_offset t) \<or> bound sb \<kappa>' = Some (p, sa_offset t, sa_size t, False)"
        using tab own by (auto simp: heap_tables_ok_def)
      have "waiting h' (sa_offset t) \<or> bound sb' \<kappa>' = Some (p, sa_offset t, sa_size t, False)"
        using k(3) assms(2,6) by (cases "\<kappa>' = \<kappa>") (auto simp: wait)
      with k(1,2) show "\<exists>\<kappa>. sub_key t = Some \<kappa> \<and> sa_size t \<noteq> 0 \<and>
          (waiting h' (sa_offset t) \<or> bound sb' \<kappa> = Some (p, sa_offset t, sa_size t, False))" by auto
    qed
    show "heap_tables_ok (bound sb') q (heap_at sb q)" if "q \<noteq> p" "valid_ptr sb q" for q
      using unbound that(1) iv(3) [OF that(2)] by blast
    show "key_ok h' \<kappa>' off' sz' al" if "bound sb' \<kappa>' = Some (p, off', sz', al)" for \<kappa>' off' sz' al
    proof -
      have neq: "\<kappa>' \<noteq> \<kappa>" and b: "bound sb \<kappa>' = Some (p, off', sz', al)" using that assms(6) by (auto split: if_splits)
      have k: "key_ok h \<kappa>' off' sz' al" using iv(4) [OF b] by (simp add: h_def)
      then have al: "\<not> al" using own by (cases al) (simp_all add: key_ok_def)
      with k obtain t where t: "t \<in> set (hp_subs h)" "sub_key t = Some \<kappa>'" "sa_offset t = off'" "sa_size t = sz'" "sz' \<noteq> 0"
        by (auto simp: key_ok_def)
      have "sa_size s \<noteq> 0" using key s(4) by (simp add: key_ok_def)
      moreover have "subs_ok 0 (unat (hp_total h)) (hp_subs h)" using h_ok by (simp add: heap_ok_def)
      ultimately have "s = t" if "off' = off" using subs_same_offset s(1,3) t(1,3-5) that by metis
      then have "off' \<noteq> off" using s(2) t(2) neq by auto
      then have "(ucast off' :: u32) \<noteq> ucast off"
        using ucast_inj [of off' off] heap_offset_small [OF h_ok s(1)] heap_offset_small [OF h_ok t(1)] s(3) t(3) by auto
      with al k show ?thesis by (simp add: key_ok_def wait same)
    qed
    show "bound sb \<kappa>' = Some (q, off', sz', al)" if "q \<noteq> p" "bound sb' \<kappa>' = Some (q, off', sz', al)" for \<kappa>' q off' sz' al
      using that assms(6) by (auto split: if_splits)
  qed (use assms(4,5) in simp_all)
qed

text \<open>Changes that touch neither heaps nor bindings.\<close>

lemma tables_ok_cong:
  assumes "tables_ok sb" "sb_heaps sb' = sb_heaps sb" "bound sb' = bound sb" "sessions_distinct sb'"
    "sb_alias_groups sb' = sb_alias_groups sb"
  shows "tables_ok sb'"
  using assms heaps_cong [OF assms(2)] unfolding tables_ok_def by simp

text \<open>Unbinding an alias member leaves the heaps alone.\<close>

lemma unbind_tables:
  assumes "tables_ok sb" "\<forall>p off sz. bound sb \<kappa> \<noteq> Some (p, off, sz, False)"
    and "sb_heaps sb' = sb_heaps sb" "sb_alias_groups sb' = sb_alias_groups sb" "sessions_distinct sb'" "bound sb' = (bound sb)(\<kappa> := None)"
  shows "tables_ok sb'"
proof -
  note iv = tables_okD [OF assms(1)] and same = heaps_cong [OF assms(3)]
  have "heap_tables_ok (bound sb') p h" if "heap_tables_ok (bound sb) p h" for p h
  proof -
    have "bound sb' \<kappa>' = Some (p, off, sz, False)" if "bound sb \<kappa>' = Some (p, off, sz, False)" for \<kappa>' off sz
      using that assms(2) by (cases "\<kappa>' = \<kappa>") (simp_all add: assms(6))
    then show ?thesis using that unfolding heap_tables_ok_def by (auto split: if_splits)
  qed
  then show ?thesis using iv assms(4-6) same(3) unfolding tables_ok_def same by (auto split: if_splits)
qed

text \<open>A new heap at the end of a thread's list.\<close>

lemma valid_ptr_push:
  assumes "tid < length (sb_heaps sb)"
  shows "valid_ptr (push_heap tid h sb) q \<longleftrightarrow> valid_ptr sb q \<or> q = (tid, length (sb_heaps sb ! tid))"
    "heap_at (push_heap tid h sb) (tid, length (sb_heaps sb ! tid)) = h"
    "valid_ptr sb q \<Longrightarrow> heap_at (push_heap tid h sb) q = heap_at sb q"
  using assms by (cases q; auto simp: valid_ptr_def heap_at_def push_heap_def nth_list_update nth_append)+

lemma push_tables:
  assumes "tables_ok sb" "tid < length (sb_heaps sb)" "heap_ok h" "p = (tid, length (sb_heaps sb ! tid))"
    and "sb_heaps sb' = sb_heaps (push_heap tid h sb)" "sessions_distinct sb'"
    and groups: "\<And>g q. g \<in> set (sb_alias_groups sb') \<Longrightarrow> ag_home g = Some q \<Longrightarrow>
      (q = p \<and> hp_alias_group h) \<or> (valid_ptr sb q \<and> hp_alias_group (heap_at sb q))"
    and "heap_tables_ok (bound sb') p h"
    and other_heap: "\<And>q. valid_ptr sb q \<Longrightarrow> heap_tables_ok (bound sb') q (heap_at sb q)"
    and keys: "\<And>\<kappa> q off sz al. bound sb' \<kappa> = Some (q, off, sz, al) \<Longrightarrow>
      (q = p \<and> key_ok h \<kappa> off sz al) \<or> bound sb \<kappa> = Some (q, off, sz, al)"
  shows "tables_ok sb'"
proof (rule tables_okI)
  note iv = tables_okD [OF assms(1)]
  have valid: "valid_ptr sb' q \<longleftrightarrow> valid_ptr sb q \<or> q = p" for q
    using heaps_cong(1) [OF assms(5)] valid_ptr_push(1) [OF assms(2)] assms(4) by simp
  have new: "heap_at sb' p = h" using heaps_cong(2) [OF assms(5)] valid_ptr_push(2) [OF assms(2)] assms(4) by simp
  have old: "heap_at sb' q = heap_at sb q" if "valid_ptr sb q" for q
    using heaps_cong(2) [OF assms(5)] valid_ptr_push(3) [OF assms(2) that] by simp
  show "heaps_ok sb'" unfolding heaps_ok_def using iv(1) assms(3) valid new old by (metis heaps_okD)
  show "sessions_distinct sb'" by (rule assms(6))
  show "heap_tables_ok (bound sb') q (heap_at sb' q)" if "valid_ptr sb' q" for q
    using that valid new old assms(8) other_heap by metis
  show "valid_ptr sb' q \<and> key_ok (heap_at sb' q) \<kappa> off sz al" if "bound sb' \<kappa> = Some (q, off, sz, al)" for \<kappa> q off sz al
    using keys [OF that] iv(4) [of \<kappa> q off sz al] valid new old by metis
  show "valid_ptr sb' q \<and> hp_alias_group (heap_at sb' q)" if "g \<in> set (sb_alias_groups sb')" "ag_home g = Some q" for g q
    using groups [OF that] valid new old by metis
qed

section \<open>Adding objects\<close>

definition addable :: "suballocation \<Rightarrow> suballocator \<Rightarrow> bool" where
  "addable s sb \<longleftrightarrow> sa_size s \<noteq> 0 \<and> sa_offset s = 0 \<and> \<not> sa_alias_member s \<and> (\<forall>\<kappa>. sub_key s = Some \<kappa> \<longrightarrow> bound sb \<kappa> = None)"

lemma sub_key_offset [simp]: "sub_key (s\<lparr>sa_offset := off\<rparr>) = sub_key s"
  by (simp add: sub_key_def split: object_type.splits)

lemma allocate_tables:
  assumes "allocate vk tid t s flags tiling dedicated allocflags False sb = Inr (loc, sb')" "tables_ok sb" "addable s sb"
  shows "tables_ok sb'"
  using assms(1)
proof (cases rule: allocate_eq_Inr)
  case (1 bytes mem mapped h)
  define p where "p = (tid, length (sb_heaps sb ! tid))"
  note iv = tables_okD [OF assms(2)]
  have off: "s\<lparr>sa_offset := 0\<rparr> = s" "sa_offset s = 0" using assms(3) by (simp_all add: addable_def)
  have bind: "bind_tables p s (push_heap tid h sb) = Inr sb'" using 1(5) by (simp add: bind_eq_Inr off p_def)
  have h: "hp_subs h = [s]" "\<not> hp_alias_group h" "hp_deletes h = []" by (simp_all add: 1(4) heap_new_def)
  have ok: "heap_ok h" unfolding 1(4) 1(1)
    using 1(1,2) off(2) by (simp add: heap_ok_def heap_new_def unat_sub allocation_size_def word_le_nat_alt word_less_nat_alt max_def)
  from bind show ?thesis
  proof (cases rule: bind_tables_bound)
    case b: (1 \<kappa>)
    have tabs: "bound sb' = (bound sb)(\<kappa> \<mapsto> (p, 0, sa_size s, False))" using b(2) assms(3) by (simp add: addable_def)
    have free: "bound sb \<kappa> = None" using assms(3) b(1) by (simp add: addable_def)
    show ?thesis
    proof (rule push_tables [OF assms(2) 1(3) ok p_def])
      show "sb_heaps sb' = sb_heaps (push_heap tid h sb)" by (rule bind_tables_heaps(1) [OF bind])
      show "sessions_distinct sb'" using b(3) iv(2) by simp
      show "heap_tables_ok (bound sb') p h" using assms(3) b(1) h off(2) by (simp add: heap_tables_ok_def tabs addable_def)
      show "heap_tables_ok (bound sb') q (heap_at sb q)" if "valid_ptr sb q" for q
        using iv(3) [OF that] free unfolding heap_tables_ok_def tabs by (auto split: if_splits) (metis option.distinct(1))+
      show "(q = p \<and> hp_alias_group h) \<or> (valid_ptr sb q \<and> hp_alias_group (heap_at sb q))"
        if "g \<in> set (sb_alias_groups sb')" "ag_home g = Some q" for g q
        using iv(5) [of g q] that bind_tables_heaps(6) [OF bind] by (simp add: push_heap_def)
      show "(q = p \<and> key_ok h \<kappa>' off sz al) \<or> bound sb \<kappa>' = Some (q, off, sz, al)"
        if "bound sb' \<kappa>' = Some (q, off, sz, al)" for \<kappa>' q off sz al
        using that b(1) h off(2) assms(3) by (auto simp: tabs key_ok_def waiting_def addable_def split: if_splits)
    qed
  qed
qed

lemma placed_subs: "placed tot s ss off ss' \<Longrightarrow> set ss' = insert (s\<lparr>sa_offset := off\<rparr>) (set ss)"
  by (auto simp: placed_def)

lemma try_heaps_tables:
  assumes "try_heaps tid t s flags tiling allocflags n k sb = Inr (found, sb')" "tables_ok sb" "addable s sb"
    and "tid < length (sb_heaps sb)" "k + n \<le> length (sb_heaps sb ! tid)"
  shows "tables_ok sb' \<and> (found = None \<longrightarrow> bound sb' = bound sb)"
  using assms
proof (induction n arbitrary: k sb)
  case (Suc n)
  define h where "h = finalize_deletes (heap_at sb (tid, k))"
  define sb1 where "sb1 = set_heap (tid, k) h sb"
  have ptr: "valid_ptr sb (tid, k)" using Suc.prems(4,5) by (simp add: valid_ptr_def)
  have sb1: "tables_ok sb1" unfolding sb1_def h_def by (rule finalize_tables [OF Suc.prems(2) ptr])
  have ptr1: "valid_ptr sb1 (tid, k)" and at1: "heap_at sb1 (tid, k) = h" and bnd: "bound sb1 = bound sb"
    using ptr by (simp_all add: sb1_def heap_at_set_heap)
  have add1: "addable s sb1" using Suc.prems(3) by (simp add: addable_def bnd)
  show ?case
  proof (cases "if heap_suits sb tid t s flags tiling allocflags h then place s h else None")
    case None
    then have "try_heaps tid t s flags tiling allocflags n (k + 1) sb1 = Inr (found, sb')"
      using Suc.prems(1) by (simp add: Let_def flip: h_def sb1_def)
    from Suc.IH [OF this sb1 add1] show ?thesis using Suc.prems(4,5) bnd by (simp add: sb1_def)
  next
    case (Some r)
    obtain off ss where r: "r = (off, ss)" by force
    have suits: "heap_suits sb tid t s flags tiling allocflags h" and at: "place s h = Some (off, ss)"
      using Some r by (auto split: if_splits)
    obtain sb2 where bind: "bind (tid, k) h (s\<lparr>sa_offset := off\<rparr>) sb1 = Inr sb2"
      and sb': "sb' = set_heap (tid, k) (h\<lparr>hp_subs := ss, hp_free := hp_free h - sa_size s\<rparr>) sb2"
      and found: "found \<noteq> None"
      using Suc.prems(1) suits at by (auto simp: Let_def simp flip: h_def sb1_def)
    have h_ok: "heap_ok h" using heaps_okD [OF tables_okD(1) [OF sb1] ptr1] at1 by simp
    have fits: "sa_size s \<le> hp_free h" and own: "\<not> hp_alias_group h" using suits by (simp_all add: heap_suits_def)
    have "tables_ok sb'" unfolding sb'
    proof (rule insert_tables [OF sb1 ptr1 place_ok(1) [OF h_ok fits at] own _ at1 [symmetric]])
      show "bind_tables (tid, k) (s\<lparr>sa_offset := off\<rparr>) sb1 = Inr sb2" using bind by (simp add: bind_eq_Inr)
    qed (use add1 placed_subs [OF place_placed [OF at]] in \<open>simp_all add: h_def finalize_deletes_subs(2) addable_def\<close>)
    with found show ?thesis by blast
  qed
qed simp

lemma suballocate_tables:
  assumes "suballocate vk tid t s flags tiling allocflags sb = Inr (loc, sb')" "tables_ok sb" "addable s sb"
  shows "tables_ok sb'"
proof -
  define sb0 where "sb0 = sb\<lparr>sb_used_count := sb_used_count sb + 1, sb_used_bytes := sb_used_bytes sb + sa_size s\<rparr>"
  obtain found sb1 where tid: "tid < length (sb_heaps sb0)"
    and tried_all: "try_heaps tid t s flags tiling allocflags (length (sb_heaps sb0 ! tid)) 0 sb0 = Inr (found, sb1)"
    and fin: "(case found of Some l \<Rightarrow> Inr (l, sb1)
      | None \<Rightarrow> allocate vk tid t s flags tiling False allocflags False sb1) = Inr (loc, sb')"
    using assms(1) by (auto simp: suballocate_def Let_def thread_heaps_def simp flip: sb0_def split: if_splits)
  have "tables_ok sb0" by (rule tables_ok_cong [OF assms(2)]) (use tables_okD(2) [OF assms(2)] in \<open>simp_all add: sb0_def\<close>)
  moreover have add0: "addable s sb0" using assms(3) by (simp add: addable_def sb0_def)
  ultimately have tried: "tables_ok sb1 \<and> (found = None \<longrightarrow> bound sb1 = bound sb0)"
    using try_heaps_tables [OF tried_all] tid by simp
  show ?thesis
  proof (cases found)
    case None
    then have "addable s sb1" using tried add0 by (simp add: addable_def)
    with None show ?thesis using allocate_tables fin tried by auto
  qed (use fin tried in simp)
qed

lemma place_object_tables:
  "place_object vk tid t s flags tiling dedicated allocflags sb = Inr (loc, sb') \<Longrightarrow> tables_ok sb \<Longrightarrow> addable s sb \<Longrightarrow> tables_ok sb'"
  by (auto simp: place_object_def dest: allocate_tables suballocate_tables split: if_splits)

section \<open>Alias groups\<close>

text \<open>Only \<open>create\<close> writes the alias tables; the other operations keep them and the number of groups.\<close>

definition alias_frame :: "suballocator \<Rightarrow> alias_lookup list \<times> alias_lookup list \<times> alias_lookup list \<times> nat" where
  "alias_frame sb = (sb_image_alias sb, sb_buffer_alias sb, sb_tensor_alias sb, length (sb_alias_groups sb))"

definition alias_ok :: "suballocator \<Rightarrow> bool" where
  "alias_ok sb \<longleftrightarrow> (\<forall>a \<in> set (sb_image_alias sb) \<union> set (sb_buffer_alias sb) \<union> set (sb_tensor_alias sb).
    \<forall>gi. al_group a = Some gi \<longrightarrow> gi < length (sb_alias_groups sb))"

lemma alias_ok_frame: "alias_frame sb' = alias_frame sb \<Longrightarrow> alias_ok sb' = alias_ok sb"
  by (simp add: alias_frame_def alias_ok_def)

lemma alias_frame_simps [simp]:
  "alias_frame (set_heap p h sb) = alias_frame sb"
  "alias_frame (push_heap tid h sb) = alias_frame sb"
  "alias_frame (sb\<lparr>sb_used_count := a, sb_used_bytes := b\<rparr>) = alias_frame sb"
  "alias_frame (sb\<lparr>sb_images := x\<rparr>) = alias_frame sb"
  "alias_frame (sb\<lparr>sb_buffers := x\<rparr>) = alias_frame sb"
  "alias_frame (sb\<lparr>sb_tensors := x\<rparr>) = alias_frame sb"
  "alias_frame (sb\<lparr>sb_sessions := y\<rparr>) = alias_frame sb"
  "alias_frame (sb\<lparr>sb_alias_groups := (sb_alias_groups sb)[i := g]\<rparr>) = alias_frame sb"
  by (simp_all add: alias_frame_def set_heap_def push_heap_def)

lemma push_heap_groups [simp]: "sb_alias_groups (push_heap tid h sb) = sb_alias_groups sb"
  by (simp add: push_heap_def)

lemma bind_frame: "bind p h s sb = Inr sb' \<Longrightarrow> alias_frame sb' = alias_frame sb"
  by (auto simp: bind_eq_Inr bind_tables_def Let_def alias_frame_def split: object_type.splits if_splits)

lemma allocate_frame:
  assumes "allocate vk tid t s flags tiling dedicated allocflags alias sb = Inr (loc, sb')"
  shows "alias_frame sb' = alias_frame sb" "alias \<Longrightarrow> sb_alias_groups sb' = sb_alias_groups sb"
  using assms
proof (atomize (full), cases rule: allocate_eq_Inr)
  case (1 bytes mem mapped h)
  show "alias_frame sb' = alias_frame sb \<and> (alias \<longrightarrow> sb_alias_groups sb' = sb_alias_groups sb)"
    using 1(5) bind_frame [of _ h _ "push_heap tid h sb" sb'] by (cases "alias") simp_all
qed

lemma try_heaps_frame:
  "try_heaps tid t s flags tiling allocflags n k sb = Inr (found, sb') \<Longrightarrow> alias_frame sb' = alias_frame sb"
proof (induction n arbitrary: k sb)
  case (Suc n)
  define h where "h = finalize_deletes (heap_at sb (tid, k))"
  define sb1 where "sb1 = set_heap (tid, k) h sb"
  have frame: "alias_frame sb1 = alias_frame sb" by (simp add: sb1_def)
  show ?case
  proof (cases "if heap_suits sb tid t s flags tiling allocflags h then place s h else None")
    case None
    then have "try_heaps tid t s flags tiling allocflags n (k + 1) sb1 = Inr (found, sb')"
      using Suc.prems by (simp add: Let_def flip: h_def sb1_def)
    from Suc.IH [OF this] frame show ?thesis by simp
  next
    case (Some r)
    then obtain off ss sb2 where "bind (tid, k) h (s\<lparr>sa_offset := off\<rparr>) sb1 = Inr sb2"
      "sb' = set_heap (tid, k) (h\<lparr>hp_subs := ss, hp_free := hp_free h - sa_size s\<rparr>) sb2"
      using Suc.prems by (cases r) (auto simp: Let_def simp flip: h_def sb1_def)
    then show ?thesis using bind_frame frame by simp
  qed
qed simp

lemma place_object_frame:
  assumes "place_object vk tid t s flags tiling dedicated allocflags sb = Inr (loc, sb')"
  shows "alias_frame sb' = alias_frame sb"
proof (cases dedicated)
  case True
  then show ?thesis using assms allocate_frame(1) by (auto simp: place_object_def)
next
  case False
  then obtain sb0 found sb1 where "alias_frame sb0 = alias_frame sb" "\<exists>n. try_heaps tid t s flags tiling allocflags n 0 sb0 = Inr (found, sb1)"
    "(case found of Some l \<Rightarrow> Inr (l, sb1) | None \<Rightarrow> allocate vk tid t s flags tiling False allocflags False sb1) = Inr (loc, sb')"
    using assms by (auto simp: place_object_def suballocate_def Let_def) (metis alias_frame_simps(3))
  then show ?thesis using try_heaps_frame allocate_frame(1) by (cases found) fastforce+
qed

text \<open>Binding a member of an alias group to the group's heap.\<close>

lemma member_tables:
  assumes "tables_ok sb" "valid_ptr sb p" "hp_alias_group (heap_at sb p)" "bind p (heap_at sb p) s sb = Inr sb'"
    and "sa_size s \<noteq> 0" "sa_alias_member s" "sa_type s \<noteq> Type_session"
    and fresh: "\<And>\<kappa>. sub_key s = Some \<kappa> \<Longrightarrow> bound sb \<kappa> = None"
  shows "tables_ok sb'"
proof -
  note iv = tables_okD [OF assms(1)]
  have bind: "bind_tables p s sb = Inr sb'" and fits: "sa_offset s + sa_size s \<le> hp_total (heap_at sb p)"
    using assms(4) by (simp_all add: bind_eq_Inr)
  from bind show ?thesis
  proof (cases rule: bind_tables_bound)
    case b: (1 \<kappa>)
    have tabs: "bound sb' = (bound sb)(\<kappa> \<mapsto> (p, sa_offset s, sa_size s, True))" using b(2) assms(6,7) by simp
    have free: "bound sb \<kappa> = None" by (rule fresh [OF b(1)])
    note same = heaps_cong [OF bind_tables_heaps(1) [OF bind]]
    show ?thesis
    proof (rule tables_okI)
      show "heaps_ok sb'" using iv(1) same by simp
      show "sessions_distinct sb'" using b(3) iv(2) by simp
      show "heap_tables_ok (bound sb') q (heap_at sb' q)" if "valid_ptr sb' q" for q
        using iv(3) [of q] that free unfolding same heap_tables_ok_def tabs by (auto split: if_splits) (metis option.distinct(1))+
      show "valid_ptr sb' q \<and> key_ok (heap_at sb' q) \<kappa>' off sz al" if "bound sb' \<kappa>' = Some (q, off, sz, al)" for \<kappa>' q off sz al
      proof (cases "\<kappa>' = \<kappa>")
        case True
        moreover have "\<kappa> \<noteq> K_session i bp oi" for i bp oi
          using b(1) assms(7) by (auto simp: sub_key_def split: object_type.splits)
        ultimately show ?thesis using that assms(2,3,5) fits by (auto simp: tabs same key_ok_def)
      next
        case False
        then show ?thesis using that iv(4) [of \<kappa>' q off sz al] by (simp add: tabs same)
      qed
      show "valid_ptr sb' q \<and> hp_alias_group (heap_at sb' q)" if "g \<in> set (sb_alias_groups sb')" "ag_home g = Some q" for g q
        using iv(5) [of g q] that bind_tables_heaps(6) [OF bind] by (simp add: same)
    qed
  qed
qed

text \<open>Reserving the heap of an alias group.\<close>

lemma reserve_tables:
  assumes "allocate vk tid t r flags tiling False allocflags True sb = Inr (loc, sb1)" "tables_ok sb" "sa_offset r = 0"
    and "p = (tid, length (sb_heaps sb1 ! tid) - 1)"
    and "sb2 = sb1\<lparr>sb_alias_groups := (sb_alias_groups sb1)[gi := g\<lparr>ag_home := Some p\<rparr>]\<rparr>"
  shows "tables_ok sb2" "valid_ptr sb2 p" "hp_alias_group (heap_at sb2 p)" "bound sb2 = bound sb"
proof -
  note iv = tables_okD [OF assms(2)]
  obtain bytes mem mapped h where bytes: "bytes = sa_size r" "bytes < 1024 * 1024 * 1024" and tid: "tid < length (sb_heaps sb)"
    and h: "h = heap_new bytes mem mapped tid t r flags tiling False allocflags True" and sb1: "sb1 = push_heap tid h sb"
    using assms(1) by (cases rule: allocate_eq_Inr) (auto simp: allocation_size_def)
  have p: "p = (tid, length (sb_heaps sb ! tid))" using assms(4) tid by (simp add: sb1 push_heap_def)
  have heaps: "sb_heaps sb2 = sb_heaps (push_heap tid h sb)" by (simp add: assms(5) sb1)
  show bnd: "bound sb2 = bound sb" by (simp add: assms(5) sb1)
  show "valid_ptr sb2 p" "hp_alias_group (heap_at sb2 p)"
    using heaps_cong(1,2) [OF heaps] valid_ptr_push(1,2) [OF tid, of h] by (simp_all add: p) (simp add: h heap_new_def)
  have ok: "heap_ok h" using bytes assms(3) by (simp add: heap_ok_def heap_new_def h word_less_nat_alt)
  show "tables_ok sb2"
  proof (rule push_tables [OF assms(2) tid ok p heaps])
    show "sessions_distinct sb2" using iv(2) by (simp add: assms(5) sb1)
    show "heap_tables_ok (bound sb2) p h" using bytes assms(3) by (simp add: heap_tables_ok_def h heap_new_def)
    show "heap_tables_ok (bound sb2) q (heap_at sb q)" if "valid_ptr sb q" for q using iv(3) [OF that] by (simp add: bnd)
    show "(q = p \<and> hp_alias_group h) \<or> (valid_ptr sb q \<and> hp_alias_group (heap_at sb q))"
      if "f \<in> set (sb_alias_groups sb2)" "ag_home f = Some q" for f q
    proof -
      have "f \<in> set (sb_alias_groups sb) \<or> f = g\<lparr>ag_home := Some p\<rparr>"
        using that(1) set_update_subset_insert [of "sb_alias_groups sb1" gi] by (auto simp: assms(5) sb1 push_heap_def)
      then show ?thesis using that(2) iv(5) [of f q] by (auto simp: h heap_new_def)
    qed
  qed (simp add: bnd)
qed

lemma alias_member_tables:
  assumes "add_alias_member vk tid native x gi off sb = Inr (loc, sb')" "tables_ok sb" "gi < length (sb_alias_groups sb)"
    and "mr_size (so_reqs x) \<noteq> 0" "so_type x \<noteq> Type_session"
    and fresh: "\<And>\<kappa>. sub_key (object_suballocation native x) = Some \<kappa> \<Longrightarrow> bound sb \<kappa> = None"
  shows "tables_ok sb'" "alias_frame sb' = alias_frame sb"
proof -
  define g where "g = sb_alias_groups sb ! gi"
  define member where "member = suballocation_new\<lparr>sa_type := so_type x, sa_native := native, sa_size := mr_size (so_reqs x), sa_offset := off,
    sa_index := so_index x, sa_alignment := mr_alignment (so_reqs x), sa_alias_member := True\<rparr>"
  have g: "g \<in> set (sb_alias_groups sb)" using assms(3) by (simp add: g_def)
  have "\<exists>p sb1. tables_ok sb1 \<and> valid_ptr sb1 p \<and> hp_alias_group (heap_at sb1 p) \<and> bound sb1 = bound sb \<and>
      alias_frame sb1 = alias_frame sb \<and> bind p (heap_at sb1 p) member sb1 = Inr sb'"
  proof (cases "ag_home g")
    case (Some p)
    then have "bind p (heap_at sb p) member sb = Inr sb'"
      using assms(1) by (auto simp: add_alias_member_def Let_def member_def simp flip: g_def)
    then show ?thesis using tables_okD(5) [OF assms(2) g Some] assms(2) by blast
  next
    case None
    define sb0 where "sb0 = sb\<lparr>sb_used_count := sb_used_count sb + 1, sb_used_bytes := sb_used_bytes sb + ag_size g\<rparr>"
    define r where "r = suballocation_new\<lparr>sa_size := ag_size g, sa_alignment := ag_alignment g, sa_index := ag_capture_memory_index g\<rparr>"
    obtain t flags l sb1 p sb2 where alloc: "allocate vk tid t r flags (ag_tiling g) False (mr_allocate_flags (ag_reqs g)) True sb0 = Inr (l, sb1)"
      and p: "p = (tid, length (sb_heaps sb1 ! tid) - 1)"
      and sb2: "sb2 = sb1\<lparr>sb_alias_groups := (sb_alias_groups sb1)[gi := g\<lparr>ag_home := Some p\<rparr>]\<rparr>"
      and bind: "bind p (heap_at sb2 p) member sb2 = Inr sb'"
      using assms(1) None by (auto simp: add_alias_member_def Let_def member_def r_def sb0_def simp flip: g_def)
    have "tables_ok sb0" by (rule tables_ok_cong [OF assms(2)]) (use tables_okD(2) [OF assms(2)] in \<open>simp_all add: sb0_def\<close>)
    note reserved = reserve_tables [OF alloc this _ p sb2]
    have "sa_offset r = 0" by (simp add: r_def suballocation_new_def)
    moreover have "alias_frame sb2 = alias_frame sb" using allocate_frame(1) [OF alloc] by (simp add: sb2 sb0_def)
    ultimately show ?thesis using reserved bind by (intro exI [of _ p] exI [of _ sb2]) (simp add: sb0_def)
  qed
  then obtain p sb1 where ok: "tables_ok sb1" "valid_ptr sb1 p" "hp_alias_group (heap_at sb1 p)" "bound sb1 = bound sb"
    and frame: "alias_frame sb1 = alias_frame sb" and bind: "bind p (heap_at sb1 p) member sb1 = Inr sb'" by blast
  have "sub_key member = sub_key (object_suballocation native x)"
    using assms(5) by (simp add: sub_key_def member_def object_suballocation_def suballocation_new_def split: object_type.splits)
  then show "tables_ok sb'" using member_tables [OF ok(1-3) bind] fresh assms(4,5) ok(4)
    by (simp add: member_def)
  show "alias_frame sb' = alias_frame sb" using bind_frame [OF bind] frame by simp
qed

lemma object_addable:
  "mr_size (so_reqs x) \<noteq> 0 \<Longrightarrow> (\<And>\<kappa>. sub_key (object_suballocation native x) = Some \<kappa> \<Longrightarrow> bound sb \<kappa> = None) \<Longrightarrow>
    addable (object_suballocation native x) sb"
  by (auto simp: addable_def object_suballocation_def suballocation_new_def)

lemma add_trackedobject_tables:
  assumes "add_trackedobject vk tid native x sb = Inr (loc, sb')" "tables_ok sb" "alias_ok sb" "mr_size (so_reqs x) \<noteq> 0"
    and fresh: "\<And>\<kappa>. sub_key (object_suballocation native x) = Some \<kappa> \<Longrightarrow> bound sb \<kappa> = None"
  shows "tables_ok sb'" "alias_ok sb'"
proof -
  obtain a where a: "get_alias_lookup (so_type x) (so_index x) sb = Inr a" using assms(1) by (auto simp: add_trackedobject_def)
  have "tables_ok sb' \<and> alias_frame sb' = alias_frame sb"
  proof (cases "Option.bind a al_group")
    case None
    then obtain t flags where place: "place_object vk tid t (object_suballocation native x) flags (so_tiling x) (so_dedicated_allocation x)
        (mr_allocate_flags (so_reqs x)) sb = Inr (loc, sb')"
      using assms(1) a by (auto simp: add_trackedobject_def Let_def)
    have "addable (object_suballocation native x) sb" by (rule object_addable [OF assms(4)]) (rule fresh)
    then show ?thesis using place_object_tables [OF place assms(2)] place_object_frame [OF place] by blast
  next
    case (Some gi)
    then obtain al where al: "a = Some al" "al_group al = Some gi" by (cases a) auto
    have type: "so_type x \<noteq> Type_session" using a al(1) by (auto simp: get_alias_lookup_def alias_table_def)
    have "al \<in> set (sb_image_alias sb) \<union> set (sb_buffer_alias sb) \<union> set (sb_tensor_alias sb)"
      using a al(1) by (auto simp: get_alias_lookup_def alias_table_def not_le split: object_type.splits if_splits option.splits)
    then have gi: "gi < length (sb_alias_groups sb)" using assms(3) al(2) by (auto simp: alias_ok_def)
    have "add_alias_member vk tid native x gi (al_offset al) sb = Inr (loc, sb')"
      using assms(1) a al Some by (simp add: add_trackedobject_def)
    then show ?thesis using alias_member_tables [OF _ assms(2) gi assms(4) type fresh] by blast
  qed
  then show "tables_ok sb'" "alias_ok sb'" using alias_ok_frame assms(3) by blast+
qed

lemma add_session_tables:
  assumes "add_datagraphpipelinesession vk tid native index bindings bp oi sb = Inr (loc, bindings', sb')" "tables_ok sb" "alias_ok sb"
    and "get_binding bp oi bindings = Some b" "mr_size (bn_reqs b) \<noteq> 0" "bound sb (K_session (unat index) bp oi) = None"
  shows "tables_ok sb'" "alias_ok sb'"
proof -
  have keys: "bn_bind_point b = bp" "bn_object_index b = oi" using assms(4) by (induction bindings) (auto split: if_splits)
  obtain t flags dedicated where place: "place_object vk tid t (session_suballocation native index b) flags TILING_LINEAR dedicated
      (mr_allocate_flags (bn_reqs b)) sb = Inr (loc, sb')"
    using assms(1,4) by (auto simp: add_datagraphpipelinesession_def Let_def split: if_splits)
  have "addable (session_suballocation native index b) sb"
    using assms(5,6) keys by (simp add: addable_def session_suballocation_def suballocation_new_def sub_key_def)
  then show "tables_ok sb'" "alias_ok sb'"
    using place_object_tables [OF place assms(2)] alias_ok_frame [OF place_object_frame [OF place]] assms(3) by blast+
qed

section \<open>Freeing and finding\<close>

lemma release_lookup_heaps [simp]:
  "sb_images (release_lookup l sb) = sb_images sb" "sb_buffers (release_lookup l sb) = sb_buffers sb"
  "sb_tensors (release_lookup l sb) = sb_tensors sb" "sb_sessions (release_lookup l sb) = sb_sessions sb"
  "sb_alias_groups (release_lookup l sb) = sb_alias_groups sb" "bound (release_lookup l sb) = bound sb"
  "sessions_distinct (release_lookup l sb) = sessions_distinct sb" "alias_frame (release_lookup l sb) = alias_frame sb"
  by (simp_all add: release_lookup_def set_heap_def [of _ _ sb, THEN arg_cong, of sb_images] split: option.splits)
    (simp_all add: set_heap_def)

text \<open>The three tables of single lookups are freed the same way.\<close>

lemma free_lookup_tables:
  assumes "tables_ok sb" "bound sb \<kappa> = place_of (Some l)"
    and "sb_heaps sb' = sb_heaps (release_lookup l sb)" "sb_alias_groups sb' = sb_alias_groups sb" "sessions_distinct sb'"
    and "bound sb' = (bound sb)(\<kappa> := None)"
  shows "tables_ok sb'"
proof (cases "lk_home l = None \<or> lk_alias_member l")
  case True
  then have "sb_heaps sb' = sb_heaps sb" using assms(3) by (auto simp: release_lookup_def split: option.splits)
  moreover have "\<forall>p off sz. bound sb \<kappa> \<noteq> Some (p, off, sz, False)" using True assms(2) by (auto simp: place_of_def)
  ultimately show ?thesis using unbind_tables [OF assms(1)] assms(4-6) by blast
next
  case False
  then obtain p where p: "lk_home l = Some p" "\<not> lk_alias_member l" by auto
  then have "bound sb \<kappa> = Some (p, lk_offset l, lk_size l, False)" using assms(2) by (simp add: place_of_def)
  then show ?thesis by (rule free_tables [OF assms(1)]) (use p assms(3-6) in \<open>simp_all add: release_lookup_def\<close>)
qed

lemma place_of_unbound: "place_of (Some (l\<lparr>lk_home := None\<rparr>)) = None"
  by (simp add: place_of_def)

lemma free_tables_ok:
  assumes "tables_ok sb" "alias_ok sb"
  shows "free_image i sb = Inr sb' \<Longrightarrow> tables_ok sb' \<and> alias_ok sb'"
    "free_buffer i sb = Inr sb' \<Longrightarrow> tables_ok sb' \<and> alias_ok sb'"
    "free_tensor i sb = Inr sb' \<Longrightarrow> tables_ok sb' \<and> alias_ok sb'"
proof -
  note iv = tables_okD(2) [OF assms(1)]
  show "tables_ok sb' \<and> alias_ok sb'" if run: "free_image i sb = Inr sb'"
  proof (cases "i = CONTAINER_NULL_VALUE")
    case False
    define l where "l = sb_images sb ! unat i"
    have i: "unat i < length (sb_images sb)"
      and sb': "sb' = (release_lookup l sb)\<lparr>sb_images := (sb_images (release_lookup l sb))[unat i := l\<lparr>lk_home := None\<rparr>]\<rparr>"
      using run False by (auto simp: free_image_def Let_def l_def split: if_splits)
    have "tables_ok sb'"
      by (rule free_lookup_tables [OF assms(1), of "K_image (unat i)" l])
        (use i iv in \<open>simp_all add: sb' l_def bound_current bound_tables place_of_unbound\<close>)
    then show ?thesis using alias_ok_frame [of sb' sb] assms(2) by (simp add: sb')
  qed (use run assms in \<open>simp add: free_image_def\<close>)
  show "tables_ok sb' \<and> alias_ok sb'" if run: "free_buffer i sb = Inr sb'"
  proof (cases "i = CONTAINER_NULL_VALUE")
    case False
    define l where "l = sb_buffers sb ! unat i"
    have i: "unat i < length (sb_buffers sb)"
      and sb': "sb' = (release_lookup l sb)\<lparr>sb_buffers := (sb_buffers (release_lookup l sb))[unat i := l\<lparr>lk_home := None\<rparr>]\<rparr>"
      using run False by (auto simp: free_buffer_def Let_def l_def split: if_splits)
    have "tables_ok sb'"
      by (rule free_lookup_tables [OF assms(1), of "K_buffer (unat i)" l])
        (use i iv in \<open>simp_all add: sb' l_def bound_current bound_tables place_of_unbound\<close>)
    then show ?thesis using alias_ok_frame [of sb' sb] assms(2) by (simp add: sb')
  qed (use run assms in \<open>simp add: free_buffer_def\<close>)
  show "tables_ok sb' \<and> alias_ok sb'" if run: "free_tensor i sb = Inr sb'"
  proof (cases "i = CONTAINER_NULL_VALUE")
    case False
    define l where "l = sb_tensors sb ! unat i"
    have i: "unat i < length (sb_tensors sb)"
      and sb': "sb' = (release_lookup l sb)\<lparr>sb_tensors := (sb_tensors (release_lookup l sb))[unat i := l\<lparr>lk_home := None\<rparr>]\<rparr>"
      using run False by (auto simp: free_tensor_def Let_def l_def split: if_splits)
    have "tables_ok sb'"
      by (rule free_lookup_tables [OF assms(1), of "K_tensor (unat i)" l])
        (use i iv in \<open>simp_all add: sb' l_def bound_current bound_tables place_of_unbound\<close>)
    then show ?thesis using alias_ok_frame [of sb' sb] assms(2) by (simp add: sb')
  qed (use run assms in \<open>simp add: free_tensor_def\<close>)
qed

end
