(* ===== verification/SuballocatorRuns.thy ===== *)
theory SuballocatorRuns
  imports SuballocatorTables
begin

text \<open>Histories of the suballocator: creation establishes the invariant, every operation a replay performs
  keeps it, and in every state reached the self test passes.\<close>

section \<open>Freeing sessions\<close>

lemma bound_session:
  assumes "ss = sb_sessions sb" "i < length ss"
  shows "bound (sb\<lparr>sb_sessions := ss[i := es]\<rparr>) \<kappa> = (case \<kappa> of
    K_session j bp oi \<Rightarrow> if j = i then place_of (map_option (\<lambda>k. dg_loc (es ! k)) (find_entry bp oi es)) else bound sb \<kappa>
  | _ \<Rightarrow> bound sb \<kappa>)"
  using assms by (cases \<kappa>) (auto simp: bound_def)

lemma release_session_entry_frame [simp]:
  "sb_sessions (release_session_entry e sb) = sb_sessions sb" "sb_alias_groups (release_session_entry e sb) = sb_alias_groups sb"
  "bound (release_session_entry e sb) = bound sb" "alias_frame (release_session_entry e sb) = alias_frame sb"
  by (simp_all add: release_session_entry_def split: option.splits) (simp_all add: set_heap_def)

lemma release_session_entry_update:
  "release_session_entry e (sb\<lparr>sb_sessions := ss\<rparr>) = (release_session_entry e sb)\<lparr>sb_sessions := ss\<rparr>"
  by (simp add: release_session_entry_def set_heap_def heap_at_def split: option.splits)

lemma fold_release_update:
  "fold release_session_entry es (sb\<lparr>sb_sessions := ss\<rparr>) = (fold release_session_entry es sb)\<lparr>sb_sessions := ss\<rparr>"
  by (induction es arbitrary: sb) (simp_all add: release_session_entry_update)

lemma distinct_sessions_update:
  "sessions_distinct sb \<Longrightarrow> distinct (session_keys es) \<Longrightarrow> sb_sessions sb' = (sb_sessions sb)[i := es] \<Longrightarrow> sessions_distinct sb'"
  by (auto simp: sessions_distinct_def dest!: set_update_subset_insert [THEN subsetD])

lemma release_head_tables:
  assumes "tables_ok sb" "i < length (sb_sessions sb)" "sb_sessions sb ! i = e # es"
  shows "tables_ok ((release_session_entry e sb)\<lparr>sb_sessions := (sb_sessions sb)[i := es]\<rparr>)"
proof -
  define \<kappa> where "\<kappa> = K_session i (dg_bind_point e) (dg_object_index e)"
  define sb' where "sb' = (release_session_entry e sb)\<lparr>sb_sessions := (sb_sessions sb)[i := es]\<rparr>"
  have dist: "distinct (session_keys (e # es))"
    using tables_okD(2) [OF assms(1)] assms(2,3) by (metis sessions_distinct_def nth_mem)
  have gone: "find_entry (dg_bind_point e) (dg_object_index e) es = None"
    using dist by (simp add: find_entry_None) (simp add: session_keys_def)
  have "bound sb' \<kappa>' = ((bound sb)(\<kappa> := None)) \<kappa>'" for \<kappa>'
  proof (cases \<kappa>')
    case (K_session j bp oi)
    show ?thesis
    proof (cases "j = i")
      case True
      have now: "bound sb' \<kappa>' = place_of (map_option (\<lambda>k. dg_loc (es ! k)) (find_entry bp oi es))"
        using assms(2) True by (simp add: sb'_def K_session bound_session)
      have before: "bound sb \<kappa>' = place_of (map_option (\<lambda>k. dg_loc ((e # es) ! k)) (find_entry bp oi (e # es)))"
        using assms(2,3) True by (simp add: bound_def K_session slot_def)
      show ?thesis
      proof (cases "bp = dg_bind_point e \<and> oi = dg_object_index e")
        case True
        then show ?thesis using now gone \<open>j = i\<close> by (simp add: K_session \<kappa>_def place_of_def)
      next
        case False
        then show ?thesis using now before \<open>j = i\<close> by (auto simp: K_session \<kappa>_def option.map_comp comp_def)
      qed
    next
      case False
      then show ?thesis using assms(2) by (simp add: sb'_def K_session bound_session \<kappa>_def)
    qed
  qed (use assms(2) in \<open>simp_all add: sb'_def bound_session \<kappa>_def\<close>)
  then have bnd: "bound sb' = (bound sb)(\<kappa> := None)" by blast
  have now: "bound sb \<kappa> = place_of (Some (dg_loc e))" using assms(2,3) by (simp add: \<kappa>_def bound_def slot_def)
  have plain: "\<not> lk_alias_member (dg_loc e)" if "lk_home (dg_loc e) = Some p" for p
    using tables_okD(4) [OF assms(1), of \<kappa> p "lk_offset (dg_loc e)" "lk_size (dg_loc e)" "lk_alias_member (dg_loc e)"] now that
    by (cases "lk_alias_member (dg_loc e)") (auto simp: key_ok_def place_of_def \<kappa>_def)
  have "tables_ok sb'"
  proof (rule free_lookup_tables [OF assms(1) now _ _ _ bnd])
    show "sb_heaps sb' = sb_heaps (release_lookup (dg_loc e) sb)"
      using plain by (simp add: sb'_def release_session_entry_def release_lookup_def split: option.splits)
    show "sessions_distinct sb'"
      by (rule distinct_sessions_update [OF tables_okD(2) [OF assms(1)], of es _ i]) (use dist in \<open>simp_all add: sb'_def session_keys_def\<close>)
  qed (simp add: sb'_def)
  then show ?thesis by (simp add: sb'_def)
qed

lemma release_all_tables:
  assumes "tables_ok sb" "i < length (sb_sessions sb)" "sb_sessions sb ! i = es"
  shows "tables_ok ((fold release_session_entry es sb)\<lparr>sb_sessions := (sb_sessions sb)[i := []]\<rparr>)"
  using assms
proof (induction es arbitrary: sb)
  case Nil
  then have "(sb_sessions sb)[i := []] = sb_sessions sb" by (metis list_update_id)
  then show ?case using Nil.prems(1) by simp
next
  case (Cons e es)
  define sb1 where "sb1 = (release_session_entry e sb)\<lparr>sb_sessions := (sb_sessions sb)[i := es]\<rparr>"
  have "tables_ok sb1" unfolding sb1_def by (rule release_head_tables [OF Cons.prems])
  from Cons.IH [OF this] have "tables_ok ((fold release_session_entry es sb1)\<lparr>sb_sessions := (sb_sessions sb1)[i := []]\<rparr>)"
    using Cons.prems(2) by (simp add: sb1_def)
  then show ?case by (simp add: sb1_def fold_release_update)
qed

lemma fold_release_frame: "alias_frame (fold release_session_entry es sb) = alias_frame sb"
  "sb_sessions (fold release_session_entry es sb) = sb_sessions sb"
  by (induction es arbitrary: sb) simp_all

lemma free_session_tables:
  assumes "free_datagraphpipelinesession i sb = Inr sb'" "tables_ok sb" "alias_ok sb"
  shows "tables_ok sb' \<and> alias_ok sb'"
proof (cases "i = CONTAINER_NULL_VALUE")
  case False
  then have i: "unat i < length (sb_sessions sb)"
    and sb': "sb' = (fold release_session_entry (sb_sessions sb ! unat i) sb)\<lparr>sb_sessions := (sb_sessions sb)[unat i := []]\<rparr>"
    using assms(1) by (auto simp: free_datagraphpipelinesession_def Let_def fold_release_frame split: if_splits)
  have "tables_ok sb'" unfolding sb' by (rule release_all_tables [OF assms(2) i refl])
  moreover have "alias_ok sb'" using alias_ok_frame [of sb' sb] assms(3) by (simp add: sb' fold_release_frame)
  ultimately show ?thesis by blast
qed (use assms in \<open>simp add: free_datagraphpipelinesession_def\<close>)

section \<open>Finding\<close>

text \<open>Finding the memory of an object changes neither heaps nor bindings.\<close>

definition same_places :: "suballocator \<Rightarrow> suballocator \<Rightarrow> bool" where
  "same_places sb sb' \<longleftrightarrow> sb_heaps sb' = sb_heaps sb \<and> bound sb' = bound sb \<and> alias_frame sb' = alias_frame sb \<and>
    sb_alias_groups sb' = sb_alias_groups sb \<and> (sessions_distinct sb \<longrightarrow> sessions_distinct sb')"

lemma same_places_tables: "same_places sb sb' \<Longrightarrow> tables_ok sb \<Longrightarrow> tables_ok sb'"
  by (rule tables_ok_cong [of sb]) (simp_all add: same_places_def tables_okD(2))

lemma same_places_trans: "same_places a b \<Longrightarrow> same_places b c \<Longrightarrow> same_places a c"
  by (auto simp: same_places_def)

lemma place_of_initialized [simp]: "place_of (Some (l\<lparr>lk_initialized := b\<rparr>)) = place_of (Some l)"
  by (simp add: place_of_def)

lemma lookup_location_eq:
  "place_of (Some l) = Some (p, off, sz, al) \<Longrightarrow> \<exists>loc. lookup_location sb l = Inr loc \<and>
    loc_memory loc = hp_mem (heap_at sb p) \<and> loc_offset loc = off \<and> loc_size loc = sz \<and> loc_needs_init loc = (\<not> lk_initialized l)"
  by (auto simp: place_of_def lookup_location_def Let_def split: option.splits)

lemma find_session_same:
  assumes "find_datagraphpipelinesession_memory i bp oi sb = Inr (loc, sb')"
  shows "same_places sb sb'"
proof -
  define es where "es = sb_sessions sb ! unat i"
  obtain k where i: "unat i < length (sb_sessions sb)" and k: "find_entry bp oi es = Some k"
    and sb': "sb' = sb\<lparr>sb_sessions := (sb_sessions sb)[unat i := es[k := (es ! k)\<lparr>dg_loc := (dg_loc (es ! k))\<lparr>lk_initialized := True\<rparr>\<rparr>]]\<rparr>"
    using assms by (auto simp: find_datagraphpipelinesession_memory_def Let_def es_def split: if_splits option.splits)
  define es' where "es' = es[k := (es ! k)\<lparr>dg_loc := (dg_loc (es ! k))\<lparr>lk_initialized := True\<rparr>\<rparr>]"
  have keys: "session_keys es' = session_keys es"
    using find_entry_Some [OF k] by (simp add: es'_def session_keys_def map_update list_update_same_conv)
  have entries: "place_of (map_option (\<lambda>j. dg_loc (es' ! j)) r) = place_of (map_option (\<lambda>j. dg_loc (es ! j)) r)" for r
    using find_entry_Some [OF k] by (cases r) (auto simp: es'_def nth_list_update)
  have sb': "sb' = sb\<lparr>sb_sessions := (sb_sessions sb)[unat i := es']\<rparr>" by (simp add: sb' es'_def)
  have now: "bound sb (K_session (unat i) bp oi) = place_of (map_option (\<lambda>j. dg_loc (es ! j)) (find_entry bp oi es))" for bp oi
    using i by (simp add: bound_def slot_def es_def)
  have "bound sb' \<kappa> = bound sb \<kappa>" for \<kappa>
    using i now entries find_entry_keys [OF keys] by (cases \<kappa>) (auto simp: sb' bound_session)
  moreover have "sessions_distinct sb \<longrightarrow> sessions_distinct sb'"
    using distinct_sessions_update [of sb es' sb' "unat i"] keys i by (simp add: sb' es_def sessions_distinct_def)
  ultimately show ?thesis by (auto simp: same_places_def sb' alias_frame_def)
qed

lemma find_same:
  "find_image_memory i sb = Inr (loc, sb') \<Longrightarrow> same_places sb sb'"
  "find_buffer_memory i sb = Inr (loc, sb') \<Longrightarrow> same_places sb sb'"
  "find_tensor_memory i sb = Inr (loc, sb') \<Longrightarrow> same_places sb sb'"
  by (auto simp: find_image_memory_def find_buffer_memory_def find_tensor_memory_def same_places_def bound_tables bound_current
      fun_upd_idem alias_frame_def split: if_splits)

lemma find_memory_bound:
  assumes "sub_key s = Some \<kappa>" "bound sb \<kappa> = Some (p, sa_offset s, sa_size s, False)"
  shows "\<exists>loc sb'. find_memory s sb = Inr (loc, sb') \<and> same_places sb sb' \<and> loc_memory loc = hp_mem (heap_at sb p) \<and>
    loc_offset loc = sa_offset s \<and> loc_size loc = sa_size s"
proof -
  have "\<exists>loc sb'. find_memory s sb = Inr (loc, sb') \<and> loc_memory loc = hp_mem (heap_at sb p) \<and>
      loc_offset loc = sa_offset s \<and> loc_size loc = sa_size s"
  proof (cases "sa_type s")
    case Type_session
    define es where "es = sb_sessions sb ! unat (sa_index s)"
    have i: "unat (sa_index s) < length (sb_sessions sb)"
      using assms Type_session by (auto simp: sub_key_def bound_def slot_def place_of_def split: if_splits)
    then obtain k where k: "find_entry (sa_bind_point s) (sa_object_index s) es = Some k"
      "place_of (Some (dg_loc (es ! k))) = Some (p, sa_offset s, sa_size s, False)"
      using assms Type_session by (auto simp: sub_key_def bound_def slot_def es_def place_of_def split: option.splits)
    then show ?thesis using lookup_location_eq [OF k(2), of sb] i Type_session
      by (auto simp: find_memory_def find_datagraphpipelinesession_memory_def Let_def es_def)
  qed (use assms lookup_location_eq [of _ p "sa_offset s" "sa_size s" False sb] in
      \<open>fastforce simp: sub_key_def find_memory_def bound_def slot_def place_of_def find_image_memory_def find_buffer_memory_def
        find_tensor_memory_def split: if_splits\<close>)+
  then obtain loc sb' where found: "find_memory s sb = Inr (loc, sb')" "loc_memory loc = hp_mem (heap_at sb p)"
    "loc_offset loc = sa_offset s" "loc_size loc = sa_size s" by blast
  moreover have "same_places sb sb'"
    using found(1) find_same find_session_same by (auto simp: find_memory_def split: object_type.splits)
  ultimately show ?thesis by blast
qed

section \<open>The self test passes\<close>

lemma tables_backed:
  assumes "tables_ok sb" "bound sb \<kappa> = place_of (Some l)"
  shows "lookup_backed sb l"
proof (cases "lk_home l")
  case None
  then show ?thesis by (simp add: lookup_backed_def)
next
  case (Some p)
  then have "key_ok (heap_at sb p) \<kappa> (lk_offset l) (lk_size l) (lk_alias_member l)"
    using tables_okD(4) [OF assms(1), of \<kappa> p] assms(2) by (simp add: place_of_def)
  then show ?thesis using Some by (cases "lk_alias_member l") (auto simp: key_ok_def lookup_backed_def Let_def)
qed

lemma tables_session_backed:
  assumes "tables_ok sb" "i < length (sb_sessions sb)" "k < length (sb_sessions sb ! i)"
  shows "session_backed sb (sb_sessions sb ! i ! k)"
proof -
  define e where "e = sb_sessions sb ! i ! k"
  define \<kappa> where "\<kappa> = K_session i (dg_bind_point e) (dg_object_index e)"
  have "distinct (session_keys (sb_sessions sb ! i))" using tables_okD(2) [OF assms(1)] assms(2) by (simp add: sessions_distinct_def)
  from find_entry_nth [OF this assms(3)] have now: "bound sb \<kappa> = place_of (Some (dg_loc e))"
    using assms(2) by (simp add: \<kappa>_def bound_def slot_def e_def)
  show ?thesis
  proof (cases "lk_home (dg_loc e)")
    case None
    then show ?thesis by (simp add: session_backed_def e_def)
  next
    case (Some p)
    then have "key_ok (heap_at sb p) \<kappa> (lk_offset (dg_loc e)) (lk_size (dg_loc e)) (lk_alias_member (dg_loc e))"
      using tables_okD(4) [OF assms(1), of \<kappa> p] now by (simp add: place_of_def)
    then obtain s where "lk_size (dg_loc e) \<noteq> 0" "s \<in> set (hp_subs (heap_at sb p))" "sub_key s = Some \<kappa>"
      "sa_offset s = lk_offset (dg_loc e)" "sa_size s = lk_size (dg_loc e)"
      by (cases "lk_alias_member (dg_loc e)") (auto simp: key_ok_def \<kappa>_def)
    moreover from this(3) have "sa_type s = Type_session" "sa_bind_point s = dg_bind_point e" "sa_object_index s = dg_object_index e"
      by (auto simp: sub_key_def \<kappa>_def split: object_type.splits)
    ultimately show ?thesis using Some by (auto simp: session_backed_def Let_def e_def)
  qed
qed

lemma self_test_lookups_ok:
  assumes "tables_ok sb"
  shows "self_test_lookups sb"
proof -
  have "lookup_backed sb l" if "l \<in> set (sb_images sb)" for l
    using that tables_backed [OF assms bound_current(1)] by (auto simp: in_set_conv_nth)
  moreover have "lookup_backed sb l" if "l \<in> set (sb_buffers sb)" for l
    using that tables_backed [OF assms bound_current(2)] by (auto simp: in_set_conv_nth)
  moreover have "lookup_backed sb l" if "l \<in> set (sb_tensors sb)" for l
    using that tables_backed [OF assms bound_current(3)] by (auto simp: in_set_conv_nth)
  moreover have "session_backed sb e" if "es \<in> set (sb_sessions sb)" "e \<in> set es" for es e
    using that tables_session_backed [OF assms] by (auto simp: in_set_conv_nth)
  ultimately show ?thesis unfolding self_test_lookups_def by blast
qed

lemma sint_small: "unat (w :: u64) < 2 ^ 63 \<Longrightarrow> sint w = int (unat w)"
proof -
  assume small: "unat w < 2 ^ 63"
  then have "int (unat w) < int (2 ^ 63)" by (simp only: of_nat_less_iff)
  then have "uint w < 2 ^ 63" by simp
  moreover have "- (2 ^ 63) \<le> uint w" by (rule order_trans [OF _ uint_ge_0]) simp
  ultimately have "signed_take_bit 63 (uint w) = uint w" by (intro signed_take_bit_int_eq_self)
  then show ?thesis by (simp add: sint_uint)
qed

definition sub_bound :: "suballocator \<Rightarrow> heap_ptr \<Rightarrow> heap \<Rightarrow> suballocation \<Rightarrow> bool" where
  "sub_bound sb p h s \<longleftrightarrow> (\<exists>\<kappa>. sub_key s = Some \<kappa> \<and> (waiting h (sa_offset s) \<or> bound sb \<kappa> = Some (p, sa_offset s, sa_size s, False)))"

lemma sub_bound_same: "same_places sb sb' \<Longrightarrow> sub_bound sb' p h s = sub_bound sb p h s"
  by (simp add: sub_bound_def same_places_def)

lemma walk_subs_step:
  assumes "sub_bound sb p h s" "hp_mem (heap_at sb p) = hp_mem h" "prev_end \<le> int (unat (sa_offset s))"
    and "unat (sa_offset s) + unat (sa_size s) < 2 ^ 30"
  obtains n sb1 where "same_places sb sb1"
    "walk_subs h (s # ss) prev_end freed used found sb = walk_subs h ss (int (unat (sa_offset s) + unat (sa_size s)))
      (if prev_end \<ge> 0 then freed + (sa_offset s - of_int prev_end) else freed) (used + sa_size s) n sb1"
proof -
  obtain \<kappa> where \<kappa>: "sub_key s = Some \<kappa>" "waiting h (sa_offset s) \<or> bound sb \<kappa> = Some (p, sa_offset s, sa_size s, False)"
    using assms(1) by (auto simp: sub_bound_def)
  have typed: "sa_type s \<noteq> Type_unknown" using \<kappa>(1) by (auto simp: sub_key_def)
  have off: "sint (sa_offset s) = int (unat (sa_offset s))" using assms(4) by (intro sint_small) simp
  have sum: "unat (sa_offset s + sa_size s) = unat (sa_offset s) + unat (sa_size s)" using assms(4) by (intro unat_add_small) simp
  have end_: "sint (sa_offset s + sa_size s) = int (unat (sa_offset s) + unat (sa_size s))"
    using assms(4) sum by (subst sint_small) simp_all
  show thesis
  proof (cases "waiting h (sa_offset s)")
    case True
    then have "has_pending_delete h (ucast (sa_offset s))" by (simp add: has_pending_delete_def waiting_def)
    then show thesis using that [of sb found] assms(3) typed off end_ by (simp add: Let_def same_places_def)
  next
    case False
    then obtain loc sb1 where found: "find_memory s sb = Inr (loc, sb1)" "same_places sb sb1" "loc_memory loc = hp_mem (heap_at sb p)"
      "loc_offset loc = sa_offset s" "loc_size loc = sa_size s"
      using find_memory_bound [OF \<kappa>(1)] \<kappa>(2) by blast
    have "\<not> has_pending_delete h (ucast (sa_offset s))" using False by (simp add: has_pending_delete_def waiting_def)
    then show thesis using that [of sb1 "found + 1"] assms(2,3) typed off end_ found by (simp add: Let_def)
  qed
qed

lemma walk_subs_ok:
  assumes "subs_ok e hi ss" "hi < 2 ^ 30" "\<forall>s \<in> set ss. sub_bound sb p h s" "hp_mem (heap_at sb p) = hp_mem h"
    and "unat freed + unat used = e"
  shows "\<exists>e' freed' used' n sb'. walk_subs h ss (int e) freed used found sb = Inr (int e', freed', used', n, sb') \<and>
    same_places sb sb' \<and> unat freed' + unat used' = e' \<and> e' \<le> hi \<and> unat used' = unat used + used_size ss"
  using assms
proof (induction ss arbitrary: e freed used found sb)
  case Nil
  then show ?case by (auto simp: same_places_def)
next
  case (Cons s ss)
  have le: "e \<le> unat (sa_offset s)" and bnd: "unat (sa_offset s) + unat (sa_size s) \<le> hi"
    using Cons.prems(1) subs_ok_bounds [OF Cons.prems(1), of s] by simp_all
  obtain n sb1 where same: "same_places sb sb1"
    and walk: "walk_subs h (s # ss) (int e) freed used found sb = walk_subs h ss (int (unat (sa_offset s) + unat (sa_size s)))
      (freed + (sa_offset s - of_int (int e))) (used + sa_size s) n sb1"
  proof -
    have "sub_bound sb p h s" "int e \<le> int (unat (sa_offset s))" "unat (sa_offset s) + unat (sa_size s) < 2 ^ 30"
      using Cons.prems(2,3) le bnd by (simp, simp only: of_nat_le_iff, simp)
    from walk_subs_step [OF this(1) Cons.prems(4) this(2,3), of ss freed used found]
    show thesis using that by (simp only: of_nat_0_le_iff if_True) blast
  qed
  have "of_int (int e) \<le> sa_offset s" "unat (of_int (int e) :: u64) = e"
    using le bnd Cons.prems(2) by (simp_all add: word_le_nat_alt unat_of_nat take_bit_nat_eq_self)
  then have gap: "unat (sa_offset s - of_int (int e)) = unat (sa_offset s) - e" by (simp add: unat_sub)
  have freed': "unat (freed + (sa_offset s - of_int (int e))) = unat freed + (unat (sa_offset s) - e)"
    using gap Cons.prems(2,5) le bnd by (subst unat_add_small) simp_all
  have used': "unat (used + sa_size s) = unat used + unat (sa_size s)"
    using Cons.prems(2,5) le bnd by (intro unat_add_small) simp
  have "\<exists>e' freed' used' m sb'. walk_subs h ss (int (unat (sa_offset s) + unat (sa_size s))) (freed + (sa_offset s - of_int (int e)))
      (used + sa_size s) n sb1 = Inr (int e', freed', used', m, sb') \<and>
    same_places sb1 sb' \<and> unat freed' + unat used' = e' \<and> e' \<le> hi \<and> unat used' = unat (used + sa_size s) + used_size ss"
  proof (rule Cons.IH)
    show "\<forall>s \<in> set ss. sub_bound sb1 p h s" using Cons.prems(3) sub_bound_same [OF same] by simp
    show "hp_mem (heap_at sb1 p) = hp_mem h" using Cons.prems(4) same heaps_cong(2) by (metis same_places_def)
    show "unat (freed + (sa_offset s - of_int (int e))) + unat (used + sa_size s) = unat (sa_offset s) + unat (sa_size s)"
      using freed' used' Cons.prems(5) le by simp
  qed (use Cons.prems in simp_all)
  then obtain e' freed' used' m sb' where
    "walk_subs h ss (int (unat (sa_offset s) + unat (sa_size s))) (freed + (sa_offset s - of_int (int e)))
      (used + sa_size s) n sb1 = Inr (int e', freed', used', m, sb')"
    and rest: "same_places sb1 sb'" "unat freed' + unat used' = e'" "e' \<le> hi" "unat used' = unat (used + sa_size s) + used_size ss"
    by blast
  then have "walk_subs h (s # ss) (int e) freed used found sb = Inr (int e', freed', used', m, sb')" by (simp only: walk)
  moreover have "unat used' = unat used + used_size (s # ss)" using rest(4) used' by simp
  ultimately show ?case using same_places_trans [OF same rest(1)] rest(2,3) by blast
qed

text \<open>One heap passes.\<close>

lemma self_test_heap_ok:
  assumes "tables_ok sb" "valid_ptr sb p"
  shows "\<exists>n sb'. self_test_heap (heap_at sb p) found sb = Inr (n, sb') \<and> same_places sb sb'"
proof -
  define h where "h = heap_at sb p"
  have ok: "heap_ok h" unfolding h_def by (rule heaps_okD [OF tables_okD(1) [OF assms(1)] assms(2)])
  have tab: "heap_tables_ok (bound sb) p h" unfolding h_def by (rule tables_okD(3) [OF assms])
  have le: "hp_free h \<le> hp_total h" using ok by (simp add: heap_ok_def word_le_nat_alt)
  have hi: "unat (hp_total h) < 2 ^ 30" and chain: "subs_ok 0 (unat (hp_total h)) (hp_subs h)"
    and acc: "unat (hp_free h) + used_size (hp_subs h) = unat (hp_total h)" using ok by (simp_all add: heap_ok_def)
  show ?thesis
  proof (cases "hp_alias_group h")
    case True
    then show ?thesis using tab le by (auto simp: self_test_heap_def heap_tables_ok_def same_places_def simp flip: h_def)
  next
    case False
    have bnd: "\<forall>s \<in> set (hp_subs h). sub_bound sb p h s" using tab False by (auto simp: heap_tables_ok_def sub_bound_def)
    show ?thesis
    proof (cases "hp_subs h")
      case Nil
      then have "hp_free h = hp_total h" using acc by (simp add: word_unat_eq_iff)
      then show ?thesis using False Nil le by (simp add: self_test_heap_def same_places_def flip: h_def)
    next
      case (Cons s ss)
      define e where "e = unat (sa_offset s) + unat (sa_size s)"
      have e: "e \<le> unat (hp_total h)" "subs_ok e (unat (hp_total h)) ss"
        using subs_ok_bounds [OF chain, of s] chain by (simp_all add: Cons e_def)
      obtain n sb1 where same: "same_places sb sb1" and walk: "walk_subs h (s # ss) (- 1) (sa_offset s) 0 found sb =
          walk_subs h ss (int e) (sa_offset s) (sa_size s) n sb1"
      proof -
        have c1: "sub_bound sb p h s" using bnd by (simp add: Cons)
        have c2: "hp_mem (heap_at sb p) = hp_mem h" by (simp add: h_def)
        have c3: "- 1 \<le> int (unat (sa_offset s))" by (rule order_trans [OF _ of_nat_0_le_iff]) simp
        have c4: "unat (sa_offset s) + unat (sa_size s) < 2 ^ 30" using e(1) hi by (simp add: e_def)
        obtain n sb1 where "same_places sb sb1" "walk_subs h (s # ss) (- 1) (sa_offset s) 0 found sb =
            walk_subs h ss (int e) (if (- 1 :: int) \<ge> 0 then sa_offset s + (sa_offset s - of_int (- 1)) else sa_offset s) (0 + sa_size s) n sb1"
          using walk_subs_step [OF c1 c2 c3 c4, of ss "sa_offset s" 0 found] unfolding e_def by blast
        moreover have "\<not> (- 1 :: int) \<ge> 0" by simp
        ultimately show thesis using that by (simp only: if_False add_0) 
      qed
      have "\<forall>t \<in> set ss. sub_bound sb1 p h t" using bnd sub_bound_same [OF same] by (simp add: Cons)
      moreover have "hp_mem (heap_at sb1 p) = hp_mem h" using same heaps_cong(2) [of sb1 sb] by (simp add: same_places_def h_def)
      moreover have "unat (sa_offset s) + unat (sa_size s) = e" by (simp add: e_def)
      ultimately obtain e' freed' used' m sb' where walked: "walk_subs h ss (int e) (sa_offset s) (sa_size s) n sb1 = Inr (int e', freed', used', m, sb')"
        and rest: "same_places sb1 sb'" "unat freed' + unat used' = e'" "e' \<le> unat (hp_total h)" "unat used' = unat (sa_size s) + used_size ss"
        using walk_subs_ok [OF e(2) hi] by blast
      have "of_nat e' \<le> hp_total h" "unat (of_nat e' :: u64) = e'"
        using rest(3) hi by (simp_all add: word_le_nat_alt unat_of_nat take_bit_nat_eq_self)
      then have "unat (hp_total h - of_nat e') = unat (hp_total h) - e'" by (simp add: unat_sub)
      then have freed: "unat (freed' + (hp_total h - of_nat e')) = unat freed' + (unat (hp_total h) - e')"
        using rest(2,3) hi by (subst unat_add_small) simp_all
      have "hp_free h = freed' + (hp_total h - of_nat e')"
        using acc rest freed by (simp add: word_unat_eq_iff Cons)
      moreover have "unat (freed' + (hp_total h - of_nat e') + used') = unat (hp_total h)"
        using freed rest(2,3) hi by (subst unat_add_small) simp_all
      then have "freed' + (hp_total h - of_nat e') + used' = hp_total h" by (simp only: word_unat_eq_iff)
      ultimately have "self_test_heap h found sb = Inr (m, sb')"
        unfolding self_test_heap_def using False le by (simp add: Cons walk walked Let_def del: walk_subs.simps)
      then show ?thesis using same_places_trans [OF same rest(1)] by (simp add: h_def)
    qed
  qed
qed

lemma self_test_heaps_ok:
  "tables_ok sb \<Longrightarrow> \<forall>h \<in> set hs. \<exists>p. valid_ptr sb p \<and> h = heap_at sb p \<Longrightarrow>
    \<exists>n sb'. self_test_heaps hs found sb = Inr (n, sb') \<and> same_places sb sb'"
proof (induction hs arbitrary: found sb)
  case Nil
  then show ?case by (simp add: same_places_def)
next
  case (Cons h hs)
  obtain p where p: "valid_ptr sb p" "h = heap_at sb p" using Cons.prems(2) by auto
  obtain n sb1 where one: "self_test_heap h found sb = Inr (n, sb1)" "same_places sb sb1"
    using self_test_heap_ok [OF Cons.prems(1) p(1)] p(2) by blast
  have heaps: "sb_heaps sb1 = sb_heaps sb" using one(2) by (simp add: same_places_def)
  have "\<forall>h \<in> set hs. \<exists>p. valid_ptr sb1 p \<and> h = heap_at sb1 p"
    using Cons.prems(2) heaps_cong(1,2) [OF heaps] by auto
  from Cons.IH [OF same_places_tables [OF one(2) Cons.prems(1)] this, of n] obtain m sb' where
    "self_test_heaps hs n sb1 = Inr (m, sb')" "same_places sb1 sb'" by blast
  then show ?case using one same_places_trans by (auto intro!: exI [of _ m] exI [of _ sb'])
qed

lemma self_test_ok:
  assumes "tables_ok sb"
  shows "\<exists>n sb'. self_test sb = Inr (n, sb') \<and> same_places sb sb'"
proof -
  have "\<exists>p. valid_ptr sb p \<and> h = heap_at sb p" if hin: "h \<in> set (concat (sb_heaps sb))" for h
  proof -
    obtain hs where hs: "hs \<in> set (sb_heaps sb)" "h \<in> set hs" using hin unfolding set_concat by blast
    obtain t where t: "t < length (sb_heaps sb)" "hs = sb_heaps sb ! t" using hs(1) by (metis in_set_conv_nth)
    obtain k where "k < length (sb_heaps sb ! t)" "h = sb_heaps sb ! t ! k" using hs(2) t(2) by (metis in_set_conv_nth)
    then show ?thesis by (intro exI [of _ "(t, k)"]) (simp add: valid_ptr_def heap_at_def t(1))
  qed
  then show ?thesis using self_test_heaps_ok [OF assms] self_test_lookups_ok [OF assms] by (simp add: self_test_def)
qed

section \<open>Creation\<close>

text \<open>Preparing the alias groups leaves heaps and lookups alone, gives no group a heap, and points the alias
  tables at existing groups.\<close>

definition core :: "suballocator \<Rightarrow> heap list list \<times> lookup list \<times> lookup list \<times> lookup list \<times> datagraph_lookup list list" where
  "core sb = (sb_heaps sb, sb_images sb, sb_buffers sb, sb_tensors sb, sb_sessions sb)"

definition alias_upto :: "nat \<Rightarrow> suballocator \<Rightarrow> bool" where
  "alias_upto n sb \<longleftrightarrow> (\<forall>a \<in> set (sb_image_alias sb) \<union> set (sb_buffer_alias sb) \<union> set (sb_tensor_alias sb).
    \<forall>gi. al_group a = Some gi \<longrightarrow> gi < n)"

definition unplaced :: "suballocator \<Rightarrow> bool" where
  "unplaced sb \<longleftrightarrow> (\<forall>g \<in> set (sb_alias_groups sb). ag_home g = None)"

lemma set_alias_lookup_frame:
  "core (set_alias_lookup t i a sb) = core sb" "sb_alias_groups (set_alias_lookup t i a sb) = sb_alias_groups sb"
  "alias_upto n sb \<Longrightarrow> al_group a = Some gi \<Longrightarrow> gi < n \<Longrightarrow> alias_upto n (set_alias_lookup t i a sb)"
  by (auto simp: set_alias_lookup_def core_def alias_upto_def split: object_type.splits dest!: set_update_subset_insert [THEN subsetD])

lemma add_members_frame:
  "add_members gi hr xs g sb = Inr (g', sb') \<Longrightarrow> alias_upto n sb \<Longrightarrow> gi < n \<Longrightarrow>
    core sb' = core sb \<and> sb_alias_groups sb' = sb_alias_groups sb \<and> ag_home g' = ag_home g \<and> alias_upto n sb'"
proof (induction xs arbitrary: hr g sb)
  case (Cons x xs)
  define r where "r = so_offset x - ag_capture_offset g"
  define sb1 where "sb1 = set_alias_lookup (so_type x) (so_index x) \<lparr>al_group = Some gi, al_offset = r\<rparr> sb"
  define g1 where "g1 = g\<lparr>ag_size := max (ag_size g) (r + mr_size (so_reqs x)),
    ag_alignment := max (ag_alignment g) (mr_alignment (so_reqs x)),
    ag_reqs := (if hr then merge_memory_requirements (ag_reqs g) (so_reqs x) else so_reqs x)\<rparr>"
  have "ag_home g1 = ag_home g" by (simp add: g1_def)
  moreover have "add_members gi True xs g1 sb1 = Inr (g', sb')"
    using Cons.prems(1) unfolding add_members.simps Let_def r_def [symmetric] g1_def [symmetric] sb1_def [symmetric]
    by (auto split: if_split_asm)
  moreover have "alias_upto n sb1" unfolding sb1_def by (rule set_alias_lookup_frame(3) [OF Cons.prems(2) _ Cons.prems(3)]) simp
  ultimately show ?case using Cons.IH [of True g1 sb1] Cons.prems(3) by (simp add: sb1_def set_alias_lookup_frame)
qed simp

lemma make_group_frame:
  assumes "make_group memory x xs sb = Inr sb'" "alias_upto (length (sb_alias_groups sb)) sb" "unplaced sb"
  shows "core sb' = core sb \<and> alias_upto (length (sb_alias_groups sb')) sb' \<and> unplaced sb'"
proof -
  obtain g1 sb1 r where members: "add_members (length (sb_alias_groups sb)) False (x # xs)
      \<lparr>ag_capture_memory_index = memory, ag_capture_offset = so_offset x, ag_size = 0, ag_alignment = 1,
         ag_reqs = so_reqs x, ag_tiling = so_tiling x, ag_home = None\<rparr> sb = Inr (g1, sb1)"
    and sb': "sb' = sb1\<lparr>sb_alias_groups := sb_alias_groups sb1 @ [g1\<lparr>ag_reqs := r\<rparr>]\<rparr>"
    using assms(1) by (auto simp: make_group_def Let_def simp del: add_members.simps split: if_splits)
  have "alias_upto (Suc (length (sb_alias_groups sb))) sb" using assms(2) by (auto simp: alias_upto_def less_Suc_eq)
  note frame = add_members_frame [OF members this]
  have "alias_upto m (sb1\<lparr>sb_alias_groups := gs\<rparr>) = alias_upto m sb1" for m gs by (simp add: alias_upto_def)
  moreover have "core (sb1\<lparr>sb_alias_groups := gs\<rparr>) = core sb1" for gs by (simp add: core_def)
  ultimately show ?thesis using frame assms(3) unfolding sb' by (simp add: unplaced_def)
qed

lemma alias_loop_frame:
  "alias_loop memory xs sb = Inr sb' \<Longrightarrow> alias_upto (length (sb_alias_groups sb)) sb \<Longrightarrow> unplaced sb \<Longrightarrow>
    core sb' = core sb \<and> alias_upto (length (sb_alias_groups sb')) sb' \<and> unplaced sb'"
proof (induction memory xs sb rule: alias_loop.induct)
  case (2 memory x xs sb)
  obtain members rest where over: "take_overlapping (so_offset x + so_req_size x) xs = Inr (members, rest)"
    and fits: "\<not> so_offset x > UINT64_MAX - so_req_size x"
    using 2(3) by (auto split: if_splits sum.splits)
  show ?case
  proof (cases "members = []")
    case True
    then show ?thesis using 2(1) [OF fits over refl True] 2(3-5) fits over by simp
  next
    case False
    then obtain sb1 where group: "make_group memory x members sb = Inr sb1" "alias_loop memory rest sb1 = Inr sb'"
      using 2(3) fits over by (auto split: sum.splits)
    note frame = make_group_frame [OF group(1) 2(4,5)]
    show ?thesis using 2(2) [OF fits over refl False group(1) group(2)] frame by simp
  qed
qed simp

lemma alias_memories_frame:
  "alias_memories xs ms sb = Inr sb' \<Longrightarrow> alias_upto (length (sb_alias_groups sb)) sb \<Longrightarrow> unplaced sb \<Longrightarrow>
    core sb' = core sb \<and> alias_upto (length (sb_alias_groups sb')) sb' \<and> unplaced sb'"
proof (induction ms arbitrary: sb)
  case (Cons m ms)
  then obtain sb1 where "alias_loop m (sort_capture (filter (\<lambda>x. so_backing_index x = m) xs)) sb = Inr sb1"
    "alias_memories xs ms sb1 = Inr sb'" by auto
  then show ?case using Cons.IH [of sb1] alias_loop_frame Cons.prems(2,3) by fastforce
qed simp

lemma empty_tables:
  assumes "core sb = core (create_empty lim hs ni nb nt ns threads run)" "alias_upto (length (sb_alias_groups sb)) sb" "unplaced sb"
  shows "tables_ok sb \<and> alias_ok sb"
proof -
  have fields: "sb_heaps sb = replicate threads []" "sb_images sb = replicate ni lookup_new" "sb_buffers sb = replicate nb lookup_new"
    "sb_tensors sb = replicate nt lookup_new" "sb_sessions sb = replicate ns []"
    using assms(1) by (simp_all add: core_def create_empty_def)
  have "\<not> valid_ptr sb p" for p by (auto simp: valid_ptr_def fields)
  moreover have "bound sb \<kappa> = None" for \<kappa>
    by (cases \<kappa>) (auto simp: bound_def slot_def fields place_of_def lookup_new_def)
  moreover have "sessions_distinct sb" by (auto simp: sessions_distinct_def fields session_keys_def)
  ultimately have "tables_ok sb" using assms(3) by (auto simp: tables_ok_def heaps_ok_def unplaced_def)
  then show ?thesis using assms(2) by (auto simp: alias_upto_def alias_ok_def)
qed

lemma create_tables:
  assumes "create lim driver use_dedicated heap_size device_index objs n_sessions threads run = Inr (objs', sb)"
  shows "tables_ok sb \<and> alias_ok sb"
proof -
  obtain images buffers tensors where objs: "objs = (images, buffers, tensors)" by (cases objs)
  define sb0 where "sb0 = create_empty lim heap_size (length images) (length buffers) (length tensors) n_sessions threads run"
  have "\<exists>ims bs ts sb1 b. prepare_alias_groups device_index ims bs ts sb0 = Inr sb1 \<and> sb = sb1\<lparr>sb_max_allocations := b\<rparr>"
  proof (cases run)
    case True
    then obtain ims bs ts sb1 b where "prepare_alias_groups device_index ims bs ts sb0 = Inr sb1" "sb = sb1\<lparr>sb_max_allocations := b\<rparr>"
      using assms unfolding create_def objs Let_def prod.case sb0_def [symmetric] by auto
    then show ?thesis by blast
  next
    case False
    then obtain ims bs ts where "prepare_alias_groups device_index ims bs ts sb0 = Inr sb"
      using assms unfolding create_def objs Let_def prod.case sb0_def [symmetric] by auto
    moreover have "sb = sb\<lparr>sb_max_allocations := sb_max_allocations sb\<rparr>" by simp
    ultimately show ?thesis by blast
  qed
  then obtain ims bs ts sb1 b where prep: "prepare_alias_groups device_index ims bs ts sb0 = Inr sb1"
    and sb: "sb = sb1\<lparr>sb_max_allocations := b\<rparr>" by blast
  have "alias_upto (length (sb_alias_groups sb0)) sb0" "unplaced sb0"
    by (auto simp: sb0_def create_empty_def alias_upto_def unplaced_def alias_lookup_new_def)
  then have frame: "core sb1 = core sb0 \<and> alias_upto (length (sb_alias_groups sb1)) sb1 \<and> unplaced sb1"
    using prep by (auto simp: prepare_alias_groups_def Let_def dest!: alias_memories_frame)
  show ?thesis
  proof (rule empty_tables)
    show "core sb = core (create_empty lim heap_size (length images) (length buffers) (length tensors) n_sessions threads run)"
      using frame by (simp add: sb core_def sb0_def)
    show "alias_upto (length (sb_alias_groups sb)) sb" "unplaced sb" using frame by (simp_all add: sb alias_upto_def unplaced_def)
  qed
qed


section \<open>Histories\<close>

text \<open>The steps a replay takes on the allocator: backing a new object or session binding with memory, releasing
  one, looking one up, and the self test itself. The replayer adds each tracked object once, with the nonzero size its
  requirements report.\<close>

inductive suballoc_step :: "suballocator \<Rightarrow> suballocator \<Rightarrow> bool" where
  add_object: "add_trackedobject vk tid native x sb = Inr (loc, sb') \<Longrightarrow> mr_size (so_reqs x) \<noteq> 0 \<Longrightarrow>
    (\<And>\<kappa>. sub_key (object_suballocation native x) = Some \<kappa> \<Longrightarrow> bound sb \<kappa> = None) \<Longrightarrow> suballoc_step sb sb'"
| add_session: "add_datagraphpipelinesession vk tid native index bindings bp oi sb = Inr (loc, bindings', sb') \<Longrightarrow>
    get_binding bp oi bindings = Some b \<Longrightarrow> mr_size (bn_reqs b) \<noteq> 0 \<Longrightarrow>
    bound sb (K_session (unat index) bp oi) = None \<Longrightarrow> suballoc_step sb sb'"
| free_image: "free_image i sb = Inr sb' \<Longrightarrow> suballoc_step sb sb'"
| free_buffer: "free_buffer i sb = Inr sb' \<Longrightarrow> suballoc_step sb sb'"
| free_tensor: "free_tensor i sb = Inr sb' \<Longrightarrow> suballoc_step sb sb'"
| free_session: "free_datagraphpipelinesession i sb = Inr sb' \<Longrightarrow> suballoc_step sb sb'"
| find_image: "find_image_memory i sb = Inr (loc, sb') \<Longrightarrow> suballoc_step sb sb'"
| find_buffer: "find_buffer_memory i sb = Inr (loc, sb') \<Longrightarrow> suballoc_step sb sb'"
| find_tensor: "find_tensor_memory i sb = Inr (loc, sb') \<Longrightarrow> suballoc_step sb sb'"
| find_session: "find_datagraphpipelinesession_memory i bp oi sb = Inr (loc, sb') \<Longrightarrow> suballoc_step sb sb'"
| test: "self_test sb = Inr (n, sb') \<Longrightarrow> suballoc_step sb sb'"

inductive suballoc_reachable :: "suballocator \<Rightarrow> bool" where
  created: "create lim driver use_dedicated heap_size device_index objs n_sessions threads run = Inr (objs', sb) \<Longrightarrow>
    suballoc_reachable sb"
| step: "suballoc_reachable sb \<Longrightarrow> suballoc_step sb sb' \<Longrightarrow> suballoc_reachable sb'"

lemma same_places_keeps: "same_places sb sb' \<Longrightarrow> tables_ok sb \<and> alias_ok sb \<Longrightarrow> tables_ok sb' \<and> alias_ok sb'"
  using same_places_tables [of sb sb'] by (auto simp: same_places_def dest: alias_ok_frame)

lemma self_test_keeps:
  assumes "self_test sb = Inr (n, sb')" "tables_ok sb \<and> alias_ok sb"
  shows "tables_ok sb' \<and> alias_ok sb'"
proof -
  have "same_places sb sb'" using self_test_ok [of sb] assms by auto
  then show ?thesis using same_places_keeps assms(2) by blast
qed

lemma suballoc_step_keeps:
  assumes "suballoc_step sb sb'" "tables_ok sb \<and> alias_ok sb"
  shows "tables_ok sb' \<and> alias_ok sb'"
  using assms
proof (induction rule: suballoc_step.induct)
  case (add_object vk tid native x sb loc sb')
  then show ?case using add_trackedobject_tables [of vk tid native x sb loc sb'] by blast
next
  case (add_session vk tid native index bindings bp oi sb loc bindings' sb' b)
  then show ?case using add_session_tables [of vk tid native index bindings bp oi sb loc bindings' sb' b] by blast
next
  case (free_session i sb sb')
  then show ?case using free_session_tables by blast
next
  case (test sb n sb')
  then show ?case using self_test_keeps by blast
next
  case (free_image i sb sb')
  then show ?case by (metis free_tables_ok(1))
next
  case (free_buffer i sb sb')
  then show ?case by (metis free_tables_ok(2))
next
  case (free_tensor i sb sb')
  then show ?case by (metis free_tables_ok(3))
qed (auto elim!: same_places_keeps [OF find_same(1)] same_places_keeps [OF find_same(2)] same_places_keeps [OF find_same(3)]
    same_places_keeps [OF find_session_same])

lemma suballoc_reachable_ok: "suballoc_reachable sb \<Longrightarrow> tables_ok sb \<and> alias_ok sb"
proof (induction rule: suballoc_reachable.induct)
  case (created lim driver use_dedicated heap_size device_index objs n_sessions threads run objs' sb)
  then show ?case by (rule create_tables)
next
  case (step sb sb')
  then show ?case using suballoc_step_keeps by simp
qed

text \<open>C17: in every state a replay can bring the allocator to, \<open>self_test\<close> passes: every lookup entry
  of an image, buffer, tensor or session points at a heap that holds it, every suballocation is found again at its
  own memory, offset and size, suballocations are in order and disjoint, and the free and used byte counts of every
  heap add up to its size. The test moves nothing.\<close>

theorem self_test_passes:
  "suballoc_reachable sb \<Longrightarrow> \<exists>n sb'. self_test sb = Inr (n, sb') \<and> sb_heaps sb' = sb_heaps sb \<and> bound sb' = bound sb"
  using self_test_ok [of sb] suballoc_reachable_ok [of sb] by (auto simp: same_places_def)

text \<open>A device with one memory type and two buffers of 4096 and 300 bytes: both are backed, then the first is
  released while its heap still holds both.\<close>

definition sample_reqs :: "u64 \<Rightarrow> memory_requirements" where
  "sample_reqs n = \<lparr>mr_size = n, mr_alignment = 256, mr_memoryTypeBits = 1, mr_prefers_dedicated = False,
    mr_requires_dedicated = False, mr_memory_flags = 6, mr_allocate_flags = 0\<rparr>"

definition sample_buffer :: "u32 \<Rightarrow> u64 \<Rightarrow> sub_object" where
  "sample_buffer i n = \<lparr>so_type = Type_buffer, so_index = i, so_parent_device_index = 0,
    so_backing_index = UINT32_MAX, so_size = n, so_offset = 0, so_req_size = n, so_reqs = sample_reqs n,
    so_dedicated_allocation = False, so_memory_flags = 6, so_tiling = TILING_LINEAR, so_swapchain = False, so_address_usage = False\<rparr>"

definition sample_vk :: vk_answer where
  "sample_vk = \<lparr>va_memory = Some 77, va_mapped = Some 0\<rparr>"

definition sample_created :: "((sub_object list \<times> sub_object list \<times> sub_object list) \<times> suballocator) result" where
  "sample_created = create \<lparr>dl_memory_types = [6], dl_bufferImageGranularity = 1, dl_maxMemoryAllocationCount = 4096\<rparr> so_reqs True
    (Some 65536) 0 ([], [sample_buffer 0 4096, sample_buffer 1 300], []) 0 1 True"

definition sample_first :: "(suballoc_location \<times> suballocator) result" where
  "sample_first = add_trackedobject sample_vk 0 1 (sample_buffer 0 4096) (snd (projr sample_created))"

definition sample_second :: "(suballoc_location \<times> suballocator) result" where
  "sample_second = add_trackedobject sample_vk 0 2 (sample_buffer 1 300) (snd (projr sample_first))"

definition sample_released :: "suballocator result" where
  "sample_released = free_buffer 0 (snd (projr sample_second))"

lemma sample_runs: "\<not> isl sample_created" "\<not> isl sample_first" "\<not> isl sample_second" "\<not> isl sample_released"
  by code_simp+

lemma sample_adds:
  assumes "suballoc_reachable sb" "\<not> isl (add_trackedobject vk tid native (sample_buffer i n) sb)" "n \<noteq> 0"
    and "bound sb (K_buffer (unat i)) = None"
  shows "suballoc_reachable (snd (projr (add_trackedobject vk tid native (sample_buffer i n) sb)))"
proof (rule suballoc_reachable.step [OF assms(1)], rule suballoc_step.add_object)
  show "add_trackedobject vk tid native (sample_buffer i n) sb = Inr (fst (projr (add_trackedobject vk tid native (sample_buffer i n) sb)),
      snd (projr (add_trackedobject vk tid native (sample_buffer i n) sb)))"
    using sum.collapse(2) [OF assms(2)] by simp
  show "mr_size (so_reqs (sample_buffer i n)) \<noteq> 0" using assms(3) by (simp add: sample_buffer_def sample_reqs_def)
  show "bound sb \<kappa> = None" if "sub_key (object_suballocation native (sample_buffer i n)) = Some \<kappa>" for \<kappa>
    using that assms(4) by (simp add: sub_key_def object_suballocation_def sample_buffer_def)
qed

lemma sample_reachable: "suballoc_reachable (projr sample_released)"
proof -
  have "suballoc_reachable (snd (projr sample_created))"
    using sum.collapse(2) [OF sample_runs(1)] unfolding sample_created_def
    by (intro suballoc_reachable.created [where objs' = "fst (projr sample_created)"]) (simp add: sample_created_def)
  then have "suballoc_reachable (snd (projr sample_first))" unfolding sample_first_def
    by (rule sample_adds) (use sample_runs(2) in \<open>simp add: sample_first_def\<close>, simp, code_simp)
  then have "suballoc_reachable (snd (projr sample_second))" unfolding sample_second_def
    by (rule sample_adds) (use sample_runs(3) in \<open>simp add: sample_second_def\<close>, simp, code_simp)
  then show ?thesis
    by (rule suballoc_reachable.step) (use sum.collapse(2) [OF sample_runs(4)] in \<open>auto simp: sample_released_def intro: suballoc_step.free_buffer\<close>)
qed

theorem self_test_passes_witness:
  "\<exists>n sb'. self_test (projr sample_released) = Inr (n, sb') \<and> bound sb' (K_buffer 0) = None \<and>
    bound sb' (K_buffer 1) = Some ((0, 0), 4096, 300, False)"
proof -
  have "bound (projr sample_released) (K_buffer 0) = None" "bound (projr sample_released) (K_buffer 1) = Some ((0, 0), 4096, 300, False)"
    by code_simp+
  then show ?thesis using self_test_passes [OF sample_reachable] by auto
qed

end
