(* ===== verification/AddressMap.thy ===== *)
theory AddressMap
  imports Prelude
begin

text \<open>The \<open>address_remapper\<close> of \<^verbatim>\<open>src/containers.h\<close>: which replayed object a captured device address points
  into, and the address it has in the replay.  The theory shows that a lookup finds a registered object
  containing the address whenever there is one, at the greatest base address, and prefers objects that
  have a replay address.\<close>

section \<open>Addresses while replaying\<close>

text \<open>Objects are pointers into a store \<open>heap\<close>; \<open>None\<close> is a null pointer.  Objects of type
  \<open>trackedobject\<close> carry an object type; the flag \<open>ro_is_as\<close> says it is an acceleration structure.\<close>

record remapped_object =
  ro_size :: u64
  ro_device_address :: u64
  ro_destroyed :: bool
  ro_bound :: bool
  ro_is_as :: bool

type_synonym 'p address_map = "(u64 \<times> 'p option list) list"

definition eligible :: "remapped_object \<Rightarrow> u64 \<Rightarrow> u64 \<Rightarrow> bool" where
  "eligible r base stored \<longleftrightarrow> \<not> (ro_destroyed r \<and> \<not> ro_is_as r) \<and> ro_size r \<noteq> 0 \<and> stored - base < ro_size r"

definition preferred :: "remapped_object \<Rightarrow> remapped_object \<Rightarrow> bool" where
  "preferred r b \<longleftrightarrow>
    (ro_device_address r \<noteq> 0 \<and> \<not> ro_device_address b \<noteq> 0) \<or>
    ((ro_device_address r \<noteq> 0) = (ro_device_address b \<noteq> 0) \<and> \<not> ro_destroyed r \<and> ro_destroyed b) \<or>
    ((ro_device_address r \<noteq> 0) = (ro_device_address b \<noteq> 0) \<and> ro_bound r \<and> \<not> ro_bound b) \<or>
    ((ro_device_address r \<noteq> 0) = (ro_device_address b \<noteq> 0) \<and> ro_destroyed r = ro_destroyed b \<and> ro_bound r = ro_bound b \<and>
      (ro_size r > ro_size b \<or> ro_size r = ro_size b))"

fun choose_best :: "('p \<Rightarrow> remapped_object) \<Rightarrow> 'p option \<Rightarrow> 'p option list \<Rightarrow> u64 \<Rightarrow> u64 \<Rightarrow> 'p option" where
  "choose_best heap best [] base stored = best"
| "choose_best heap best (None # es) base stored = choose_best heap best es base stored"
| "choose_best heap best (Some p # es) base stored =
    (if \<not> eligible (heap p) base stored then choose_best heap best es base stored
     else if (case best of None \<Rightarrow> True | Some b \<Rightarrow> preferred (heap p) (heap b))
     then choose_best heap (Some p) es base stored
     else choose_best heap best es base stored)"

fun walk_candidates :: "('p \<Rightarrow> remapped_object) \<Rightarrow> 'p address_map \<Rightarrow> u64 \<Rightarrow> ('p \<times> u64) option" where
  "walk_candidates heap [] stored = None"
| "walk_candidates heap ((base, entries) # m) stored =
    (if base > stored then walk_candidates heap m stored
     else case choose_best heap None entries base stored of
       Some p \<Rightarrow> Some (p, base)
     | None \<Rightarrow> walk_candidates heap m stored)"

definition find_candidate :: "('p \<Rightarrow> remapped_object) \<Rightarrow> 'p address_map \<Rightarrow> u64 \<Rightarrow> ('p \<times> u64) option" where
  "find_candidate heap m stored = walk_candidates heap (rev (takeWhile (\<lambda>(base, _). base \<le> stored) m)) stored"

definition get_by_address :: "('p \<Rightarrow> remapped_object) \<Rightarrow> 'p address_map \<Rightarrow> u64 \<Rightarrow> 'p option" where
  "get_by_address heap m stored = map_option fst (find_candidate heap m stored)"

definition translate_address :: "('p \<Rightarrow> remapped_object) \<Rightarrow> 'p address_map \<Rightarrow> u64 \<Rightarrow> u64" where
  "translate_address heap m stored =
    (case find_candidate heap m stored of
       None \<Rightarrow> 0
     | Some (p, base) \<Rightarrow> if ro_device_address (heap p) = 0 then 0
         else ro_device_address (heap p) + (stored - base))"

definition is_candidate :: "('p \<Rightarrow> remapped_object) \<Rightarrow> 'p address_map \<Rightarrow> u64 \<Rightarrow> bool" where
  "is_candidate heap m stored \<longleftrightarrow> translate_address heap m stored \<noteq> 0 \<or>
    translate_address heap m (or (drop_bit 32 stored) (push_bit 32 stored)) \<noteq> 0"

fun address_insert :: "u64 \<Rightarrow> 'p \<Rightarrow> 'p address_map \<Rightarrow> 'p address_map" where
  "address_insert addr p [] = [(addr, [Some p])]"
| "address_insert addr p ((base, entries) # m) =
    (if addr < base then (addr, [Some p]) # (base, entries) # m
     else if addr = base then (base, if Some p \<in> set entries then entries else entries @ [Some p]) # m
     else (base, entries) # address_insert addr p m)"

definition address_add :: "u64 \<Rightarrow> 'p option \<Rightarrow> 'p address_map \<Rightarrow> 'p address_map" where
  "address_add addr q m = (case q of None \<Rightarrow> m | Some p \<Rightarrow> if addr = 0 then m else address_insert addr p m)"

fun address_erase :: "u64 \<Rightarrow> 'p \<Rightarrow> 'p address_map \<Rightarrow> 'p address_map" where
  "address_erase addr p [] = []"
| "address_erase addr p ((base, entries) # m) =
    (if base = addr then
       (let es = filter (\<lambda>q. q \<noteq> Some p) entries in if es = [] then m else (base, es) # m)
     else (base, entries) # address_erase addr p m)"

definition address_remove :: "u64 \<Rightarrow> 'p option \<Rightarrow> 'p address_map \<Rightarrow> 'p address_map" where
  "address_remove addr q m = (case q of None \<Rightarrow> m | Some p \<Rightarrow> if addr = 0 then m else address_erase addr p m)"

section \<open>The map finds the object an address points into\<close>

definition registered :: "'p address_map \<Rightarrow> (u64 \<times> 'p) set" where
  "registered m = {(a, p). \<exists>es. (a, es) \<in> set m \<and> Some p \<in> set es}"

definition address_inv :: "'p address_map \<Rightarrow> bool" where
  "address_inv m \<longleftrightarrow> sorted_wrt (<) (map fst m)"

lemma registered_Nil [simp]: "registered [] = {}"
  by (simp add: registered_def)

lemma registered_Cons [simp]: "(b, p) \<in> registered ((a, es) # m) \<longleftrightarrow> b = a \<and> Some p \<in> set es \<or> (b, p) \<in> registered m"
  by (auto simp: registered_def)

lemma address_inv_simps [simp]:
  "address_inv []"
  "address_inv ((a, es) # m) \<longleftrightarrow> (\<forall>b \<in> fst ` set m. a < b) \<and> address_inv m"
  by (auto simp: address_inv_def)

lemma registered_fst: "(b, p) \<in> registered m \<Longrightarrow> b \<in> fst ` set m"
  by (force simp: registered_def)

lemma address_insert_fst: "fst ` set (address_insert a p m) = insert a (fst ` set m)"
  by (induction a p m rule: address_insert.induct) auto

lemma address_erase_fst: "fst ` set (address_erase a p m) \<subseteq> fst ` set m"
  by (induction a p m rule: address_erase.induct) (auto simp: Let_def)

lemma address_insert_inv: "address_inv m \<Longrightarrow> address_inv (address_insert a p m)"
  by (induction a p m rule: address_insert.induct) (auto simp: address_insert_fst dest: order_less_trans)

lemma address_erase_inv: "address_inv m \<Longrightarrow> address_inv (address_erase a p m)"
proof (induction a p m rule: address_erase.induct)
  case (2 a p base es m)
  have "\<forall>b \<in> fst ` set (address_erase a p m). base < b"
    using address_erase_fst [of a p m] 2(2) by (meson address_inv_simps(2) subsetD)
  with 2 show ?case by (auto simp: Let_def)
qed simp

lemma registered_insert: "(b, q) \<in> registered (address_insert a p m) \<longleftrightarrow> b = a \<and> q = p \<or> (b, q) \<in> registered m"
  by (induction a p m rule: address_insert.induct) auto

lemma registered_erase:
  "address_inv m \<Longrightarrow> (b, q) \<in> registered (address_erase a p m) \<longleftrightarrow> (b, q) \<in> registered m \<and> (b, q) \<noteq> (a, p)"
proof (induction a p m rule: address_erase.induct)
  case (2 a p base es m)
  have fresh: "(base, q) \<notin> registered m" using 2(2) by (auto dest: registered_fst)
  show ?case
  proof (cases "base = a")
    case True
    have "(b, q) \<in> registered ((base, filter (\<lambda>q. q \<noteq> Some p) es) # m) \<longleftrightarrow>
        (b, q) \<in> registered ((base, es) # m) \<and> (b, q) \<noteq> (a, p)"
      using fresh True by auto
    moreover have "(b, q) \<in> registered (address_erase a p ((base, es) # m)) \<longleftrightarrow>
        (b, q) \<in> registered ((base, filter (\<lambda>q. q \<noteq> Some p) es) # m)"
      using True by (cases "filter (\<lambda>q. q \<noteq> Some p) es") (simp_all add: Let_def)
    ultimately show ?thesis by blast
  next
    case False
    then show ?thesis using 2 by auto
  qed
qed simp

lemma choose_best_None:
  "choose_best heap best es base stored = None \<longleftrightarrow>
    best = None \<and> (\<forall>p. Some p \<in> set es \<longrightarrow> \<not> eligible (heap p) base stored)"
proof (induction es arbitrary: best)
  case (Cons e es)
  then show ?case by (cases e) auto
qed simp

lemma choose_best_Some:
  "choose_best heap best es base stored = Some p \<Longrightarrow>
    best = Some p \<or> (Some p \<in> set es \<and> eligible (heap p) base stored)"
proof (induction es arbitrary: best)
  case (Cons e es)
  then show ?case by (cases e) (auto split: if_splits)
qed simp

lemma choose_best_has_address:
  assumes "choose_best heap best es base stored = Some p" "ro_device_address (heap p) = 0"
  shows "(\<forall>b. best = Some b \<longrightarrow> ro_device_address (heap b) = 0) \<and>
    (\<forall>q. Some q \<in> set es \<longrightarrow> eligible (heap q) base stored \<longrightarrow> ro_device_address (heap q) = 0)"
  using assms
proof (induction es arbitrary: best)
  case (Cons e es)
  show ?case
  proof (cases e)
    case (Some q)
    consider "\<not> eligible (heap q) base stored"
      | "eligible (heap q) base stored" "best = None \<or> preferred (heap q) (heap (the best))"
      | b where "eligible (heap q) base stored" "best = Some b" "\<not> preferred (heap q) (heap b)"
      by (cases best) auto
    then show ?thesis
    proof cases
      case 2
      then have "choose_best heap (Some q) es base stored = Some p" using Cons.prems(1) Some by (auto split: option.splits)
      from Cons.IH [OF this Cons.prems(2)] 2 show ?thesis using Some by (auto simp: preferred_def)
    next
      case 3
      then have "choose_best heap (Some b) es base stored = Some p" using Cons.prems(1) Some by simp
      from Cons.IH [OF this Cons.prems(2)] 3 show ?thesis using Some by (auto simp: preferred_def)
    qed (use Cons Some in auto)
  qed (use Cons in auto)
qed simp

lemma walk_candidates_None:
  "walk_candidates heap m stored = None \<longleftrightarrow>
    (\<forall>b q. (b, q) \<in> registered m \<longrightarrow> b \<le> stored \<longrightarrow> \<not> eligible (heap q) b stored)"
proof (induction heap m stored rule: walk_candidates.induct)
  case (2 heap b es m stored)
  show ?case
  proof (cases "stored < b")
    case True
    then show ?thesis using 2(1) by auto
  next
    case False
    then show ?thesis
    proof (cases "choose_best heap None es b stored")
      case None
      then have "\<not> eligible (heap q) b stored" if "Some q \<in> set es" for q using that by (simp add: choose_best_None)
      with None show ?thesis using False 2(2) by auto
    next
      case (Some p)
      then show ?thesis using False choose_best_Some [OF Some] by force
    qed
  qed
qed simp

lemma walk_candidates_Some:
  assumes "walk_candidates heap m stored = Some (p, base)" "sorted_wrt (>) (map fst m)"
  shows "base \<le> stored \<and> (\<exists>es. (base, es) \<in> set m \<and> choose_best heap None es base stored = Some p) \<and>
    (\<forall>b q. (b, q) \<in> registered m \<longrightarrow> base < b \<longrightarrow> b \<le> stored \<longrightarrow> \<not> eligible (heap q) b stored)"
  using assms
proof (induction heap m stored rule: walk_candidates.induct)
  case (2 heap b es m stored)
  have below: "c < b" if "(c, q) \<in> registered m" for c q using registered_fst [OF that] 2(4) by auto
  show ?case
  proof (cases "stored < b \<or> choose_best heap None es b stored = None")
    case True
    then have "walk_candidates heap m stored = Some (p, base)" using 2(3) by (auto split: if_splits)
    then have "base \<le> stored \<and> (\<exists>es. (base, es) \<in> set m \<and> choose_best heap None es base stored = Some p) \<and>
      (\<forall>b q. (b, q) \<in> registered m \<longrightarrow> base < b \<longrightarrow> b \<le> stored \<longrightarrow> \<not> eligible (heap q) b stored)"
      using True 2(1,2,4) by (cases "stored < b") auto
    with True show ?thesis by (auto simp: choose_best_None)
  next
    case False
    then have "base = b" "choose_best heap None es b stored = Some p" "b \<le> stored" using 2(3) by auto
    with below show ?thesis by force
  qed
qed simp

lemma registered_rev [simp]: "registered (rev m) = registered m"
  by (simp add: registered_def)

lemma registered_takeWhile:
  "address_inv m \<Longrightarrow>
    (b, q) \<in> registered (takeWhile (\<lambda>(base, _). base \<le> stored) m) \<longleftrightarrow> (b, q) \<in> registered m \<and> b \<le> stored"
proof (induction m)
  case (Cons be m)
  obtain base es where be: "be = (base, es)" by force
  have "\<not> b \<le> stored" if "(b, q) \<in> registered m" "\<not> base \<le> stored"
    using registered_fst [OF that(1)] that(2) Cons.prems by (auto simp: be)
  with Cons show ?case by (auto simp: be)
qed simp

lemma find_candidate_None:
  "address_inv m \<Longrightarrow> find_candidate heap m stored = None \<longleftrightarrow>
    (\<forall>b q. (b, q) \<in> registered m \<longrightarrow> b \<le> stored \<longrightarrow> \<not> eligible (heap q) b stored)"
  by (auto simp: find_candidate_def walk_candidates_None registered_takeWhile)

lemma find_candidate_Some:
  assumes "address_inv m" "find_candidate heap m stored = Some (p, base)"
  shows "(base, p) \<in> registered m" "base \<le> stored" "eligible (heap p) base stored"
    "(b, q) \<in> registered m \<Longrightarrow> base < b \<Longrightarrow> b \<le> stored \<Longrightarrow> \<not> eligible (heap q) b stored"
    "(base, q) \<in> registered m \<Longrightarrow> eligible (heap q) base stored \<Longrightarrow> ro_device_address (heap q) \<noteq> 0 \<Longrightarrow>
      ro_device_address (heap p) \<noteq> 0"
proof -
  let ?m = "rev (takeWhile (\<lambda>(base, _). base \<le> stored) m)"
  have "sorted_wrt (<) (map fst (takeWhile (\<lambda>(base, _). base \<le> stored) m))"
    using assms(1) by (metis address_inv_def sorted_wrt_append takeWhile_dropWhile_id map_append)
  then have "sorted_wrt (>) (map fst ?m)" by (simp add: sorted_wrt_rev rev_map [symmetric])
  note found = walk_candidates_Some [OF assms(2) [unfolded find_candidate_def] this]
  from found obtain es where es: "(base, es) \<in> set ?m" "choose_best heap None es base stored = Some p" by blast
  with choose_best_Some [OF es(2)] have "(base, p) \<in> registered ?m" and el: "eligible (heap p) base stored"
    by (auto simp: registered_def)
  then show "(base, p) \<in> registered m" "eligible (heap p) base stored" by (simp_all add: registered_takeWhile [OF assms(1)])
  show "base \<le> stored" using found by blast
  show "\<not> eligible (heap q) b stored" if "(b, q) \<in> registered m" "base < b" "b \<le> stored"
    using found that registered_takeWhile [OF assms(1), of b q stored] by simp
  have only: "es' = es" if "(base, es') \<in> set m" for es'
  proof -
    have "distinct (map fst m)" using assms(1) by (simp add: address_inv_def strict_sorted_iff)
    moreover have "(base, es) \<in> set m" using es(1) by (auto dest: set_takeWhileD)
    ultimately show ?thesis using that by (metis eq_key_imp_eq_value)
  qed
  show "ro_device_address (heap p) \<noteq> 0"
    if "(base, q) \<in> registered m" "eligible (heap q) base stored" "ro_device_address (heap q) \<noteq> 0"
  proof -
    obtain es' where "(base, es') \<in> set m" "Some q \<in> set es'" using \<open>(base, q) \<in> registered m\<close> by (auto simp: registered_def)
    with only have "Some q \<in> set es" by blast
    then show ?thesis using choose_best_has_address [OF es(2)] that(2,3) by blast
  qed
qed

section \<open>Histories of registrations\<close>

datatype 'p address_op = Add u64 "'p option" | Remove u64 "'p option"

definition address_step :: "'p address_op \<Rightarrow> 'p address_map \<Rightarrow> 'p address_map" where
  "address_step op = (case op of Add a q \<Rightarrow> address_add a q | Remove a q \<Rightarrow> address_remove a q)"

text \<open>What the operations mean: the set of addresses and objects that are registered.\<close>

definition live_step :: "'p address_op \<Rightarrow> (u64 \<times> 'p) set \<Rightarrow> (u64 \<times> 'p) set" where
  "live_step op live = (case op of
     Add a (Some p) \<Rightarrow> if a = 0 then live else insert (a, p) live
   | Remove a (Some p) \<Rightarrow> live - {(a, p)}
   | _ \<Rightarrow> live)"

text \<open>The address map refines a set: no key is zero, the keys are sorted, the entries are the set.\<close>

definition address_refines :: "(u64 \<times> 'p) set \<Rightarrow> 'p address_map \<Rightarrow> bool" where
  "address_refines live m \<longleftrightarrow> address_inv m \<and> registered m = live \<and> (\<forall>p. (0, p) \<notin> live)"

lemma address_step_refines: "address_refines live m \<Longrightarrow> address_refines (live_step op live) (address_step op m)"
  by (auto simp: address_refines_def address_step_def live_step_def address_add_def address_remove_def
      address_insert_inv address_erase_inv registered_insert registered_erase split: address_op.splits option.splits)

lemma address_fold_refines:
  "address_refines live m \<Longrightarrow> address_refines (fold live_step ops live) (fold address_step ops m)"
  by (induction ops arbitrary: live m) (auto dest: address_step_refines)

text \<open>C15: Address translation is exact.  After any sequence of registrations and removals, an address
  is translated through an object that is still registered at a base not above the address and that contains
  it; no registered object with a greater base contains the address; the translation keeps the offset from the
  base; and if there is an object containing the address, one is found.\<close>

theorem translate_address_exact:
  fixes ops :: "'p address_op list"
  defines "live \<equiv> fold live_step ops {}" and "m \<equiv> fold address_step ops []"
  assumes "(b, q) \<in> live" "b \<le> stored" "eligible (heap q) b stored"
  shows "\<exists>p base. get_by_address heap m stored = Some p \<and> (base, p) \<in> live \<and> b \<le> base \<and> base \<le> stored \<and>
    eligible (heap p) base stored \<and>
    (b = base \<longrightarrow> ro_device_address (heap q) \<noteq> 0 \<longrightarrow> ro_device_address (heap p) \<noteq> 0) \<and>
    (ro_device_address (heap p) \<noteq> 0 \<longrightarrow> translate_address heap m stored = ro_device_address (heap p) + (stored - base))"
proof -
  have "address_refines live m"
    unfolding live_def m_def by (rule address_fold_refines) (simp add: address_refines_def)
  then have iv: "address_inv m" and live: "registered m = live" by (simp_all add: address_refines_def)
  obtain p base where found: "find_candidate heap m stored = Some (p, base)"
    using assms(3-5) find_candidate_None [OF iv, of heap stored] live by (cases "find_candidate heap m stored") auto
  note ok = find_candidate_Some [OF iv found]
  have "b \<le> base" using ok(4) assms(3-5) live by (metis linorder_not_less)
  moreover have "b = base \<longrightarrow> ro_device_address (heap q) \<noteq> 0 \<longrightarrow> ro_device_address (heap p) \<noteq> 0"
    using ok(5) assms(3,5) live by blast
  ultimately show ?thesis using ok(1-3) live
    by (intro exI [of _ p] exI [of _ base]) (simp add: get_by_address_def translate_address_def found)
qed

theorem translate_address_exact_witness:
  "\<exists>p base :: u64. get_by_address (\<lambda>p :: nat. \<lparr>ro_size = 16, ro_device_address = 4096, ro_destroyed = False, ro_bound = True, ro_is_as = False\<rparr>)
    (fold address_step [Add 100 (Some 1), Add 200 (Some 2), Remove 200 (Some 2)] []) 105 = Some p \<and> 100 \<le> base \<and> base \<le> 105"
  using translate_address_exact [of 100 1 "[Add 100 (Some 1), Add 200 (Some 2), Remove 200 (Some 2)]" 105
      "\<lambda>p :: nat. \<lparr>ro_size = 16, ro_device_address = 4096, ro_destroyed = False, ro_bound = True, ro_is_as = False\<rparr>"]
  by (auto simp: live_step_def eligible_def)

end
