(* ===== verification/Packets.thy ===== *)
theory Packets
  imports Pipeline Containers
begin

text \<open>Packets in a trace stream: the framing the per-thread controllers put around every recorded call, memory update
  and thread barrier.  The capture side is \<open>lava_file_writer\<close> of \<^verbatim>\<open>src/write.h\<close> and \<^verbatim>\<open>src/write.cpp\<close>, the
  replay side \<open>lava_file_reader\<close> of \<^verbatim>\<open>src/read.h\<close> and \<^verbatim>\<open>src/read.cpp\<close>.  A packet is its type, its size in bytes
  and its payload; the size is stored when the packet ends, through a pointer into a chunk that \<open>freeze\<close> keeps
  from being handed to the compressor.\<close>

section \<open>Values written later\<close>

text \<open>The pointer \<open>write_value_later\<close> returns: the number of the chunk, counted from the oldest chunk that is held,
  and the offset in it.  The current chunk is the one after the held ones.\<close>

type_synonym later_ptr = "nat \<times> nat"

definition write_later :: "codec \<Rightarrow> nat \<Rightarrow> 'a::len word \<Rightarrow> file_writer \<Rightarrow> (later_ptr \<times> file_writer) result" where
  "write_later cx n v w = result_bind (check_space cx n w) (\<lambda>w. let w1 = freeze w in
    result_bind (copy_bytes (to_le n v) w1) (\<lambda>w2. Inr ((length (fw_held w1), fw_uidx w1), w2)))"

text \<open>Storing through the pointer; a chunk that is no longer there is an access to freed memory.\<close>

definition store_later :: "later_ptr \<Rightarrow> bytes \<Rightarrow> file_writer \<Rightarrow> file_writer result" where
  "store_later ptr data w = (case ptr of (k, off) \<Rightarrow>
    if k = length (fw_held w) then Inr (w\<lparr>fw_chunk := overwrite (fw_chunk w) off data\<rparr>)
    else if k < length (fw_held w) then
      (let i = length (fw_held w) - 1 - k in
       Inr (w\<lparr>fw_held := (fw_held w)[i := overwrite (fw_held w ! i) off data]\<rparr>))
    else Inl Out_of_range)"

section \<open>The writer\<close>

abbreviation PACKET_VULKAN_API_CALL :: u8 where "PACKET_VULKAN_API_CALL \<equiv> 2"
abbreviation PACKET_THREAD_BARRIER :: u8 where "PACKET_THREAD_BARRIER \<equiv> 3"

record framedata =
  fd_start_pos :: u64
  fd_packet_index :: u32
  fd_global_frame :: u32
  fd_local_frame :: u32

record packet_checkpoint =
  ck_packet :: u32
  ck_position :: u64

record lava_file_writer =
  lw_stream :: file_writer
  lw_current :: change_source
  lw_frames :: "framedata list"
  lw_packet_checkpoints :: "packet_checkpoint list"
  lw_checkpoint_chunk_offset :: u64
  lw_packet_start :: u64
  lw_packet_size :: "later_ptr option"
  lw_packet_open :: bool

text \<open>The constructor; the thread index is narrowed to the eight bits of \<open>change_source\<close>.\<close>

definition lava_file_writer_new :: "u16 \<Rightarrow> file_writer \<Rightarrow> lava_file_writer" where
  "lava_file_writer_new tid w = \<lparr>lw_stream = w, lw_current = change_source_new\<lparr>cs_thread := ucast tid, cs_packet := 0\<rparr>,
    lw_frames = [], lw_packet_checkpoints = [], lw_checkpoint_chunk_offset = 0, lw_packet_start = 0,
    lw_packet_size = None, lw_packet_open = False\<rparr>"

definition current_chunk_uncompressed_offset :: "file_writer \<Rightarrow> u64" where
  "current_chunk_uncompressed_offset w = fw_bytes w - of_nat (fw_uidx w)"

definition end_packet :: "lava_file_writer \<Rightarrow> lava_file_writer result" where
  "end_packet lw =
    (if \<not> lw_packet_open lw then Inr lw
     else (case lw_packet_size lw of
        None \<Rightarrow> Inl Assertion_failed
      | Some ptr \<Rightarrow>
          (let sz = fw_bytes (lw_stream lw) - lw_packet_start lw in
           if sz > ucast UINT32_MAX then Inl Aborted
           else result_bind (store_later ptr (to_le 4 (ucast sz :: u32)) (lw_stream lw)) (\<lambda>w.
             Inr (lw\<lparr>lw_stream := thaw w, lw_packet_size := None, lw_packet_open := False,
               lw_current := (lw_current lw)\<lparr>cs_packet := cs_packet (lw_current lw) + 1\<rparr>\<rparr>)))))"

definition note_checkpoint :: "lava_file_writer \<Rightarrow> lava_file_writer" where
  "note_checkpoint lw =
    (let chunk_offset = current_chunk_uncompressed_offset (lw_stream lw) in
     if lw_packet_checkpoints lw = [] \<or> chunk_offset > lw_checkpoint_chunk_offset lw
     then lw\<lparr>lw_packet_checkpoints := lw_packet_checkpoints lw @
         [\<lparr>ck_packet = cs_packet (lw_current lw), ck_position = fw_bytes (lw_stream lw)\<rparr>],
       lw_checkpoint_chunk_offset := chunk_offset\<rparr>
     else lw)"

definition begin_packet :: "codec \<Rightarrow> u8 \<Rightarrow> lava_file_writer \<Rightarrow> lava_file_writer result" where
  "begin_packet cx type lw = result_bind (end_packet lw) (\<lambda>lw0.
    let lw1 = note_checkpoint lw0;
        current = (lw_current lw1)\<lparr>cs_packet_type := type,
          cs_call_id := (if type \<noteq> PACKET_VULKAN_API_CALL then - 1 else cs_call_id (lw_current lw1))\<rparr>
    in result_bind (write_uint8_t cx type (lw_stream lw1)) (\<lambda>w.
       result_bind (write_later cx 4 (0 :: u32) w) (\<lambda>(ptr, w).
       Inr (lw1\<lparr>lw_stream := w, lw_current := current, lw_packet_start := fw_bytes (lw_stream lw1),
         lw_packet_size := Some ptr, lw_packet_open := True\<rparr>))))"

text \<open>Whatever the controllers and the generated code write into an open packet goes to the stream underneath.\<close>

definition on_stream :: "(file_writer \<Rightarrow> file_writer result) \<Rightarrow> lava_file_writer \<Rightarrow> lava_file_writer result" where
  "on_stream f lw = result_bind (f (lw_stream lw)) (\<lambda>w. Inr (lw\<lparr>lw_stream := w\<rparr>))"

text \<open>\<open>write_api_command\<close> without the barrier it may inject first, which \<open>ThreadSync\<close> models.\<close>

definition write_api_header :: "codec \<Rightarrow> u16 \<Rightarrow> lava_file_writer \<Rightarrow> lava_file_writer result" where
  "write_api_header cx i lw = result_bind (begin_packet cx PACKET_VULKAN_API_CALL lw)
    (on_stream (\<lambda>w. result_bind (write_uint16_t cx i w) (write_uint32_t cx 0)))"

text \<open>A handle: the object's index and the thread and packet that changed it last.  A destroyed or uninitialized
  object fails the assertion; a null pointer is \<open>None\<close>.\<close>

record trackable =
  tr_index :: u32
  tr_created :: bool
  tr_last_modified :: change_source

definition write_handle :: "codec \<Rightarrow> trackable option \<Rightarrow> file_writer \<Rightarrow> file_writer result" where
  "write_handle cx t w = (case t of
     Some t \<Rightarrow> assert_that (tr_created t)
       (result_bind (write_uint32_t cx (tr_index t) w) (\<lambda>w.
        result_bind (write_uint8_t cx (cs_thread (tr_last_modified t)) w) (write_uint32_t cx (cs_packet (tr_last_modified t)))))
   | None \<Rightarrow> result_bind (write_uint32_t cx CONTAINER_NULL_VALUE w) (\<lambda>w.
       result_bind (write_uint8_t cx (- 1) w) (write_uint32_t cx 0)))"

fun write_indices :: "codec \<Rightarrow> u32 list \<Rightarrow> file_writer \<Rightarrow> file_writer result" where
  "write_indices cx [] w = Inr w"
| "write_indices cx (i # is) w = assert_that (i \<noteq> UINT32_MAX) (result_bind (write_uint32_t cx i w) (write_indices cx is))"

definition write_thread_barrier :: "codec \<Rightarrow> u32 list \<Rightarrow> lava_file_writer \<Rightarrow> lava_file_writer result" where
  "write_thread_barrier cx packet_indices lw = assert_that (length packet_indices \<le> 255)
    (result_bind (begin_packet cx PACKET_THREAD_BARRIER lw) (\<lambda>lw.
     result_bind (on_stream (\<lambda>w. result_bind (write_uint8_t cx (of_nat (length packet_indices)) w)
       (write_indices cx packet_indices)) lw) end_packet))"

definition fw_self_test :: "file_writer \<Rightarrow> bool" where
  "fw_self_test w \<longleftrightarrow> (fw_done_compressing w \<longrightarrow> fw_done_feeding w) \<and> (\<not> fw_holding w \<longrightarrow> fw_held w = [])"

definition lw_new_frame :: "u32 \<Rightarrow> lava_file_writer \<Rightarrow> lava_file_writer result" where
  "lw_new_frame global_frame lw =
    (let current = lw_current lw;
         data = \<lparr>fd_start_pos = fw_bytes (lw_stream lw), fd_packet_index = cs_packet current,
           fd_global_frame = global_frame, fd_local_frame = cs_frame current\<rparr>
     in assert_that (sint global_frame \<ge> sint (cs_frame current)) (assert_that (fw_self_test (lw_stream lw))
       (Inr (lw\<lparr>lw_frames := lw_frames lw @ [data], lw_current := current\<lparr>cs_frame := cs_frame current + 1\<rparr>\<rparr>))))"

section \<open>The reader\<close>

text \<open>\<open>lr_completed\<close> is this thread's entry of \<open>thread_packet_numbers\<close>.\<close>

record lava_file_reader =
  lr_stream :: file_reader
  lr_current :: change_source
  lr_packet_start :: nat
  lr_packet_end :: nat
  lr_packet_size :: u32
  lr_packet_open :: bool
  lr_completed :: u32
  lr_terminated :: bool

definition lava_file_reader_new :: "u8 \<Rightarrow> file_reader \<Rightarrow> lava_file_reader" where
  "lava_file_reader_new tid r = \<lparr>lr_stream = r,
    lr_current = change_source_new\<lparr>cs_thread := tid, cs_packet := 0, cs_frame := 0\<rparr>,
    lr_packet_start = 0, lr_packet_end = 0, lr_packet_size = 0, lr_packet_open = False, lr_completed = 0, lr_terminated = False\<rparr>"

definition complete_packet :: "lava_file_reader \<Rightarrow> lava_file_reader result" where
  "complete_packet lr =
    (if \<not> lr_packet_open lr then Inr lr
     else if fr_read (lr_stream lr) > lr_packet_end lr then Inl Aborted
     else Inr (lr\<lparr>lr_stream := (lr_stream lr)\<lparr>fr_read := lr_packet_end lr\<rparr>, lr_packet_open := False,
       lr_current := (lr_current lr)\<lparr>cs_packet := cs_packet (lr_current lr) + 1\<rparr>, lr_completed := lr_completed lr + 1\<rparr>))"

text \<open>\<open>step\<close>, less the bookkeeping for printing packets; \<open>stop\<close> is \<open>stop_requested\<close> of the parent, and type 0 is
  the end of the stream.\<close>

definition lr_step :: "decoder \<Rightarrow> nat \<Rightarrow> bool \<Rightarrow> lava_file_reader \<Rightarrow> (u8 \<times> lava_file_reader) result" where
  "lr_step dx page stop lr = result_bind (complete_packet lr) (\<lambda>lr.
    if stop \<or> fr_finished (lr_stream lr) then Inr (0, lr\<lparr>lr_terminated := True\<rparr>)
    else result_bind (release_checkpoint page (lr_stream lr)) (\<lambda>s0.
      result_bind (read_value (fr_take dx) 1 s0) (\<lambda>(r :: u8, s1). assert_that (r \<noteq> 0)
      (result_bind (read_value (fr_take dx) 4 s1) (\<lambda>(sz :: u32, s2).
        if sz < 5 then Inl Aborted
        else Inr (r, lr\<lparr>lr_stream := s2, lr_packet_start := fr_read s0, lr_packet_size := sz,
          lr_packet_end := fr_read s0 + unat sz, lr_packet_open := True,
          lr_current := (lr_current lr)\<lparr>cs_packet_type := r,
            cs_call_id := (if r \<noteq> PACKET_VULKAN_API_CALL then - 1 else cs_call_id (lr_current lr))\<rparr>\<rparr>))))))"

text \<open>\<open>read_apicall\<close>: the dictionary translates the recorded call number, \<open>func\<close> is the generated replay function, which
  also changes the state of the replay.\<close>

definition read_apicall :: "decoder \<Rightarrow> (u16 \<rightharpoonup> u16) \<Rightarrow> (u16 \<Rightarrow> 's \<Rightarrow> lava_file_reader \<Rightarrow> ('s \<times> lava_file_reader) result) \<Rightarrow>
    's \<Rightarrow> lava_file_reader \<Rightarrow> (u16 \<times> 's \<times> lava_file_reader) result" where
  "read_apicall dx dictionary func rs lr =
    result_bind (read_value (fr_take dx) 2 (set_checkpoint (lr_stream lr))) (\<lambda>(i :: u16, s).
    case dictionary i of
      None \<Rightarrow> Inl Out_of_range
    | Some apicall \<Rightarrow> result_bind (read_value (fr_take dx) 4 s) (\<lambda>(_ :: u32, s).
        result_bind (func apicall rs (lr\<lparr>lr_stream := s, lr_current := (lr_current lr)\<lparr>cs_call_id := apicall,
          cs_packet_type := PACKET_VULKAN_API_CALL\<rparr>\<rparr>)) (\<lambda>(rs, lr). Inr (apicall, rs, lr))))"

text \<open>Reading a handle: the index and, unless the handle is null or was changed last by this thread, the thread and
  packet to wait for.  The stored thread is a signed byte.\<close>

definition read_handle :: "decoder \<Rightarrow> bool \<Rightarrow> u8 \<Rightarrow> file_reader \<Rightarrow> (u32 \<times> (nat \<times> u32) option \<times> file_reader) result" where
  "read_handle dx isolated thread s =
    result_bind (read_value (fr_take dx) 4 s) (\<lambda>(index :: u32, s).
    result_bind (read_value (fr_take dx) 1 s) (\<lambda>(req_thread :: u8, s).
    result_bind (read_value (fr_take dx) 4 s) (\<lambda>(req_packet :: u32, s).
    Inr (index, if isolated \<or> sint req_thread < 0 \<or> sint req_thread = int (unat thread) then None
      else Some (unat req_thread, req_packet), s))))"

fun read_indices :: "decoder \<Rightarrow> nat \<Rightarrow> file_reader \<Rightarrow> (u32 list \<times> file_reader) result" where
  "read_indices dx 0 s = Inr ([], s)"
| "read_indices dx (Suc n) s = result_bind (read_value (fr_take dx) 4 s) (\<lambda>(i :: u32, s).
    assert_that (i \<noteq> UINT32_MAX) (result_bind (read_indices dx n s) (\<lambda>(is, s). Inr (i # is, s))))"

text \<open>\<open>read_barrier\<close> up to its waits: the packet is complete before the thread waits.\<close>

definition read_barrier :: "decoder \<Rightarrow> lava_file_reader \<Rightarrow> (u32 list \<times> lava_file_reader) result" where
  "read_barrier dx lr = result_bind (read_value (fr_take dx) 1 (lr_stream lr)) (\<lambda>(n :: u8, s).
    result_bind (read_indices dx (unat n) s) (\<lambda>(is, s).
    result_bind (complete_packet (lr\<lparr>lr_stream := s\<rparr>)) (\<lambda>lr. Inr (is, lr))))"

section \<open>Writing while a size is outstanding\<close>

text \<open>The chunks that cannot leave the writer, oldest first, and the part of the stream before them.\<close>

definition parts :: "file_writer \<Rightarrow> bytes list" where
  "parts w = rev (fw_held w) @ [fw_chunk w]"

definition base :: "(bytes \<Rightarrow> bytes) \<Rightarrow> file_writer \<Rightarrow> bytes" where
  "base dec w = concat (map dec (tl (fw_file w))) @ concat (map dec (rev (fw_compressed w))) @ concat (rev (fw_uncompressed w))"

lemma stream_parts: "fw_stream dec w = base dec w @ concat (parts w)"
  by (simp add: fw_stream_def base_def parts_def)

text \<open>The held chunks and what the current chunk had stay in place while data is added behind them.\<close>

definition grows :: "file_writer \<Rightarrow> bytes \<Rightarrow> file_writer \<Rightarrow> bool" where
  "grows w data w' \<longleftrightarrow> fw_inv w' \<and> fw_holding w' \<and> fw_bytes w' = fw_bytes w + of_nat (length data) \<and>
    (\<forall>dec. base dec w' = base dec w) \<and>
    (\<exists>d more. parts w' = rev (fw_held w) @ (fw_chunk w @ d) # more \<and> d @ concat more = data)"

definition appends :: "(file_writer \<Rightarrow> file_writer result) \<Rightarrow> bytes \<Rightarrow> bool" where
  "appends f data \<longleftrightarrow> (\<forall>w. fw_inv w \<and> fw_holding w \<longrightarrow> (\<exists>w'. f w = Inr w' \<and> grows w data w'))"

lemma grows_refl: "fw_inv w \<Longrightarrow> fw_holding w \<Longrightarrow> grows w [] w"
  by (simp add: grows_def parts_def)

lemma parts_last:
  "rev hs @ [c] = xs @ y # ys \<longleftrightarrow> (ys = [] \<and> rev hs = xs \<and> c = y) \<or> (\<exists>zs. ys = zs @ [c] \<and> rev hs = xs @ y # zs)"
  by (cases ys rule: rev_cases) auto

lemma grows_trans:
  assumes "grows u a v" "grows v b w"
  shows "grows u (a @ b) w"
proof -
  obtain d more where v: "parts v = rev (fw_held u) @ (fw_chunk u @ d) # more" "d @ concat more = a"
    using assms(1) by (auto simp: grows_def)
  obtain e less where w: "parts w = rev (fw_held v) @ (fw_chunk v @ e) # less" "e @ concat less = b"
    using assms(2) by (auto simp: grows_def)
  have "\<exists>d more. parts w = rev (fw_held u) @ (fw_chunk u @ d) # more \<and> d @ concat more = a @ b"
    using v(1) [unfolded parts_def parts_last]
  proof (elim disjE conjE exE)
    assume "more = []" "rev (fw_held v) = rev (fw_held u)" "fw_chunk v = fw_chunk u @ d"
    then show ?thesis using v(2) w by (intro exI [of _ "d @ e"] exI [of _ less]) (auto simp: parts_def)
  next
    fix zs assume "more = zs @ [fw_chunk v]" "rev (fw_held v) = rev (fw_held u) @ (fw_chunk u @ d) # zs"
    then show ?thesis using v(2) w by (intro exI [of _ d] exI [of _ "zs @ (fw_chunk v @ e) # less"]) (auto simp: parts_def)
  qed
  then show ?thesis using assms by (simp add: grows_def)
qed

lemma grows_stream:
  assumes "grows w data w'"
  shows "fw_stream dec w' = fw_stream dec w @ data"
proof -
  obtain d more where "parts w' = rev (fw_held w) @ (fw_chunk w @ d) # more" "d @ concat more = data"
    using assms by (auto simp: grows_def)
  then have "concat (parts w') = concat (parts w) @ data" by (auto simp: parts_def)
  then show ?thesis using assms by (simp add: stream_parts grows_def)
qed

lemma appends_bind: "appends f a \<Longrightarrow> appends g b \<Longrightarrow> appends (\<lambda>w. result_bind (f w) g) (a @ b)"
  unfolding appends_def by (metis grows_def grows_trans result_bind_simps(2))

lemma append_bytes_appends:
  assumes "length data \<le> n" "n < 2 ^ 32"
  shows "appends (append_bytes cx n data) data"
  unfolding appends_def
proof (intro allI impI)
  fix w assume w: "fw_inv w \<and> fw_holding w"
  define c where "c = (if n > fw_chunk_size w then n else fw_chunk_size w)"
  show "\<exists>w'. append_bytes cx n data w = Inr w' \<and> grows w data w'"
  proof (cases "n > fw_cap w - fw_uidx w")
    case True
    define w' where "w' = w\<lparr>fw_cap := c, fw_held := fw_chunk w # fw_held w, fw_chunk := data, fw_bytes := fw_bytes w + of_nat (length data)\<rparr>"
    have "append_bytes cx n data w = Inr w'"
      using True w assms by (simp add: append_bytes_def check_space_def make_space_def copy_bytes_def fw_uidx_def w'_def c_def)
    moreover have "grows w data w'"
      using w assms by (auto simp: grows_def parts_def base_def fw_inv_def w'_def c_def)
    ultimately show ?thesis by blast
  next
    case False
    define w' where "w' = w\<lparr>fw_chunk := fw_chunk w @ data, fw_bytes := fw_bytes w + of_nat (length data)\<rparr>"
    have fit: "length (fw_chunk w) + length data \<le> fw_cap w" using False w assms by (auto simp: fw_uidx_def fw_inv_def)
    then have "append_bytes cx n data w = Inr w'"
      using False by (simp add: append_bytes_def check_space_def copy_bytes_def fw_uidx_def w'_def)
    moreover have "grows w data w'"
      using w fit by (auto simp: grows_def parts_def base_def fw_inv_def w'_def)
    ultimately show ?thesis by blast
  qed
qed

lemma write_value_appends: "n < 2 ^ 32 \<Longrightarrow> appends (write_value cx n v) (to_le n v)"
  unfolding write_value_def by (rule append_bytes_appends) simp_all

lemma write_int_appends:
  "appends (write_uint8_t cx a) (to_le 1 a)" "appends (write_uint16_t cx b) (to_le 2 b)" "appends (write_uint32_t cx c) (to_le 4 c)"
  unfolding write_uint8_t_def write_uint16_t_def write_uint32_t_def by (rule write_value_appends, simp)+

section \<open>The packet that is open\<close>

definition packet_bytes :: "u8 \<Rightarrow> bytes \<Rightarrow> bytes" where
  "packet_bytes type payload = type # to_le 4 (of_nat (5 + length payload) :: u32) @ payload"

definition closed_ok :: "(bytes \<Rightarrow> bytes) \<Rightarrow> bytes \<Rightarrow> lava_file_writer \<Rightarrow> bool" where
  "closed_ok dec s lw \<longleftrightarrow> \<not> lw_packet_open lw \<and> fw_inv (lw_stream lw) \<and> fw_mt_compress (lw_stream lw) \<and> \<not> fw_holding (lw_stream lw) \<and>
    fw_stream dec (lw_stream lw) = s \<and> fw_bytes (lw_stream lw) = of_nat (length s)"

definition open_ok :: "(bytes \<Rightarrow> bytes) \<Rightarrow> bytes \<Rightarrow> u8 \<Rightarrow> bytes \<Rightarrow> lava_file_writer \<Rightarrow> bool" where
  "open_ok dec pre type payload lw \<longleftrightarrow> lw_packet_open lw \<and> fw_inv (lw_stream lw) \<and> fw_holding (lw_stream lw) \<and>
    lw_packet_start lw = of_nat (length pre) \<and> fw_bytes (lw_stream lw) = of_nat (length pre) + of_nat (5 + length payload) \<and>
    (\<exists>P c1 c2 Q. lw_packet_size lw = Some (length P, length c1) \<and> parts (lw_stream lw) = P @ (c1 @ replicate 4 0 @ c2) # Q \<and>
      base dec (lw_stream lw) @ concat P @ c1 = pre @ [type] \<and> c2 @ concat Q = payload)"

lemma open_grows:
  assumes "open_ok dec pre type payload lw" "grows (lw_stream lw) data w"
  shows "open_ok dec pre type (payload @ data) (lw\<lparr>lw_stream := w\<rparr>)"
proof -
  obtain P c1 c2 Q where P: "lw_packet_size lw = Some (length P, length c1)" "parts (lw_stream lw) = P @ (c1 @ replicate 4 0 @ c2) # Q"
      "base dec (lw_stream lw) @ concat P @ c1 = pre @ [type]" "c2 @ concat Q = payload"
    using assms(1) by (auto simp: open_ok_def)
  obtain d more where w: "parts w = rev (fw_held (lw_stream lw)) @ (fw_chunk (lw_stream lw) @ d) # more" "d @ concat more = data"
    using assms(2) by (auto simp: grows_def)
  have "\<exists>c2 Q. parts w = P @ (c1 @ replicate 4 0 @ c2) # Q \<and> c2 @ concat Q = payload @ data"
    using P(2) [unfolded parts_def parts_last]
  proof (elim disjE conjE exE)
    assume "Q = []" "rev (fw_held (lw_stream lw)) = P" "fw_chunk (lw_stream lw) = c1 @ replicate 4 0 @ c2"
    then show ?thesis using P(4) w by (intro exI [of _ "c2 @ d"] exI [of _ more]) (auto simp: parts_def)
  next
    fix zs assume "Q = zs @ [fw_chunk (lw_stream lw)]" "rev (fw_held (lw_stream lw)) = P @ (c1 @ replicate 4 0 @ c2) # zs"
    then show ?thesis using P(4) w by (intro exI [of _ c2] exI [of _ "zs @ (fw_chunk (lw_stream lw) @ d) # more"]) (auto simp: parts_def)
  qed
  moreover have "base dec w = base dec (lw_stream lw)" using assms(2) by (simp add: grows_def)
  ultimately show ?thesis using assms P(1,3) by (auto simp: open_ok_def grows_def)
qed

lemma on_stream_open:
  assumes "appends f data" "open_ok dec pre type payload lw"
  obtains lw' where "on_stream f lw = Inr lw'" "open_ok dec pre type (payload @ data) lw'" "lw_current lw' = lw_current lw"
proof -
  have "fw_inv (lw_stream lw) \<and> fw_holding (lw_stream lw)" using assms(2) by (simp add: open_ok_def)
  then obtain w where w: "f (lw_stream lw) = Inr w" "grows (lw_stream lw) data w" using assms(1) by (auto simp: appends_def)
  show ?thesis by (rule that [of "lw\<lparr>lw_stream := w\<rparr>"]) (simp_all add: on_stream_def w open_grows [OF assms(2) w(2)])
qed

lemma store_parts:
  assumes "parts w = P @ c # Q"
  obtains a b where "store_later (length P, off) data w = Inr (w\<lparr>fw_chunk := a, fw_held := b\<rparr>)"
    "parts (w\<lparr>fw_chunk := a, fw_held := b\<rparr>) = P @ overwrite c off data # Q"
    "length (overwrite c off data) = length c \<Longrightarrow> length a = length (fw_chunk w)"
  using assms [unfolded parts_def parts_last]
proof (elim disjE conjE exE)
  assume w: "Q = []" "rev (fw_held w) = P" "fw_chunk w = c"
  have same: "w\<lparr>fw_chunk := x\<rparr> = w\<lparr>fw_chunk := x, fw_held := fw_held w\<rparr>" for x by simp
  have "length P = length (fw_held w)" using w by auto
  then have "store_later (length P, off) data w = Inr (w\<lparr>fw_chunk := overwrite c off data, fw_held := fw_held w\<rparr>)"
    using w(3) same [of "overwrite c off data"] by (simp add: store_later_def)
  then show ?thesis by (rule that) (use w in \<open>simp_all add: parts_def\<close>)
next
  fix zs assume Q: "Q = zs @ [fw_chunk w]" and held: "rev (fw_held w) = P @ c # zs"
  have h: "fw_held w = rev zs @ c # rev P" using arg_cong [OF held, of rev] by simp
  define held' where "held' = rev zs @ overwrite c off data # rev P"
  have same: "w\<lparr>fw_held := x\<rparr> = w\<lparr>fw_chunk := fw_chunk w, fw_held := x\<rparr>" for x by simp
  have "store_later (length P, off) data w = Inr (w\<lparr>fw_chunk := fw_chunk w, fw_held := held'\<rparr>)"
    using same [of held'] by (simp add: store_later_def h held'_def nth_append list_update_append)
  then show ?thesis by (rule that) (use Q in \<open>simp_all add: parts_def held'_def\<close>)
qed

lemma size_fits:
  assumes "n < 2 ^ 32"
  shows "\<not> (of_nat n :: u64) > ucast UINT32_MAX" "(ucast (of_nat n :: u64) :: u32) = of_nat n"
proof -
  have "unat (of_nat n :: u64) = n" using assms by simp
  then show "\<not> (of_nat n :: u64) > ucast UINT32_MAX"
    using assms by (simp add: word_less_nat_alt unsigned_ucast_eq unsigned_minus_1_eq_mask mask_eq_exp_minus_1)
  show "(ucast (of_nat n :: u64) :: u32) = of_nat n"
    using assms by (simp add: word_unat_eq_iff unsigned_ucast_eq unsigned_take_bit_eq take_bit_nat_eq_self)
qed

lemma end_packet_ok:
  assumes "open_ok dec pre type payload lw" "5 + length payload < 2 ^ 32"
  obtains lw' where "end_packet lw = Inr lw'" "closed_ok dec (pre @ packet_bytes type payload) lw'"
    "lw_current lw' = (lw_current lw)\<lparr>cs_packet := cs_packet (lw_current lw) + 1\<rparr>"
proof -
  define w where "w = lw_stream lw"
  obtain P c1 c2 Q where P: "lw_packet_size lw = Some (length P, length c1)" "parts w = P @ (c1 @ replicate 4 0 @ c2) # Q"
      "base dec w @ concat P @ c1 = pre @ [type]" "c2 @ concat Q = payload"
    using assms(1) by (auto simp: open_ok_def w_def)
  define len where "len = to_le 4 (of_nat (5 + length payload) :: u32)"
  have sz: "fw_bytes w - lw_packet_start lw = of_nat (5 + length payload)" using assms(1) by (simp add: open_ok_def w_def)
  have over: "overwrite (c1 @ replicate 4 0 @ c2) (length c1) len = c1 @ len @ c2"
    by (rule overwrite_append) (simp add: len_def)
  have same_len: "length (c1 @ len @ c2) = length (c1 @ replicate 4 0 @ c2)" by (simp add: len_def)
  obtain a b where st: "store_later (length P, length c1) len w = Inr (w\<lparr>fw_chunk := a, fw_held := b\<rparr>)"
    and ab: "parts (w\<lparr>fw_chunk := a, fw_held := b\<rparr>) = P @ (c1 @ len @ c2) # Q" "length a = length (fw_chunk w)" 
    using store_parts [OF P(2), of "length c1" len, unfolded over] same_len by metis
  define w' where "w' = thaw (w\<lparr>fw_chunk := a, fw_held := b\<rparr>)"
  have hold: "fw_holding w" "fw_inv w" using assms(1) by (auto simp: open_ok_def w_def)
  have mt: "fw_mt_compress w" using hold by (auto simp: fw_inv_def)
  have thawed: "w' = w\<lparr>fw_chunk := a, fw_held := [], fw_uncompressed := b @ fw_uncompressed w, fw_holding := False\<rparr>"
    using hold by (simp add: w'_def thaw_def)
  have "base dec w @ concat (rev b) @ a = base dec w @ concat P @ c1 @ len @ c2 @ concat Q"
    using ab(1) by (simp add: parts_def flip: concat_append) (metis append.assoc concat.simps concat_append append_Nil2)
  also have "\<dots> = pre @ packet_bytes type payload" using P(3,4) by (simp add: packet_bytes_def len_def flip: append_assoc)
  finally have "base dec w @ concat (rev b) @ a = pre @ packet_bytes type payload" .
  then have stream: "fw_stream dec w' = pre @ packet_bytes type payload"
    unfolding thawed by (simp add: fw_stream_def base_def)
  define lw' where "lw' = lw\<lparr>lw_stream := w', lw_packet_size := None, lw_packet_open := False,
    lw_current := (lw_current lw)\<lparr>cs_packet := cs_packet (lw_current lw) + 1\<rparr>\<rparr>"
  have "end_packet lw = Inr lw'"
    using assms(1) P(1) sz st size_fits [OF assms(2)]
    by (simp add: end_packet_def open_ok_def w_def [symmetric] lw'_def w'_def len_def)
  moreover have "fw_bytes w = of_nat (length pre) + of_nat (5 + length payload)" using assms(1) by (simp add: open_ok_def w_def)
  then have "closed_ok dec (pre @ packet_bytes type payload) lw'"
    using hold mt stream ab(2) unfolding lw'_def closed_ok_def thawed by (auto simp: fw_inv_def packet_bytes_def)
  ultimately show ?thesis by (rule that) (simp add: lw'_def)
qed

lemma append_bytes_free:
  assumes "fw_inv w" "fw_mt_compress w" "\<not> fw_holding w" "length data \<le> n" "n < 2 ^ 32"
  shows "\<exists>w'. append_bytes cx n data w = Inr w' \<and> fw_inv w' \<and> fw_mt_compress w' \<and> \<not> fw_holding w' \<and>
    fw_stream dec w' = fw_stream dec w @ data \<and> fw_bytes w' = fw_bytes w + of_nat (length data)"
  using assms by (auto simp: append_bytes_def check_space_def make_space_def copy_bytes_def fw_uidx_def fw_inv_def fw_stream_def)

lemma write_later_ok:
  assumes "fw_inv w" "fw_mt_compress w" "\<not> fw_holding w" "n < 2 ^ 32"
  shows "\<exists>off w'. write_later cx n v w = Inr ((0, off), w') \<and> fw_inv w' \<and> fw_holding w' \<and> fw_bytes w' = fw_bytes w + of_nat n \<and>
    (\<exists>c. parts w' = [c @ to_le n v] \<and> off = length c \<and> base dec w' @ c = fw_stream dec w)"
  using assms
  by (auto simp: write_later_def check_space_def make_space_def copy_bytes_def freeze_def fw_uidx_def fw_inv_def fw_stream_def parts_def base_def Let_def)

lemma begin_packet_ok:
  assumes "closed_ok dec s lw"
  obtains lw' where "begin_packet cx type lw = Inr lw'" "open_ok dec s type [] lw'"
    "cs_packet (lw_current lw') = cs_packet (lw_current lw)" "cs_thread (lw_current lw') = cs_thread (lw_current lw)"
proof -
  define w where "w = lw_stream lw"
  have w: "fw_inv w" "fw_mt_compress w" "\<not> fw_holding w" "fw_stream dec w = s" "fw_bytes w = of_nat (length s)" "\<not> lw_packet_open lw"
    using assms by (auto simp: closed_ok_def w_def)
  obtain w1 where w1: "write_uint8_t cx type w = Inr w1" "fw_inv w1" "fw_mt_compress w1" "\<not> fw_holding w1"
      "fw_stream dec w1 = s @ [type]" "fw_bytes w1 = of_nat (length s) + 1"
    using append_bytes_free [OF w(1-3), of "to_le 1 type" 1 cx dec] w(4,5) by (auto simp: write_uint8_t_def write_value_def)
  obtain c w2 where w2: "write_later cx 4 (0 :: u32) w1 = Inr ((0, length c), w2)" "fw_inv w2" "fw_holding w2"
      "fw_bytes w2 = fw_bytes w1 + of_nat 4" "parts w2 = [c @ replicate 4 0]" "base dec w2 @ c = s @ [type]"
    using write_later_ok [OF w1(2-4), of 4 cx "0 :: u32" dec] w1(5) by auto
  define lw1 where "lw1 = note_checkpoint lw"
  have keep: "lw_stream lw1 = w" "lw_current lw1 = lw_current lw"
    by (simp_all add: lw1_def note_checkpoint_def w_def Let_def)
  define lw' where "lw' = lw1\<lparr>lw_stream := w2, lw_current := (lw_current lw1)\<lparr>cs_packet_type := type,
      cs_call_id := (if type \<noteq> PACKET_VULKAN_API_CALL then - 1 else cs_call_id (lw_current lw1))\<rparr>,
    lw_packet_start := fw_bytes w, lw_packet_size := Some (0, length c), lw_packet_open := True\<rparr>"
  have run: "begin_packet cx type lw = Inr lw'"
    using w(6) w1(1) w2(1) by (simp add: begin_packet_def end_packet_def Let_def lw1_def [symmetric] keep lw'_def)
  have "open_ok dec s type [] lw'"
    unfolding open_ok_def using w w1 w2 keep
    by (auto simp: lw'_def intro!: exI [of _ "[] :: bytes list"] exI [of _ c] exI [of _ "[] :: bytes"])
  then show ?thesis by (rule that [OF run]) (simp_all add: lw'_def keep)
qed

section \<open>Whole packets\<close>

text \<open>A call or update as the generated code records it: open the packet, write its body, close it.\<close>

definition write_packet :: "codec \<Rightarrow> u8 \<Rightarrow> (file_writer \<Rightarrow> file_writer result) \<Rightarrow> lava_file_writer \<Rightarrow> lava_file_writer result" where
  "write_packet cx type body lw = result_bind (begin_packet cx type lw) (\<lambda>lw. result_bind (on_stream body lw) end_packet)"

lemma write_packet_ok:
  assumes "closed_ok dec s lw" "appends body payload" "5 + length payload < 2 ^ 32"
  obtains lw' where "write_packet cx type body lw = Inr lw'" "closed_ok dec (s @ packet_bytes type payload) lw'"
    "cs_packet (lw_current lw') = cs_packet (lw_current lw) + 1"
proof -
  obtain lw1 where lw1: "begin_packet cx type lw = Inr lw1" "open_ok dec s type [] lw1" "cs_packet (lw_current lw1) = cs_packet (lw_current lw)"
    using begin_packet_ok [OF assms(1)] by metis
  obtain lw2 where lw2: "on_stream body lw1 = Inr lw2" "open_ok dec s type payload lw2" "lw_current lw2 = lw_current lw1"
    using on_stream_open [OF assms(2) lw1(2)] by (metis append_Nil)
  obtain lw3 where "end_packet lw2 = Inr lw3" "closed_ok dec (s @ packet_bytes type payload) lw3"
      "lw_current lw3 = (lw_current lw2)\<lparr>cs_packet := cs_packet (lw_current lw2) + 1\<rparr>"
    using end_packet_ok [OF lw2(2) assms(3)] by metis
  then show ?thesis using lw1 lw2 by (intro that [of lw3]) (simp_all add: write_packet_def)
qed

text \<open>Fields go through \<open>append_bytes\<close>, the common part of all writes.\<close>

fun write_fields :: "codec \<Rightarrow> bytes list \<Rightarrow> file_writer \<Rightarrow> file_writer result" where
  "write_fields cx [] w = Inr w"
| "write_fields cx (d # ds) w = result_bind (append_bytes cx (length d) d w) (write_fields cx ds)"

lemma write_fields_appends: "length (concat ds) < 2 ^ 32 \<Longrightarrow> appends (write_fields cx ds) (concat ds)"
proof (induction ds)
  case Nil
  then show ?case by (auto simp: appends_def grows_refl)
next
  case (Cons d ds)
  then have "appends (append_bytes cx (length d) d) d" "appends (write_fields cx ds) (concat ds)"
    by (auto intro: append_bytes_appends)
  from appends_bind [OF this] show ?case by (simp add: appends_def)
qed

fun write_packets :: "codec \<Rightarrow> (u8 \<times> bytes list) list \<Rightarrow> lava_file_writer \<Rightarrow> lava_file_writer result" where
  "write_packets cx [] lw = Inr lw"
| "write_packets cx ((type, ds) # ps) lw = result_bind (write_packet cx type (write_fields cx ds) lw) (write_packets cx ps)"

definition packets_bytes :: "(u8 \<times> bytes list) list \<Rightarrow> bytes" where
  "packets_bytes ps = concat (map (\<lambda>(type, ds). packet_bytes type (concat ds)) ps)"

definition packet_fits :: "u8 \<times> bytes list \<Rightarrow> bool" where
  "packet_fits p \<longleftrightarrow> fst p \<noteq> 0 \<and> 5 + length (concat (snd p)) < 2 ^ 32"

lemma write_packets_ok:
  assumes "closed_ok dec s lw" "list_all packet_fits ps"
  shows "\<exists>lw'. write_packets cx ps lw = Inr lw' \<and> closed_ok dec (s @ packets_bytes ps) lw' \<and>
    cs_packet (lw_current lw') = cs_packet (lw_current lw) + of_nat (length ps)"
  using assms
proof (induction ps arbitrary: s lw)
  case Nil
  then show ?case by (simp add: packets_bytes_def)
next
  case (Cons p ps)
  obtain type ds where p: "p = (type, ds)" by fastforce
  have fits: "5 + length (concat ds) < 2 ^ 32" using Cons.prems(2) by (simp add: p packet_fits_def)
  have "appends (write_fields cx ds) (concat ds)" by (rule write_fields_appends) (use fits in linarith)
  then obtain lw1 where lw1: "write_packet cx type (write_fields cx ds) lw = Inr lw1"
      "closed_ok dec (s @ packet_bytes type (concat ds)) lw1" "cs_packet (lw_current lw1) = cs_packet (lw_current lw) + 1"
    using write_packet_ok [OF Cons.prems(1) _ fits] by metis
  from Cons.IH [OF lw1(2)] Cons.prems(2) lw1 show ?case by (auto simp: p packets_bytes_def algebra_simps)
qed

section \<open>Reading packets back\<close>

text \<open>A reader between two packets, or inside one of which it has read a part, with \<open>rest\<close> behind it.\<close>

definition checkpoint_ok :: "file_reader \<Rightarrow> bool" where
  "checkpoint_ok r \<longleftrightarrow> (case fr_checkpoint r of None \<Rightarrow> True | Some cp \<Rightarrow> fr_freed r \<le> cp \<and> cp \<le> fr_total_uncompressed r)"

definition before_packet :: "bytes \<Rightarrow> lava_file_reader \<Rightarrow> bool" where
  "before_packet rest lr \<longleftrightarrow> (let r = lr_stream lr; pos = (if lr_packet_open lr then lr_packet_end lr else fr_read r) in
    fr_done r \<and> checkpoint_ok r \<and> fr_read r \<le> pos \<and> pos \<le> length (fr_data r) \<and> drop pos (fr_data r) = rest)"

definition lr_passed :: "lava_file_reader \<Rightarrow> u32" where
  "lr_passed lr = lr_completed lr + (if lr_packet_open lr then 1 else 0)"

lemma checkpoint_ok_read [simp]: "checkpoint_ok (r\<lparr>fr_read := n\<rparr>) = checkpoint_ok r"
  by (simp add: checkpoint_ok_def split: option.splits)

text \<open>What the reader has given back lies behind it, and so does a checkpoint.\<close>

definition stream_kept :: "file_reader \<Rightarrow> bool" where
  "stream_kept r \<longleftrightarrow> length (fr_data r) \<le> fr_total_uncompressed r \<and> fr_freed r \<le> fr_read r \<and>
    (case fr_checkpoint r of None \<Rightarrow> True | Some cp \<Rightarrow> fr_freed r \<le> cp \<and> cp \<le> fr_read r)"

lemma stream_kept_forward: "stream_kept r \<Longrightarrow> fr_read r \<le> n \<Longrightarrow> stream_kept (r\<lparr>fr_read := n\<rparr>)"
  by (auto simp: stream_kept_def split: option.splits)

lemma stream_kept_checkpoint: "stream_kept r \<Longrightarrow> stream_kept (set_checkpoint r)"
  by (simp add: stream_kept_def set_checkpoint_def)

lemma stream_kept_ok: "stream_kept r \<Longrightarrow> fr_read r \<le> length (fr_data r) \<Longrightarrow> checkpoint_ok r"
  by (auto simp: stream_kept_def checkpoint_ok_def split: option.splits)

lemma complete_packet_ok:
  assumes "before_packet rest lr"
  obtains lr' where "complete_packet lr = Inr lr'" "\<not> lr_packet_open lr'" "lr_completed lr' = lr_passed lr"
    "fr_good (lr_stream lr')" "fr_rest (lr_stream lr') = rest" "fr_done (lr_stream lr')" "checkpoint_ok (lr_stream lr')"
    "stream_kept (lr_stream lr) \<longrightarrow> stream_kept (lr_stream lr')"
proof (cases "lr_packet_open lr")
  case True
  show ?thesis
    by (rule that [of "lr\<lparr>lr_stream := (lr_stream lr)\<lparr>fr_read := lr_packet_end lr\<rparr>, lr_packet_open := False,
          lr_current := (lr_current lr)\<lparr>cs_packet := cs_packet (lr_current lr) + 1\<rparr>, lr_completed := lr_completed lr + 1\<rparr>"])
      (use assms True in \<open>auto intro!: stream_kept_forward simp: complete_packet_def before_packet_def lr_passed_def fr_good_def fr_rest_def Let_def\<close>)
next
  case False
  then show ?thesis
    by (intro that [of lr]) (use assms in \<open>auto simp: complete_packet_def before_packet_def lr_passed_def fr_good_def fr_rest_def Let_def\<close>)
qed

lemma release_checkpoint_ok:
  assumes "checkpoint_ok r"
  obtains a where "release_checkpoint page r = Inr (r\<lparr>fr_freed := a, fr_checkpoint := None\<rparr>)"
    "stream_kept r \<longrightarrow> stream_kept (r\<lparr>fr_freed := a, fr_checkpoint := None\<rparr>)"
proof (cases "fr_checkpoint r")
  case None
  then show ?thesis by (intro that [of "fr_freed r"]) (simp_all add: release_checkpoint_def stream_kept_def)
next
  case (Some cp)
  have "(cp - fr_freed r) div page * page \<le> cp - fr_freed r" "fr_freed r div page * page \<le> fr_freed r" by simp_all
  moreover have bounds: "fr_freed r \<le> cp" "cp \<le> fr_total_uncompressed r" using assms Some by (simp_all add: checkpoint_ok_def)
  ultimately have "(cp - fr_freed r) div page * page \<le> fr_total_uncompressed r"
      "fr_freed r div page * page + (cp - fr_freed r) div page * page \<le> cp"
    using bounds by linarith+
  moreover have "r\<lparr>fr_checkpoint := None\<rparr> = r\<lparr>fr_freed := fr_freed r, fr_checkpoint := None\<rparr>" by simp
  ultimately show ?thesis using bounds Some
    by (intro that [of "if fr_fixed r \<or> (cp - fr_freed r) div page * page \<le> page then fr_freed r
          else fr_freed r div page * page + (cp - fr_freed r) div page * page"])
      (auto simp add: release_checkpoint_def stream_kept_def Let_def simp del: mult_le_cancel2 mult_less_cancel2)
qed

lemma lr_step_packet:
  assumes "before_packet (packet_bytes type payload @ rest) lr" "type \<noteq> 0" "5 + length payload < 2 ^ 32"
  obtains lr' where "lr_step dx page False lr = Inr (type, lr')" "lr_packet_open lr'" "lr_completed lr' = lr_passed lr"
    "fr_good (lr_stream lr')" "fr_rest (lr_stream lr') = payload @ rest" "fr_done (lr_stream lr')" "checkpoint_ok (lr_stream lr')"
    "lr_packet_end lr' = fr_read (lr_stream lr') + length payload" "stream_kept (lr_stream lr) \<longrightarrow> stream_kept (lr_stream lr')"
proof -
  obtain lr0 where lr0: "complete_packet lr = Inr lr0" "\<not> lr_packet_open lr0" "lr_completed lr0 = lr_passed lr"
      "fr_good (lr_stream lr0)" "fr_rest (lr_stream lr0) = packet_bytes type payload @ rest" "fr_done (lr_stream lr0)"
      "checkpoint_ok (lr_stream lr0)" "stream_kept (lr_stream lr) \<longrightarrow> stream_kept (lr_stream lr0)"
    using complete_packet_ok [OF assms(1)] by metis
  define len where "len = to_le 4 (of_nat (5 + length payload) :: u32)"
  obtain a where a: "release_checkpoint page (lr_stream lr0) = Inr ((lr_stream lr0)\<lparr>fr_freed := a, fr_checkpoint := None\<rparr>)"
      "stream_kept (lr_stream lr0) \<longrightarrow> stream_kept ((lr_stream lr0)\<lparr>fr_freed := a, fr_checkpoint := None\<rparr>)"
    using release_checkpoint_ok [OF lr0(7)] by metis
  define s0 where "s0 = (lr_stream lr0)\<lparr>fr_freed := a, fr_checkpoint := None\<rparr>"
  define s1 where "s1 = s0\<lparr>fr_read := fr_read s0 + 1\<rparr>"
  define s2 where "s2 = s1\<lparr>fr_read := fr_read s1 + 4\<rparr>"
  have s0: "fr_good s0" "fr_rest s0 = to_le 1 type @ len @ payload @ rest" "fr_done s0"
    using lr0 by (auto simp: s0_def fr_good_def fr_rest_def packet_bytes_def len_def)
  have t1: "fr_take dx 1 s0 = Inr (to_le 1 type, s1)" "fr_good s1" "fr_rest s1 = len @ payload @ rest"
    using fr_take_prefix [OF s0(1,2), of 1 dx] by (simp_all add: s1_def)
  have t2: "fr_take dx 4 s1 = Inr (len, s2)" "fr_good s2" "fr_rest s2 = payload @ rest"
    using fr_take_prefix [OF t1(2,3), of 4 dx] by (simp_all add: s2_def len_def)
  have sz: "unat (of_nat (5 + length payload) :: u32) = 5 + length payload" using assms(3) by (intro unat_of_nat_less) simp
  have "\<not> (of_nat (5 + length payload) :: u32) < 5" by (simp only: word_less_nat_alt sz) simp
  moreover have "\<not> fr_finished (lr_stream lr0)"
    using lr0(4,5) by (auto simp: fr_finished_def fr_rest_def packet_bytes_def)
  ultimately have "lr_step dx page False lr = Inr (type, lr0\<lparr>lr_stream := s2, lr_packet_start := fr_read s0,
      lr_packet_size := of_nat (5 + length payload), lr_packet_end := fr_read s0 + (5 + length payload), lr_packet_open := True,
      lr_current := (lr_current lr0)\<lparr>cs_packet_type := type,
        cs_call_id := (if type \<noteq> PACKET_VULKAN_API_CALL then - 1 else cs_call_id (lr_current lr0))\<rparr>\<rparr>)"
    unfolding lr_step_def lr0(1) result_bind_simps a(1) s0_def [symmetric] read_value_def t1(1)
    using assms(2) t2(1) sz by (simp add: len_def del: of_nat_add)
  note step = this
  have kept: "stream_kept (lr_stream lr) \<longrightarrow> stream_kept s2"
    using lr0(8) a(2) stream_kept_forward [of s0 "5 + fr_read s0"] by (auto simp: s2_def s1_def s0_def)
  show ?thesis
    by (rule that [OF step]) (use lr0(3) t2 s0(3) kept in \<open>simp_all add: s2_def s1_def checkpoint_ok_def s0_def\<close>)
qed

text \<open>The loop of a replay thread, with handlers that read the given numbers of bytes.\<close>

fun consume_packets :: "decoder \<Rightarrow> nat \<Rightarrow> nat list \<Rightarrow> lava_file_reader \<Rightarrow> ((u8 \<times> bytes) list \<times> lava_file_reader) result" where
  "consume_packets dx page [] lr = result_bind (lr_step dx page False lr) (\<lambda>(type, lr).
    if type = 0 then Inr ([], lr) else Inl End_of_data)"
| "consume_packets dx page (n # ns) lr = result_bind (lr_step dx page False lr) (\<lambda>(type, lr).
    if type = 0 then Inr ([], lr)
    else result_bind (fr_take dx n (lr_stream lr)) (\<lambda>(b, s).
      result_bind (consume_packets dx page ns (lr\<lparr>lr_stream := s\<rparr>)) (\<lambda>(xs, lr). Inr ((type, b) # xs, lr))))"

fun read_parts :: "(u8 \<times> bytes list) list \<Rightarrow> nat list \<Rightarrow> (u8 \<times> bytes) list" where
  "read_parts ((type, ds) # ps) (n # ns) = (type, take n (concat ds)) # read_parts ps ns"
| "read_parts ps ns = []"

lemma consume_packets_ok:
  assumes "before_packet (packets_bytes ps) lr" "list_all packet_fits ps" "list_all2 (\<lambda>p n. n \<le> length (concat (snd p))) ps ns"
  shows "\<exists>lr'. consume_packets dx page ns lr = Inr (read_parts ps ns, lr') \<and> lr_terminated lr' \<and>
    lr_completed lr' = lr_passed lr + of_nat (length ps)"
  using assms
proof (induction ps arbitrary: ns lr)
  case Nil
  then obtain lr0 where "complete_packet lr = Inr lr0" "lr_completed lr0 = lr_passed lr" "fr_rest (lr_stream lr0) = []" "fr_done (lr_stream lr0)"
    using complete_packet_ok [of "[]" lr] by (auto simp: packets_bytes_def)
  then show ?case using Nil by (simp add: lr_step_def fr_finished_def fr_rest_def)
next
  case (Cons p ps)
  obtain type ds where p: "p = (type, ds)" by fastforce
  obtain n ms where ns: "ns = n # ms" "n \<le> length (concat ds)" "list_all2 (\<lambda>p n. n \<le> length (concat (snd p))) ps ms"
    using Cons.prems(3) by (auto simp: p list_all2_Cons1)
  have "before_packet (packet_bytes type (concat ds) @ packets_bytes ps) lr" "type \<noteq> 0" "5 + length (concat ds) < 2 ^ 32"
    using Cons.prems by (auto simp: p packets_bytes_def packet_fits_def)
  then obtain lr1 where lr1: "lr_step dx page False lr = Inr (type, lr1)" "lr_packet_open lr1" "lr_completed lr1 = lr_passed lr"
      "fr_good (lr_stream lr1)" "fr_rest (lr_stream lr1) = concat ds @ packets_bytes ps" "fr_done (lr_stream lr1)" "checkpoint_ok (lr_stream lr1)"
      "lr_packet_end lr1 = fr_read (lr_stream lr1) + length (concat ds)"
    using lr_step_packet by metis
  define s where "s = (lr_stream lr1)\<lparr>fr_read := fr_read (lr_stream lr1) + n\<rparr>"
  have rest: "fr_rest (lr_stream lr1) = take n (concat ds) @ drop n (concat ds) @ packets_bytes ps"
    using lr1(5) by (metis append_assoc append_take_drop_id)
  have take: "fr_take dx n (lr_stream lr1) = Inr (take n (concat ds), s)"
    using fr_take_prefix [OF lr1(4) rest, of n dx] ns(2) by (simp add: s_def)
  have "drop (lr_packet_end lr1) (fr_data (lr_stream lr1)) = packets_bytes ps"
    using lr1(5,8) by (metis fr_rest_def append_eq_conv_conj drop_drop add.commute)
  moreover have "lr_packet_end lr1 \<le> length (fr_data (lr_stream lr1))"
  proof -
    have "length (fr_data (lr_stream lr1)) - fr_read (lr_stream lr1) = length (concat ds) + length (packets_bytes ps)"
      using lr1(5) by (metis fr_rest_def length_append length_drop)
    then show ?thesis using lr1(4,8) by (simp add: fr_good_def)
  qed
  ultimately have "before_packet (packets_bytes ps) (lr1\<lparr>lr_stream := s\<rparr>)"
    using lr1 ns(2) by (simp add: before_packet_def s_def Let_def)
  from Cons.IH [OF this _ ns(3)] Cons.prems(2) obtain lr' where
    "consume_packets dx page ms (lr1\<lparr>lr_stream := s\<rparr>) = Inr (read_parts ps ms, lr')" "lr_terminated lr'"
    "lr_completed lr' = lr_passed (lr1\<lparr>lr_stream := s\<rparr>) + of_nat (length ps)" by auto
  then show ?case using lr1(1-3) take \<open>type \<noteq> 0\<close> by (simp add: ns(1) p lr_passed_def)
qed

lemma writer_new_closed:
  assumes "0 < chunksize" "chunksize < 2 ^ 32"
  shows "closed_ok dec [] (lava_file_writer_new tid (file_writer_set cx (file_writer_new chunksize)))"
  using assms by (simp add: closed_ok_def lava_file_writer_new_def file_writer_set_def file_writer_new_def write_chunk_def
      fw_inv_def fw_stream_def)

section \<open>Properties\<close>

text \<open>C12: packets come back as they were recorded, whatever their handlers read.  Take any sequence of packets, each
  with a type that is not 0 and fewer than \<open>2 ^ 32\<close> bytes, recorded by a fresh writer of any chunk size, so that
  packets and the place of their sizes fall anywhere in the chunks.  Then recording succeeds, and a replay thread that
  has the stream the writer produced steps through the same types in the same order; each handler that reads up to the
  length of its packet gets the packet's own bytes, what it leaves unread is skipped, the end of the stream is found
  after the last packet, and writer and reader have counted the same number of packets.\<close>

theorem packets_round_trip:
  assumes "0 < chunksize" "chunksize < 2 ^ 32" "list_all packet_fits ps"
    and "list_all2 (\<lambda>p n. n \<le> length (concat (snd p))) ps ns"
  shows "\<exists>lw. write_packets cx ps (lava_file_writer_new tid (file_writer_set cx (file_writer_new chunksize))) = Inr lw \<and>
    cs_packet (lw_current lw) = of_nat (length ps) \<and>
    (\<forall>r. fr_good r \<longrightarrow> fr_done r \<longrightarrow> checkpoint_ok r \<longrightarrow> fr_rest r = fw_stream dec (lw_stream lw) \<longrightarrow>
      (\<exists>lr. consume_packets dx page ns (lava_file_reader_new thread r) = Inr (read_parts ps ns, lr) \<and>
        lr_terminated lr \<and> lr_completed lr = of_nat (length ps)))"
proof -
  define lw0 where "lw0 = lava_file_writer_new tid (file_writer_set cx (file_writer_new chunksize))"
  have "closed_ok dec [] lw0" unfolding lw0_def by (rule writer_new_closed [OF assms(1,2)])
  from write_packets_ok [OF this assms(3), of cx] obtain lw where lw: "write_packets cx ps lw0 = Inr lw"
      "fw_stream dec (lw_stream lw) = packets_bytes ps" "cs_packet (lw_current lw) = of_nat (length ps)"
    by (auto simp: closed_ok_def lw0_def lava_file_writer_new_def)
  have "\<exists>lr. consume_packets dx page ns (lava_file_reader_new thread r) = Inr (read_parts ps ns, lr) \<and>
      lr_terminated lr \<and> lr_completed lr = of_nat (length ps)"
    if "fr_good r" "fr_done r" "checkpoint_ok r" "fr_rest r = fw_stream dec (lw_stream lw)" for r
  proof -
    have "before_packet (packets_bytes ps) (lava_file_reader_new thread r)"
      using that lw(2) by (simp add: before_packet_def lava_file_reader_new_def Let_def fr_good_def fr_rest_def)
    from consume_packets_ok [OF this assms(3,4), of dx page] show ?thesis by (simp add: lr_passed_def lava_file_reader_new_def)
  qed
  with lw(1,3) show ?thesis unfolding lw0_def by blast
qed

definition sample_packets :: "(u8 \<times> bytes list) list" where
  "sample_packets = [(2, [[1, 0], [0, 0, 0, 0], [7, 8, 9]]), (3, [[1], [0, 0, 0, 0]]), (5, [[11, 12, 13, 14, 15, 16, 17, 18, 19]])]"

theorem packets_round_trip_witness:
  "\<exists>lw lr r. write_packets plain_codec sample_packets (lava_file_writer_new 0 (file_writer_set plain_codec (file_writer_new 8))) = Inr lw \<and>
    fr_rest r = fw_stream (\<lambda>x. x) (lw_stream lw) \<and>
    consume_packets plain_decoder 4096 [6, 5, 2] (lava_file_reader_new 0 r) = Inr ([(2, [1, 0, 0, 0, 0, 0]), (3, [1, 0, 0, 0, 0]), (5, [11, 12])], lr)"
proof -
  have fits: "list_all packet_fits sample_packets" "list_all2 (\<lambda>p n. n \<le> length (concat (snd p))) sample_packets [6, 5, 2]"
    by (simp_all add: sample_packets_def packet_fits_def)
  have nums: "0 < (8 :: nat)" "(8 :: nat) < 2 ^ 32" by simp_all
  obtain lw where run: "write_packets plain_codec sample_packets (lava_file_writer_new 0 (file_writer_set plain_codec (file_writer_new 8))) = Inr lw"
    and again: "\<forall>r. fr_good r \<longrightarrow> fr_done r \<longrightarrow> checkpoint_ok r \<longrightarrow> fr_rest r = fw_stream (\<lambda>x. x) (lw_stream lw) \<longrightarrow>
      (\<exists>lr. consume_packets plain_decoder 4096 [6, 5, 2] (lava_file_reader_new 0 r) = Inr (read_parts sample_packets [6, 5, 2], lr))"
    using packets_round_trip [OF nums fits, of plain_codec 0 "\<lambda>x. x" plain_decoder 4096 0] by blast
  define r where "r = \<lparr>fr_fixed = False, fr_algorithm = 0, fr_version = 3, fr_compressed = [], fr_total_left = 0,
    fr_data = fw_stream (\<lambda>x. x) (lw_stream lw), fr_read = 0, fr_total_uncompressed = 0, fr_wanted = 0, fr_last_chunk = 0,
    fr_consumed = 0, fr_checkpoint = Some 0, fr_freed = 0, fr_needed = 0, fr_stall = False, fr_done = True\<rparr>"
  have "fr_good r" "fr_done r" "checkpoint_ok r" "fr_rest r = fw_stream (\<lambda>x. x) (lw_stream lw)"
    by (simp_all add: r_def fr_good_def checkpoint_ok_def fr_rest_def)
  moreover from again this obtain lr where
    "consume_packets plain_decoder 4096 [6, 5, 2] (lava_file_reader_new 0 r) = Inr (read_parts sample_packets [6, 5, 2], lr)" by blast
  moreover have "read_parts sample_packets [6, 5, 2] = [(2, [1, 0, 0, 0, 0, 0]), (3, [1, 0, 0, 0, 0]), (5, [11, 12])]"
    by (simp add: sample_packets_def numeral_eq_Suc)
  ultimately show ?thesis using run by (intro exI [of _ lw] exI [of _ lr] exI [of _ r]) (simp del: consume_packets.simps)
qed

subsection \<open>Handles and barriers\<close>

definition handle_bytes :: "trackable \<Rightarrow> bytes" where
  "handle_bytes t = to_le 4 (tr_index t) @ to_le 1 (cs_thread (tr_last_modified t)) @ to_le 4 (cs_packet (tr_last_modified t))"

lemma write_handle_appends:
  assumes "tr_created t"
  shows "appends (write_handle cx (Some t)) (handle_bytes t)"
proof -
  have "appends (\<lambda>w. result_bind (write_uint32_t cx (tr_index t) w) (\<lambda>w. result_bind (write_uint8_t cx (cs_thread (tr_last_modified t)) w)
      (write_uint32_t cx (cs_packet (tr_last_modified t))))) (handle_bytes t)"
    unfolding handle_bytes_def by (intro appends_bind write_int_appends)
  then show ?thesis using assms by (simp add: appends_def write_handle_def)
qed

lemma high_byte: "128 \<le> k \<Longrightarrow> k < 256 \<Longrightarrow> signed_take_bit 7 k = k - 256" for k :: int
proof -
  assume k: "128 \<le> k" "k < 256"
  have "take_bit (Suc 7) k = take_bit (Suc 7) (k - 256)" by (simp add: take_bit_eq_mod mod_diff_eq)
  then have "signed_take_bit 7 k = signed_take_bit 7 (k - 256)" by (simp only: signed_take_bit_eq_iff_take_bit_eq)
  also have "\<dots> = k - 256" by (rule signed_take_bit_int_eq_self) (use k in simp_all)
  finally show ?thesis .
qed

lemma sint_byte: "sint (b :: u8) = (if uint b < 128 then uint b else uint b - 256)"
proof (cases "uint b < 128")
  case True
  moreover have "- (2 ^ 7) \<le> uint b" by (rule order_trans [OF _ uint_ge_0]) simp
  ultimately show ?thesis using signed_take_bit_int_eq_self [of 7 "uint b"] by (simp add: sint_uint)
next
  case False
  have "uint b < 256" using uint_bounded [of b] by simp
  then have "signed_take_bit 7 (uint b) = uint b - 256" using False by (intro high_byte) simp_all
  then show ?thesis using False by (simp add: sint_uint)
qed

lemma not_awaited: "sint b < 0 \<or> sint b = int (unat thread) \<longleftrightarrow> unat b \<ge> 128 \<or> b = thread" for b thread :: u8
proof -
  have low: "unat b < 128 \<longleftrightarrow> uint b < 128" by (simp only: unat_eq_nat_uint nat_less_iff [OF uint_ge_0] of_nat_numeral)
  have same: "int (unat thread) = uint thread" "b = thread \<longleftrightarrow> uint b = uint thread" by (simp_all only: of_nat_unat ucast_id word_uint_eq_iff)
  have "uint b < 256" "0 \<le> uint b" "0 \<le> uint thread" using uint_bounded [of b] by simp_all
  then show ?thesis unfolding same sint_byte not_less [symmetric] low by (cases "uint b < 128") simp_all
qed

text \<open>C29: the dependency a handle carries.  A handle that was written inside an open packet is read back with the
  object's index, and the thread that reads it waits for the packet of the thread that changed the object last, unless
  that is itself; but if that thread's number is 128 or more, which the writer allows, the signed byte in the stream is
  negative and the reader waits for nothing.\<close>

theorem handle_dependency:
  assumes "tr_created t" "fw_inv w" "fw_holding w"
    and "fr_good r" "fr_rest r = handle_bytes t @ rest"
  shows "(\<exists>w'. write_handle cx (Some t) w = Inr w' \<and> fw_stream dec w' = fw_stream dec w @ handle_bytes t) \<and>
    (\<exists>r'. read_handle dx False thread r = Inr (tr_index t,
      if unat (cs_thread (tr_last_modified t)) \<ge> 128 \<or> cs_thread (tr_last_modified t) = thread then None
      else Some (unat (cs_thread (tr_last_modified t)), cs_packet (tr_last_modified t)), r') \<and> fr_rest r' = rest)"
proof
  obtain w' where w': "write_handle cx (Some t) w = Inr w'" "grows w (handle_bytes t) w'"
    using write_handle_appends [OF assms(1), of cx] assms(2,3) by (auto simp: appends_def)
  then have "fw_stream dec w' = fw_stream dec w @ handle_bytes t" using grows_stream by blast
  with w'(1) show "\<exists>w'. write_handle cx (Some t) w = Inr w' \<and> fw_stream dec w' = fw_stream dec w @ handle_bytes t" by blast
next
  define b where "b = cs_thread (tr_last_modified t)"
  obtain r1 where r1: "read_value (fr_take dx) 4 r = Inr (tr_index t, r1)" "fr_good r1"
      "fr_rest r1 = to_le 1 b @ to_le 4 (cs_packet (tr_last_modified t)) @ rest"
    using fr.read_value_ok [of r 4 "tr_index t" _ dx] assms(4,5) by (auto simp: handle_bytes_def b_def)
  obtain r2 where r2: "read_value (fr_take dx) 1 r1 = Inr (b, r2)" "fr_good r2" "fr_rest r2 = to_le 4 (cs_packet (tr_last_modified t)) @ rest"
    using fr.read_value_ok [OF r1(2,3), of dx] by auto
  obtain r3 where r3: "read_value (fr_take dx) 4 r2 = Inr (cs_packet (tr_last_modified t), r3)" "fr_rest r3 = rest"
    using fr.read_value_ok [OF r2(2,3), of dx] by auto
  show "\<exists>r'. read_handle dx False thread r = Inr (tr_index t,
      if unat (cs_thread (tr_last_modified t)) \<ge> 128 \<or> cs_thread (tr_last_modified t) = thread then None
      else Some (unat (cs_thread (tr_last_modified t)), cs_packet (tr_last_modified t)), r') \<and> fr_rest r' = rest"
    using r1(1) r2(1) r3 not_awaited [of b thread] by (simp add: read_handle_def b_def)
qed

definition sample_object :: "u8 \<Rightarrow> trackable" where
  "sample_object thread = \<lparr>tr_index = 7, tr_created = True, tr_last_modified = change_source_new\<lparr>cs_thread := thread, cs_packet := 42\<rparr>\<rparr>"

definition sample_reader :: "bytes \<Rightarrow> file_reader" where
  "sample_reader data = \<lparr>fr_fixed = False, fr_algorithm = 0, fr_version = 3, fr_compressed = [], fr_total_left = 0,
    fr_data = data, fr_read = 0, fr_total_uncompressed = 0, fr_wanted = 0, fr_last_chunk = 0,
    fr_consumed = 0, fr_checkpoint = Some 0, fr_freed = 0, fr_needed = 0, fr_stall = False, fr_done = True\<rparr>"

theorem handle_dependency_witness:
  "(\<exists>r'. read_handle plain_decoder False 2 (sample_reader (handle_bytes (sample_object 127))) = Inr (7, Some (127, 42), r')) \<and>
    (\<exists>r'. read_handle plain_decoder False 2 (sample_reader (handle_bytes (sample_object 128))) = Inr (7, None, r'))"
proof -
  define w where "w = (file_writer_set plain_codec (file_writer_new 8))\<lparr>fw_holding := True\<rparr>"
  have w: "fw_inv w" "fw_holding w"
    by (simp_all add: w_def fw_inv_def file_writer_set_def file_writer_new_def write_chunk_def)
  have r: "fr_good (sample_reader data)" "fr_rest (sample_reader data) = data @ []" for data
    by (simp_all add: sample_reader_def fr_good_def fr_rest_def)
  have t: "tr_created (sample_object n)" for n by (simp add: sample_object_def)
  show ?thesis using handle_dependency [OF t [of 127] w r, of plain_codec "\<lambda>x. x" plain_decoder 2, THEN conjunct2]
      handle_dependency [OF t [of 128] w r, of plain_codec "\<lambda>x. x" plain_decoder 2, THEN conjunct2]
    by (auto simp: sample_object_def change_source_new_def)
qed

lemma write_indices_appends:
  "- 1 \<notin> set is \<Longrightarrow> appends (write_indices cx is) (concat (map (to_le 4) is))"
proof (induction "is")
  case Nil
  then show ?case by (auto simp: appends_def grows_refl)
next
  case (Cons i "is")
  then have "appends (write_indices cx is) (concat (map (to_le 4) is))" by simp
  from appends_bind [OF write_int_appends(3) [of cx i] this] Cons.prems show ?case by (auto simp: appends_def)
qed

lemma read_indices_ok:
  assumes "- 1 \<notin> set is" "fr_good r" "fr_rest r = concat (map (to_le 4) is) @ rest"
  shows "read_indices dx (length is) r = Inr (is, r\<lparr>fr_read := fr_read r + 4 * length is\<rparr>)"
  using assms
proof (induction "is" arbitrary: r)
  case (Cons i "is")
  define r1 where "r1 = r\<lparr>fr_read := fr_read r + 4\<rparr>"
  have take: "fr_take dx 4 r = Inr (to_le 4 i, r1)" "fr_good r1" "fr_rest r1 = concat (map (to_le 4) is) @ rest"
    using fr_take_prefix [OF Cons.prems(2), of "to_le 4 i" "concat (map (to_le 4) is) @ rest" 4 dx] Cons.prems(3) by (simp_all add: r1_def)
  from Cons.IH [OF _ take(2,3)] Cons.prems(1) take(1) show ?case by (auto simp: read_value_def r1_def algebra_simps)
qed simp

definition barrier_bytes :: "u32 list \<Rightarrow> bytes" where
  "barrier_bytes is = to_le 1 (of_nat (length is) :: u8) @ concat (map (to_le 4) is)"

lemma length_barrier_bytes [simp]: "length (barrier_bytes is) = 1 + 4 * length is"
  by (induction "is") (auto simp: barrier_bytes_def)

text \<open>C31: a thread barrier read back.  A barrier over at most 255 threads is recorded as one packet, and a replay thread
  that comes to it reads the same packet indices, in the order of the threads, and has completed the packet before it
  waits for any of them.\<close>

theorem barrier_round_trip:
  assumes "closed_ok dec s lw" "length is \<le> 255" "- 1 \<notin> set is"
    and "before_packet (packet_bytes PACKET_THREAD_BARRIER (barrier_bytes is) @ rest) lr"
  shows "(\<exists>lw'. write_thread_barrier cx is lw = Inr lw' \<and>
      closed_ok dec (s @ packet_bytes PACKET_THREAD_BARRIER (barrier_bytes is)) lw') \<and>
    (\<exists>lr1 lr2. lr_step dx page False lr = Inr (PACKET_THREAD_BARRIER, lr1) \<and> read_barrier dx lr1 = Inr (is, lr2) \<and>
      lr_completed lr2 = lr_passed lr + 1 \<and> \<not> lr_packet_open lr2 \<and> before_packet rest lr2)"
proof
  have fit: "5 + length (barrier_bytes is) < 2 ^ 32" using assms(2) by simp
  define body where "body = (\<lambda>w. result_bind (write_uint8_t cx (of_nat (length is)) w) (write_indices cx is))"
  have body: "appends body (barrier_bytes is)"
    unfolding body_def barrier_bytes_def by (intro appends_bind write_int_appends write_indices_appends assms(3))
  obtain lw' where lw': "write_packet cx PACKET_THREAD_BARRIER body lw = Inr lw'"
      "closed_ok dec (s @ packet_bytes PACKET_THREAD_BARRIER (barrier_bytes is)) lw'"
    using write_packet_ok [OF assms(1) body fit] by metis
  then show "\<exists>lw'. write_thread_barrier cx is lw = Inr lw' \<and>
      closed_ok dec (s @ packet_bytes PACKET_THREAD_BARRIER (barrier_bytes is)) lw'"
    using assms(2) by (auto simp: write_thread_barrier_def write_packet_def body_def)
  obtain lr1 where lr1: "lr_step dx page False lr = Inr (PACKET_THREAD_BARRIER, lr1)" "lr_packet_open lr1" "lr_completed lr1 = lr_passed lr"
      "fr_good (lr_stream lr1)" "fr_rest (lr_stream lr1) = barrier_bytes is @ rest" "fr_done (lr_stream lr1)" "checkpoint_ok (lr_stream lr1)"
      "lr_packet_end lr1 = fr_read (lr_stream lr1) + length (barrier_bytes is)"
    using lr_step_packet [OF assms(4) _ fit, of dx page] by auto
  define r where "r = lr_stream lr1"
  define r1 where "r1 = r\<lparr>fr_read := fr_read r + 1\<rparr>"
  have r: "fr_rest r = to_le 1 (of_nat (length is) :: u8) @ concat (map (to_le 4) is) @ rest" "fr_good r"
    using lr1(4,5) by (simp_all add: r_def barrier_bytes_def)
  have take: "fr_take dx 1 r = Inr (to_le 1 (of_nat (length is) :: u8), r1)" "fr_good r1" "fr_rest r1 = concat (map (to_le 4) is) @ rest"
    using fr_take_prefix [OF r(2,1), of 1 dx] by (simp_all add: r1_def)
  have n: "unat (of_nat (length is) :: u8) = length is" using assms(2) by simp
  define lr2 where "lr2 = lr1\<lparr>lr_stream := r1\<lparr>fr_read := lr_packet_end lr1\<rparr>, lr_packet_open := False,
    lr_current := (lr_current lr1)\<lparr>cs_packet := cs_packet (lr_current lr1) + 1\<rparr>, lr_completed := lr_completed lr1 + 1\<rparr>"
  have "fr_read r1 + 4 * length is = lr_packet_end lr1" using lr1(8) by (simp add: r1_def r_def)
  then have "read_barrier dx lr1 = Inr (is, lr2)"
    using take(1) read_indices_ok [OF assms(3) take(2,3), of dx] lr1(2) n
    by (simp add: read_barrier_def read_value_def lr2_def complete_packet_def flip: r_def)
  moreover have "before_packet rest lr2"
  proof -
    have "length (fr_data r) - fr_read r = length (barrier_bytes is) + length rest"
      using lr1(5) by (metis fr_rest_def length_append length_drop r_def)
    then have "lr_packet_end lr1 \<le> length (fr_data r)" using r(2) lr1(8) by (simp add: fr_good_def r_def)
    moreover have "drop (lr_packet_end lr1) (fr_data r) = rest"
      using lr1(5,8) by (metis fr_rest_def append_eq_conv_conj drop_drop add.commute r_def)
    ultimately show ?thesis using lr1(6,7) by (simp add: before_packet_def lr2_def r1_def r_def Let_def)
  qed
  ultimately show "\<exists>lr1 lr2. lr_step dx page False lr = Inr (PACKET_THREAD_BARRIER, lr1) \<and> read_barrier dx lr1 = Inr (is, lr2) \<and>
      lr_completed lr2 = lr_passed lr + 1 \<and> \<not> lr_packet_open lr2 \<and> before_packet rest lr2"
    using lr1(1,3) by (intro exI [of _ lr1] exI [of _ lr2]) (simp add: lr2_def)
qed

theorem barrier_round_trip_witness:
  "\<exists>lr1 lr2. lr_step plain_decoder 4096 False (lava_file_reader_new 1
      (sample_reader (packet_bytes PACKET_THREAD_BARRIER (barrier_bytes [3, 0])))) = Inr (PACKET_THREAD_BARRIER, lr1) \<and>
    read_barrier plain_decoder lr1 = Inr ([3, 0], lr2) \<and> lr_completed lr2 = 1"
proof -
  have nums: "0 < (8 :: nat)" "(8 :: nat) < 2 ^ 32" by simp_all
  have before: "before_packet (packet_bytes PACKET_THREAD_BARRIER (barrier_bytes [3, 0]) @ [])
      (lava_file_reader_new 1 (sample_reader (packet_bytes PACKET_THREAD_BARRIER (barrier_bytes [3, 0]))))"
    by (simp add: before_packet_def lava_file_reader_new_def sample_reader_def checkpoint_ok_def)
  have "length [3, 0 :: u32] \<le> 255" "- 1 \<notin> set [3, 0 :: u32]" by simp_all
  from barrier_round_trip [OF writer_new_closed [OF nums, of "\<lambda>x. x" 1 plain_codec] this before, of plain_codec plain_decoder 4096]
  show ?thesis by (auto simp: lr_passed_def lava_file_reader_new_def)
qed

end
