(* ===== verification/ThreadSync.thy ===== *)
theory ThreadSync
  imports Packets
begin

text \<open>Thread synchronization from capture to replay.  While capturing, every thread records its calls as packets of its
  own stream; a handle in a packet carries the thread and packet that changed the object last, and barriers carry the
  positions of all threads.  While replaying, each thread works through its own stream and waits at handles and barriers
  until the other threads have completed enough packets.  The sources are \<open>lava_writer\<close> and \<open>lava_file_writer\<close> of
  \<^verbatim>\<open>src/write.h\<close> and \<^verbatim>\<open>src/write.cpp\<close> and \<open>lava_file_reader\<close> of \<^verbatim>\<open>src/read.h\<close> and \<^verbatim>\<open>src/read.cpp\<close>; the bytes of
  packets, handles and barriers are the subject of the theory \<open>Packets\<close>.  Packet numbers are 32 bits wide and wrap, as in
  the source; the properties say how many packets they need to be right.\<close>

section \<open>Capture\<close>

text \<open>What a packet makes the replay wait for: the dependencies of its handles, a thread and a packet each, or the
  position of every thread.\<close>

datatype packet = Call "(nat \<times> u32) list" | Barrier "u32 list"

text \<open>A writer: its packet counter, the dependencies of the packet that is open, and the two flags.\<close>

record writer_thread =
  wt_packet :: u32
  wt_open :: "(nat \<times> u32) list option"
  wt_pending :: bool
  wt_active :: bool

record sync_config =
  sc_write_output :: bool
  sc_output_thread_barriers :: bool

text \<open>\<open>cp_objects\<close> has \<open>last_modified\<close> of every live object, \<open>cp_log\<close> the packets of all threads in the order in
  which they were ended; the stream of one thread is its part of the log.\<close>

record capture =
  cp_threads :: "writer_thread list"
  cp_objects :: "(nat \<times> (nat \<times> u32)) list"
  cp_log :: "(nat \<times> packet) list"

definition capture_new :: capture where
  "capture_new = \<lparr>cp_threads = [], cp_objects = [], cp_log = []\<rparr>"

definition barriers_on :: "sync_config \<Rightarrow> bool" where
  "barriers_on cf \<longleftrightarrow> \<not> sc_write_output cf \<or> sc_output_thread_barriers cf"

definition thread_packets :: "nat \<Rightarrow> (nat \<times> packet) list \<Rightarrow> packet list" where
  "thread_packets t log = map snd (filter (\<lambda>e. fst e = t) log)"

text \<open>\<open>end_packet\<close>.\<close>

definition sync_end :: "nat \<Rightarrow> capture \<Rightarrow> capture" where
  "sync_end t c = (let w = cp_threads c ! t in case wt_open w of
     None \<Rightarrow> c
   | Some ds \<Rightarrow> c\<lparr>cp_threads := (cp_threads c)[t := w\<lparr>wt_open := None, wt_packet := wt_packet w + 1\<rparr>],
       cp_log := cp_log c @ [(t, Call ds)]\<rparr>)"

text \<open>\<open>inject_thread_barrier\<close> with \<open>write_thread_barrier\<close>: the counters are read first, then the packet that is open
  ends and the barrier is written as a packet of its own.  A counter that has reached \<open>UINT32_MAX\<close> fails an assertion.\<close>

definition barrier_indices_ok :: "u32 list \<Rightarrow> bool" where
  "barrier_indices_ok packet_indices \<longleftrightarrow>
    length packet_indices \<le> 255 \<and> list_all (\<lambda>packet_index. packet_index \<noteq> UINT32_MAX) packet_indices"

definition inject_thread_barrier :: "nat \<Rightarrow> capture \<Rightarrow> capture result" where
  "inject_thread_barrier t c = (let packet_indices = map wt_packet (cp_threads c); c1 = sync_end t c; w = cp_threads c1 ! t in
    assert_that (barrier_indices_ok packet_indices)
      (Inr (c1\<lparr>cp_threads := (cp_threads c1)[t := w\<lparr>wt_packet := wt_packet w + 1\<rparr>],
        cp_log := cp_log c1 @ [(t, Barrier packet_indices)]\<rparr>)))"

text \<open>\<open>make_writer\<close>: the new thread starts behind everything the others have recorded.\<close>

definition make_writer :: "sync_config \<Rightarrow> bool \<Rightarrow> capture \<Rightarrow> capture result" where
  "make_writer cf thread_barriers_active c =
    (let w = \<lparr>wt_packet = 0, wt_open = None, wt_pending = False, wt_active = thread_barriers_active\<rparr> in
     if sc_write_output cf then Inr (c\<lparr>cp_threads := cp_threads c @ [w]\<rparr>)
     else assert_that (barrier_indices_ok (map wt_packet (cp_threads c)))
       (Inr (c\<lparr>cp_threads := cp_threads c @ [w\<lparr>wt_packet := 1\<rparr>],
         cp_log := cp_log c @ [(length (cp_threads c), Barrier (map wt_packet (cp_threads c)))]\<rparr>)))"

definition push_thread_barriers :: "sync_config \<Rightarrow> nat \<Rightarrow> capture \<Rightarrow> capture" where
  "push_thread_barriers cf t c = (if \<not> barriers_on cf then c
    else c\<lparr>cp_threads := map (\<lambda>(i, w). if i \<noteq> t \<and> wt_active w then w\<lparr>wt_pending := True\<rparr> else w) (enumerate 0 (cp_threads c))\<rparr>)"

text \<open>\<open>begin_packet\<close>, which ends the packet before, and \<open>write_api_command\<close>: a pending barrier comes first, then the
  packet of the call is opened.\<close>

definition sync_begin :: "nat \<Rightarrow> capture \<Rightarrow> capture" where
  "sync_begin t c = (let c1 = sync_end t c in c1\<lparr>cp_threads := (cp_threads c1)[t := (cp_threads c1 ! t)\<lparr>wt_open := Some []\<rparr>]\<rparr>)"

definition clear_pending :: "nat \<Rightarrow> capture \<Rightarrow> capture" where
  "clear_pending t c = c\<lparr>cp_threads := (cp_threads c)[t := (cp_threads c ! t)\<lparr>wt_pending := False\<rparr>]\<rparr>"

definition write_api_command :: "sync_config \<Rightarrow> nat \<Rightarrow> capture \<Rightarrow> capture result" where
  "write_api_command cf t c = result_bind
    (if barriers_on cf \<and> wt_pending (cp_threads c ! t) then result_bind (inject_thread_barrier t c) (\<lambda>c. Inr (clear_pending t c)) else Inr c)
    (\<lambda>c. Inr (sync_begin t c))"

text \<open>\<open>write_handle\<close> into the packet that is open.\<close>

definition use_handle :: "nat \<Rightarrow> nat \<Rightarrow> capture \<Rightarrow> capture result" where
  "use_handle t obj c = (let w = cp_threads c ! t in case wt_open w of
     None \<Rightarrow> Inl Assertion_failed
   | Some ds \<Rightarrow> (case map_of (cp_objects c) obj of
       None \<Rightarrow> Inl Assertion_failed
     | Some dep \<Rightarrow> Inr (c\<lparr>cp_threads := (cp_threads c)[t := w\<lparr>wt_open := Some (ds @ [dep])\<rparr>]\<rparr>)))"

text \<open>Creating or changing an object: \<open>last_modified = writer.current\<close>, inside a call.\<close>

definition touch :: "nat \<Rightarrow> nat \<Rightarrow> capture \<Rightarrow> capture result" where
  "touch t obj c = (let w = cp_threads c ! t in case wt_open w of
     None \<Rightarrow> Inl Assertion_failed
   | Some _ \<Rightarrow> Inr (c\<lparr>cp_objects := AList.update obj (t, wt_packet w) (cp_objects c)\<rparr>))"

text \<open>The events of a capture, each an atomic action of one thread: the parts of \<open>write_header\<close>, the handles and
  changes inside a call, \<open>push_thread_barriers\<close> before the call returns, and the end of its packet.\<close>

datatype event =
    New_thread bool
  | Activate nat
  | Local_barrier nat
  | Begin nat
  | Use nat nat
  | Touch nat nat
  | Push nat
  | End nat

fun event_thread :: "event \<Rightarrow> nat option" where
  "event_thread (New_thread a) = None"
| "event_thread (Activate t) = Some t"
| "event_thread (Local_barrier t) = Some t"
| "event_thread (Begin t) = Some t"
| "event_thread (Use t obj) = Some t"
| "event_thread (Touch t obj) = Some t"
| "event_thread (Push t) = Some t"
| "event_thread (End t) = Some t"

fun perform_event :: "sync_config \<Rightarrow> event \<Rightarrow> capture \<Rightarrow> capture result" where
  "perform_event cf (New_thread a) c = make_writer cf a c"
| "perform_event cf (Activate t) c = Inr (c\<lparr>cp_threads := (cp_threads c)[t := (cp_threads c ! t)\<lparr>wt_active := True\<rparr>]\<rparr>)"
| "perform_event cf (Local_barrier t) c = (if barriers_on cf then inject_thread_barrier t c else Inr c)"
| "perform_event cf (Begin t) c = write_api_command cf t c"
| "perform_event cf (Use t obj) c = use_handle t obj c"
| "perform_event cf (Touch t obj) c = touch t obj c"
| "perform_event cf (Push t) c = Inr (push_thread_barriers cf t c)"
| "perform_event cf (End t) c = Inr (sync_end t c)"

definition capture_event :: "sync_config \<Rightarrow> event \<Rightarrow> capture \<Rightarrow> capture result" where
  "capture_event cf ev c = (case event_thread ev of
     None \<Rightarrow> perform_event cf ev c
   | Some t \<Rightarrow> if t < length (cp_threads c) then perform_event cf ev c else Inl Out_of_range)"

fun capture_run :: "sync_config \<Rightarrow> event list \<Rightarrow> capture \<Rightarrow> capture result" where
  "capture_run cf [] c = Inr c"
| "capture_run cf (ev # evs) c = result_bind (capture_event cf ev c) (capture_run cf evs)"

text \<open>What the API asks of the application: it does not use an object while another thread is inside a call that
  changes it.  Here: the packet that changed the object last belongs to the same thread or has ended.\<close>

fun app_synchronized :: "event \<Rightarrow> capture \<Rightarrow> bool" where
  "app_synchronized (Use t obj) c = (case map_of (cp_objects c) obj of
     None \<Rightarrow> True
   | Some (u, p) \<Rightarrow> u = t \<or> p < wt_packet (cp_threads c ! u))"
| "app_synchronized ev c = True"

fun disciplined :: "sync_config \<Rightarrow> event list \<Rightarrow> capture \<Rightarrow> bool" where
  "disciplined cf [] c = True"
| "disciplined cf (ev # evs) c = (app_synchronized ev c \<and>
    (case capture_event cf ev c of Inl _ \<Rightarrow> True | Inr c' \<Rightarrow> disciplined cf evs c'))"

section \<open>Replay\<close>

text \<open>A replay thread: the packets still to be read, what it waits for in or behind the current one, whether a call is
  being replayed, and the number of packets it has completed, which the other threads see.\<close>

datatype wait = Handle_wait nat u32 | Barrier_wait nat u32

record replay_thread =
  rt_todo :: "packet list"
  rt_waits :: "wait list"
  rt_open :: bool
  rt_done :: u64

text \<open>\<open>read_handle\<close> waits for a thread until it has completed a packet, \<open>read_barrier\<close> until it has completed as many
  packets.  The number of completed packets is a \<open>uint_fast32_t\<close>, which has 64 bits on the platforms of the code;
  \<open>read_handle\<close> loads it into 32 bits before it compares, \<open>read_barrier\<close> compares it as it is.\<close>

fun wait_thread :: "wait \<Rightarrow> nat" where
  "wait_thread (Handle_wait req_thread req_packet) = req_thread"
| "wait_thread (Barrier_wait i packet_index) = i"

fun wait_over :: "wait \<Rightarrow> u64 \<Rightarrow> bool" where
  "wait_over (Handle_wait req_thread req_packet) completed \<longleftrightarrow> \<not> req_packet \<ge> ucast completed"
| "wait_over (Barrier_wait i packet_index) completed \<longleftrightarrow> \<not> ucast packet_index > completed"

definition handle_wait :: "nat \<Rightarrow> nat \<times> u32 \<Rightarrow> wait list" where
  "handle_wait t dep = (let b = (of_nat (fst dep) :: u8) in
    if sint b < 0 \<or> sint b = int t then [] else [Handle_wait (unat b) (snd dep)])"

fun waits_of :: "nat \<Rightarrow> packet \<Rightarrow> wait list" where
  "waits_of t (Call ds) = concat (map (handle_wait t) ds)"
| "waits_of t (Barrier is) = map (\<lambda>(i, n). Barrier_wait i n) (filter (\<lambda>(i, n). i \<noteq> t) (enumerate 0 is))"

definition replay_start :: "capture \<Rightarrow> replay_thread list" where
  "replay_start c = map (\<lambda>t. \<lparr>rt_todo = thread_packets t (cp_log c), rt_waits = [], rt_open = False, rt_done = 0\<rparr>)
    [0..<length (cp_threads c)]"

text \<open>One action of thread \<open>t\<close>: leaving a wait that is over, completing a call, reading the next call, or reading a
  barrier, which is complete before the thread waits.  \<open>None\<close> is that the thread spins, has failed the assertion on the
  positions of a barrier, or has reached the end.\<close>

definition replay_turn :: "nat \<Rightarrow> replay_thread list \<Rightarrow> replay_thread list option" where
  "replay_turn t r = (if t \<ge> length r then None else let w = r ! t in
    case rt_waits w of
      x # ws \<Rightarrow> if wait_thread x < length r \<and> wait_over x (rt_done (r ! wait_thread x)) then Some (r[t := w\<lparr>rt_waits := ws\<rparr>]) else None
    | [] \<Rightarrow> if rt_open w then Some (r[t := w\<lparr>rt_open := False, rt_done := rt_done w + 1\<rparr>])
        else (case rt_todo w of
          [] \<Rightarrow> None
        | Call ds # ps \<Rightarrow> Some (r[t := w\<lparr>rt_todo := ps, rt_waits := waits_of t (Call ds), rt_open := True\<rparr>])
        | Barrier is # ps \<Rightarrow>
            if list_all (\<lambda>i. i \<noteq> UINT32_MAX) is
            then Some (r[t := w\<lparr>rt_todo := ps, rt_waits := waits_of t (Barrier is), rt_done := rt_done w + 1\<rparr>]) else None))"

inductive replay_reachable :: "capture \<Rightarrow> replay_thread list \<Rightarrow> bool" for c where
  start: "replay_reachable c (replay_start c)"
| turn: "replay_reachable c r \<Longrightarrow> replay_turn t r = Some r' \<Longrightarrow> replay_reachable c r'"

definition replay_finished :: "replay_thread list \<Rightarrow> bool" where
  "replay_finished r \<longleftrightarrow> (\<forall>w \<in> set r. rt_todo w = [] \<and> rt_waits w = [] \<and> \<not> rt_open w)"

section \<open>Causality of the log\<close>

abbreviation cnt :: "nat \<Rightarrow> (nat \<times> packet) list \<Rightarrow> nat" where
  "cnt t log \<equiv> length (thread_packets t log)"

lemma thread_packets_simps [simp]:
  "thread_packets t [] = []" "thread_packets t (e # xs) = (if fst e = t then snd e # thread_packets t xs else thread_packets t xs)"
  "thread_packets t (xs @ ys) = thread_packets t xs @ thread_packets t ys"
  by (simp_all add: thread_packets_def)

text \<open>A wait as a number of packets, which it is as long as the numbers have not wrapped.\<close>

fun need :: "wait \<Rightarrow> nat" where
  "need (Handle_wait u p) = unat p + 1"
| "need (Barrier_wait u n) = unat n"

lemma wait_over_need:
  assumes "unat d < 2 ^ 32"
  shows "wait_over x d \<longleftrightarrow> need x \<le> unat d"
proof (cases x)
  case (Handle_wait u p)
  have "unat (ucast d :: u32) = unat d" using assms by (simp add: unsigned_ucast_eq take_bit_nat_eq_self)
  then show ?thesis by (simp add: Handle_wait not_le word_less_nat_alt Suc_le_eq)
next
  case (Barrier_wait u n)
  have "unat (ucast n :: u64) = unat n" using unsigned_less [of n, where 'a = nat] by (simp add: unsigned_ucast_eq take_bit_nat_eq_self)
  then show ?thesis by (simp add: Barrier_wait not_less word_le_nat_alt)
qed

text \<open>An entry of the log waits only for packets that are in the log before it, and the positions of a barrier pass the
  assertion of the reader.\<close>

definition entry_ok :: "nat \<Rightarrow> (nat \<times> packet) list \<Rightarrow> nat \<Rightarrow> packet \<Rightarrow> bool" where
  "entry_ok n xs t pk \<longleftrightarrow> t < n \<and> (\<forall>w \<in> set (waits_of t pk). wait_thread w < n \<and> need w \<le> cnt (wait_thread w) xs) \<and>
    (\<forall>is. pk = Barrier is \<longrightarrow> list_all (\<lambda>i. i \<noteq> UINT32_MAX) is)"

definition causal :: "nat \<Rightarrow> (nat \<times> packet) list \<Rightarrow> bool" where
  "causal n log \<longleftrightarrow> (\<forall>xs t pk ys. log = xs @ (t, pk) # ys \<longrightarrow> entry_ok n xs t pk)"

lemma causal_Nil [simp]: "causal n []"
  by (simp add: causal_def)

lemma causal_snoc: "causal n log \<Longrightarrow> entry_ok n log t pk \<Longrightarrow> causal n (log @ [(t, pk)])"
  unfolding causal_def by (metis (no_types, lifting) append_butlast_last_id butlast.simps(2) butlast_append butlast_snoc last.simps last_appendR
      last_snoc list.discI prod.inject)

lemma causal_more: "causal n log \<Longrightarrow> n \<le> m \<Longrightarrow> causal m log"
  unfolding causal_def entry_ok_def by fastforce

lemma causal_thread: "causal n log \<Longrightarrow> e \<in> set log \<Longrightarrow> fst e < n"
  unfolding causal_def entry_ok_def by (metis in_set_conv_decomp prod.collapse)

lemma causal_new: "causal n log \<Longrightarrow> n \<le> t \<Longrightarrow> thread_packets t log = []"
  unfolding thread_packets_def using causal_thread by (fastforce simp: filter_empty_conv)

lemma handle_wait_eq:
  assumes "fst d < 256" "t < 256"
  shows "handle_wait t d = (if fst d \<ge> 128 \<or> fst d = t then [] else [Handle_wait (fst d) (snd d)])"
proof -
  have "unat (of_nat (fst d) :: u8) = fst d" "unat (of_nat t :: u8) = t" using assms by simp_all
  with not_awaited [of "of_nat (fst d)" "of_nat t"] show ?thesis
    by (auto simp: handle_wait_def Let_def word_unat_eq_iff)
qed

section \<open>The invariant of a capture\<close>

text \<open>The counter of a thread is the number of its packets, in 32 bits.\<close>

definition deps_ok :: "nat \<Rightarrow> (nat \<times> packet) list \<Rightarrow> nat \<Rightarrow> (nat \<times> u32) list \<Rightarrow> bool" where
  "deps_ok n log t ds \<longleftrightarrow> (\<forall>d \<in> set ds. fst d < n \<and> (fst d = t \<or> unat (snd d) < cnt (fst d) log))"

definition thread_ok :: "nat \<Rightarrow> (nat \<times> packet) list \<Rightarrow> nat \<Rightarrow> writer_thread \<Rightarrow> bool" where
  "thread_ok n log t w \<longleftrightarrow> wt_packet w = of_nat (cnt t log) \<and> (case wt_open w of None \<Rightarrow> True | Some ds \<Rightarrow> deps_ok n log t ds)"

definition capture_ok :: "capture \<Rightarrow> bool" where
  "capture_ok c \<longleftrightarrow> causal (length (cp_threads c)) (cp_log c) \<and>
    (\<forall>t < length (cp_threads c). thread_ok (length (cp_threads c)) (cp_log c) t (cp_threads c ! t)) \<and>
    (\<forall>obj d. map_of (cp_objects c) obj = Some d \<longrightarrow> fst d < length (cp_threads c))"

lemma deps_ok_append: "deps_ok n log t ds \<Longrightarrow> deps_ok n (log @ ys) t ds"
  by (force simp: deps_ok_def)

lemma thread_ok_other: "thread_ok n log t w \<Longrightarrow> u \<noteq> t \<Longrightarrow> thread_ok n (log @ [(u, pk)]) t w"
  by (auto simp: thread_ok_def deps_ok_append split: option.splits)

lemma unat_of_nat_le: "unat (of_nat n :: 'a::len word) \<le> n"
  by (simp add: unsigned_of_nat)

lemma call_entry_ok:
  assumes "deps_ok n log t ds" "t < n" "n \<le> 256"
  shows "entry_ok n log t (Call ds)"
proof -
  have "wait_thread w < n \<and> need w \<le> cnt (wait_thread w) log" if "w \<in> set (handle_wait t d)" "d \<in> set ds" for w d
    using that assms handle_wait_eq [of d t] by (force simp: deps_ok_def split: if_splits)
  then show ?thesis using assms(2) by (auto simp: entry_ok_def)
qed

lemma barrier_entry_ok:
  assumes "\<forall>i < length ts. unat (wt_packet (ts ! i)) \<le> cnt i log" "length ts \<le> n" "t < n" "barrier_indices_ok (map wt_packet ts)"
  shows "entry_ok n log t (Barrier (map wt_packet ts))"
  using assms by (auto simp: entry_ok_def in_set_enumerate_eq barrier_indices_ok_def)

lemma capture_okD:
  assumes "capture_ok c"
  shows "causal (length (cp_threads c)) (cp_log c)"
    and "t < length (cp_threads c) \<Longrightarrow> thread_ok (length (cp_threads c)) (cp_log c) t (cp_threads c ! t)"
    and "map_of (cp_objects c) obj = Some d \<Longrightarrow> fst d < length (cp_threads c)"
  using assms unfolding capture_ok_def by blast+

text \<open>Changing the record of one thread, and logging a packet of one thread.\<close>

lemma capture_okI:
  assumes "causal (length (cp_threads c)) (cp_log c)"
    and "\<And>t. t < length (cp_threads c) \<Longrightarrow> thread_ok (length (cp_threads c)) (cp_log c) t (cp_threads c ! t)"
    and "\<And>obj d. map_of (cp_objects c) obj = Some d \<Longrightarrow> fst d < length (cp_threads c)"
  shows "capture_ok c"
  using assms unfolding capture_ok_def by blast

lemma set_thread_ok:
  assumes "capture_ok c" "thread_ok (length (cp_threads c)) (cp_log c) t w"
  shows "capture_ok (c\<lparr>cp_threads := (cp_threads c)[t := w]\<rparr>)"
proof (rule capture_okI, goal_cases)
  case (2 i)
  then show ?case using assms(2) capture_okD(2) [OF assms(1)] by (cases "i = t") simp_all
qed (use capture_okD [OF assms(1)] in simp_all)

lemma log_packet_ok:
  assumes "capture_ok c" "entry_ok (length (cp_threads c)) (cp_log c) t pk"
    and "thread_ok (length (cp_threads c)) (cp_log c @ [(t, pk)]) t w"
  shows "capture_ok (c\<lparr>cp_threads := (cp_threads c)[t := w], cp_log := cp_log c @ [(t, pk)]\<rparr>)"
proof (rule capture_okI, goal_cases)
  case (2 i)
  then show ?case using assms(3) capture_okD(2) [OF assms(1)] thread_ok_other by (cases "i = t") simp_all
qed (use capture_okD [OF assms(1)] causal_snoc [OF _ assms(2)] in simp_all)

lemma sync_end_ok:
  assumes "capture_ok c" "t < length (cp_threads c)" "length (cp_threads c) \<le> 256"
  shows "capture_ok (sync_end t c)"
proof (cases "wt_open (cp_threads c ! t)")
  case None
  then show ?thesis using assms(1) by (simp add: sync_end_def)
next
  case (Some ds)
  have th: "wt_packet (cp_threads c ! t) = of_nat (cnt t (cp_log c))" "deps_ok (length (cp_threads c)) (cp_log c) t ds"
    using capture_okD(2) [OF assms(1,2)] Some by (simp_all add: thread_ok_def)
  show ?thesis unfolding sync_end_def Let_def Some option.case
    by (rule log_packet_ok [OF assms(1) call_entry_ok [OF th(2) assms(2,3)]]) (simp add: thread_ok_def th(1))
qed

lemma sync_end_frame [simp]:
  "length (cp_threads (sync_end t c)) = length (cp_threads c)" "cp_objects (sync_end t c) = cp_objects c"
  "t < length (cp_threads c) \<Longrightarrow> wt_open (cp_threads (sync_end t c) ! t) = None"
  "i \<noteq> t \<Longrightarrow> cp_threads (sync_end t c) ! i = cp_threads c ! i"
  by (auto simp: sync_end_def Let_def split: option.splits)

lemma sync_end_flags:
  assumes "t < length (cp_threads c)"
  shows "wt_pending (cp_threads (sync_end t c) ! i) = wt_pending (cp_threads c ! i)"
    and "wt_active (cp_threads (sync_end t c) ! i) = wt_active (cp_threads c ! i)"
  using assms by (cases "i = t"; simp add: sync_end_def Let_def split: option.splits)+

lemma sync_end_packets: "\<exists>ys. cp_log (sync_end t c) = cp_log c @ ys"
  by (auto simp: sync_end_def Let_def split: option.splits)

lemma inject_ok:
  assumes "inject_thread_barrier t c = Inr c'" "capture_ok c" "t < length (cp_threads c)" "length (cp_threads c) \<le> 256"
  shows "capture_ok c'"
proof -
  define c1 where "c1 = sync_end t c"
  have c1: "capture_ok c1" "length (cp_threads c1) = length (cp_threads c)"
    unfolding c1_def using sync_end_ok assms by simp_all
  obtain ys where log: "cp_log c1 = cp_log c @ ys" using sync_end_packets c1_def by blast
  have "unat (wt_packet (cp_threads c ! i)) \<le> cnt i (cp_log c1)" if "i < length (cp_threads c)" for i
    using capture_okD(2) [OF assms(2) that] unat_of_nat_le [of "cnt i (cp_log c)", where 'a = 32] by (simp add: thread_ok_def log)
  then have entry: "entry_ok (length (cp_threads c1)) (cp_log c1) t (Barrier (map wt_packet (cp_threads c)))"
    using assms(1,3) c1(2) by (intro barrier_entry_ok) (auto simp: inject_thread_barrier_def Let_def)
  have th: "thread_ok (length (cp_threads c1)) (cp_log c1) t (cp_threads c1 ! t)"
    using capture_okD(2) [OF c1(1)] assms(3) c1(2) by simp
  have closed: "wt_open (cp_threads c1 ! t) = None" using assms(3) by (simp add: c1_def)
  have "c' = c1\<lparr>cp_threads := (cp_threads c1)[t := (cp_threads c1 ! t)\<lparr>wt_packet := wt_packet (cp_threads c1 ! t) + 1\<rparr>],
      cp_log := cp_log c1 @ [(t, Barrier (map wt_packet (cp_threads c)))]\<rparr>"
    using assms(1) by (simp add: inject_thread_barrier_def Let_def c1_def)
  then show ?thesis using log_packet_ok [OF c1(1) entry] th closed by (simp add: thread_ok_def)
qed

lemma inject_length: "inject_thread_barrier t c = Inr c' \<Longrightarrow> length (cp_threads c') = length (cp_threads c)"
  by (auto simp: inject_thread_barrier_def Let_def)

lemma make_writer_fields:
  assumes "make_writer cf a c = Inr c'"
  obtains ys w where "cp_threads c' = cp_threads c @ [w]" "cp_log c' = cp_log c @ ys" "cp_objects c' = cp_objects c"
    "ys = [] \<or> ys = [(length (cp_threads c), Barrier (map wt_packet (cp_threads c)))]"
    "wt_packet w = of_nat (length ys)" "wt_open w = None" "\<not> wt_pending w" "ys \<noteq> [] \<Longrightarrow> barrier_indices_ok (map wt_packet (cp_threads c))"
proof (cases "sc_write_output cf")
  case True
  then have "c' = c\<lparr>cp_threads := cp_threads c @ [\<lparr>wt_packet = 0, wt_open = None, wt_pending = False, wt_active = a\<rparr>]\<rparr>"
    using assms by (simp add: make_writer_def Let_def)
  then show ?thesis by (intro that [of "\<lparr>wt_packet = 0, wt_open = None, wt_pending = False, wt_active = a\<rparr>" "[]"]) simp_all
next
  case False
  let ?is = "map wt_packet (cp_threads c)" and ?w = "\<lparr>wt_packet = 1, wt_open = None, wt_pending = False, wt_active = a\<rparr>"
  have ok: "barrier_indices_ok ?is" and c': "c' = c\<lparr>cp_threads := cp_threads c @ [?w], cp_log := cp_log c @ [(length (cp_threads c), Barrier ?is)]\<rparr>"
    using False assms by (simp_all add: make_writer_def Let_def)
  show ?thesis by (rule that [of ?w "[(length (cp_threads c), Barrier ?is)]"]) (simp_all add: c' ok)
qed

lemma make_writer_ok:
  assumes "make_writer cf a c = Inr c'" "capture_ok c"
  shows "capture_ok c'"
proof -
  define n where "n = length (cp_threads c)"
  note ok = capture_okD [OF assms(2), folded n_def]
  obtain ys w where c': "cp_threads c' = cp_threads c @ [w]" "cp_log c' = cp_log c @ ys" "cp_objects c' = cp_objects c"
    and ys: "ys = [] \<or> ys = [(n, Barrier (map wt_packet (cp_threads c)))]" and w: "wt_packet w = of_nat (length ys)" "wt_open w = None"
      "ys \<noteq> [] \<Longrightarrow> barrier_indices_ok (map wt_packet (cp_threads c))"
    by (rule make_writer_fields [OF assms(1), folded n_def], rule that)
  have empty: "thread_packets n (cp_log c) = []" using causal_new [OF ok(1)] by simp
  have entry: "entry_ok (Suc n) (cp_log c) n (Barrier (map wt_packet (cp_threads c)))" if "ys \<noteq> []"
    by (rule barrier_entry_ok) (use ok(2) n_def unat_of_nat_le w(3) [OF that] in \<open>auto simp: thread_ok_def\<close>)
  show ?thesis
  proof (rule capture_okI, goal_cases)
    case 1
    show ?case using ys causal_more [OF ok(1), of "Suc n"] causal_snoc [OF _ entry] by (auto simp: c' n_def)
  next
    case (2 t)
    show ?case
    proof (cases "t = n")
      case True
      then show ?thesis using ys w empty by (auto simp: c' n_def thread_ok_def nth_append)
    next
      case False
      then have "t < n" using 2 by (simp add: c' n_def)
      then have "thread_ok n (cp_log c) t (cp_threads c ! t)" by (rule ok(2))
      moreover have "thread_packets t ys = []" using ys False by auto
      ultimately have "thread_ok (Suc n) (cp_log c @ ys) t (cp_threads c ! t)"
        by (auto simp: thread_ok_def deps_ok_def split: option.splits)
      then show ?thesis using \<open>t < n\<close> by (simp add: c' n_def nth_append)
    qed
  next
    case (3 obj d)
    then show ?case using ok(3) [of obj d] by (simp add: c' n_def)
  qed
qed

lemma push_frame [simp]:
  "length (cp_threads (push_thread_barriers cf t c)) = length (cp_threads c)" "cp_log (push_thread_barriers cf t c) = cp_log c"
  "cp_objects (push_thread_barriers cf t c) = cp_objects c"
  by (simp_all add: push_thread_barriers_def)

lemma push_thread:
  assumes "i < length (cp_threads c)"
  shows "cp_threads (push_thread_barriers cf t c) ! i =
    (if barriers_on cf \<and> i \<noteq> t \<and> wt_active (cp_threads c ! i) then (cp_threads c ! i)\<lparr>wt_pending := True\<rparr> else cp_threads c ! i)"
  using assms by (simp add: push_thread_barriers_def nth_enumerate_eq)

lemma push_ok:
  assumes "capture_ok c"
  shows "capture_ok (push_thread_barriers cf t c)"
proof (rule capture_okI, goal_cases)
  case (2 i)
  then show ?case using capture_okD(2) [OF assms, of i] by (simp add: push_thread thread_ok_def)
qed (use capture_okD [OF assms] in simp_all)

lemma write_api_command_cases:
  assumes "write_api_command cf t c = Inr c'"
  obtains (pending) c0 where "barriers_on cf" "wt_pending (cp_threads c ! t)" "inject_thread_barrier t c = Inr c0"
      "c' = sync_begin t (clear_pending t c0)"
  | (plain) "\<not> (barriers_on cf \<and> wt_pending (cp_threads c ! t))" "c' = sync_begin t c"
  using assms by (auto simp: write_api_command_def split: if_splits)

lemma sync_begin_ok:
  assumes "capture_ok c" "t < length (cp_threads c)" "length (cp_threads c) \<le> 256"
  shows "capture_ok (sync_begin t c)"
proof -
  have ok: "capture_ok (sync_end t c)" by (rule sync_end_ok [OF assms])
  then show ?thesis using set_thread_ok [OF ok] capture_okD(2) [OF ok, of t] assms(2)
    by (simp add: sync_begin_def thread_ok_def deps_ok_def Let_def)
qed

lemma clear_pending_ok: "capture_ok c \<Longrightarrow> t < length (cp_threads c) \<Longrightarrow> capture_ok (clear_pending t c)"
  unfolding clear_pending_def using set_thread_ok [of c t] capture_okD(2) [of c t] by (simp add: thread_ok_def)

lemma begin_frame [simp]:
  "length (cp_threads (sync_begin t c)) = length (cp_threads c)" "length (cp_threads (clear_pending t c)) = length (cp_threads c)"
  "cp_objects (sync_begin t c) = cp_objects c" "cp_objects (clear_pending t c) = cp_objects c"
  "cp_log (sync_begin t c) = cp_log (sync_end t c)" "cp_log (clear_pending t c) = cp_log c"
  by (simp_all add: sync_begin_def clear_pending_def Let_def)

lemma write_api_command_ok:
  assumes "write_api_command cf t c = Inr c'" "capture_ok c" "t < length (cp_threads c)" "length (cp_threads c) \<le> 256"
  shows "capture_ok c' \<and> length (cp_threads c') = length (cp_threads c)"
  using assms(1)
proof (cases rule: write_api_command_cases)
  case (pending c0)
  then show ?thesis using inject_ok [OF pending(3) assms(2-4)] inject_length [OF pending(3)] assms(3,4)
    by (simp add: sync_begin_ok clear_pending_ok)
next
  case plain
  then show ?thesis using sync_begin_ok [OF assms(2-4)] by simp
qed

lemma capture_event_ok:
  assumes "capture_event cf ev c = Inr c'" "capture_ok c" "app_synchronized ev c" "length (cp_threads c) \<le> 256"
  shows "capture_ok c' \<and> length (cp_threads c) \<le> length (cp_threads c')"
proof (cases ev)
  case (New_thread a)
  then have run: "make_writer cf a c = Inr c'" using assms(1) by (simp add: capture_event_def)
  then show ?thesis using make_writer_ok [OF run assms(2)] by (auto elim: make_writer_fields)
next
  case (Activate t)
  then show ?thesis using assms capture_okD(2) [OF assms(2), of t] set_thread_ok [OF assms(2), of t]
    by (auto simp: capture_event_def thread_ok_def split: if_splits)
next
  case (Local_barrier t)
  then show ?thesis using assms inject_ok [of t c c'] inject_length [of t c c'] by (auto simp: capture_event_def split: if_splits)
next
  case (Begin t)
  then show ?thesis using assms write_api_command_ok [of cf t c c'] by (auto simp: capture_event_def split: if_splits)
next
  case (Use t obj)
  then obtain ds u p where use: "t < length (cp_threads c)" "wt_open (cp_threads c ! t) = Some ds" "map_of (cp_objects c) obj = Some (u, p)"
    and c': "c' = c\<lparr>cp_threads := (cp_threads c)[t := (cp_threads c ! t)\<lparr>wt_open := Some (ds @ [(u, p)])\<rparr>]\<rparr>"
    using assms(1) by (auto simp: capture_event_def use_handle_def Let_def split: if_splits option.splits)
  have "u < length (cp_threads c)" using capture_okD(3) [OF assms(2) use(3)] by simp
  then have "wt_packet (cp_threads c ! u) = of_nat (cnt u (cp_log c))" using capture_okD(2) [OF assms(2)] by (simp add: thread_ok_def)
  then have "unat (wt_packet (cp_threads c ! u)) \<le> cnt u (cp_log c)" using unat_of_nat_le [of "cnt u (cp_log c)", where 'a = 32] by simp
  then have "thread_ok (length (cp_threads c)) (cp_log c) t ((cp_threads c ! t)\<lparr>wt_open := Some (ds @ [(u, p)])\<rparr>)"
    using capture_okD(2) [OF assms(2) use(1)] use assms(3) Use \<open>u < length (cp_threads c)\<close>
    by (auto simp: thread_ok_def deps_ok_def word_less_nat_alt)
  then show ?thesis using set_thread_ok [OF assms(2)] by (simp add: c')
next
  case (Touch t obj)
  then obtain w where t: "t < length (cp_threads c)" "c' = c\<lparr>cp_objects := AList.update obj (t, w) (cp_objects c)\<rparr>"
    using assms(1) by (auto simp: capture_event_def touch_def Let_def split: if_splits option.splits)
  then show ?thesis using assms(2) unfolding capture_ok_def by (auto simp: update_conv')
next
  case (Push t)
  then show ?thesis using assms push_ok [OF assms(2), of cf t] by (auto simp: capture_event_def push_thread_barriers_def split: if_splits)
next
  case (End t)
  then show ?thesis using assms sync_end_ok [OF assms(2), of t] by (auto simp: capture_event_def split: if_splits)
qed

lemma capture_run_threads:
  "capture_run cf evs c = Inr c' \<Longrightarrow> length (cp_threads c) \<le> length (cp_threads c')"
proof (induction evs arbitrary: c)
  case (Cons ev evs)
  then obtain c1 where c1: "capture_event cf ev c = Inr c1" "capture_run cf evs c1 = Inr c'" by auto
  have "length (cp_threads c) \<le> length (cp_threads c1)"
    using c1(1) by (cases ev) (auto simp: capture_event_def write_api_command_def use_handle_def touch_def Let_def
        elim: make_writer_fields dest!: inject_length split: if_splits option.splits)
  with Cons.IH [OF c1(2)] show ?case by simp
qed simp

lemma capture_run_ok:
  assumes "capture_run cf evs c = Inr c'" "disciplined cf evs c" "capture_ok c" "length (cp_threads c') \<le> 256"
  shows "capture_ok c'"
  using assms
proof (induction evs arbitrary: c)
  case (Cons ev evs)
  then obtain c1 where c1: "capture_event cf ev c = Inr c1" "capture_run cf evs c1 = Inr c'" by auto
  have few: "length (cp_threads c) \<le> 256" using capture_run_threads [OF Cons.prems(1)] Cons.prems(4) by simp
  have "capture_ok c1" using capture_event_ok [OF c1(1) Cons.prems(3) _ few] Cons.prems(2) by simp
  then show ?case using Cons.IH [OF c1(2)] Cons.prems(2,4) c1(1) by simp
qed simp

lemma capture_new_ok: "capture_ok capture_new"
  by (simp add: capture_ok_def capture_new_def)

section \<open>The invariant of a replay\<close>

text \<open>No thread records 2^32 packets or more, so that no packet number wraps.\<close>

definition packets_fit :: "capture \<Rightarrow> bool" where
  "packets_fit c \<longleftrightarrow> list_all (\<lambda>t. cnt t (cp_log c) < 2 ^ 32) [0..<length (cp_threads c)]"

abbreviation completed :: "replay_thread \<Rightarrow> nat" where
  "completed w \<equiv> unat (rt_done w)"

text \<open>The number of packets a thread has behind it, waits included.\<close>

definition passed :: "replay_thread \<Rightarrow> nat" where
  "passed w = (if \<not> rt_open w \<and> rt_waits w \<noteq> [] then completed w - 1 else completed w)"

definition is_barrier :: "packet \<Rightarrow> bool" where
  "is_barrier p \<longleftrightarrow> (\<exists>is. p = Barrier is)"

definition place_ok :: "nat \<Rightarrow> packet list \<Rightarrow> replay_thread \<Rightarrow> bool" where
  "place_ok t ps w \<longleftrightarrow> completed w \<le> length ps \<and> rt_todo w = drop (completed w + (if rt_open w then 1 else 0)) ps \<and>
    (rt_open w \<longrightarrow> completed w < length ps \<and> \<not> is_barrier (ps ! completed w)) \<and>
    (\<not> rt_open w \<and> rt_waits w \<noteq> [] \<longrightarrow> 0 < completed w \<and> is_barrier (ps ! (completed w - 1))) \<and>
    (rt_waits w \<noteq> [] \<longrightarrow> set (rt_waits w) \<subseteq> set (waits_of t (ps ! passed w)))"

text \<open>What a thread has waited for: everything its packets behind it ask for, and what is gone from its list of waits.\<close>

definition behind :: "replay_thread \<Rightarrow> nat \<Rightarrow> wait \<Rightarrow> bool" where
  "behind w q x \<longleftrightarrow> q < passed w \<or> q = passed w \<and> (rt_open w \<or> rt_waits w \<noteq> []) \<and> x \<notin> set (rt_waits w)"

definition waited :: "replay_thread list \<Rightarrow> nat \<Rightarrow> packet list \<Rightarrow> bool" where
  "waited r t ps \<longleftrightarrow>
    (\<forall>q < length ps. \<forall>x \<in> set (waits_of t (ps ! q)). behind (r ! t) q x \<longrightarrow> need x \<le> completed (r ! wait_thread x))"

definition replay_ok :: "(nat \<times> packet) list \<Rightarrow> replay_thread list \<Rightarrow> bool" where
  "replay_ok log r \<longleftrightarrow> (\<forall>t < length r. place_ok t (thread_packets t log) (r ! t) \<and> waited r t (thread_packets t log))"

definition counts_fit :: "(nat \<times> packet) list \<Rightarrow> replay_thread list \<Rightarrow> bool" where
  "counts_fit log r \<longleftrightarrow> (\<forall>t < length r. cnt t log < 2 ^ 32)"

lemma packets_fitD: "packets_fit c \<Longrightarrow> length r = length (cp_threads c) \<Longrightarrow> counts_fit (cp_log c) r"
  by (simp add: packets_fit_def counts_fit_def list_all_iff)

lemma completed_fits:
  assumes "replay_ok log r" "counts_fit log r" "t < length r"
  shows "completed (r ! t) < 2 ^ 32" "completed ((r ! t)\<lparr>rt_done := rt_done (r ! t) + 1\<rparr>) = Suc (completed (r ! t))"
proof -
  show *: "completed (r ! t) < 2 ^ 32" using assms by (fastforce simp: replay_ok_def place_ok_def counts_fit_def)
  then have "completed (r ! t) + 1 < 2 ^ 64" by simp
  then show "completed ((r ! t)\<lparr>rt_done := rt_done (r ! t) + 1\<rparr>) = Suc (completed (r ! t))" by (simp add: unat_word_ariths)
qed

lemma replay_turn_cases:
  assumes "replay_turn t r = Some r'"
  obtains (leave) x ws where "rt_waits (r ! t) = x # ws" "wait_thread x < length r" "wait_over x (rt_done (r ! wait_thread x))"
      "r' = r[t := (r ! t)\<lparr>rt_waits := ws\<rparr>]" "t < length r"
  | (complete) "rt_waits (r ! t) = []" "rt_open (r ! t)" "r' = r[t := (r ! t)\<lparr>rt_open := False, rt_done := rt_done (r ! t) + 1\<rparr>]" "t < length r"
  | (call) ds ps where "rt_waits (r ! t) = []" "\<not> rt_open (r ! t)" "rt_todo (r ! t) = Call ds # ps"
      "r' = r[t := (r ! t)\<lparr>rt_todo := ps, rt_waits := waits_of t (Call ds), rt_open := True\<rparr>]" "t < length r"
  | (barrier) "is" ps where "rt_waits (r ! t) = []" "\<not> rt_open (r ! t)" "rt_todo (r ! t) = Barrier is # ps"
      "r' = r[t := (r ! t)\<lparr>rt_todo := ps, rt_waits := waits_of t (Barrier is), rt_done := rt_done (r ! t) + 1\<rparr>]" "t < length r"
  using assms unfolding replay_turn_def Let_def
  by (auto split: if_splits list.splits packet.splits)

lemma drop_ConsD: "drop n xs = y # ys \<Longrightarrow> n < length xs \<and> xs ! n = y \<and> drop (Suc n) xs = ys"
  by (metis Cons_nth_drop_Suc drop_all list.distinct(1) list.inject not_le)

lemma done_mono: "completed (r ! t) \<le> completed w \<Longrightarrow> t < length r \<Longrightarrow> completed (r ! i) \<le> completed (r[t := w] ! i)"
  by (cases "i = t") simp_all

lemma replay_okI:
  assumes "replay_ok log r" "t < length r" "completed (r ! t) \<le> completed w"
    and "place_ok t (thread_packets t log) w"
    and "\<And>q x. q < length (thread_packets t log) \<Longrightarrow> x \<in> set (waits_of t (thread_packets t log ! q)) \<Longrightarrow>
      behind w q x \<Longrightarrow> need x \<le> completed (r ! wait_thread x)"
  shows "replay_ok log (r[t := w])"
  unfolding replay_ok_def
proof (intro allI impI)
  fix i assume "i < length (r[t := w])"
  then have i: "i < length r" by simp
  have grow: "need x \<le> completed (r ! wait_thread x) \<Longrightarrow> need x \<le> completed (r[t := w] ! wait_thread x)" for x
    using done_mono [OF assms(3,2), of "wait_thread x"] by (rule order_trans [rotated])
  show "place_ok i (thread_packets i log) (r[t := w] ! i) \<and> waited (r[t := w]) i (thread_packets i log)"
  proof (cases "i = t")
    case True
    then show ?thesis using assms(2,4,5) grow by (simp add: waited_def)
  next
    case False
    then show ?thesis using assms(1) i grow by (simp add: replay_ok_def waited_def)
  qed
qed

lemma replay_turn_ok:
  assumes "replay_turn t r = Some r'" "replay_ok log r" "counts_fit log r"
  shows "replay_ok log r'"
proof -
  define w ps where "w = r ! t" and "ps = thread_packets t log"
  have old: "place_ok t ps w" "waited r t ps" if "t < length r" using assms(2) that by (auto simp: replay_ok_def w_def ps_def)
  have seen: "need x \<le> completed (r ! wait_thread x)" if "t < length r" "q < length ps" "x \<in> set (waits_of t (ps ! q))"
      "behind w q x" for q x
    using old(2) [OF that(1)] that(2-) by (simp add: waited_def w_def)
  from assms(1) show ?thesis
  proof (cases rule: replay_turn_cases)
    case (leave x ws)
    note o = old(1) [OF leave(5)] and s = seen [OF leave(5)]
    show ?thesis unfolding leave(4)
    proof (rule replay_okI [OF assms(2) leave(5)], goal_cases)
      case 2
      then show ?case using o leave(1) by (auto simp: place_ok_def passed_def w_def ps_def)
    next
      case (3 q y)
      then have q: "q < length ps" "y \<in> set (waits_of t (ps ! q))" by (simp_all add: ps_def)
      show ?case
      proof (cases "y = x")
        case True
        then show ?thesis using leave(3) wait_over_need [OF completed_fits(1) [OF assms(2,3) leave(2)]] by simp
      next
        case False
        then have "behind w q y"
          using 3(3) leave(1) o by (auto simp: behind_def passed_def w_def place_ok_def split: if_splits)
        then show ?thesis using s [OF q] by simp
      qed
    qed simp
  next
    case complete
    note o = old(1) [OF complete(4)] and s = seen [OF complete(4)]
    have step: "unat (rt_done w + 1) = Suc (completed w)" using completed_fits(2) [OF assms(2,3) complete(4)] by (simp add: w_def)
    show ?thesis unfolding complete(3)
    proof (rule replay_okI [OF assms(2) complete(4)], goal_cases)
      case 2
      then show ?case using o complete(1,2) step by (auto simp: place_ok_def passed_def w_def ps_def)
    next
      case (3 q x)
      then have "behind w q x"
        using complete step by (auto simp: behind_def passed_def w_def)
      then show ?case using s 3(1,2) by (simp add: ps_def)
    qed (use step in \<open>simp add: w_def\<close>)
  next
    case (call ds qs)
    note o = old(1) [OF call(5)] and s = seen [OF call(5)]
    have here: "completed w < length ps" "ps ! completed w = Call ds" "drop (Suc (completed w)) ps = qs"
      using o call(1-3) drop_ConsD [of "completed w" ps "Call ds" qs] by (simp_all add: place_ok_def w_def)
    show ?thesis unfolding call(4)
    proof (rule replay_okI [OF assms(2) call(5)], goal_cases)
      case 2
      then show ?case using here by (auto simp: place_ok_def passed_def is_barrier_def w_def ps_def)
    next
      case (3 q x)
      then have "behind w q x"
        using call(1,2) here(2) by (auto simp: behind_def passed_def w_def ps_def)
      then show ?case using s 3(1,2) by (simp add: ps_def)
    qed simp
  next
    case (barrier "is" qs)
    note o = old(1) [OF barrier(5)] and s = seen [OF barrier(5)]
    have step: "unat (rt_done w + 1) = Suc (completed w)" using completed_fits(2) [OF assms(2,3) barrier(5)] by (simp add: w_def)
    have here: "completed w < length ps" "ps ! completed w = Barrier is" "drop (Suc (completed w)) ps = qs"
      using o barrier(1-3) drop_ConsD [of "completed w" ps "Barrier is" qs] by (simp_all add: place_ok_def w_def)
    show ?thesis unfolding barrier(4)
    proof (rule replay_okI [OF assms(2) barrier(5)], goal_cases)
      case 2
      then show ?case using here barrier(1,2) step by (auto simp: place_ok_def passed_def is_barrier_def w_def ps_def)
    next
      case (3 q x)
      then have "behind w q x"
        using barrier(1,2) here(2) step by (auto simp: behind_def passed_def w_def ps_def less_Suc_eq split: if_splits)
      then show ?case using s 3(1,2) by (simp add: ps_def)
    qed (use step in \<open>simp add: w_def\<close>)
  qed
qed

lemma replay_turn_length: "replay_turn t r = Some r' \<Longrightarrow> length r' = length r"
  by (erule replay_turn_cases) simp_all

lemma replay_reachable_ok:
  assumes "replay_reachable c r" "packets_fit c"
  shows "replay_ok (cp_log c) r \<and> length r = length (cp_threads c)"
  using assms(1)
proof (induction rule: replay_reachable.induct)
  case start
  show ?case by (auto simp: replay_ok_def replay_start_def place_ok_def waited_def passed_def behind_def)
next
  case (turn r t r')
  then show ?case using replay_turn_ok [OF turn.hyps(2)] replay_turn_length [OF turn.hyps(2)] packets_fitD [OF assms(2), of r] by simp
qed

section \<open>Progress\<close>

text \<open>The first packet of the log that its thread has not passed: everything it waits for is done.\<close>

lemma first_unpassed:
  assumes "\<forall>u < n. cnt u xs \<le> f u" "\<forall>e \<in> set ys. fst e < n"
  shows "(\<forall>u < n. cnt u (xs @ ys) \<le> f u) \<or>
    (\<exists>as t pk bs. xs @ ys = as @ (t, pk) # bs \<and> f t = cnt t as \<and> (\<forall>u < n. cnt u as \<le> f u))"
  using assms
proof (induction ys arbitrary: xs)
  case (Cons e ys)
  obtain t pk where e: "e = (t, pk)" by fastforce
  show ?case
  proof (cases "f t = cnt t xs")
    case True
    then show ?thesis using Cons.prems(1) e by blast
  next
    case False
    then have "\<forall>u < n. cnt u (xs @ [e]) \<le> f u" using Cons.prems e by (auto simp: le_less)
    from Cons.IH [OF this] Cons.prems(2) show ?thesis by simp
  qed
qed simp

lemma passed_le: "place_ok t ps w \<Longrightarrow> passed w \<le> completed w \<and> passed w \<le> length ps"
  by (auto simp: place_ok_def passed_def)

lemma passed_all:
  assumes "place_ok t ps w" "length ps \<le> passed w"
  shows "rt_todo w = [] \<and> rt_waits w = [] \<and> \<not> rt_open w"
  using assms by (auto simp: place_ok_def passed_def split: if_splits)

lemma replay_progress:
  assumes "causal (length r) log" "replay_ok log r" "counts_fit log r"
  shows "replay_finished r \<or> (\<exists>t r'. replay_turn t r = Some r')"
proof -
  define f where "f = (\<lambda>t. passed (r ! t))"
  have place: "place_ok t (thread_packets t log) (r ! t)" if "t < length r" for t using assms(2) that by (simp add: replay_ok_def)
  have "\<forall>e \<in> set log. fst e < length r" using causal_thread [OF assms(1)] by blast
  from first_unpassed [of "length r" "[]" f, OF _ this] consider
      (all) "\<forall>u < length r. cnt u log \<le> f u"
    | (first) xs t pk ys where "log = xs @ (t, pk) # ys" "f t = cnt t xs" "\<forall>u < length r. cnt u xs \<le> f u"
    by auto
  then show ?thesis
  proof cases
    case all
    then have "rt_todo (r ! t) = [] \<and> rt_waits (r ! t) = [] \<and> \<not> rt_open (r ! t)" if "t < length r" for t
      using passed_all [OF place [OF that]] that by (simp add: f_def)
    then have "replay_finished r" by (auto simp: replay_finished_def in_set_conv_nth)
    then show ?thesis by blast
  next
    case first
    have entry: "entry_ok (length r) xs t pk" using assms(1) first(1) by (simp add: causal_def)
    then have t: "t < length r" by (simp add: entry_ok_def)
    define w ps where "w = r ! t" and "ps = thread_packets t log"
    have pk: "ps ! passed w = pk" "passed w < length ps" using first(1,2) by (simp_all add: ps_def w_def f_def nth_append)
    have ready: "wait_thread x < length r \<and> wait_over x (rt_done (r ! wait_thread x))" if "x \<in> set (waits_of t pk)" for x
    proof -
      have "wait_thread x < length r" "need x \<le> cnt (wait_thread x) xs" using entry that by (auto simp: entry_ok_def)
      moreover have "cnt (wait_thread x) xs \<le> completed (r ! wait_thread x)"
        using first(3) passed_le [OF place] calculation(1) by (fastforce simp: f_def intro: order_trans)
      ultimately show ?thesis using wait_over_need [OF completed_fits(1) [OF assms(2,3)]] by simp
    qed
    have o: "place_ok t ps w" using place [OF t] by (simp add: ps_def w_def)
    show ?thesis
    proof (cases "rt_waits w")
      case (Cons x xs)
      then have "x \<in> set (waits_of t pk)" using o pk(1) by (auto simp: place_ok_def)
      from ready [OF this] have "replay_turn t r = Some (r[t := w\<lparr>rt_waits := xs\<rparr>])"
        using t Cons by (simp add: replay_turn_def flip: w_def)
      then show ?thesis by blast
    next
      case Nil
      show ?thesis
      proof (cases "rt_open w")
        case True
        then have "\<exists>r'. replay_turn t r = Some r'" using t Nil by (simp add: replay_turn_def w_def Let_def)
        then show ?thesis by blast
      next
        case False
        then have "rt_todo w = pk # drop (Suc (completed w)) ps"
          using o pk Nil Cons_nth_drop_Suc [of "completed w" ps] by (simp add: place_ok_def passed_def)
        moreover have "\<forall>is. pk = Barrier is \<longrightarrow> list_all (\<lambda>i. i \<noteq> UINT32_MAX) is" using entry by (simp add: entry_ok_def)
        ultimately have "\<exists>r'. replay_turn t r = Some r'" using t Nil False by (cases pk) (simp_all add: replay_turn_def w_def Let_def)
        then show ?thesis by blast
      qed
    qed
  qed
qed

text \<open>The work that is left: for every packet its waits, reading it and completing it.\<close>

definition thread_work :: "nat \<Rightarrow> replay_thread \<Rightarrow> nat" where
  "thread_work t w = sum_list (map (\<lambda>p. length (waits_of t p) + 2) (rt_todo w)) + length (rt_waits w) + (if rt_open w then 1 else 0)"

definition replay_work :: "replay_thread list \<Rightarrow> nat" where
  "replay_work r = (\<Sum>t < length r. thread_work t (r ! t))"

lemma replay_work_update:
  assumes "t < length r" "thread_work t w < thread_work t (r ! t)"
  shows "replay_work (r[t := w]) < replay_work r"
proof -
  have "(\<Sum>i \<in> {..<length r} - {t}. thread_work i (r[t := w] ! i)) = (\<Sum>i \<in> {..<length r} - {t}. thread_work i (r ! i))"
    by (rule sum.cong) auto
  then show ?thesis using assms
    by (simp add: replay_work_def sum.remove [of "{..<length r}" t])
qed

lemma replay_turn_work: "replay_turn t r = Some r' \<Longrightarrow> replay_work r' < replay_work r"
  by (erule replay_turn_cases) (auto intro!: replay_work_update simp: thread_work_def)

section \<open>From events to the log\<close>

text \<open>What a thread has recorded stays in its stream, and the packet that is open becomes the next one.\<close>

definition recorded :: "nat \<Rightarrow> nat \<Rightarrow> nat \<times> u32 \<Rightarrow> capture \<Rightarrow> bool" where
  "recorded u q d c \<longleftrightarrow> u < length (cp_threads c) \<and>
    (q = cnt u (cp_log c) \<and> (\<exists>ds. wt_open (cp_threads c ! u) = Some ds \<and> d \<in> set ds) \<or>
     q < cnt u (cp_log c) \<and> (\<exists>ds. thread_packets u (cp_log c) ! q = Call ds \<and> d \<in> set ds))"

lemma recorded_end:
  assumes "recorded u q d c" "t < length (cp_threads c)"
  shows "recorded u q d (sync_end t c)"
proof (cases "wt_open (cp_threads c ! t)")
  case None
  then show ?thesis using assms(1) by (simp add: sync_end_def)
next
  case (Some ds)
  then show ?thesis using assms(1,2) by (cases "u = t") (auto simp: recorded_def sync_end_def Let_def nth_append)
qed

lemma recorded_frame: "recorded u q d c \<Longrightarrow> cp_threads c' = cp_threads c \<Longrightarrow> cp_log c' = cp_log c \<Longrightarrow> recorded u q d c'"
  by (simp add: recorded_def)

lemma recorded_thread:
  assumes "recorded u q d c" "t < length (cp_threads c)"
    and "\<And>ds. wt_open (cp_threads c ! t) = Some ds \<Longrightarrow> \<exists>es. wt_open w = Some es \<and> set ds \<subseteq> set es"
  shows "recorded u q d (c\<lparr>cp_threads := (cp_threads c)[t := w]\<rparr>)"
  using assms unfolding recorded_def by (cases "u = t") fastforce+

lemma recorded_logged:
  assumes "recorded u q d c" "wt_open (cp_threads c ! t) = None"
  shows "recorded u q d (c\<lparr>cp_threads := (cp_threads c)[t := w], cp_log := cp_log c @ [(t, pk)]\<rparr>)"
  using assms unfolding recorded_def by (cases "u = t") (auto simp: nth_append)

lemma recorded_inject:
  assumes "recorded u q d c" "inject_thread_barrier t c = Inr c'" "t < length (cp_threads c)"
  shows "recorded u q d c'"
proof -
  have "recorded u q d (sync_end t c)" by (rule recorded_end [OF assms(1,3)])
  from recorded_logged [OF this] assms(2,3) show ?thesis by (auto simp: inject_thread_barrier_def Let_def)
qed

lemma recorded_begin:
  assumes "recorded u q d c" "t < length (cp_threads c)"
  shows "recorded u q d (sync_begin t c)"
  unfolding sync_begin_def Let_def by (rule recorded_thread [OF recorded_end [OF assms]]) (use assms(2) in simp_all)

lemma recorded_clear: "recorded u q d c \<Longrightarrow> t < length (cp_threads c) \<Longrightarrow> recorded u q d (clear_pending t c)"
  unfolding clear_pending_def by (rule recorded_thread) simp_all

lemma recorded_command:
  assumes "recorded u q d c" "write_api_command cf t c = Inr c'" "t < length (cp_threads c)"
  shows "recorded u q d c'"
  using assms(2)
proof (cases rule: write_api_command_cases)
  case (pending c0)
  have "t < length (cp_threads c0)" "recorded u q d c0"
    using inject_length [OF pending(3)] assms(3) recorded_inject [OF assms(1) pending(3) assms(3)] by auto
  then show ?thesis unfolding pending(4) by (intro recorded_begin recorded_clear) simp_all
next
  case plain
  then show ?thesis using recorded_begin [OF assms(1,3)] by simp
qed

lemma make_writer_frame:
  assumes "make_writer cf a c = Inr c'"
  shows "\<exists>w. cp_threads c' = cp_threads c @ [w] \<and> \<not> wt_pending w" "t < length (cp_threads c) \<Longrightarrow> thread_packets t (cp_log c') = thread_packets t (cp_log c)"
  by (rule make_writer_fields [OF assms]; auto)+

lemma recorded_event:
  assumes "recorded u q d c" "capture_event cf ev c = Inr c'"
  shows "recorded u q d c'"
proof (cases ev)
  case (New_thread a)
  then have run: "make_writer cf a c = Inr c'" using assms(2) by (simp add: capture_event_def)
  then obtain w where "cp_threads c' = cp_threads c @ [w]" using make_writer_frame(1) by blast
  then show ?thesis using assms(1) make_writer_frame(2) [OF run] by (auto simp: recorded_def nth_append)
next
  case (Use t obj)
  then obtain ds dep where t: "t < length (cp_threads c)" "wt_open (cp_threads c ! t) = Some ds"
    and c': "c' = c\<lparr>cp_threads := (cp_threads c)[t := (cp_threads c ! t)\<lparr>wt_open := Some (ds @ [dep])\<rparr>]\<rparr>"
    using assms(2) by (auto simp: capture_event_def use_handle_def Let_def split: if_splits option.splits)
  show ?thesis unfolding c' by (rule recorded_thread [OF assms(1) t(1)]) (use t(2) in auto)
next
  case (Push t)
  then have c': "c' = push_thread_barriers cf t c" using assms(2) by (auto simp: capture_event_def split: if_splits)
  show ?thesis using assms(1) by (auto simp: c' recorded_def push_thread)
next
  case (Activate t)
  then show ?thesis using assms(2) recorded_thread [OF assms(1)] by (auto simp: capture_event_def split: if_splits)
next
  case (Local_barrier t)
  then have t: "t < length (cp_threads c)" and run: "c' = c \<or> inject_thread_barrier t c = Inr c'"
    using assms(2) by (auto simp: capture_event_def split: if_splits)
  then show ?thesis using recorded_inject [OF assms(1) _ t] assms(1) by blast
next
  case (Begin t)
  then have "t < length (cp_threads c)" "write_api_command cf t c = Inr c'" using assms(2) by (auto simp: capture_event_def split: if_splits)
  then show ?thesis using recorded_command [OF assms(1)] by blast
next
  case (Touch t obj)
  then have "cp_threads c' = cp_threads c" "cp_log c' = cp_log c"
    using assms(2) by (auto simp: capture_event_def touch_def Let_def split: if_splits option.splits)
  then show ?thesis by (rule recorded_frame [OF assms(1)])
next
  case (End t)
  then have "t < length (cp_threads c)" "c' = sync_end t c" using assms(2) by (auto simp: capture_event_def split: if_splits)
  then show ?thesis using recorded_end [OF assms(1)] by simp
qed

lemma capture_run_append:
  "capture_run cf (xs @ ys) c = result_bind (capture_run cf xs c) (capture_run cf ys)"
  by (induction xs arbitrary: c) (auto simp: result_bind_def split: sum.splits)

lemma disciplined_append:
  "capture_run cf xs c = Inr c' \<Longrightarrow> disciplined cf (xs @ ys) c \<longleftrightarrow> disciplined cf xs c \<and> disciplined cf ys c'"
  by (induction xs arbitrary: c) auto

lemma recorded_run:
  "capture_run cf evs c = Inr c' \<Longrightarrow> recorded u q d c \<Longrightarrow> recorded u q d c'"
proof (induction evs arbitrary: c)
  case (Cons ev evs)
  then obtain c1 where c1: "capture_event cf ev c = Inr c1" "capture_run cf evs c1 = Inr c'" by auto
  then show ?case using Cons.IH [OF c1(2)] recorded_event [OF Cons.prems(2) c1(1)] by simp
qed simp

lemma objects_frame:
  assumes "capture_run cf evs c = Inr c'" "\<forall>v. Touch v obj \<notin> set evs"
  shows "map_of (cp_objects c') obj = map_of (cp_objects c) obj"
  using assms
proof (induction evs arbitrary: c)
  case (Cons ev evs)
  then obtain c1 where c1: "capture_event cf ev c = Inr c1" "capture_run cf evs c1 = Inr c'" by auto
  have inj: "inject_thread_barrier t e = Inr e' \<Longrightarrow> cp_objects e' = cp_objects e" for t e e'
    by (auto simp: inject_thread_barrier_def Let_def)
  have "map_of (cp_objects c1) obj = map_of (cp_objects c) obj"
    using c1(1) Cons.prems(2)
    by (cases ev) (auto simp: capture_event_def write_api_command_def use_handle_def touch_def Let_def update_conv'
        elim: make_writer_fields dest!: inj split: if_splits option.splits)
  with Cons.IH [OF c1(2)] Cons.prems(2) show ?case by simp
qed simp

lemma log_event: "capture_event cf ev c = Inr c' \<Longrightarrow> \<exists>ys. cp_log c' = cp_log c @ ys"
proof -
  assume run: "capture_event cf ev c = Inr c'"
  have inj: "\<exists>ys. cp_log e' = cp_log e @ ys" if "inject_thread_barrier t e = Inr e'" for t e e'
    using that sync_end_packets [of t e] by (auto simp: inject_thread_barrier_def Let_def)
  show ?thesis
  proof (cases ev)
    case (New_thread a)
    then have "make_writer cf a c = Inr c'" using run by (simp add: capture_event_def)
    then show ?thesis by (rule make_writer_fields) blast
  next
    case (Begin t)
    then have "write_api_command cf t c = Inr c'" using run by (auto simp: capture_event_def split: if_splits)
    then show ?thesis
    proof (cases rule: write_api_command_cases)
      case (pending c0)
      then show ?thesis using inj [OF pending(3)] sync_end_packets [of t "clear_pending t c0"] by auto
    next
      case plain
      then show ?thesis using sync_end_packets [of t c] by simp
    qed
  qed (use run inj sync_end_packets in \<open>fastforce simp: capture_event_def use_handle_def touch_def Let_def
      split: if_splits option.splits\<close>)+
qed

lemma log_run: "capture_run cf evs c = Inr c' \<Longrightarrow> \<exists>ys. cp_log c' = cp_log c @ ys"
proof (induction evs arbitrary: c)
  case (Cons ev evs)
  then obtain c1 where c1: "capture_event cf ev c = Inr c1" "capture_run cf evs c1 = Inr c'" by auto
  then show ?case using Cons.IH [OF c1(2)] log_event [OF c1(1)] by auto
qed simp

lemma packet_count:
  assumes "capture_ok c" "t < length (cp_threads c)" "capture_run cf evs c = Inr c'" "packets_fit c'"
  shows "unat (wt_packet (cp_threads c ! t)) = cnt t (cp_log c)"
proof -
  obtain ys where "cp_log c' = cp_log c @ ys" using log_run [OF assms(3)] by blast
  moreover have "cnt t (cp_log c') < 2 ^ 32"
    using assms(2,4) capture_run_threads [OF assms(3)] by (simp add: packets_fit_def list_all_iff)
  ultimately have "cnt t (cp_log c) < 2 ^ 32" by simp
  moreover have "wt_packet (cp_threads c ! t) = of_nat (cnt t (cp_log c))" using capture_okD(2) [OF assms(1,2)] by (simp add: thread_ok_def)
  ultimately show ?thesis by (simp add: unsigned_of_nat take_bit_nat_eq_self)
qed

section \<open>Properties\<close>

text \<open>C6: a replay cannot deadlock and always ends.  Take any interleaving of up to 256 capture threads in which the
  application keeps to the API's rule that an object is not used while another thread's call is changing it, and any
  point of any replay of what was recorded, with fewer than 2^32 packets on each thread.  Unless every thread has come to the end of its stream, some thread can go
  on, and every action of any thread leaves less work; so all threads finish under every schedule.\<close>

theorem replay_never_deadlocks:
  assumes "capture_run cf evs capture_new = Inr c" "disciplined cf evs capture_new" "length (cp_threads c) \<le> 256"
    and "packets_fit c" "replay_reachable c r"
  shows "(replay_finished r \<or> (\<exists>t r'. replay_turn t r = Some r')) \<and>
    (\<forall>t r'. replay_turn t r = Some r' \<longrightarrow> replay_work r' < replay_work r)"
proof -
  have "capture_ok c" by (rule capture_run_ok [OF assms(1,2) capture_new_ok assms(3)])
  then have "causal (length r) (cp_log c)" "replay_ok (cp_log c) r" "counts_fit (cp_log c) r"
    using replay_reachable_ok [OF assms(5,4)] capture_okD(1) packets_fitD [OF assms(4)] by auto
  then show ?thesis using replay_progress replay_turn_work by blast
qed

text \<open>Two threads: the first creates object 5 in a call and ends it; the second, started later, uses it.\<close>

definition trace_config :: sync_config where
  "trace_config = \<lparr>sc_write_output = False, sc_output_thread_barriers = False\<rparr>"

definition sample_events :: "event list" where
  "sample_events = [New_thread True, Begin 0, New_thread True, Touch 0 5, End 0, Begin 1, Use 1 5, End 1]"

definition sample_capture :: capture where
  "sample_capture = projr (capture_run trace_config sample_events capture_new)"

lemma sample_capture_run: "capture_run trace_config sample_events capture_new = Inr sample_capture"
  by code_simp

lemma sample_disciplined: "disciplined trace_config sample_events capture_new" "length (cp_threads sample_capture) \<le> 256"
  by code_simp+

lemma short_log_fits: "length (cp_log c) \<le> 10 \<Longrightarrow> packets_fit c"
  by (auto simp: packets_fit_def list_all_iff thread_packets_def intro: le_less_trans [OF length_filter_le])

lemma sample_fits: "packets_fit sample_capture"
  by (rule short_log_fits) code_simp

theorem replay_never_deadlocks_witness:
  "\<exists>t r'. replay_turn t (replay_start sample_capture) = Some r' \<and> replay_work r' < replay_work (replay_start sample_capture)"
proof -
  have "\<not> replay_finished (replay_start sample_capture)" by code_simp
  with replay_never_deadlocks [OF sample_capture_run sample_disciplined sample_fits replay_reachable.start] show ?thesis by blast
qed

text \<open>What a thread asked for in a call it has completed is done.\<close>

lemma completed_call:
  assumes "replay_ok log r" "u < length r" "q < completed (r ! u)" "q < cnt u log" "thread_packets u log ! q = Call ds" "d \<in> set ds"
    and "fst d < 128" "fst d \<noteq> u" "u < 256"
  shows "unat (snd d) < completed (r ! fst d)"
proof -
  have ok: "place_ok u (thread_packets u log) (r ! u)" "waited r u (thread_packets u log)" using assms(1,2) by (auto simp: replay_ok_def)
  have "q \<noteq> completed (r ! u) - 1 \<or> rt_open (r ! u) \<or> rt_waits (r ! u) = []"
    using ok(1) assms(5) by (auto simp: place_ok_def is_barrier_def)
  then have "q < passed (r ! u)" using assms(3) by (auto simp: passed_def)
  moreover have "Handle_wait (fst d) (snd d) \<in> set (waits_of u (thread_packets u log ! q))"
    using assms(5-9) handle_wait_eq [of d u] by (force intro!: bexI [of _ d])
  ultimately have "need (Handle_wait (fst d) (snd d)) \<le> completed (r ! wait_thread (Handle_wait (fst d) (snd d)))"
    using ok(2) assms(4) unfolding waited_def behind_def by blast
  then show ?thesis by simp
qed

text \<open>C8: replay keeps the order of accesses to an object.  If, in a capture by at most 128 threads with fewer than 2^32 packets each, thread \<open>t\<close> changes
  an object in its packet \<open>p\<close> and thread \<open>u\<close> is the next to use it, in its packet \<open>q\<close>, then in every replay thread \<open>u\<close>
  completes \<open>q\<close> only after thread \<open>t\<close> has completed \<open>p\<close>, whatever else the threads recorded before, between and
  after.\<close>

theorem touch_before_use:
  assumes "capture_run cf evs1 capture_new = Inr c1" "capture_run cf (Touch t obj # evs2) c1 = Inr c2"
    and "capture_run cf (Use u obj # evs3) c2 = Inr c"
    and "disciplined cf (evs1 @ (Touch t obj # evs2) @ (Use u obj # evs3)) capture_new"
    and "\<forall>v. Touch v obj \<notin> set evs2" "t \<noteq> u" "length (cp_threads c) \<le> 128" "packets_fit c"
    and "replay_reachable c r" "unat (wt_packet (cp_threads c2 ! u)) < unat (rt_done (r ! u))"
  shows "unat (wt_packet (cp_threads c1 ! t)) < unat (rt_done (r ! t))"
proof -
  define p q where "p = wt_packet (cp_threads c1 ! t)" and "q = cnt u (cp_log c2)"
  have disc: "disciplined cf evs1 capture_new" "disciplined cf (Touch t obj # evs2) c1" "disciplined cf (Use u obj # evs3) c2"
    using assms(1,2,4) by (simp_all only: disciplined_append)
  note few = capture_run_threads [OF assms(2)] capture_run_threads [OF assms(3)] assms(7)
  have ok1: "capture_ok c1" by (rule capture_run_ok [OF assms(1) disc(1) capture_new_ok]) (use few in linarith)
  have ok2: "capture_ok c2" by (rule capture_run_ok [OF assms(2) disc(2) ok1]) (use few in linarith)
  obtain e where e: "capture_event cf (Touch t obj) c1 = Inr e" "capture_run cf evs2 e = Inr c2" using assms(2) by auto
  have t: "t < length (cp_threads c1)" "map_of (cp_objects e) obj = Some (t, p)"
    using e(1) by (auto simp: capture_event_def touch_def Let_def p_def update_conv' split: if_splits option.splits)
  then have obj: "map_of (cp_objects c2) obj = Some (t, p)" using objects_frame [OF e(2) assms(5)] by simp
  obtain e3 where e3: "capture_event cf (Use u obj) c2 = Inr e3" "capture_run cf evs3 e3 = Inr c" using assms(3) by auto
  have rec: "recorded u q (t, p) e3"
    using e3(1) obj by (auto simp: capture_event_def use_handle_def recorded_def q_def Let_def split: if_splits option.splits)
  have fin: "recorded u q (t, p) c" by (rule recorded_run [OF e3(2) rec])
  have u: "u < length (cp_threads c2)" "u < length (cp_threads c)"
    using e3(1) few by (auto simp: capture_event_def split: if_splits)
  have at: "unat (wt_packet (cp_threads c2 ! u)) = q" unfolding q_def by (rule packet_count [OF ok2 u(1) assms(3,8)])
  have rep: "replay_ok (cp_log c) r" "length r = length (cp_threads c)" using replay_reachable_ok [OF assms(9,8)] by auto
  have "completed (r ! u) \<le> cnt u (cp_log c)" using rep u(2) by (simp add: replay_ok_def place_ok_def)
  then obtain ds where ds: "q < cnt u (cp_log c)" "thread_packets u (cp_log c) ! q = Call ds" "(t, p) \<in> set ds"
    using fin assms(10) at by (auto simp: recorded_def)
  have "unat (snd (t, p)) < completed (r ! fst (t, p))"
    by (rule completed_call [OF rep(1) _ _ ds]) (use u rep(2) assms(6,7,10) t(1) few at in simp_all)
  then show ?thesis by (simp add: p_def)
qed

text \<open>A replay by a given schedule.\<close>

fun replay_schedule :: "nat list \<Rightarrow> replay_thread list \<Rightarrow> replay_thread list option" where
  "replay_schedule [] r = Some r"
| "replay_schedule (t # ts) r = (case replay_turn t r of None \<Rightarrow> None | Some r' \<Rightarrow> replay_schedule ts r')"

lemma replay_schedule_reachable:
  "replay_schedule ts r = Some r' \<Longrightarrow> replay_reachable c r \<Longrightarrow> replay_reachable c r'"
  by (induction ts arbitrary: r) (auto split: option.splits intro: replay_reachable.turn)

definition sample_replay :: "replay_thread list" where
  "sample_replay = the (replay_schedule [0, 0, 0, 1, 1, 1, 1, 1] (replay_start sample_capture))"

theorem touch_before_use_witness: "1 < unat (rt_done (sample_replay ! 0)) \<and> 1 < unat (rt_done (sample_replay ! 1))"
proof -
  define c1 where "c1 = projr (capture_run trace_config [New_thread True, Begin 0, New_thread True] capture_new)"
  define c2 where "c2 = projr (capture_run trace_config [Touch 0 5, End 0, Begin 1] c1)"
  have runs: "capture_run trace_config [New_thread True, Begin 0, New_thread True] capture_new = Inr c1"
    "capture_run trace_config [Touch 0 5, End 0, Begin 1] c1 = Inr c2" "capture_run trace_config [Use 1 5, End 1] c2 = Inr sample_capture"
    unfolding c2_def c1_def by code_simp+
  have at: "unat (wt_packet (cp_threads c1 ! 0)) = 1" "unat (wt_packet (cp_threads c2 ! 1)) = 1" unfolding c2_def c1_def by code_simp+
  have disc: "disciplined trace_config ([New_thread True, Begin 0, New_thread True] @ [Touch 0 5, End 0, Begin 1] @ [Use 1 5, End 1]) capture_new"
    by code_simp
  have few: "length (cp_threads sample_capture) \<le> 128" "(0 :: nat) \<noteq> 1" "\<forall>v. Touch v 5 \<notin> set [End 0, Begin 1]" by (code_simp, simp_all)
  have "replay_schedule [0, 0, 0, 1, 1, 1, 1, 1] (replay_start sample_capture) = Some sample_replay" by code_simp
  then have reach: "replay_reachable sample_capture sample_replay"
    by (rule replay_schedule_reachable) (rule replay_reachable.start)
  have fin: "1 < unat (rt_done (sample_replay ! 1))" by code_simp
  then show ?thesis using touch_before_use [OF runs disc few(3,2,1) sample_fits reach] at by simp
qed

section \<open>Pushed barriers\<close>

lemma inject_pending:
  "inject_thread_barrier t c = Inr c' \<Longrightarrow> t < length (cp_threads c) \<Longrightarrow> wt_pending (cp_threads c' ! u) = wt_pending (cp_threads c ! u)"
  by (cases "u = t") (auto simp: inject_thread_barrier_def Let_def sync_end_flags)

lemma pending_kept:
  assumes "capture_event cf ev c = Inr c'" "u < length (cp_threads c)" "wt_pending (cp_threads c ! u)" "ev \<noteq> Begin u"
  shows "wt_pending (cp_threads c' ! u)"
proof (cases ev)
  case (New_thread a)
  then obtain w where "cp_threads c' = cp_threads c @ [w]" using assms(1) make_writer_frame(1) [of cf a c c'] by (auto simp: capture_event_def)
  then show ?thesis using assms(2,3) by (simp add: nth_append)
next
  case (Begin t)
  then have t: "t \<noteq> u" "t < length (cp_threads c)" "write_api_command cf t c = Inr c'"
    using assms(1,4) by (auto simp: capture_event_def split: if_splits)
  have keep: "wt_pending (cp_threads (sync_begin t e) ! u) = wt_pending (cp_threads e ! u)" "cp_threads (clear_pending t e) ! u = cp_threads e ! u" for e
    using t(1) by (simp_all add: sync_begin_def clear_pending_def Let_def)
  from t(3) show ?thesis
  proof (cases rule: write_api_command_cases)
    case (pending c0)
    then show ?thesis using inject_pending [OF pending(3) t(2)] keep assms(3) by simp
  next
    case plain
    then show ?thesis using keep assms(3) by simp
  qed
next
  case (Local_barrier t)
  then show ?thesis using assms inject_pending [of t c c' u] by (auto simp: capture_event_def split: if_splits)
next
  case (Activate t)
  then show ?thesis using assms by (cases "t = u") (auto simp: capture_event_def split: if_splits)
next
  case (Use t obj)
  then show ?thesis using assms by (cases "t = u") (auto simp: capture_event_def use_handle_def Let_def split: if_splits option.splits)
next
  case (Touch t obj)
  then show ?thesis using assms by (auto simp: capture_event_def touch_def Let_def split: if_splits option.splits)
next
  case (Push t)
  then show ?thesis using assms by (auto simp: capture_event_def push_thread split: if_splits)
next
  case (End t)
  then show ?thesis using assms by (auto simp: capture_event_def sync_end_flags split: if_splits)
qed

lemma pending_run:
  assumes "capture_run cf evs c = Inr c'" "u < length (cp_threads c)" "wt_pending (cp_threads c ! u)" "Begin u \<notin> set evs"
  shows "wt_pending (cp_threads c' ! u)"
  using assms
proof (induction evs arbitrary: c)
  case (Cons ev evs)
  then obtain c1 where c1: "capture_event cf ev c = Inr c1" "capture_run cf evs c1 = Inr c'" by auto
  have "length (cp_threads c) \<le> length (cp_threads c1)" using capture_run_threads [of cf "[ev]" c c1] c1(1) by simp
  then show ?case using Cons.IH [OF c1(2)] pending_kept [OF c1(1)] Cons.prems by auto
qed simp


text \<open>The barrier a pending flag brings, and the packet behind it.\<close>

lemma pending_barrier:
  assumes "capture_event cf (Begin u) c = Inr c'" "barriers_on cf" "wt_pending (cp_threads c ! u)"
  shows "\<exists>ps. thread_packets u (cp_log c') = ps @ [Barrier (map wt_packet (cp_threads c))] \<and> \<not> wt_pending (cp_threads c' ! u)"
proof -
  have u: "u < length (cp_threads c)" "write_api_command cf u c = Inr c'" using assms(1) by (auto simp: capture_event_def split: if_splits)
  from u(2) show ?thesis
  proof (cases rule: write_api_command_cases)
    case (pending c0)
    define c1 where "c1 = sync_end u c"
    have c0: "c0 = c1\<lparr>cp_threads := (cp_threads c1)[u := (cp_threads c1 ! u)\<lparr>wt_packet := wt_packet (cp_threads c1 ! u) + 1\<rparr>],
        cp_log := cp_log c1 @ [(u, Barrier (map wt_packet (cp_threads c)))]\<rparr>"
      using pending(3) by (simp add: inject_thread_barrier_def Let_def c1_def)
    have open0: "wt_open (cp_threads (clear_pending u c0) ! u) = None" using u(1) by (simp add: clear_pending_def c0 c1_def)
    have "sync_end u (clear_pending u c0) = clear_pending u c0" using open0 by (simp add: sync_end_def)
    then have "cp_log c' = cp_log c0" "\<not> wt_pending (cp_threads c' ! u)"
      unfolding pending(4) using u(1) by (simp_all add: sync_begin_def Let_def clear_pending_def c0 c1_def)
    then show ?thesis by (simp add: c0)
  qed (use assms(2,3) in simp)
qed






text \<open>What keeps the barriers of a thread as they are: only a push of another thread or a barrier of its own adds one.\<close>

lemma no_barrier_command:
  assumes "write_api_command cf t c = Inr c'" "t < length (cp_threads c)" "t = u \<Longrightarrow> \<not> wt_pending (cp_threads c ! u)"
  shows "wt_pending (cp_threads c' ! u) = wt_pending (cp_threads c ! u) \<and>
    (Barrier is \<in> set (thread_packets u (cp_log c')) \<longleftrightarrow> Barrier is \<in> set (thread_packets u (cp_log c)))"
  using assms(1)
proof (cases rule: write_api_command_cases)
  case (pending c0)
  then have "t \<noteq> u" using assms(3) by blast
  moreover have "thread_packets u (cp_log (sync_end t e)) = thread_packets u (cp_log e)" if "t \<noteq> u" for e
    using that by (auto simp: sync_end_def Let_def split: option.splits)
  ultimately show ?thesis using pending(3,4) inject_pending [OF pending(3) assms(2), of u]
    by (auto simp: inject_thread_barrier_def Let_def sync_begin_def clear_pending_def)
next
  case plain
  then show ?thesis using assms(2)
    by (cases "t = u") (auto simp: sync_begin_def Let_def sync_end_def split: option.splits)
qed

lemma begin_barriers:
  assumes "capture_event cf (Begin u) c = Inr c'" "barriers_on cf" "wt_pending (cp_threads c ! u)"
    and "Barrier is \<in> set (thread_packets u (cp_log c'))"
  shows "is = map wt_packet (cp_threads c) \<or> Barrier is \<in> set (thread_packets u (cp_log c))"
proof -
  have "write_api_command cf u c = Inr c'" using assms(1) by (auto simp: capture_event_def split: if_splits)
  then show ?thesis
  proof (cases rule: write_api_command_cases)
    case (pending c0)
    have ended: "Barrier is \<in> set (thread_packets u (cp_log e))" if "Barrier is \<in> set (thread_packets u (cp_log (sync_end u e)))" for e
      using that by (auto simp: sync_end_def Let_def split: option.splits)
    have "Barrier is \<in> set (thread_packets u (cp_log c0))" using assms(4) ended [of "clear_pending u c0"] by (simp add: pending(4))
    then show ?thesis using pending(3) ended [of c] by (auto simp: inject_thread_barrier_def Let_def)
  qed (use assms(2,3) in simp)
qed

lemma no_barrier_event:
  assumes "capture_event cf ev c = Inr c'" "u < length (cp_threads c)" "\<not> wt_pending (cp_threads c ! u)"
    and "ev \<noteq> Local_barrier u" "\<And>v. v \<noteq> u \<Longrightarrow> ev \<noteq> Push v"
  shows "\<not> wt_pending (cp_threads c' ! u) \<and>
    (Barrier is \<in> set (thread_packets u (cp_log c')) \<longleftrightarrow> Barrier is \<in> set (thread_packets u (cp_log c)))"
proof (cases ev)
  case (New_thread a)
  then have run: "make_writer cf a c = Inr c'" using assms(1) by (simp add: capture_event_def)
  then obtain w where "cp_threads c' = cp_threads c @ [w]" using make_writer_frame(1) by blast
  then show ?thesis using assms(2,3) make_writer_frame(2) [OF run assms(2)] by (simp add: nth_append)
next
  case (Activate t)
  then show ?thesis using assms by (cases "t = u") (auto simp: capture_event_def split: if_splits)
next
  case (Local_barrier t)
  then have "t \<noteq> u" "t < length (cp_threads c)" "c' = c \<or> inject_thread_barrier t c = Inr c'"
    using assms(1,4) by (auto simp: capture_event_def split: if_splits)
  then show ?thesis using assms(3) inject_pending [of t c c' u]
    by (auto simp: inject_thread_barrier_def sync_end_def Let_def split: option.splits)
next
  case (Begin t)
  then have "t < length (cp_threads c)" "write_api_command cf t c = Inr c'" using assms(1) by (auto simp: capture_event_def split: if_splits)
  then show ?thesis using no_barrier_command [of cf t c c' u "is"] assms(3) by blast
next
  case (Use t obj)
  then show ?thesis using assms by (cases "t = u") (auto simp: capture_event_def use_handle_def Let_def split: if_splits option.splits)
next
  case (Touch t obj)
  then show ?thesis using assms by (auto simp: capture_event_def touch_def Let_def split: if_splits option.splits)
next
  case (Push t)
  then have "t = u" using assms(5) by blast
  moreover have "c' = push_thread_barriers cf t c" using Push assms(1) by (auto simp: capture_event_def split: if_splits)
  ultimately show ?thesis using assms(2,3) by (simp add: push_thread)
next
  case (End t)
  then have "t < length (cp_threads c)" "c' = sync_end t c" using assms(1) by (auto simp: capture_event_def split: if_splits)
  then show ?thesis using assms(3) by (auto simp: sync_end_flags sync_end_def Let_def split: option.splits)
qed

lemma no_barrier_run:
  assumes "capture_run cf evs c = Inr c'" "u < length (cp_threads c)" "\<not> wt_pending (cp_threads c ! u)"
    and "Local_barrier u \<notin> set evs" "\<And>v. v \<noteq> u \<Longrightarrow> Push v \<notin> set evs"
  shows "\<not> wt_pending (cp_threads c' ! u) \<and>
    (Barrier is \<in> set (thread_packets u (cp_log c')) \<longleftrightarrow> Barrier is \<in> set (thread_packets u (cp_log c)))"
  using assms
proof (induction evs arbitrary: c)
  case (Cons ev evs)
  then obtain c1 where c1: "capture_event cf ev c = Inr c1" "capture_run cf evs c1 = Inr c'" by auto
  have len: "length (cp_threads c) \<le> length (cp_threads c1)" using capture_run_threads [of cf "[ev]" c c1] c1(1) by simp
  have one: "\<not> wt_pending (cp_threads c1 ! u) \<and>
    (Barrier is \<in> set (thread_packets u (cp_log c1)) \<longleftrightarrow> Barrier is \<in> set (thread_packets u (cp_log c)))"
    by (rule no_barrier_event [OF c1(1) Cons.prems(2,3)]) (use Cons.prems(4,5) in auto)
  show ?case using Cons.IH [OF c1(2)] one len Cons.prems(2,4,5) by simp
qed simp

text \<open>The positions of a recorded barrier are not ahead of the counters.\<close>

lemma barrier_position:
  assumes "capture_ok c" "Barrier is \<in> set (thread_packets u (cp_log c))" "t < length is" "t \<noteq> u"
  shows "unat (is ! t) \<le> cnt t (cp_log c)"
proof -
  obtain xs ys where log: "cp_log c = xs @ (u, Barrier is) # ys"
    using assms(2) by (auto simp: thread_packets_def dest!: split_list)
  have "entry_ok (length (cp_threads c)) xs u (Barrier is)" using capture_okD(1) [OF assms(1)] log by (simp add: causal_def)
  moreover have "Barrier_wait t (is ! t) \<in> set (waits_of u (Barrier is))" using assms(3,4) by (force simp: in_set_enumerate_eq)
  ultimately have "unat (is ! t) \<le> cnt t xs" unfolding entry_ok_def by fastforce
  then show ?thesis by (simp add: log)
qed

text \<open>C40: a pushed barrier can be lost.  \<open>push_thread_barriers\<close> runs before the packet \<open>p\<close> of the call that pushes has
  ended.  If a call of another thread \<open>u\<close> begins in between, the barrier is used up there, with a position that does not
  include \<open>p\<close>; and if \<open>u\<close> begins a call again, also after \<open>p\<close> has ended, without another push or barrier of its own in between,
  then no barrier in the stream of \<open>u\<close> up to that call waits for \<open>p\<close>: none has a position of thread \<open>t\<close> above \<open>p\<close>.\<close>

theorem pushed_barrier_lost:
  assumes "capture_run cf evs1 capture_new = Inr c1" "capture_run cf (Push t # evs2) c1 = Inr c2"
    and "capture_event cf (Begin u) c2 = Inr c3" "capture_run cf (evs3 @ [Begin u]) c3 = Inr c"
    and "disciplined cf (evs1 @ (Push t # evs2) @ (Begin u # evs3 @ [Begin u])) capture_new"
    and "length (cp_threads c) \<le> 256" "packets_fit c" "barriers_on cf" "u < length (cp_threads c1)" "t \<noteq> u"
    and "wt_active (cp_threads c1 ! u)" "Begin u \<notin> set evs2" "wt_packet (cp_threads c2 ! t) = wt_packet (cp_threads c1 ! t)"
    and "Local_barrier u \<notin> set evs3" "\<And>v. v \<noteq> u \<Longrightarrow> Push v \<notin> set evs3"
    and "Barrier is \<in> set (thread_packets u (cp_log c))" "t < length is"
  shows "unat (is ! t) \<le> unat (wt_packet (cp_threads c1 ! t))"
proof -
  obtain e where e: "capture_event cf (Push t) c1 = Inr e" "capture_run cf evs2 e = Inr c2" using assms(2) by auto
  have t: "t < length (cp_threads c1)" "e = push_thread_barriers cf t c1" using e(1) by (auto simp: capture_event_def split: if_splits)
  have "wt_pending (cp_threads e ! u)" using assms(8-11) t(2) by (simp add: push_thread)
  then have pend: "wt_pending (cp_threads c2 ! u)" using pending_run [OF e(2)] assms(9,12) t(2) by simp
  have run3: "capture_run cf (Begin u # evs3 @ [Begin u]) c2 = Inr c" using assms(3,4) by simp
  have len3: "length (cp_threads c2) \<le> length (cp_threads c3)" using capture_run_threads [of cf "[Begin u]" c2 c3] assms(3) by simp
  note few = capture_run_threads [OF assms(2)] capture_run_threads [OF run3] len3 assms(6)
  have disc: "disciplined cf evs1 capture_new" "disciplined cf (Push t # evs2) c1" using assms(1,2,5) by (simp_all only: disciplined_append)
  have ok1: "capture_ok c1" by (rule capture_run_ok [OF assms(1) disc(1) capture_new_ok]) (use few in linarith)
  have ok2: "capture_ok c2" by (rule capture_run_ok [OF assms(2) disc(2) ok1]) (use few in linarith)
  have p: "unat (wt_packet (cp_threads c1 ! t)) = cnt t (cp_log c2)"
    using packet_count [OF ok2 _ run3 assms(7), of t] t(1) few(1) assms(13) by simp
  obtain ps where ps: "thread_packets u (cp_log c3) = ps @ [Barrier (map wt_packet (cp_threads c2))]" "\<not> wt_pending (cp_threads c3 ! u)"
    using pending_barrier [OF assms(3,8) pend] by blast
  have "Barrier is \<in> set (thread_packets u (cp_log c3))"
    using no_barrier_run [OF assms(4) _ ps(2), of "is"] assms(9,14-16) few by simp
  then consider "is = map wt_packet (cp_threads c2)" | "Barrier is \<in> set (thread_packets u (cp_log c2))"
    using begin_barriers [OF assms(3,8) pend] by blast
  then show ?thesis
  proof cases
    case 1
    then show ?thesis using assms(13,17) by simp
  next
    case 2
    then show ?thesis using barrier_position [OF ok2 2 assms(17,10)] p by simp
  qed
qed

text \<open>Thread 1 begins a call between the push of thread 0 and the end of its packet, and another call once that packet has
  ended; a replay completes that other call, packet 3 of thread 1, while thread 0 has completed one packet only and
  packet 1 of thread 0 is still to come.\<close>

definition lost_events :: "event list" where
  "lost_events = [New_thread True, New_thread True, Begin 0, Push 0, Begin 1, End 1, End 0, Begin 1]"

definition lost_capture :: capture where
  "lost_capture = projr (capture_run trace_config lost_events capture_new)"

definition lost_end :: capture where
  "lost_end = projr (capture_run trace_config [End 1] lost_capture)"

definition lost_replay :: "replay_thread list" where
  "lost_replay = the (replay_schedule [0, 1, 1, 1, 1, 1, 1, 1, 1] (replay_start lost_end))"

theorem pushed_barrier_lost_witness:
  "thread_packets 1 (cp_log lost_capture) ! 1 = Barrier [1, 1] \<and> unat (([1, 1] :: u32 list) ! 0) \<le> 1 \<and>
    thread_packets 0 (cp_log lost_end) ! 1 = Call [] \<and> thread_packets 1 (cp_log lost_end) ! 3 = Call [] \<and>
    replay_reachable lost_end lost_replay \<and> 3 < unat (rt_done (lost_replay ! 1)) \<and> unat (rt_done (lost_replay ! 0)) = 1"
proof -
  define c1 where "c1 = projr (capture_run trace_config [New_thread True, New_thread True, Begin 0] capture_new)"
  define c2 where "c2 = projr (capture_run trace_config [Push 0] c1)"
  define c3 where "c3 = projr (capture_event trace_config (Begin 1) c2)"
  have runs: "capture_run trace_config [New_thread True, New_thread True, Begin 0] capture_new = Inr c1"
    "capture_run trace_config [Push 0] c1 = Inr c2" "capture_event trace_config (Begin 1) c2 = Inr c3"
    "capture_run trace_config ([End 1, End 0] @ [Begin 1]) c3 = Inr lost_capture"
    unfolding c3_def c2_def c1_def by code_simp+
  have disc: "disciplined trace_config ([New_thread True, New_thread True, Begin 0] @ [Push 0] @ (Begin 1 # [End 1, End 0] @ [Begin 1])) capture_new"
    "length (cp_threads lost_capture) \<le> 256" by code_simp+
  have fit: "packets_fit lost_capture" by (rule short_log_fits) code_simp
  have on: "barriers_on trace_config" by code_simp
  have at: "1 < length (cp_threads c1)" "(0 :: nat) \<noteq> 1" "wt_active (cp_threads c1 ! 1)" "Begin 1 \<notin> set []"
    "wt_packet (cp_threads c2 ! 0) = wt_packet (cp_threads c1 ! 0)" "Local_barrier 1 \<notin> set [End 1, End 0]"
    "\<And>v. v \<noteq> 1 \<Longrightarrow> Push v \<notin> set [End 1, End 0]" "unat (wt_packet (cp_threads c1 ! 0)) = 1"
    unfolding c2_def c1_def by (code_simp, simp, code_simp, simp, code_simp, simp, simp, code_simp)
  have stream: "Barrier [1, 1] \<in> set (thread_packets 1 (cp_log lost_capture))" "0 < length ([1, 1] :: u32 list)" by (code_simp, simp)
  have bar: "unat (([1, 1] :: u32 list) ! 0) \<le> 1"
    using pushed_barrier_lost [OF runs disc fit on at(1-7) stream] at(8) by simp
  have "replay_schedule [0, 1, 1, 1, 1, 1, 1, 1, 1] (replay_start lost_end) = Some lost_replay" by code_simp
  then have "replay_reachable lost_end lost_replay"
    by (rule replay_schedule_reachable) (rule replay_reachable.start)
  moreover have "thread_packets 1 (cp_log lost_capture) ! 1 = Barrier [1, 1]"
    "thread_packets 0 (cp_log lost_end) ! 1 = Call []" "thread_packets 1 (cp_log lost_end) ! 3 = Call []"
    "3 < unat (rt_done (lost_replay ! 1))" "unat (rt_done (lost_replay ! 0)) = 1"
    by code_simp+
  ultimately show ?thesis using bar by simp
qed

end
