(* ===== verification/Markings.thy ===== *)
theory Markings
  imports Containers "HOL-Library.Product_Lexorder"
begin

text \<open>Marked offsets: the places in recorded memory that hold device addresses, shader group handles or descriptors, which
  the post-processor finds and the replayer rewrites.  The sources are \<^verbatim>\<open>src/markings.cpp\<close>, the arrays and how
  they are sorted, merged and compared, and the coverage comparison of \<^verbatim>\<open>src/packtool.cpp\<close>.  Pointers to arrays are
  optional lists.  The Vulkan headers are not part of the repository, so the constants the code takes from them are
  parameters.\<close>

section \<open>Marked offsets\<close>

record marked_offsets =
  mo_sType :: u32
  mo_count :: nat
  mo_types :: "u32 list option"
  mo_subs :: "u64 list option"
  mo_offsets :: "u64 list option"

type_synonym marking = "u64 \<times> u32 \<times> u64"

definition clone_marked_offsets :: "marked_offsets option \<Rightarrow> marked_offsets option" where
  "clone_marked_offsets src = map_option (\<lambda>m.
    if mo_count m = 0 then m\<lparr>mo_types := None, mo_subs := None, mo_offsets := None\<rparr>
    else m\<lparr>mo_types := map_option (take (mo_count m)) (mo_types m), mo_subs := map_option (take (mo_count m)) (mo_subs m),
      mo_offsets := map_option (take (mo_count m)) (mo_offsets m)\<rparr>) src"

text \<open>The entries as triples, in the order in which the comparison of \<open>sort_marked_offsets\<close> looks at them; reading the
  arrays asserts that they are there.\<close>

definition entries :: "marked_offsets \<Rightarrow> marking list result" where
  "entries m = (case (mo_offsets m, mo_types m, mo_subs m) of
     (Some os, Some ts, Some ss) \<Rightarrow> Inr (zip (take (mo_count m) os) (zip (take (mo_count m) ts) (take (mo_count m) ss)))
   | _ \<Rightarrow> Inl Assertion_failed)"

text \<open>Writing triples back over the front of the arrays.\<close>

definition store_entries :: "marking list \<Rightarrow> marked_offsets \<Rightarrow> marked_offsets" where
  "store_entries xs m = m\<lparr>
    mo_offsets := map_option (\<lambda>os. map fst xs @ drop (length xs) os) (mo_offsets m),
    mo_types := map_option (\<lambda>ts. map (fst \<circ> snd) xs @ drop (length xs) ts) (mo_types m),
    mo_subs := map_option (\<lambda>ss. map (snd \<circ> snd) xs @ drop (length xs) ss) (mo_subs m)\<rparr>"

definition sort_marked_offsets :: "marked_offsets \<Rightarrow> marked_offsets result" where
  "sort_marked_offsets m = (if mo_count m \<le> 1 then Inr m
    else result_bind (entries m) (\<lambda>xs. Inr (store_entries (sort xs) m)))"

text \<open>The loop that drops an entry equal to the last one kept.\<close>

fun drop_repeated :: "marking \<Rightarrow> marking list \<Rightarrow> marking list" where
  "drop_repeated kept [] = []"
| "drop_repeated kept (x # xs) = (if x = kept then drop_repeated kept xs else x # drop_repeated x xs)"

definition normalize_marked_offsets :: "marked_offsets \<Rightarrow> marked_offsets result" where
  "normalize_marked_offsets m = result_bind (sort_marked_offsets m) (\<lambda>m.
    if mo_count m \<le> 1 then Inr m
    else result_bind (entries m) (\<lambda>xs. case xs of
        [] \<Rightarrow> Inl Out_of_range
      | x # rest \<Rightarrow> let ys = x # drop_repeated x rest in Inr ((store_entries ys m)\<lparr>mo_count := length ys\<rparr>)))"

definition front :: "nat \<Rightarrow> 'a list option \<Rightarrow> 'a list result" where
  "front n xs = (if n = 0 then Inr [] else case xs of None \<Rightarrow> Inl Assertion_failed | Some ys \<Rightarrow> Inr (take n ys))"

text \<open>The 32-bit count of the merged arrays may wrap; the copies then write past the end of the new arrays, which is
  \<open>Out_of_range\<close>.\<close>

definition merge_marked_offsets :: "u32 \<Rightarrow> marked_offsets option \<Rightarrow> marked_offsets option \<Rightarrow> marked_offsets option result" where
  "merge_marked_offsets stype a b = (case (a, b) of
     (None, _) \<Rightarrow> Inr (clone_marked_offsets b)
   | (Some _, None) \<Rightarrow> Inr (clone_marked_offsets a)
   | (Some a, Some b) \<Rightarrow>
       assert_that (mo_sType a = stype \<and> mo_sType b = stype)
       (let count = (mo_count a + mo_count b) mod 2 ^ 32 in
        if count = 0 then Inr (Some \<lparr>mo_sType = stype, mo_count = 0, mo_types = None, mo_subs = None, mo_offsets = None\<rparr>)
        else result_bind (front (mo_count a) (mo_types a)) (\<lambda>ta. result_bind (front (mo_count b) (mo_types b)) (\<lambda>tb.
          result_bind (front (mo_count a) (mo_subs a)) (\<lambda>sa. result_bind (front (mo_count b) (mo_subs b)) (\<lambda>sb.
          result_bind (front (mo_count a) (mo_offsets a)) (\<lambda>oa. result_bind (front (mo_count b) (mo_offsets b)) (\<lambda>ob.
          if count < mo_count a + mo_count b then Inl Out_of_range else
          result_bind (normalize_marked_offsets \<lparr>mo_sType = stype, mo_count = count, mo_types = Some (ta @ tb),
            mo_subs = Some (sa @ sb), mo_offsets = Some (oa @ ob)\<rparr>) (\<lambda>m. Inr (Some m))))))))))"

datatype marked_offsets_difference = No_difference | Missing_left | Missing_right | S_type | Count | Marking_types_missing
  | Sub_types_missing | Offsets_missing | Marking_types | Sub_types | Offsets

definition compare_marked_offsets :: "marked_offsets option \<Rightarrow> marked_offsets option \<Rightarrow> marked_offsets_difference" where
  "compare_marked_offsets a b = (case (a, b) of
     (None, None) \<Rightarrow> No_difference
   | (None, Some _) \<Rightarrow> Missing_left
   | (Some _, None) \<Rightarrow> Missing_right
   | (Some a, Some b) \<Rightarrow>
       if mo_sType a \<noteq> mo_sType b then S_type
       else if mo_count a \<noteq> mo_count b then Count
       else if mo_count a = 0 then No_difference
       else if mo_types a = None \<or> mo_types b = None then Marking_types_missing
       else if mo_subs a = None \<or> mo_subs b = None then Sub_types_missing
       else if mo_offsets a = None \<or> mo_offsets b = None then Offsets_missing
       else if take (mo_count a) (the (mo_types a)) \<noteq> take (mo_count a) (the (mo_types b)) then Marking_types
       else if take (mo_count a) (the (mo_subs a)) \<noteq> take (mo_count a) (the (mo_subs b)) then Sub_types
       else if take (mo_count a) (the (mo_offsets a)) \<noteq> take (mo_count a) (the (mo_offsets b)) then Offsets
       else No_difference)"

fun marked_offsets_difference_string :: "marked_offsets_difference \<Rightarrow> string" where
  "marked_offsets_difference_string No_difference = ''none''"
| "marked_offsets_difference_string Missing_left = ''missing_left''"
| "marked_offsets_difference_string Missing_right = ''missing_right''"
| "marked_offsets_difference_string S_type = ''s_type''"
| "marked_offsets_difference_string Count = ''count''"
| "marked_offsets_difference_string Marking_types_missing = ''marking_types_missing''"
| "marked_offsets_difference_string Sub_types_missing = ''sub_types_missing''"
| "marked_offsets_difference_string Offsets_missing = ''offsets_missing''"
| "marked_offsets_difference_string Marking_types = ''marking_types''"
| "marked_offsets_difference_string Sub_types = ''sub_types''"
| "marked_offsets_difference_string Offsets = ''offsets''"

section \<open>Coverage of a trace\<close>

text \<open>What \<open>packtool\<close> collects for every packet with markings; \<open>ce_leftover\<close> is
  \<open>is_capture_flush_leftover_markings\<close>.\<close>

record collected_entry =
  ce_leftover :: bool
  ce_memory_index :: u32
  ce_memory_offset :: u64
  ce_markings :: "marked_offsets option"

record coverage_location =
  cl_memory :: u32
  cl_first :: u64
  cl_last :: u64

text \<open>The two enumeration constants of the Vulkan headers.\<close>

record marking_constants =
  mk_device_address :: u32
  mk_shader_group_handle :: u32

definition marking_coverage_size :: "marking_constants \<Rightarrow> u32 \<Rightarrow> u64" where
  "marking_coverage_size k type = (if type = mk_device_address k then 8 else if type = mk_shader_group_handle k then 32 else 1)"

definition mark_location :: "marking_constants \<Rightarrow> collected_entry \<Rightarrow> marking \<Rightarrow> coverage_location" where
  "mark_location k e x = (let first = ce_memory_offset e + fst x in
    \<lparr>cl_memory = ce_memory_index e, cl_first = first, cl_last = first + marking_coverage_size k (fst (snd x)) - 1\<rparr>)"

fun entry_locations :: "marking_constants \<Rightarrow> collected_entry list \<Rightarrow> coverage_location list result" where
  "entry_locations k [] = Inr []"
| "entry_locations k (e # es) = (case ce_markings e of
     None \<Rightarrow> entry_locations k es
   | Some m \<Rightarrow>
       if ce_leftover e then entry_locations k es
       else if ce_memory_index e = CONTAINER_NULL_VALUE then Inl Aborted
       else if mo_count m = 0 then entry_locations k es
       else result_bind (entries m) (\<lambda>xs. result_bind (entry_locations k es) (\<lambda>ls. Inr (map (mark_location k e) xs @ ls))))"

text \<open>\<open>marking_coverage_location_less\<close> as a key.\<close>

definition location_key :: "coverage_location \<Rightarrow> u32 \<times> u64 \<times> u64" where
  "location_key l = (cl_memory l, cl_first l, cl_last l)"

fun merge_locations :: "coverage_location \<Rightarrow> coverage_location list \<Rightarrow> coverage_location list" where
  "merge_locations cur [] = [cur]"
| "merge_locations cur (l # ls) =
    (if cl_memory cur = cl_memory l \<and> cl_first l \<le> cl_last cur + 1
     then merge_locations (cur\<lparr>cl_last := max (cl_last cur) (cl_last l)\<rparr>) ls
     else cur # merge_locations l ls)"

definition merge_sorted :: "coverage_location list \<Rightarrow> coverage_location list" where
  "merge_sorted ls = (case ls of [] \<Rightarrow> [] | l # rest \<Rightarrow> merge_locations l rest)"

definition collect_marking_coverage :: "marking_constants \<Rightarrow> collected_entry list \<Rightarrow> coverage_location list result" where
  "collect_marking_coverage k es = result_bind (entry_locations k es) (\<lambda>ls. Inr (merge_sorted (sort_key location_key ls)))"

text \<open>The inner loop of \<open>append_uncovered_marking_ranges\<close>: the gaps found and the position reached.\<close>

fun find_gaps :: "coverage_location \<Rightarrow> u64 \<Rightarrow> coverage_location list \<Rightarrow> coverage_location list \<times> u64" where
  "find_gaps l pos [] = ([], pos)"
| "find_gaps l pos (c # cs) =
    (if cl_memory c = cl_memory l \<and> cl_first c \<le> cl_last l then
       let gap = (if cl_first c > pos then [l\<lparr>cl_first := pos, cl_last := cl_first c - 1\<rparr>] else []) in
       if cl_last c \<ge> cl_last l then (gap, cl_last l + 1)
       else (case find_gaps l (max pos (cl_last c + 1)) cs of (gaps, p) \<Rightarrow> (gap @ gaps, p))
     else ([], pos))"

definition location_gaps :: "coverage_location \<Rightarrow> coverage_location list \<Rightarrow> coverage_location list" where
  "location_gaps l cs = (case find_gaps l (cl_first l) cs of (gaps, pos) \<Rightarrow>
    if pos \<le> cl_last l then gaps @ [l\<lparr>cl_first := pos\<rparr>] else gaps)"

definition before_location :: "coverage_location \<Rightarrow> coverage_location \<Rightarrow> bool" where
  "before_location l c \<longleftrightarrow> cl_memory c < cl_memory l \<or> cl_memory c = cl_memory l \<and> cl_last c < cl_first l"

fun append_uncovered_marking_ranges :: "coverage_location list \<Rightarrow> coverage_location list \<Rightarrow> coverage_location list" where
  "append_uncovered_marking_ranges [] cs = []"
| "append_uncovered_marking_ranges (l # ls) cs =
    (let cs' = dropWhile (before_location l) cs in location_gaps l cs' @ append_uncovered_marking_ranges ls cs')"

text \<open>The comparison of two traces: the ranges only one side covers; the traces agree when there are none.\<close>

definition compare_coverage :: "coverage_location list \<Rightarrow> coverage_location list \<Rightarrow> coverage_location list \<times> coverage_location list" where
  "compare_coverage a b = (append_uncovered_marking_ranges a b, append_uncovered_marking_ranges b a)"

section \<open>Sorting and merging\<close>

definition arrays_ok :: "marked_offsets \<Rightarrow> bool" where
  "arrays_ok m \<longleftrightarrow> mo_count m = 0 \<or> (\<exists>os ts ss. mo_offsets m = Some os \<and> mo_types m = Some ts \<and> mo_subs m = Some ss \<and>
    mo_count m \<le> length os \<and> mo_count m \<le> length ts \<and> mo_count m \<le> length ss)"

definition marks :: "marked_offsets \<Rightarrow> marking list" where
  "marks m = (if mo_count m = 0 then [] else case entries m of Inl _ \<Rightarrow> [] | Inr xs \<Rightarrow> xs)"

lemma entries_marks:
  assumes "arrays_ok m" "mo_count m \<noteq> 0"
  shows "entries m = Inr (marks m)" "length (marks m) = mo_count m"
  using assms by (auto simp: arrays_ok_def marks_def entries_def)

lemma length_marks:
  assumes "arrays_ok m"
  shows "length (marks m) = mo_count m"
proof (cases "mo_count m = 0")
  case True
  then show ?thesis by (simp add: marks_def)
qed (rule entries_marks(2) [OF assms])

lemma zip_parts: "zip (map fst xs) (zip (map (fst \<circ> snd) xs) (map (snd \<circ> snd) xs)) = xs"
  by (induction xs) auto

lemma store_marks:
  assumes "arrays_ok m" "length xs \<le> mo_count m"
  shows "arrays_ok ((store_entries xs m)\<lparr>mo_count := length xs\<rparr>)" "marks ((store_entries xs m)\<lparr>mo_count := length xs\<rparr>) = xs"
  using assms zip_parts [of xs] by (auto simp: arrays_ok_def store_entries_def marks_def entries_def)

lemma sort_marks:
  assumes "arrays_ok m"
  obtains m' where "sort_marked_offsets m = Inr m'" "arrays_ok m'" "marks m' = sort (marks m)" "mo_count m' = mo_count m" "mo_sType m' = mo_sType m"
proof (cases "mo_count m \<le> 1")
  case True
  have "length (marks m) \<le> 1" using length_marks [OF assms] True by simp
  then have "sort (marks m) = marks m" by (cases "marks m") auto
  then show ?thesis using True assms by (intro that [of m]) (simp_all add: sort_marked_offsets_def)
next
  case False
  then have "mo_count m \<noteq> 0" by simp
  note e = entries_marks [OF assms this]
  define m' where "m' = store_entries (sort (marks m)) m"
  have same: "m' = m'\<lparr>mo_count := length (sort (marks m))\<rparr>" using e(2) by (simp add: m'_def store_entries_def)
  show ?thesis
    by (rule that [of m']) (use False e store_marks [OF assms, of "sort (marks m)"] same in
        \<open>simp_all add: sort_marked_offsets_def m'_def store_entries_def\<close>)
qed

lemma drop_repeated_remdups: "x # drop_repeated x xs = remdups_adj (x # xs)"
  by (induction xs arbitrary: x) (simp_all split: if_splits)

lemma sorted_distinct_remdups_adj: "sorted xs \<Longrightarrow> distinct (remdups_adj xs)"
  by (induction xs rule: remdups_adj.induct) (auto simp: less_le)

lemma remdups_adj_sorted: "sorted xs \<Longrightarrow> remdups_adj xs = sorted_list_of_set (set xs)"
  using sorted_list_of_set.idem_if_sorted_distinct [of "remdups_adj xs"] by (simp add: sorted_distinct_remdups_adj sorted_remdups_adj)

lemma normalize_marks:
  assumes "arrays_ok m"
  obtains m' where "normalize_marked_offsets m = Inr m'" "arrays_ok m'" "marks m' = sorted_list_of_set (set (marks m))" "mo_sType m' = mo_sType m"
proof -
  obtain m1 where m1: "sort_marked_offsets m = Inr m1" "arrays_ok m1" "marks m1 = sort (marks m)" "mo_count m1 = mo_count m" "mo_sType m1 = mo_sType m"
    using sort_marks [OF assms] by metis
  have canon: "remdups_adj (sort (marks m)) = sorted_list_of_set (set (marks m))" by (simp add: remdups_adj_sorted)
  show ?thesis
  proof (cases "mo_count m \<le> 1")
    case True
    then have "length (sort (marks m)) \<le> 1" using length_marks [OF assms] by simp
    then have "remdups_adj (sort (marks m)) = sort (marks m)" by (cases "sort (marks m)") auto
    then show ?thesis using True m1 canon by (intro that [of m1]) (simp_all add: normalize_marked_offsets_def)
  next
    case False
    then have "mo_count m1 \<noteq> 0" using m1(4) by simp
    note e = entries_marks [OF m1(2) this]
    obtain x rest where x: "marks m1 = x # rest" using e(2) False m1(4) by (cases "marks m1") auto
    define ys where "ys = x # drop_repeated x rest"
    have ys: "ys = remdups_adj (marks m1)" by (simp add: ys_def drop_repeated_remdups x)
    then have "length ys \<le> mo_count m1" using e(2) remdups_adj_length [of "marks m1"] by simp
    note st = store_marks [OF m1(2) this]
    have "normalize_marked_offsets m = Inr ((store_entries ys m1)\<lparr>mo_count := length ys\<rparr>)"
      using False m1(1,4) e(1) by (simp add: normalize_marked_offsets_def x ys_def)
    then show ?thesis by (rule that) (use st ys m1(3,5) canon in \<open>simp_all add: store_entries_def\<close>)
  qed
qed

lemma compare_marks:
  assumes "arrays_ok a" "arrays_ok b" "mo_sType a = mo_sType b"
  shows "compare_marked_offsets (Some a) (Some b) = No_difference \<longleftrightarrow> marks a = marks b"
proof (cases "mo_count a = mo_count b \<and> mo_count a \<noteq> 0")
  case False
  then show ?thesis using assms length_marks [OF assms(1)] length_marks [OF assms(2)]
    by (auto simp: compare_marked_offsets_def)
next
  case True
  then obtain os ts ss os' ts' ss' where f: "mo_offsets a = Some os" "mo_types a = Some ts" "mo_subs a = Some ss"
      "mo_offsets b = Some os'" "mo_types b = Some ts'" "mo_subs b = Some ss'"
    and len: "mo_count a \<le> length os" "mo_count a \<le> length ts" "mo_count a \<le> length ss"
      "mo_count a \<le> length os'" "mo_count a \<le> length ts'" "mo_count a \<le> length ss'"
    using assms(1,2) by (auto simp: arrays_ok_def)
  define n where "n = mo_count a"
  have eq: "zip (take n os) (zip (take n ts) (take n ss)) = zip (take n os') (zip (take n ts') (take n ss')) \<longleftrightarrow>
      take n os = take n os' \<and> take n ts = take n ts' \<and> take n ss = take n ss'"
    using len by (auto simp: n_def zip_eq_conv zip_eq_ConsE)
  then show ?thesis using True assms(3) by (auto simp: compare_marked_offsets_def marks_def entries_def f n_def)
qed

lemma front_marks:
  assumes "arrays_ok m"
  obtains ts ss os where "front (mo_count m) (mo_types m) = Inr ts" "front (mo_count m) (mo_subs m) = Inr ss" "front (mo_count m) (mo_offsets m) = Inr os"
    "marks m = zip os (zip ts ss)" "length ts = mo_count m" "length ss = mo_count m" "length os = mo_count m"
proof (cases "mo_count m = 0")
  case True
  then show ?thesis by (intro that [of "[]" "[]" "[]"]) (simp_all add: front_def marks_def)
next
  case False
  then obtain os ts ss where "mo_offsets m = Some os" "mo_types m = Some ts" "mo_subs m = Some ss"
      "mo_count m \<le> length os" "mo_count m \<le> length ts" "mo_count m \<le> length ss"
    using assms by (auto simp: arrays_ok_def)
  then show ?thesis using False
    by (intro that [of "take (mo_count m) ts" "take (mo_count m) ss" "take (mo_count m) os"])
      (simp_all add: front_def marks_def entries_def)
qed

lemma merge_marks:
  assumes "arrays_ok a" "arrays_ok b" "mo_sType a = stype" "mo_sType b = stype" "mo_count a + mo_count b < 2 ^ 32"
  obtains m where "merge_marked_offsets stype (Some a) (Some b) = Inr (Some m)" "arrays_ok m"
    "marks m = sorted_list_of_set (set (marks a) \<union> set (marks b))" "mo_sType m = stype"
proof (cases "mo_count a + mo_count b = 0")
  case True
  define e where "e = \<lparr>mo_sType = stype, mo_count = 0, mo_types = None, mo_subs = None, mo_offsets = None\<rparr>"
  have "marks a = []" "marks b = []" using True by (simp_all add: marks_def)
  then show ?thesis using True assms(3,4)
    by (intro that [of e]) (simp_all add: merge_marked_offsets_def arrays_ok_def marks_def e_def)
next
  case False
  obtain ta sa oa where a: "front (mo_count a) (mo_types a) = Inr ta" "front (mo_count a) (mo_subs a) = Inr sa"
      "front (mo_count a) (mo_offsets a) = Inr oa" "marks a = zip oa (zip ta sa)" "length ta = mo_count a" "length sa = mo_count a" "length oa = mo_count a"
    using front_marks [OF assms(1)] by metis
  obtain tb sb ob where b: "front (mo_count b) (mo_types b) = Inr tb" "front (mo_count b) (mo_subs b) = Inr sb"
      "front (mo_count b) (mo_offsets b) = Inr ob" "marks b = zip ob (zip tb sb)" "length tb = mo_count b" "length sb = mo_count b" "length ob = mo_count b"
    using front_marks [OF assms(2)] by metis
  define e where "e = \<lparr>mo_sType = stype, mo_count = mo_count a + mo_count b, mo_types = Some (ta @ tb), mo_subs = Some (sa @ sb), mo_offsets = Some (oa @ ob)\<rparr>"
  have "arrays_ok e" using a b by (simp add: arrays_ok_def e_def)
  then obtain m where m: "normalize_marked_offsets e = Inr m" "arrays_ok m" "marks m = sorted_list_of_set (set (marks e))" "mo_sType m = stype"
    using normalize_marks [of e] by (auto simp: e_def)
  have "marks e = zip (oa @ ob) (zip (ta @ tb) (sa @ sb))"
    unfolding marks_def e_def using False a(5-7) b(5-7) by (auto simp: entries_def)
  then have "marks e = marks a @ marks b" using a(4-7) b(4-7) by simp
  moreover have "merge_marked_offsets stype (Some a) (Some b) = Inr (Some m)"
    using False a(1-3) b(1-3) m(1) assms(3,4) assms(5) [THEN mod_less] by (auto simp: merge_marked_offsets_def Let_def e_def)
  ultimately show ?thesis using m by (intro that) simp_all
qed

text \<open>C24: merging two sets of marked offsets gives their union in canonical form, strictly increasing by offset, type
  and subtype; so merging does not depend on the order of its arguments, and comparing two merged results reports no
  difference exactly when they mark the same places.\<close>

theorem merge_marked_offsets_union:
  assumes "arrays_ok a" "arrays_ok b" "mo_sType a = stype" "mo_sType b = stype" "mo_count a + mo_count b < 2 ^ 32"
    and "arrays_ok c" "arrays_ok d" "mo_sType c = stype" "mo_sType d = stype" "mo_count c + mo_count d < 2 ^ 32"
  shows "\<exists>m n. merge_marked_offsets stype (Some a) (Some b) = Inr (Some m) \<and> merge_marked_offsets stype (Some c) (Some d) = Inr (Some n) \<and>
    marks m = sorted_list_of_set (set (marks a) \<union> set (marks b)) \<and>
    (compare_marked_offsets (Some m) (Some n) = No_difference \<longleftrightarrow> set (marks a) \<union> set (marks b) = set (marks c) \<union> set (marks d))"
proof -
  obtain m where m: "merge_marked_offsets stype (Some a) (Some b) = Inr (Some m)" "arrays_ok m"
      "marks m = sorted_list_of_set (set (marks a) \<union> set (marks b))" "mo_sType m = stype"
    using merge_marks [OF assms(1-5)] by metis
  obtain n where n: "merge_marked_offsets stype (Some c) (Some d) = Inr (Some n)" "arrays_ok n"
      "marks n = sorted_list_of_set (set (marks c) \<union> set (marks d))" "mo_sType n = stype"
    using merge_marks [OF assms(6-10)] by metis
  have "marks m = marks n \<longleftrightarrow> set (marks a) \<union> set (marks b) = set (marks c) \<union> set (marks d)"
    unfolding m(3) n(3) by (metis List.finite_set finite_UnI sorted_list_of_set.set_sorted_key_list_of_set)
  then show ?thesis using compare_marks [OF m(2) n(2)] m(1,3,4) n(1,4) by auto
qed

definition sample_marks :: "u64 list \<Rightarrow> marked_offsets" where
  "sample_marks os = \<lparr>mo_sType = 7, mo_count = length os, mo_types = Some (replicate (length os) 1),
    mo_subs = Some (replicate (length os) 0), mo_offsets = Some os\<rparr>"

theorem merge_marked_offsets_union_witness:
  "\<exists>m n. merge_marked_offsets 7 (Some (sample_marks [64, 8])) (Some (sample_marks [8, 16])) = Inr (Some m) \<and>
    merge_marked_offsets 7 (Some (sample_marks [16, 64])) (Some (sample_marks [8])) = Inr (Some n) \<and>
    compare_marked_offsets (Some m) (Some n) = No_difference"
proof -
  have ok: "arrays_ok (sample_marks os)" "mo_sType (sample_marks os) = 7" for os
    by (simp_all add: sample_marks_def arrays_ok_def)
  have "set (marks (sample_marks [64, 8])) \<union> set (marks (sample_marks [8, 16])) = set (marks (sample_marks [16, 64])) \<union> set (marks (sample_marks [8]))"
    by (auto simp: sample_marks_def marks_def entries_def)
  then show ?thesis
    using merge_marked_offsets_union [OF ok(1) [of "[64, 8]"] ok(1) [of "[8, 16]"] ok(2) ok(2) _ ok(1) [of "[16, 64]"] ok(1) [of "[8]"] ok(2) ok(2)]
    by (auto simp: sample_marks_def)
qed

section \<open>Coverage as a set of bytes\<close>

text \<open>The bytes of memory objects a list of locations covers.  A location is good when it does not wrap around; the lists
  the comparison works on are in strictly ascending order.\<close>

definition location_bytes :: "coverage_location \<Rightarrow> (u32 \<times> u64) set" where
  "location_bytes l = {cl_memory l} \<times> {cl_first l..cl_last l}"

definition cover :: "coverage_location list \<Rightarrow> (u32 \<times> u64) set" where
  "cover ls = (\<Union>l \<in> set ls. location_bytes l)"

definition loc_ok :: "coverage_location \<Rightarrow> bool" where
  "loc_ok l \<longleftrightarrow> cl_first l \<le> cl_last l \<and> cl_last l \<noteq> - 1"

definition starts :: "coverage_location \<Rightarrow> coverage_location \<Rightarrow> bool" where
  "starts a b \<longleftrightarrow> cl_memory a < cl_memory b \<or> cl_memory a = cl_memory b \<and> cl_first a \<le> cl_first b"

definition precedes :: "coverage_location \<Rightarrow> coverage_location \<Rightarrow> bool" where
  "precedes a b \<longleftrightarrow> cl_memory a < cl_memory b \<or> cl_memory a = cl_memory b \<and> cl_last a < cl_first b"

definition ranges_ok :: "coverage_location list \<Rightarrow> bool" where
  "ranges_ok ls \<longleftrightarrow> sorted_wrt precedes ls \<and> list_all loc_ok ls"

lemma cover_simps [simp]:
  "cover [] = {}" "cover (l # ls) = location_bytes l \<union> cover ls" "cover (xs @ ys) = cover xs \<union> cover ys"
  by (auto simp: cover_def)

lemma mem_location: "(m, b) \<in> location_bytes l \<longleftrightarrow> m = cl_memory l \<and> cl_first l \<le> b \<and> b \<le> cl_last l"
  by (auto simp: location_bytes_def)

lemma succ_above: "a \<noteq> - 1 \<Longrightarrow> a + 1 \<le> b \<longleftrightarrow> a < (b :: u64)"
  by (simp add: word_le_nat_alt word_less_nat_alt unat_succ Suc_le_eq)

lemma below_pred: "a < c \<Longrightarrow> b \<le> c - 1 \<longleftrightarrow> b < (c :: u64)"
  using unat_pred_less [of a c] by (auto simp: word_le_nat_alt word_less_nat_alt)

lemma extend_bytes:
  assumes "loc_ok cur" "loc_ok l" "starts cur l" "cl_memory cur = cl_memory l" "cl_first l \<le> cl_last cur + 1"
  shows "location_bytes (cur\<lparr>cl_last := max (cl_last cur) (cl_last l)\<rparr>) = location_bytes cur \<union> location_bytes l"
proof (rule set_eqI, safe)
  fix m b assume "(m, b) \<in> location_bytes (cur\<lparr>cl_last := max (cl_last cur) (cl_last l)\<rparr>)" "(m, b) \<notin> location_bytes l"
  then have m: "m = cl_memory cur" "cl_first cur \<le> b" "b \<le> max (cl_last cur) (cl_last l)" "\<not> (cl_first l \<le> b \<and> b \<le> cl_last l)"
    using assms(4) by (auto simp: mem_location)
  have "b \<le> cl_last cur"
  proof (rule ccontr)
    assume "\<not> b \<le> cl_last cur"
    then have "cl_last cur + 1 \<le> b" "b \<le> cl_last l" using m(3) succ_above [of "cl_last cur" b] assms(1)
      by (auto simp: loc_ok_def not_le max_def split: if_splits)
    then show False using m(4) assms(5) by (meson order_trans)
  qed
  then show "(m, b) \<in> location_bytes cur" using m(1,2) by (simp add: mem_location)
next
  fix m b assume "(m, b) \<in> location_bytes l"
  then show "(m, b) \<in> location_bytes (cur\<lparr>cl_last := max (cl_last cur) (cl_last l)\<rparr>)"
    using assms(3,4) by (auto simp: mem_location starts_def max_def)
qed (auto simp: mem_location max_def)

lemma starts_trans: "starts a b \<Longrightarrow> starts b c \<Longrightarrow> starts a c"
  by (auto simp: starts_def)

lemma merge_locations_ok:
  assumes "sorted_wrt starts (cur # ls)" "list_all loc_ok (cur # ls)"
  shows "ranges_ok (merge_locations cur ls) \<and> cover (merge_locations cur ls) = cover (cur # ls) \<and>
    (\<forall>r \<in> set (merge_locations cur ls). starts cur r)"
  using assms
proof (induction cur ls rule: merge_locations.induct)
  case (1 cur)
  then show ?case by (simp add: ranges_ok_def starts_def)
next
  case (2 cur l ls)
  have st: "starts cur l" "loc_ok cur" "loc_ok l" using "2.prems" by simp_all
  show ?case
  proof (cases "cl_memory cur = cl_memory l \<and> cl_first l \<le> cl_last cur + 1")
    case True
    let ?cur = "cur\<lparr>cl_last := max (cl_last cur) (cl_last l)\<rparr>"
    have same: "starts ?cur = starts cur" by (simp add: starts_def fun_eq_iff)
    have "loc_ok ?cur" using st by (auto simp: loc_ok_def max_def)
    then have "ranges_ok (merge_locations ?cur ls) \<and> cover (merge_locations ?cur ls) = cover (?cur # ls) \<and> (\<forall>r \<in> set (merge_locations ?cur ls). starts ?cur r)"
      using "2.IH"(1) [OF True] "2.prems" by (simp add: same)
    then show ?thesis using True extend_bytes [OF st(2,3,1)] by (simp add: same Un_assoc)
  next
    case False
    have ih: "ranges_ok (merge_locations l ls)" "cover (merge_locations l ls) = cover (l # ls)" "\<forall>r \<in> set (merge_locations l ls). starts l r"
      using "2.IH"(2) [OF False] "2.prems" by simp_all
    have "precedes cur l" using False st succ_above [of "cl_last cur" "cl_first l"]
      by (auto simp: starts_def precedes_def loc_ok_def not_le)
    then have "precedes cur r" if "starts l r" for r using that by (auto simp: starts_def precedes_def)
    then show ?thesis using False ih st starts_trans [OF st(1)] by (auto simp: ranges_ok_def starts_def [of cur cur])
  qed
qed

lemma sort_starts: "sorted_wrt starts (sort_key location_key ls)"
proof -
  have "sorted_wrt (\<lambda>a b. location_key a \<le> location_key b) (sort_key location_key ls)"
    using sorted_sort_key [of location_key ls] by (simp add: sorted_wrt_map)
  then show ?thesis by (rule sorted_wrt_mono_rel [rotated]) (auto simp: starts_def location_key_def)
qed

lemma merge_sorted_ok:
  assumes "list_all loc_ok ls"
  shows "ranges_ok (merge_sorted (sort_key location_key ls))" "cover (merge_sorted (sort_key location_key ls)) = cover ls"
proof -
  have "list_all loc_ok (sort_key location_key ls)" using assms by (simp add: list_all_iff)
  then have "ranges_ok (merge_sorted (sort_key location_key ls)) \<and> cover (merge_sorted (sort_key location_key ls)) = cover (sort_key location_key ls)"
    using sort_starts [of ls] merge_locations_ok by (cases "sort_key location_key ls") (simp_all add: merge_sorted_def ranges_ok_def)
  moreover have "cover (sort_key location_key ls) = cover ls" by (simp add: cover_def)
  ultimately show "ranges_ok (merge_sorted (sort_key location_key ls))" "cover (merge_sorted (sort_key location_key ls)) = cover ls"
    by simp_all
qed

section \<open>What only one side covers\<close>

definition with_rest :: "coverage_location \<Rightarrow> coverage_location list \<times> u64 \<Rightarrow> coverage_location list" where
  "with_rest l g = (if snd g \<le> cl_last l then fst g @ [l\<lparr>cl_first := snd g\<rparr>] else fst g)"

lemma location_gaps_rest: "location_gaps l cs = with_rest l (find_gaps l (cl_first l) cs)"
  by (simp add: location_gaps_def with_rest_def split: prod.split)

lemma with_rest_append: "with_rest l (gap @ gaps, p) = gap @ with_rest l (gaps, p)"
  by (simp add: with_rest_def)

text \<open>Covers behind a location do not reach it.\<close>

lemma later_disjoint:
  assumes "list_all (precedes c) cs" "cl_memory c = m" "b \<le> cl_last c"
  shows "(m, b) \<notin> cover cs"
  using assms by (auto simp: cover_def mem_location precedes_def list_all_iff)

lemma later_covers_disjoint:
  assumes "ranges_ok (c # cs)" "cl_memory l \<le> cl_memory c" "\<not> (cl_memory c = cl_memory l \<and> cl_first c \<le> cl_last l)" "b \<le> cl_last l"
  shows "(cl_memory l, b) \<notin> cover (c # cs)"
proof
  assume "(cl_memory l, b) \<in> cover (c # cs)"
  then obtain d where "d \<in> set (c # cs)" "(cl_memory l, b) \<in> location_bytes d" unfolding cover_def by blast
  then have d: "d \<in> set (c # cs)" "cl_memory d = cl_memory l" "cl_first d \<le> b" by (simp_all add: mem_location)
  have "cl_memory c = cl_memory l \<and> cl_first c \<le> cl_first d"
  proof (cases "d = c")
    case False
    then have "precedes c d" "loc_ok c" using d(1) assms(1) by (auto simp: ranges_ok_def)
    then show ?thesis using assms(2) d(2) by (auto simp: precedes_def loc_ok_def)
  qed (use d(2) in simp)
  then show False using assms(3,4) d(3) by (meson order_trans)
qed

lemma gap_bytes:
  "(m, b) \<in> cover (if cl_first c > pos then [l\<lparr>cl_first := pos, cl_last := cl_first c - 1\<rparr>] else []) \<longleftrightarrow>
    m = cl_memory l \<and> pos \<le> b \<and> b < cl_first c"
  using below_pred [of pos "cl_first c" b] by (auto simp: mem_location)

lemma find_gaps_cover:
  assumes "loc_ok l" "ranges_ok cs" "list_all (\<lambda>c. cl_memory l \<le> cl_memory c) cs" "pos \<le> cl_last l"
  shows "cover (with_rest l (find_gaps l pos cs)) = {cl_memory l} \<times> {pos..cl_last l} - cover cs"
  using assms
proof (induction cs arbitrary: pos)
  case Nil
  then show ?case by (simp add: with_rest_def location_bytes_def)
next
  case (Cons c cs)
  show ?case
  proof (cases "cl_memory c = cl_memory l \<and> cl_first c \<le> cl_last l")
    case False
    then have "with_rest l (find_gaps l pos (c # cs)) = [l\<lparr>cl_first := pos\<rparr>]" using Cons.prems(4) by (auto simp: with_rest_def)
    then have eq: "cover (with_rest l (find_gaps l pos (c # cs))) = {cl_memory l} \<times> {pos..cl_last l}" by (simp add: location_bytes_def)
    have "(cl_memory l, b) \<notin> cover (c # cs)" if "b \<le> cl_last l" for b
      using later_covers_disjoint [OF Cons.prems(2) _ False that] Cons.prems(3) by simp
    then show ?thesis unfolding eq by auto
  next
    case True
    define gap where "gap = (if cl_first c > pos then [l\<lparr>cl_first := pos, cl_last := cl_first c - 1\<rparr>] else [])"
    have gap: "(m, b) \<in> cover gap \<longleftrightarrow> m = cl_memory l \<and> pos \<le> b \<and> b < cl_first c" for m b
      unfolding gap_def by (rule gap_bytes)
    have c: "loc_ok c" "list_all (precedes c) cs" "ranges_ok cs" using Cons.prems(2) by (auto simp: ranges_ok_def list_all_iff)
    note later = later_disjoint [OF c(2)]
    have before: "(cl_memory l, b) \<notin> cover (c # cs)" if "b < cl_first c" for b
    proof -
      have "b \<le> cl_last c" using that c(1) unfolding loc_ok_def by (meson less_imp_le order_trans)
      then show ?thesis using that later [of "cl_memory l" b] True by (simp add: mem_location)
    qed
    show ?thesis
    proof (cases "cl_last c \<ge> cl_last l")
      case last: True
      have "cl_last l + 1 \<le> cl_last l \<longleftrightarrow> False" using Cons.prems(1) succ_above [of "cl_last l" "cl_last l"] by (simp add: loc_ok_def)
      then have eq: "with_rest l (find_gaps l pos (c # cs)) = gap" using True last by (simp add: with_rest_def gap_def Let_def)
      show ?thesis unfolding eq
      proof (rule set_eqI, clarify)
        fix m b
        show "(m, b) \<in> cover gap \<longleftrightarrow> (m, b) \<in> {cl_memory l} \<times> {pos..cl_last l} - cover (c # cs)"
          using gap [of m b] before [of b] True last by (auto simp: mem_location)
      qed
    next
      case False
      define q where "q = max pos (cl_last c + 1)"
      have q: "q \<le> b \<longleftrightarrow> pos \<le> b \<and> cl_last c < b" for b
        using succ_above [of "cl_last c" b] c(1) by (simp add: q_def loc_ok_def)
      then have "q \<le> cl_last l" using Cons.prems(4) False by simp
      then have ih: "cover (with_rest l (find_gaps l q cs)) = {cl_memory l} \<times> {q..cl_last l} - cover cs"
        using Cons.IH [OF Cons.prems(1) c(3)] Cons.prems(3) by simp
      have "find_gaps l pos (c # cs) = (gap @ fst (find_gaps l q cs), snd (find_gaps l q cs))"
        using True False by (simp add: gap_def q_def Let_def split: prod.split)
      then have eq: "cover (with_rest l (find_gaps l pos (c # cs))) = cover gap \<union> ({cl_memory l} \<times> {q..cl_last l} - cover cs)"
        by (simp add: with_rest_append ih)
      show ?thesis unfolding eq
      proof (rule set_eqI, clarify)
        fix m b
        show "(m, b) \<in> cover gap \<union> ({cl_memory l} \<times> {q..cl_last l} - cover cs) \<longleftrightarrow> (m, b) \<in> {cl_memory l} \<times> {pos..cl_last l} - cover (c # cs)"
          using gap [of m b] before [of b] q [of b] True by (auto simp: mem_location not_le)
      qed
    qed
  qed
qed

lemma dropped_disjoint:
  assumes "ranges_ok (l # ls)" "before_location l d"
  shows "location_bytes d \<inter> cover (l # ls) = {}"
proof -
  have "location_bytes d \<inter> location_bytes k = {}" if "k \<in> set (l # ls)" for k
  proof -
    have "cl_memory l < cl_memory k \<or> cl_memory l = cl_memory k \<and> cl_first l \<le> cl_first k"
      using that assms(1) by (auto simp: ranges_ok_def precedes_def loc_ok_def)
    then show ?thesis using assms(2) by (auto simp: before_location_def mem_location)
  qed
  then show ?thesis by (auto simp: cover_def)
qed

lemma append_uncovered_cover:
  assumes "ranges_ok ls" "ranges_ok cs"
  shows "cover (append_uncovered_marking_ranges ls cs) = cover ls - cover cs"
  using assms
proof (induction ls arbitrary: cs)
  case (Cons l ls)
  define cs' where "cs' = dropWhile (before_location l) cs"
  obtain ds where ds: "cs = ds @ cs'" "\<forall>d \<in> set ds. before_location l d"
    unfolding cs'_def by (metis set_takeWhileD takeWhile_dropWhile_id)
  have l: "loc_ok l" "ranges_ok ls" using Cons.prems(1) by (simp_all add: ranges_ok_def)
  have cs': "ranges_ok cs'" using Cons.prems(2) by (simp add: ds(1) ranges_ok_def sorted_wrt_append)
  have "list_all (\<lambda>c. cl_memory l \<le> cl_memory c) cs'"
  proof (cases cs')
    case (Cons c rest)
    then have "\<not> before_location l c" unfolding cs'_def by (metis dropWhile_eq_Cons_conv)
    then show ?thesis using cs' Cons by (auto simp: before_location_def ranges_ok_def precedes_def list_all_iff)
  qed simp
  then have "cover (location_gaps l cs') = location_bytes l - cover cs'"
    using find_gaps_cover [OF l(1) cs', of "cl_first l"] l(1) by (simp add: location_gaps_rest location_bytes_def loc_ok_def)
  moreover have "cover ds \<inter> cover (l # ls) = {}"
    using dropped_disjoint [OF Cons.prems(1)] ds(2) by (fastforce simp: cover_def)
  moreover have "append_uncovered_marking_ranges (l # ls) cs = location_gaps l cs' @ append_uncovered_marking_ranges ls cs'"
    by (simp add: cs'_def Let_def)
  ultimately show ?case using Cons.IH [OF l(2) cs'] by (simp add: ds(1)) blast
qed simp

text \<open>No reported range is empty, so no report means no difference.\<close>

lemma find_gaps_nonempty: "list_all (\<lambda>g. cl_first g \<le> cl_last g) (fst (find_gaps l pos cs))"
proof (induction l pos cs rule: find_gaps.induct)
  case (2 l pos c cs)
  have "pos \<le> cl_first c - 1" if "pos < cl_first c" using below_pred [OF that, of pos] that by simp
  then show ?case using 2 by (auto simp: Let_def split: prod.split)
qed simp

lemma append_uncovered_nonempty: "list_all (\<lambda>g. cl_first g \<le> cl_last g) (append_uncovered_marking_ranges ls cs)"
proof (induction ls arbitrary: cs)
  case (Cons l ls)
  have "list_all (\<lambda>g. cl_first g \<le> cl_last g) (location_gaps l ds)" for ds
    using find_gaps_nonempty [of l "cl_first l" ds] by (simp add: location_gaps_rest with_rest_def)
  then show ?case using Cons by (simp add: Let_def)
qed simp

lemma cover_empty: "list_all (\<lambda>g. cl_first g \<le> cl_last g) gs \<Longrightarrow> cover gs = {} \<longleftrightarrow> gs = []"
  by (cases gs) (auto simp: location_bytes_def)

text \<open>C19: comparing the marking coverage of two traces reports exactly the bytes that only one of them marks, for any
  entries whose locations do not wrap around; so it reports nothing exactly when both mark the same bytes.\<close>

theorem coverage_comparison_exact:
  assumes "entry_locations k es1 = Inr l1" "list_all loc_ok l1" "entry_locations k es2 = Inr l2" "list_all loc_ok l2"
  shows "\<exists>a b. collect_marking_coverage k es1 = Inr a \<and> collect_marking_coverage k es2 = Inr b \<and>
    cover (fst (compare_coverage a b)) = cover l1 - cover l2 \<and> cover (snd (compare_coverage a b)) = cover l2 - cover l1 \<and>
    (compare_coverage a b = ([], []) \<longleftrightarrow> cover l1 = cover l2)"
proof -
  define a where "a = merge_sorted (sort_key location_key l1)"
  define b where "b = merge_sorted (sort_key location_key l2)"
  have collect: "collect_marking_coverage k es1 = Inr a" "collect_marking_coverage k es2 = Inr b"
    using assms(1,3) by (simp_all add: collect_marking_coverage_def a_def b_def)
  have ok: "ranges_ok a" "ranges_ok b" "cover a = cover l1" "cover b = cover l2"
    using merge_sorted_ok [OF assms(2)] merge_sorted_ok [OF assms(4)] by (simp_all add: a_def b_def)
  have diff: "cover (append_uncovered_marking_ranges a b) = cover l1 - cover l2" "cover (append_uncovered_marking_ranges b a) = cover l2 - cover l1"
    using append_uncovered_cover [OF ok(1,2)] append_uncovered_cover [OF ok(2,1)] ok(3,4) by simp_all
  have "compare_coverage a b = ([], []) \<longleftrightarrow> cover l1 - cover l2 = {} \<and> cover l2 - cover l1 = {}"
    using cover_empty [OF append_uncovered_nonempty, of a b] cover_empty [OF append_uncovered_nonempty, of b a] diff
    by (simp add: compare_coverage_def)
  then have "compare_coverage a b = ([], []) \<longleftrightarrow> cover l1 = cover l2" by blast
  then show ?thesis using collect diff by (auto simp: compare_coverage_def)
qed

definition sample_entry :: "u64 \<Rightarrow> u64 list \<Rightarrow> collected_entry" where
  "sample_entry off os = \<lparr>ce_leftover = False, ce_memory_index = 3, ce_memory_offset = off, ce_markings = Some (sample_marks os)\<rparr>"

theorem coverage_comparison_exact_witness:
  "\<exists>a b. collect_marking_coverage \<lparr>mk_device_address = 1, mk_shader_group_handle = 2\<rparr> [sample_entry 100 [8, 0]] = Inr a \<and>
    collect_marking_coverage \<lparr>mk_device_address = 1, mk_shader_group_handle = 2\<rparr> [sample_entry 104 [4], sample_entry 100 [0]] = Inr b \<and>
    compare_coverage a b = ([], [])"
proof -
  let ?k = "\<lparr>mk_device_address = 1, mk_shader_group_handle = 2\<rparr>"
  let ?loc = "\<lambda>f l. \<lparr>cl_memory = 3, cl_first = f, cl_last = l\<rparr>"
  have l1: "entry_locations ?k [sample_entry 100 [8, 0]] = Inr [?loc 108 115, ?loc 100 107]"
    and l2: "entry_locations ?k [sample_entry 104 [4], sample_entry 100 [0]] = Inr [?loc 108 115, ?loc 100 107]"
    by (simp_all add: sample_entry_def sample_marks_def entries_def mark_location_def marking_coverage_size_def Let_def)
  have ok: "list_all loc_ok [?loc 108 115, ?loc 100 107]" by (simp add: loc_ok_def)
  show ?thesis using coverage_comparison_exact [OF l1 ok l2 ok] by blast
qed

end
