(* ===== verification/HostWrites.thy ===== *)
theory HostWrites
  imports Containers
begin

text \<open>Where the bytes of host-written memory come from: \<open>host_write_regions\<close> of \<^verbatim>\<open>src/containers.h\<close>, which the
  post-processor asks which call wrote a given address.  The fragments of memory are kept by \<open>MemoryFlagTracker\<close>, which
  belongs to the SPIR-V simulator and is not part of the repository: it is a parameter, and what the code relies on is
  the locale \<open>flag_tracker\<close>.  Offsets of type \<open>int64_t\<close> are 64-bit words read as two's complement; the code only adds
  and subtracts them and compares them for equality.\<close>

section \<open>The tracker of fragments\<close>

text \<open>\<open>write\<close> with its flags, \<open>queryDetailed\<close> with the address and the number of the fragment that holds a byte, and
  \<open>queryRangeDetailed\<close> with the start, end and number of fragments.\<close>

record 'tr tracker =
  tk_empty :: 'tr
  tk_write :: "u64 \<Rightarrow> u64 \<Rightarrow> u64 \<Rightarrow> 'tr \<Rightarrow> 'tr"
  tk_query :: "u64 \<Rightarrow> 'tr \<Rightarrow> (u64 \<times> nat) option"
  tk_range :: "u64 \<Rightarrow> u64 \<Rightarrow> 'tr \<Rightarrow> (u64 \<times> u64 \<times> nat) list"

definition fragment :: "'tr tracker \<Rightarrow> u64 \<Rightarrow> 'tr \<Rightarrow> nat option" where
  "fragment T b tr = map_option snd (tk_query T b tr)"

section \<open>References\<close>

record host_write_reference =
  hr_source :: change_source
  hr_stage :: u32
  hr_offset :: u64

record 'tr host_write_regions =
  hw_tracker :: 'tr
  hw_sources :: "(nat \<times> host_write_reference) list"

record source_span =
  sp_start :: u64
  sp_end :: u64
  sp_ref :: host_write_reference

definition host_write_regions_new :: "'tr tracker \<Rightarrow> 'tr host_write_regions" where
  "host_write_regions_new T = \<lparr>hw_tracker = tk_empty T, hw_sources = []\<rparr>"

definition same_source :: "change_source \<Rightarrow> change_source \<Rightarrow> bool" where
  "same_source a b \<longleftrightarrow> cs_packet a = cs_packet b \<and> cs_frame a = cs_frame b \<and> cs_thread a = cs_thread b \<and> cs_call_id a = cs_call_id b"

definition same_reference :: "host_write_reference \<Rightarrow> host_write_reference \<Rightarrow> bool" where
  "same_reference a b \<longleftrightarrow> same_source (hr_source a) (hr_source b) \<and> hr_stage a = hr_stage b"

definition contiguous_reference :: "source_span \<Rightarrow> u64 \<Rightarrow> host_write_reference \<Rightarrow> bool" where
  "contiguous_reference previous next_start nxt \<longleftrightarrow> same_reference (sp_ref previous) nxt \<and>
    hr_offset (sp_ref previous) + (sp_end previous - sp_start previous) = hr_offset nxt \<and> sp_end previous = next_start"

definition checked_end :: "u64 \<Rightarrow> u64 \<Rightarrow> u64 result" where
  "checked_end address sz = assert_that (address + sz \<ge> address) (Inr (address + sz))"

section \<open>Collecting spans\<close>

definition push_span :: "source_span list \<Rightarrow> u64 \<Rightarrow> u64 \<Rightarrow> host_write_reference \<Rightarrow> source_span list" where
  "push_span out start span_end r =
    (if out \<noteq> [] \<and> contiguous_reference (last out) start r then butlast out @ [(last out)\<lparr>sp_end := span_end\<rparr>]
     else out @ [\<lparr>sp_start = start, sp_end = span_end, sp_ref = r\<rparr>])"

text \<open>The loop of \<open>collect_spans_unlocked\<close>; \<open>None\<close> is an early \<open>return false\<close>.\<close>

fun collect_loop :: "bool \<Rightarrow> (nat \<times> host_write_reference) list \<Rightarrow> u64 \<Rightarrow> u64 \<Rightarrow> u64 \<Rightarrow> source_span list \<Rightarrow> (u64 \<times> u64 \<times> nat) list \<Rightarrow>
    (u64 \<times> source_span list) option" where
  "collect_loop full srcs address en pos out [] = Some (pos, out)"
| "collect_loop full srcs address en pos out ((s, e, i) # spans) =
    (if full \<and> s > pos then None
     else let start = max s (if full then pos else address); span_end = min e en in
       if start \<ge> span_end then collect_loop full srcs address en pos out spans
       else (case map_of srcs i of
          None \<Rightarrow> if full then None else collect_loop full srcs address en pos out spans
        | Some r0 \<Rightarrow>
            let r = r0\<lparr>hr_offset := hr_offset r0 + start\<rparr>; out' = push_span out start span_end r in
            if full then (if span_end = en then Some (span_end, out') else collect_loop full srcs address en span_end out' spans)
            else collect_loop full srcs address en pos out' spans))"

definition collect_spans_unlocked :: "'tr tracker \<Rightarrow> bool \<Rightarrow> u64 \<Rightarrow> u64 \<Rightarrow> 'tr host_write_regions \<Rightarrow> source_span list option result" where
  "collect_spans_unlocked T full address sz hw =
    (if sz = 0 then Inr (Some [])
     else result_bind (checked_end address sz) (\<lambda>en.
       Inr (case collect_loop full (hw_sources hw) address en address [] (tk_range T address sz (hw_tracker hw)) of
          None \<Rightarrow> None
        | Some (pos, out) \<Rightarrow> if full \<and> pos \<noteq> en then None else Some out)))"

section \<open>Operations\<close>

definition register_source_unlocked :: "'tr tracker \<Rightarrow> u64 \<Rightarrow> u64 \<Rightarrow> host_write_reference \<Rightarrow> 'tr host_write_regions \<Rightarrow> 'tr host_write_regions result" where
  "register_source_unlocked T address sz r hw =
    (if sz = 0 then Inr hw
     else let tr = tk_write T address sz 0 (hw_tracker hw) in
       case tk_query T address tr of
         None \<Rightarrow> Inl Assertion_failed
       | Some (a, i) \<Rightarrow> assert_that (a = address)
           (Inr (hw\<lparr>hw_tracker := tr, hw_sources := AList.update i (r\<lparr>hr_offset := hr_offset r - address\<rparr>) (hw_sources hw)\<rparr>)))"

fun register_elements :: "'tr tracker \<Rightarrow> u64 \<Rightarrow> u64 \<Rightarrow> u64 \<Rightarrow> host_write_reference \<Rightarrow> nat list \<Rightarrow> 'tr host_write_regions \<Rightarrow> 'tr host_write_regions result" where
  "register_elements T address sz stride r [] hw = Inr hw"
| "register_elements T address sz stride r (i # ks) hw =
    result_bind (register_source_unlocked T (address + of_nat i * stride) sz (r\<lparr>hr_offset := hr_offset r + of_nat i * stride\<rparr>) hw)
      (register_elements T address sz stride r ks)"

definition register_source :: "'tr tracker \<Rightarrow> u64 \<Rightarrow> u64 \<Rightarrow> change_source \<Rightarrow> u32 \<Rightarrow> u32 \<Rightarrow> u32 \<Rightarrow> u64 \<Rightarrow> 'tr host_write_regions \<Rightarrow>
    'tr host_write_regions result" where
  "register_source T address sz source elements stride stage_index object_offset hw =
    (if sz = 0 then Inr hw
     else assert_that (elements > 0) (assert_that (change_source_self_test source)
       (let off = (if object_offset = UINT64_MAX then address else object_offset) in
        assert_that (off \<le> 0x7FFFFFFFFFFFFFFF)
        (let r = \<lparr>hr_source = source, hr_stage = stage_index, hr_offset = off\<rparr> in
         if elements = 1 then register_source_unlocked T address sz r hw
         else if stride = 0 then
           (let total_size = sz * ucast elements in
            assert_that (total_size div ucast elements = sz) (register_source_unlocked T address total_size r hw))
         else register_elements T address sz (ucast stride) r [0..<unat elements] hw))))"

definition try_get_reference :: "'tr tracker \<Rightarrow> u64 \<Rightarrow> u32 \<Rightarrow> 'tr host_write_regions \<Rightarrow> host_write_reference option result" where
  "try_get_reference T address sz hw = assert_that (sz > 0)
    (result_bind (collect_spans_unlocked T True address (ucast sz) hw) (\<lambda>spans. case spans of
       None \<Rightarrow> Inr None
     | Some spans \<Rightarrow> assert_that (spans \<noteq> [])
         (let r = sp_ref (hd spans) in
          Inr (if list_all (\<lambda>sp. same_reference (sp_ref sp) r \<and> hr_offset (sp_ref sp) = hr_offset r + (sp_start sp - address)) spans
            then Some r else None))))"

definition try_get_source :: "'tr tracker \<Rightarrow> u64 \<Rightarrow> u32 \<Rightarrow> 'tr host_write_regions \<Rightarrow> change_source option result" where
  "try_get_source T address sz hw = result_bind (try_get_reference T address sz hw) (\<lambda>r. Inr (map_option hr_source r))"

definition get_source :: "'tr tracker \<Rightarrow> u64 \<Rightarrow> u32 \<Rightarrow> 'tr host_write_regions \<Rightarrow> change_source result" where
  "get_source T address sz hw = result_bind (try_get_reference T address sz hw) (\<lambda>r. case r of
     None \<Rightarrow> Inl Assertion_failed
   | Some r \<Rightarrow> Inr (hr_source r))"

fun register_spans :: "'tr tracker \<Rightarrow> u64 \<Rightarrow> u64 \<Rightarrow> source_span list \<Rightarrow> 'tr host_write_regions \<Rightarrow> 'tr host_write_regions result" where
  "register_spans T dst_address src_address [] hw = Inr hw"
| "register_spans T dst_address src_address (sp # sps) hw =
    result_bind (register_source_unlocked T (dst_address + (sp_start sp - src_address)) (sp_end sp - sp_start sp) (sp_ref sp) hw)
      (register_spans T dst_address src_address sps)"

text \<open>Copying to the same object is the case \<open>src = dst\<close>: both branches of the code collect before they register.\<close>

definition copy_sources :: "'tr tracker \<Rightarrow> 'tr host_write_regions \<Rightarrow> u64 \<Rightarrow> u64 \<Rightarrow> u64 \<Rightarrow> 'tr host_write_regions \<Rightarrow> 'tr host_write_regions result" where
  "copy_sources T src dst_address src_address src_size dst =
    (if src_size = 0 then Inr dst
     else result_bind (checked_end dst_address src_size) (\<lambda>_.
       result_bind (collect_spans_unlocked T False src_address src_size src) (\<lambda>spans.
         register_spans T dst_address src_address (case spans of None \<Rightarrow> [] | Some ps \<Rightarrow> ps) dst)))"

record hw_stats =
  st_segments :: u64
  st_bytes :: u64

fun stats_loop :: "(nat \<times> host_write_reference) list \<Rightarrow> (change_source \<times> u64) option \<Rightarrow> (u64 \<times> u64 \<times> nat) list \<Rightarrow> hw_stats \<Rightarrow> hw_stats result" where
  "stats_loop srcs previous [] st = Inr st"
| "stats_loop srcs previous ((s, e, i) # spans) st = (case map_of srcs i of
     None \<Rightarrow> Inl Assertion_failed
   | Some r \<Rightarrow>
       let fresh = (case previous of None \<Rightarrow> True | Some (p, p_end) \<Rightarrow> p_end \<noteq> s \<or> \<not> same_source p (hr_source r));
           p = (case previous of None \<Rightarrow> hr_source r | Some (p, _) \<Rightarrow> if fresh then hr_source r else p)
       in stats_loop srcs (Some (p, e)) spans
            \<lparr>st_segments = (if fresh then st_segments st + 1 else st_segments st), st_bytes = st_bytes st + (e - s)\<rparr>)"

definition get_stats :: "'tr tracker \<Rightarrow> 'tr host_write_regions \<Rightarrow> hw_stats result" where
  "get_stats T hw = stats_loop (hw_sources hw) None (tk_range T 0 UINT64_MAX (hw_tracker hw)) \<lparr>st_segments = 0, st_bytes = 0\<rparr>"

record host_write_totals =
  ht_objects :: u64
  ht_objects_with_data :: u64
  ht_segments :: u64
  ht_bytes :: u64
  ht_max_segments :: u64
  ht_max_index :: u32

fun gather_loop :: "'tr tracker \<Rightarrow> (u32 \<times> 'tr host_write_regions) list \<Rightarrow> host_write_totals \<Rightarrow> host_write_totals result" where
  "gather_loop T [] t = Inr t"
| "gather_loop T ((index, hw) # objs) t = result_bind (get_stats T hw) (\<lambda>st.
     let t1 = t\<lparr>ht_objects := ht_objects t + 1\<rparr> in
     gather_loop T objs
       (if st_segments st = 0 then t1
        else let t2 = t1\<lparr>ht_objects_with_data := ht_objects_with_data t1 + 1, ht_segments := ht_segments t1 + st_segments st,
               ht_bytes := ht_bytes t1 + st_bytes st\<rparr> in
          if st_segments st > ht_max_segments t2 then t2\<lparr>ht_max_segments := st_segments st, ht_max_index := index\<rparr> else t2))"

definition gather_host_write_stats :: "'tr tracker \<Rightarrow> (u32 \<times> 'tr host_write_regions) list \<Rightarrow> host_write_totals result" where
  "gather_host_write_stats T objs = gather_loop T objs
    \<lparr>ht_objects = 0, ht_objects_with_data = 0, ht_segments = 0, ht_bytes = 0, ht_max_segments = 0, ht_max_index = CONTAINER_INVALID_INDEX\<rparr>"

section \<open>What the code relies on\<close>

text \<open>A write makes one new fragment of the bytes it covers and leaves the fragment numbers of all other bytes alone; a
  query of a range gives the fragments in it in ascending order, without overlaps.\<close>

locale flag_tracker =
  fixes T :: "'tr tracker" and good :: "'tr \<Rightarrow> bool"
  assumes empty_good: "good (tk_empty T)"
    and empty_fragment: "fragment T b (tk_empty T) = None"
    and write_good: "good tr \<Longrightarrow> 0 < n \<Longrightarrow> unat a + unat n < 2 ^ 64 \<Longrightarrow> good (tk_write T a n f tr)"
    and write_fragment: "good tr \<Longrightarrow> 0 < n \<Longrightarrow> unat a + unat n < 2 ^ 64 \<Longrightarrow>
      \<exists>i. tk_query T a (tk_write T a n f tr) = Some (a, i) \<and>
        (\<forall>b \<in> {a..<a + n}. fragment T b (tk_write T a n f tr) = Some i) \<and>
        (\<forall>b. b \<notin> {a..<a + n} \<longrightarrow> fragment T b (tk_write T a n f tr) = fragment T b tr \<and> fragment T b tr \<noteq> Some i)"
    and range_sorted: "good tr \<Longrightarrow> unat a + unat n < 2 ^ 64 \<Longrightarrow> sorted_wrt (\<lambda>(s, e, i) (s', e', i'). e \<le> s') (tk_range T a n tr)"
    and range_fragment: "good tr \<Longrightarrow> unat a + unat n < 2 ^ 64 \<Longrightarrow> (s, e, i) \<in> set (tk_range T a n tr) \<Longrightarrow> s < e \<and> (\<forall>b \<in> {s..<e}. fragment T b tr = Some i)"
    and range_complete: "good tr \<Longrightarrow> 0 < n \<Longrightarrow> unat a + unat n < 2 ^ 64 \<Longrightarrow> b \<in> {a..<a + n} \<Longrightarrow> fragment T b tr = Some i \<Longrightarrow>
      \<exists>(s, e, i) \<in> set (tk_range T a n tr). b \<in> {s..<e}"

section \<open>The map from bytes to their origin\<close>

type_synonym origin = "(u32 \<times> u32 \<times> u8 \<times> u16 \<times> u32) \<times> u64"
type_synonym origins = "u64 \<Rightarrow> origin option"

definition ref_key :: "host_write_reference \<Rightarrow> u32 \<times> u32 \<times> u8 \<times> u16 \<times> u32" where
  "ref_key r = (cs_packet (hr_source r), cs_frame (hr_source r), cs_thread (hr_source r), cs_call_id (hr_source r), hr_stage r)"

definition origins_of :: "'tr tracker \<Rightarrow> 'tr host_write_regions \<Rightarrow> origins" where
  "origins_of T hw b = (case fragment T b (hw_tracker hw) of
     None \<Rightarrow> None
   | Some i \<Rightarrow> map_option (\<lambda>r. (ref_key r, hr_offset r + b)) (map_of (hw_sources hw) i))"

definition hw_inv :: "'tr tracker \<Rightarrow> ('tr \<Rightarrow> bool) \<Rightarrow> 'tr host_write_regions \<Rightarrow> bool" where
  "hw_inv T good hw \<longleftrightarrow> good (hw_tracker hw) \<and>
    (\<forall>b i. fragment T b (hw_tracker hw) = Some i \<longrightarrow> map_of (hw_sources hw) i \<noteq> None)"

lemma same_reference_key: "same_reference a b \<longleftrightarrow> ref_key a = ref_key b"
  by (auto simp: same_reference_def same_source_def ref_key_def)

lemma ref_key_offset [simp]: "ref_key (r\<lparr>hr_offset := x\<rparr>) = ref_key r"
  by (simp add: ref_key_def)

lemma unat_bound64: "unat (x :: u64) < 18446744073709551616"
  using unsigned_less [of x] by simp

lemma fits_interval:
  fixes a b n :: u64
  assumes "unat a + unat n < 2 ^ 64"
  shows "b \<in> {a..<a + n} \<longleftrightarrow> b - a < n"
proof -
  have "unat (a + n) = unat a + unat n" using assms by (simp add: unat_plus_if')
  then show ?thesis using assms unat_bound64 [of a] unat_bound64 [of n]
    by (auto simp: word_le_nat_alt word_less_nat_alt unat_sub_if' split: if_splits)
qed

lemma span_interval:
  fixes s e b :: u64
  assumes "s \<le> e"
  shows "b \<in> {s..<e} \<longleftrightarrow> b - s < e - s"
proof -
  have "unat s + unat (e - s) = unat e" using assms by (simp add: unat_sub word_le_nat_alt)
  then show ?thesis using fits_interval [of s "e - s" b] unat_bound64 [of e] by simp
qed

lemma checked_end_fits: "unat a + unat n < 2 ^ 64 \<Longrightarrow> checked_end a n = Inr (a + n)"
  by (simp add: checked_end_def word_le_nat_alt unat_plus_if')

lemma checked_end_Inr: "checked_end a n = Inr x \<Longrightarrow> unat a + unat n < 2 ^ 64 \<and> x = a + n"
  using unat_bound64 [of a] unat_bound64 [of n]
  by (auto simp: checked_end_def word_le_nat_alt unat_plus_if' split: if_splits)


section \<open>Spans\<close>

definition span_ok :: "origins \<Rightarrow> source_span \<Rightarrow> bool" where
  "span_ok m sp \<longleftrightarrow> sp_start sp < sp_end sp \<and>
    (\<forall>b \<in> {sp_start sp..<sp_end sp}. m b = Some (ref_key (sp_ref sp), hr_offset (sp_ref sp) + (b - sp_start sp)))"

definition covered :: "source_span list \<Rightarrow> u64 set" where
  "covered out = (\<Union>sp \<in> set out. {sp_start sp..<sp_end sp})"

lemma covered_append [simp]: "covered (xs @ ys) = covered xs \<union> covered ys"
  by (auto simp: covered_def)

lemma covered_simps [simp]: "covered [] = {}" "covered (sp # sps) = {sp_start sp..<sp_end sp} \<union> covered sps"
  by (auto simp: covered_def)

lemma span_ok_extend:
  assumes "span_ok m sp" "contiguous_reference sp start r" "span_ok m \<lparr>sp_start = start, sp_end = en, sp_ref = r\<rparr>"
  shows "span_ok m (sp\<lparr>sp_end := en\<rparr>)" "{sp_start sp..<en} = {sp_start sp..<sp_end sp} \<union> {start..<en}"
proof -
  have c: "ref_key (sp_ref sp) = ref_key r" "hr_offset (sp_ref sp) + (start - sp_start sp) = hr_offset r" "sp_end sp = start"
    using assms(2) by (auto simp: contiguous_reference_def same_reference_key)
  have order: "sp_start sp < start" "start < en" using assms(1,3) c(3) by (auto simp: span_ok_def)
  then show set: "{sp_start sp..<en} = {sp_start sp..<sp_end sp} \<union> {start..<en}" using c(3) by auto
  have "m b = Some (ref_key (sp_ref sp), hr_offset (sp_ref sp) + (b - sp_start sp))" if "b \<in> {start..<en}" for b
    using assms(3) that c(1) by (auto simp: span_ok_def c(2) [symmetric])
  then show "span_ok m (sp\<lparr>sp_end := en\<rparr>)" using assms(1) order set by (auto simp: span_ok_def)
qed

lemma push_span_ok:
  assumes "list_all (span_ok m) out" "span_ok m \<lparr>sp_start = start, sp_end = en, sp_ref = r\<rparr>"
  shows "list_all (span_ok m) (push_span out start en r)" "covered (push_span out start en r) = covered out \<union> {start..<en}"
    "push_span out start en r \<noteq> []" "sp_start (hd (push_span out start en r)) = (if out = [] then start else sp_start (hd out))"
proof -
  have "list_all (span_ok m) (push_span out start en r) \<and> covered (push_span out start en r) = covered out \<union> {start..<en} \<and>
    push_span out start en r \<noteq> [] \<and> sp_start (hd (push_span out start en r)) = (if out = [] then start else sp_start (hd out))"
  proof (cases "out \<noteq> [] \<and> contiguous_reference (last out) start r")
    case True
    then obtain pre sp where out: "out = pre @ [sp]" by (metis append_butlast_last_id)
    then show ?thesis using True assms span_ok_extend [of m sp start r en]
      by (cases pre) (auto simp: push_span_def)
  next
    case False
    then show ?thesis using assms by (auto simp: push_span_def)
  qed
  then show "list_all (span_ok m) (push_span out start en r)" "covered (push_span out start en r) = covered out \<union> {start..<en}"
    "push_span out start en r \<noteq> []" "sp_start (hd (push_span out start en r)) = (if out = [] then start else sp_start (hd out))"
    by blast+
qed


lemma covered_mapped:
  assumes "list_all (span_ok m) out" "b \<in> covered out"
  shows "m b \<noteq> None"
proof -
  obtain sp where "sp \<in> set out" "b \<in> {sp_start sp..<sp_end sp}" using assms(2) by (auto simp: covered_def)
  moreover from this(1) have "span_ok m sp" using assms(1) by (simp add: list_all_iff)
  ultimately show ?thesis unfolding span_ok_def by (metis option.distinct(1))
qed

lemma collect_full_step:
  assumes "s \<le> pos"
  shows "collect_loop True srcs adr en pos out ((s, e, i) # spans) =
    (if min e en \<le> pos then collect_loop True srcs adr en pos out spans
     else case map_of srcs i of
       None \<Rightarrow> None
     | Some r \<Rightarrow> let out' = push_span out pos (min e en) (r\<lparr>hr_offset := hr_offset r + pos\<rparr>) in
         if min e en = en then Some (min e en, out') else collect_loop True srcs adr en (min e en) out' spans)"
proof -
  have "max s pos = pos" "\<not> s > pos" using assms by (simp_all add: max_def not_less)
  then show ?thesis by (simp add: Let_def split: option.split)
qed

lemma collect_some_step:
  "collect_loop False srcs adr en pos out ((s, e, i) # spans) =
    (if min e en \<le> max s adr then collect_loop False srcs adr en pos out spans
     else case map_of srcs i of
       None \<Rightarrow> collect_loop False srcs adr en pos out spans
     | Some r \<Rightarrow> collect_loop False srcs adr en pos (push_span out (max s adr) (min e en) (r\<lparr>hr_offset := hr_offset r + max s adr\<rparr>)) spans)"
  by (simp add: Let_def split: option.split)

declare collect_loop.simps(2) [simp del]

context flag_tracker
begin

lemma origins_range:
  assumes "hw_inv T good hw \<and> unat a + unat n < 2 ^ 64" "(s, e, i) \<in> set (tk_range T a n (hw_tracker hw))" "s \<le> start" "start < en" "en \<le> e"
  shows "\<exists>r. map_of (hw_sources hw) i = Some r \<and>
    span_ok (origins_of T hw) \<lparr>sp_start = start, sp_end = en, sp_ref = r\<lparr>hr_offset := hr_offset r + start\<rparr>\<rparr>"
proof -
  have all: "\<forall>b \<in> {s..<e}. fragment T b (hw_tracker hw) = Some i"
    using range_fragment [OF _ _ assms(2)] assms(1) by (simp add: hw_inv_def)
  have sub: "b \<in> {s..<e}" if "b \<in> {start..<en}" for b using that assms(3,5) by auto
  have frag: "fragment T b (hw_tracker hw) = Some i" if "b \<in> {start..<en}" for b using all sub [OF that] by blast
  have "fragment T start (hw_tracker hw) = Some i" using frag assms(4) by simp
  then obtain r where r: "map_of (hw_sources hw) i = Some r" using assms(1) unfolding hw_inv_def by blast
  then show ?thesis using frag assms(4) by (auto simp: span_ok_def origins_of_def)
qed

lemma collect_full_sound:
  assumes "hw_inv T good hw \<and> unat a + unat n < 2 ^ 64" "set spans \<subseteq> set (tk_range T a n (hw_tracker hw))"
    and "list_all (span_ok (origins_of T hw)) out" "pos \<le> en" "out \<noteq> [] \<longrightarrow> sp_start (hd out) = adr" "out = [] \<longrightarrow> pos = adr"
    and "collect_loop True (hw_sources hw) adr en pos out spans = Some (pos', out')"
  shows "list_all (span_ok (origins_of T hw)) out' \<and> pos \<le> pos' \<and> pos' \<le> en \<and> covered out' = covered out \<union> {pos..<pos'} \<and>
    (out' \<noteq> [] \<longrightarrow> sp_start (hd out') = adr) \<and> (out' = [] \<longrightarrow> pos' = adr)"
  using assms(2-)
proof (induction spans arbitrary: pos out)
  case Nil
  then show ?case by auto
next
  case (Cons sp spans)
  obtain s e i where sp: "sp = (s, e, i)" by (cases sp)
  have le: "s \<le> pos" using Cons.prems(6) by (simp add: sp collect_loop.simps(2) not_less split: if_splits)
  note step = collect_full_step [OF le]
  show ?case
  proof (cases "min e en \<le> pos")
    case True
    then have "collect_loop True (hw_sources hw) adr en pos out spans = Some (pos', out')"
      using Cons.prems(6) by (simp add: sp step)
    then show ?thesis using Cons by simp
  next
    case False
    have "(s, e, i) \<in> set (tk_range T a n (hw_tracker hw))" using Cons.prems(1) by (simp add: sp)
    then obtain r where r: "map_of (hw_sources hw) i = Some r"
      "span_ok (origins_of T hw) \<lparr>sp_start = pos, sp_end = min e en, sp_ref = r\<lparr>hr_offset := hr_offset r + pos\<rparr>\<rparr>"
      using origins_range [OF assms(1) _ le, of e i "min e en"] False by (auto simp: not_le)
    note push = push_span_ok [OF Cons.prems(2) r(2)]
    let ?out = "push_span out pos (min e en) (r\<lparr>hr_offset := hr_offset r + pos\<rparr>)"
    have st: "sp_start (hd ?out) = adr" using push(4) Cons.prems(4,5) by auto
    have eq: "(if min e en = en then Some (min e en, ?out) else collect_loop True (hw_sources hw) adr en (min e en) ?out spans) = Some (pos', out')"
      using Cons.prems(6) False r(1) by (simp add: sp step Let_def)
    show ?thesis
    proof (cases "min e en = en")
      case True
      then show ?thesis using eq push st False Cons.prems(3) by auto
    next
      case neq: False
      have ih: "list_all (span_ok (origins_of T hw)) out' \<and> min e en \<le> pos' \<and> pos' \<le> en \<and> covered out' = covered ?out \<union> {min e en..<pos'} \<and>
        (out' \<noteq> [] \<longrightarrow> sp_start (hd out') = adr) \<and> (out' = [] \<longrightarrow> pos' = adr)"
        by (rule Cons.IH) (use Cons.prems(1) push st eq neq in auto)
      have mid: "pos \<le> min e en" "min e en \<le> pos'" using False ih by (simp_all only: not_le order.strict_implies_order)
      have "covered out' = covered out \<union> {pos..<pos'}" using ih push(2) by (simp only: Un_assoc ivl_disj_un_two(3) [OF mid])
      then show ?thesis using ih order_trans [OF mid] by blast
    qed
  qed
qed

lemma collect_full_complete:
  assumes "hw_inv T good hw \<and> unat a + unat n < 2 ^ 64" "set spans \<subseteq> set (tk_range T a n (hw_tracker hw))" "sorted_wrt (\<lambda>(s, e, i) (s', e', i'). e \<le> s') spans"
    and "pos < en" "\<forall>b \<in> {pos..<en}. \<exists>(s, e, i) \<in> set spans. b \<in> {s..<e}"
  shows "\<exists>out'. collect_loop True (hw_sources hw) adr en pos out spans = Some (en, out')"
  using assms(2-)
proof (induction spans arbitrary: pos out)
  case Nil
  then show ?case by auto
next
  case (Cons sp spans)
  obtain s e i where sp: "sp = (s, e, i)" by (cases sp)
  have in_range: "(s, e, i) \<in> set (tk_range T a n (hw_tracker hw))" using Cons.prems(1) by (simp add: sp)
  then have "s < e" using range_fragment assms(1) by (auto simp: hw_inv_def)
  have later: "e \<le> s'" if "(s', e', i') \<in> set spans" for s' e' i' using Cons.prems(2) that by (auto simp: sp)
  have le: "s \<le> pos"
  proof -
    have "pos \<in> {pos..<en}" using Cons.prems(3) by simp
    then obtain s' e' i' where "(s', e', i') \<in> set (sp # spans)" "pos \<in> {s'..<e'}" using Cons.prems(4) by blast
    then show ?thesis using later [of s' e' i'] \<open>s < e\<close> by (auto simp: sp)
  qed
  note step = collect_full_step [OF le]
  have rest: "\<forall>b \<in> {p..<en}. \<exists>(s, e, i) \<in> set spans. b \<in> {s..<e}" if "e \<le> p" "pos \<le> p" for p
  proof
    fix b assume b: "b \<in> {p..<en}"
    then have "b \<in> {pos..<en}" using that by auto
    then obtain s' e' i' where "(s', e', i') \<in> set (sp # spans)" "b \<in> {s'..<e'}" using Cons.prems(4) by blast
    then show "\<exists>(s, e, i) \<in> set spans. b \<in> {s..<e}" using b that(1) by (auto simp: sp)
  qed
  show ?case
  proof (cases "min e en \<le> pos")
    case True
    then have "e \<le> pos" using Cons.prems(3) by (auto simp: min_le_iff_disj)
    then show ?thesis using Cons.IH [of pos out] Cons.prems(1-3) rest [of pos] True by (simp add: sp step)
  next
    case False
    then obtain r where r: "map_of (hw_sources hw) i = Some r"
      using origins_range [OF assms(1) in_range le, of "min e en"] by (auto simp: not_le)
    show ?thesis
    proof (cases "min e en = en")
      case True
      then show ?thesis using False r by (simp add: sp step Let_def)
    next
      case neq: False
      then have e: "min e en = e" "e < en" by (auto simp: min_def split: if_splits)
      have "\<exists>out'. collect_loop True (hw_sources hw) adr en e (push_span out pos e (r\<lparr>hr_offset := hr_offset r + pos\<rparr>)) spans = Some (en, out')"
        by (rule Cons.IH) (use Cons.prems(1,2) e(2) False rest [of e] e(1) in \<open>auto simp: sp not_le\<close>)
      then show ?thesis using False r e by (simp add: sp step Let_def)
    qed
  qed
qed

lemma collect_some:
  assumes "hw_inv T good hw \<and> unat a + unat n < 2 ^ 64" "set spans \<subseteq> set (tk_range T a n (hw_tracker hw))" "list_all (span_ok (origins_of T hw)) out"
  shows "\<exists>out'. collect_loop False (hw_sources hw) adr en pos out spans = Some (pos, out') \<and> list_all (span_ok (origins_of T hw)) out' \<and>
    covered out' = covered out \<union> (\<Union>(s, e, i) \<in> set spans. {s..<e} \<inter> {adr..<en})"
  using assms(2-)
proof (induction spans arbitrary: out)
  case Nil
  then show ?case by auto
next
  case (Cons sp spans)
  obtain s e i where sp: "sp = (s, e, i)" by (cases sp)
  show ?case
  proof (cases "min e en \<le> max s adr")
    case True
    then have "{s..<e} \<inter> {adr..<en} = {}" by (auto simp: min_def max_def split: if_splits)
    then show ?thesis using Cons.IH [OF _ Cons.prems(2)] Cons.prems(1) True by (simp add: sp collect_some_step)
  next
    case False
    have "(s, e, i) \<in> set (tk_range T a n (hw_tracker hw))" using Cons.prems(1) by (simp add: sp)
    then obtain r where r: "map_of (hw_sources hw) i = Some r"
      "span_ok (origins_of T hw) \<lparr>sp_start = max s adr, sp_end = min e en, sp_ref = r\<lparr>hr_offset := hr_offset r + max s adr\<rparr>\<rparr>"
      using origins_range [OF assms(1), of s e i "max s adr" "min e en"] False by (auto simp: not_le)
    note push = push_span_ok [OF Cons.prems(2) r(2)]
    have "{s..<e} \<inter> {adr..<en} = {max s adr..<min e en}" by auto
    then show ?thesis using Cons.IH [OF _ push(1)] Cons.prems(1) False r(1) push(2) by (simp add: sp collect_some_step Un_assoc)
  qed
qed

lemma collect_full:
  assumes "hw_inv T good hw" "0 < n" "unat a + unat n < 2 ^ 64"
  shows "if \<forall>b \<in> {a..<a + n}. origins_of T hw b \<noteq> None
    then \<exists>out. collect_spans_unlocked T True a n hw = Inr (Some out) \<and> list_all (span_ok (origins_of T hw)) out \<and>
      covered out = {a..<a + n} \<and> out \<noteq> [] \<and> sp_start (hd out) = a
    else collect_spans_unlocked T True a n hw = Inr None"
proof -
  let ?spans = "tk_range T a n (hw_tracker hw)" and ?en = "a + n"
  have g: "good (hw_tracker hw)" using assms(1) by (simp add: hw_inv_def)
  have inv: "hw_inv T good hw \<and> unat a + unat n < 2 ^ 64" using assms(1,3) by simp
  have less: "a < ?en" using assms(2,3) by (simp add: word_less_nat_alt unat_plus_if')
  then have en: "n \<noteq> 0" "a \<le> ?en" using assms(2) by auto
  note ce = checked_end_fits [OF assms(3)]
  have sound: "list_all (span_ok (origins_of T hw)) out \<and> covered out = {a..<p} \<and> (out \<noteq> [] \<longrightarrow> sp_start (hd out) = a)"
    if "collect_loop True (hw_sources hw) a ?en a [] ?spans = Some (p, out)" for p out
    using collect_full_sound [OF inv subset_refl _ en(2) _ _ that] by simp
  show ?thesis
  proof (cases "\<forall>b \<in> {a..<?en}. origins_of T hw b \<noteq> None")
    case True
    have "\<forall>b \<in> {a..<?en}. \<exists>(s, e, i) \<in> set ?spans. b \<in> {s..<e}"
    proof
      fix b assume b: "b \<in> {a..<?en}"
      then obtain i where "fragment T b (hw_tracker hw) = Some i" using True by (fastforce simp: origins_of_def split: option.splits)
      then show "\<exists>(s, e, i) \<in> set ?spans. b \<in> {s..<e}" by (rule range_complete [OF g assms(2,3) b])
    qed
    then obtain out where out: "collect_loop True (hw_sources hw) a ?en a [] ?spans = Some (?en, out)"
      using collect_full_complete [OF inv subset_refl range_sorted [OF g assms(3)] less, of a] by blast
    note s = sound [OF out]
    then have "covered out \<noteq> {}" using less by auto
    then have "out \<noteq> []" by auto
    then show ?thesis using True s out en ce by (simp add: collect_spans_unlocked_def)
  next
    case False
    have "collect_loop True (hw_sources hw) a ?en a [] ?spans \<noteq> Some (?en, out)" for out
    proof
      assume "collect_loop True (hw_sources hw) a ?en a [] ?spans = Some (?en, out)"
      from sound [OF this] have "list_all (span_ok (origins_of T hw)) out" "covered out = {a..<?en}" by simp_all
      then show False using covered_mapped False by metis
    qed
    then show ?thesis using False en ce by (auto simp: collect_spans_unlocked_def split: option.split)
  qed
qed

end

text \<open>The specification of a query: the range must be one piece of one source.\<close>

definition uniform_origin :: "origins \<Rightarrow> u64 \<Rightarrow> u64 \<Rightarrow> origin option" where
  "uniform_origin m a n = (case m a of
     None \<Rightarrow> None
   | Some (k, off) \<Rightarrow> if \<forall>b \<in> {a..<a + n}. m b = Some (k, off + (b - a)) then Some (k, off) else None)"

definition origin_of :: "host_write_reference \<Rightarrow> origin" where
  "origin_of r = (ref_key r, hr_offset r)"

definition write_origins :: "u64 \<Rightarrow> u64 \<Rightarrow> origin \<Rightarrow> origins \<Rightarrow> origins" where
  "write_origins a n x m = (\<lambda>b. if b \<in> {a..<a + n} then Some (fst x, snd x + (b - a)) else m b)"

definition matches :: "u64 \<Rightarrow> host_write_reference \<Rightarrow> source_span \<Rightarrow> bool" where
  "matches a r sp \<longleftrightarrow> same_reference (sp_ref sp) r \<and> hr_offset (sp_ref sp) = hr_offset r + (sp_start sp - a)"

lemma origin_of_offset: "origin_of (r\<lparr>hr_offset := x\<rparr>) = (ref_key r, x)"
  by (simp add: origin_of_def)

lemma matching_spans:
  assumes "list_all (span_ok m) out"
  shows "list_all (matches a r) out \<longleftrightarrow> (\<forall>b \<in> covered out. m b = Some (ref_key r, hr_offset r + (b - a)))"
proof
  assume l: "list_all (matches a r) out"
  show "\<forall>b \<in> covered out. m b = Some (ref_key r, hr_offset r + (b - a))"
    using assms l by (auto simp: covered_def list_all_iff span_ok_def matches_def same_reference_key)
next
  assume m: "\<forall>b \<in> covered out. m b = Some (ref_key r, hr_offset r + (b - a))"
  show "list_all (matches a r) out"
    unfolding list_all_iff
  proof
    fix sp assume sp: "sp \<in> set out"
    then have ok: "span_ok m sp" using assms by (simp add: list_all_iff)
    then have "sp_start sp \<in> covered out" "m (sp_start sp) = Some (ref_key (sp_ref sp), hr_offset (sp_ref sp))"
      using sp by (auto simp: covered_def span_ok_def)
    then show "matches a r sp" using m by (simp add: matches_def same_reference_key)
  qed
qed

context flag_tracker
begin

lemma try_get_reference_spec:
  assumes "hw_inv T good hw" "0 < n" "unat a + unat n < 2 ^ 64"
  shows "\<exists>x. try_get_reference T a n hw = Inr x \<and> map_option origin_of x = uniform_origin (origins_of T hw) a (ucast n)"
proof -
  let ?n = "ucast n :: u64"
  have un: "unat ?n = unat n" using unsigned_less [of n, where 'a = nat] by (simp add: unsigned_ucast_eq take_bit_nat_eq_self)
  then have n: "0 < ?n" "unat a + unat ?n < 2 ^ 64" using assms(2,3) by (simp_all add: word_less_nat_alt)
  have a_in: "a \<in> {a..<a + ?n}" using n by (simp add: word_less_nat_alt unat_plus_if')
  note c = collect_full [OF assms(1) n]
  show ?thesis
  proof (cases "\<forall>b \<in> {a..<a + ?n}. origins_of T hw b \<noteq> None")
    case True
    then obtain out where out: "collect_spans_unlocked T True a ?n hw = Inr (Some out)" "list_all (span_ok (origins_of T hw)) out"
      "covered out = {a..<a + ?n}" "out \<noteq> []" "sp_start (hd out) = a" using c by auto
    define r where "r = sp_ref (hd out)"
    have "span_ok (origins_of T hw) (hd out)" using out(2,4) by (cases out) auto
    then have first: "origins_of T hw a = Some (ref_key r, hr_offset r)" using out(5) by (auto simp: span_ok_def r_def)
    have "try_get_reference T a n hw = Inr (if list_all (matches a r) out then Some r else None)"
      using out(1,4) assms(2) by (simp add: try_get_reference_def matches_def [abs_def] r_def Let_def)
    then show ?thesis using matching_spans [OF out(2), of a r] out(3) first by (simp add: uniform_origin_def origin_of_def)
  next
    case False
    then have none: "collect_spans_unlocked T True a ?n hw = Inr None" using c by simp
    have "uniform_origin (origins_of T hw) a ?n = None"
      using False by (auto simp: uniform_origin_def split: option.splits)
    then show ?thesis using none assms(2) by (simp add: try_get_reference_def)
  qed
qed

lemma register_unlocked_spec:
  assumes "hw_inv T good hw" "0 < n" "unat a + unat n < 2 ^ 64"
  shows "\<exists>hw'. register_source_unlocked T a n r hw = Inr hw' \<and> hw_inv T good hw' \<and>
    origins_of T hw' = write_origins a n (origin_of r) (origins_of T hw)"
proof -
  have g: "good (hw_tracker hw)" using assms(1) by (simp add: hw_inv_def)
  define tr where "tr = tk_write T a n 0 (hw_tracker hw)"
  obtain i where i: "tk_query T a tr = Some (a, i)" "\<forall>b \<in> {a..<a + n}. fragment T b tr = Some i"
    "\<forall>b. b \<notin> {a..<a + n} \<longrightarrow> fragment T b tr = fragment T b (hw_tracker hw) \<and> fragment T b (hw_tracker hw) \<noteq> Some i"
    using write_fragment [OF g assms(2,3)] unfolding tr_def by blast
  define hw' where "hw' = hw\<lparr>hw_tracker := tr, hw_sources := AList.update i (r\<lparr>hr_offset := hr_offset r - a\<rparr>) (hw_sources hw)\<rparr>"
  have "register_source_unlocked T a n r hw = Inr hw'"
    using assms(2) i(1) by (simp add: register_source_unlocked_def tr_def hw'_def)
  moreover have "hw_inv T good hw'"
    unfolding hw_inv_def
  proof (intro conjI allI impI)
    show "good (hw_tracker hw')" using write_good [OF g assms(2,3)] by (simp add: hw'_def tr_def)
    fix b j assume "fragment T b (hw_tracker hw') = Some j"
    then have j: "fragment T b tr = Some j" by (simp add: hw'_def)
    show "map_of (hw_sources hw') j \<noteq> None"
    proof (cases "b \<in> {a..<a + n}")
      case True
      then show ?thesis using j i(2) by (auto simp: hw'_def update_conv)
    next
      case False
      then have "fragment T b (hw_tracker hw) = Some j" using j i(3) by auto
      then show ?thesis using assms(1) unfolding hw_inv_def by (auto simp: hw'_def update_conv)
    qed
  qed
  moreover have "origins_of T hw' b = write_origins a n (origin_of r) (origins_of T hw) b" for b
  proof (cases "b \<in> {a..<a + n}")
    case True
    then have "fragment T b tr = Some i" using i(2) by blast
    then show ?thesis using True by (simp add: origins_of_def hw'_def update_conv write_origins_def origin_of_def)
  next
    case False
    then have "fragment T b tr = fragment T b (hw_tracker hw)" "fragment T b (hw_tracker hw) \<noteq> Some i" using i(3) by blast+
    then show ?thesis using False by (auto simp: origins_of_def hw'_def update_conv write_origins_def split: option.split)
  qed
  then have "origins_of T hw' = write_origins a n (origin_of r) (origins_of T hw)" by (rule ext)
  ultimately show ?thesis by blast
qed

lemma register_spans_spec:
  assumes "list_all (span_ok m) sps" "covered sps \<subseteq> {s..<s + n}" "unat s + unat n < 2 ^ 64" "unat d + unat n < 2 ^ 64"
    and "hw_inv T good hw"
  shows "\<exists>hw'. register_spans T d s sps hw = Inr hw' \<and> hw_inv T good hw' \<and>
    origins_of T hw' = (\<lambda>b. if s + (b - d) \<in> covered sps then m (s + (b - d)) else origins_of T hw b)"
  using assms(1,2,5)
proof (induction sps arbitrary: hw)
  case Nil
  then show ?case by simp
next
  case (Cons sp sps)
  define a where "a = d + (sp_start sp - s)"
  define l where "l = sp_end sp - sp_start sp"
  have ok: "span_ok m sp" using Cons.prems(1) by simp
  then have lt: "sp_start sp < sp_end sp" by (simp add: span_ok_def)
  have un: "unat (s + n) = unat s + unat n" using assms(3) by (simp add: unat_plus_if')
  have "sp_start sp \<in> {s..<s + n}" using Cons.prems(2) lt by auto
  then have lo: "unat s \<le> unat (sp_start sp)" by (simp add: word_le_nat_alt)
  have "sp_end sp - 1 \<in> {sp_start sp..<sp_end sp}"
    using lt unat_pred_less [OF lt] by (simp only: atLeastLessThan_iff word_le_nat_alt word_less_nat_alt) arith
  then have "sp_end sp - 1 < s + n" using Cons.prems(2) by auto
  then have hi: "unat (sp_end sp) \<le> unat s + unat n" using lt un unat_pred_less [OF lt] by (simp add: word_less_nat_alt)
  have diff: "unat (sp_start sp - s) = unat (sp_start sp) - unat s" "unat l = unat (sp_end sp) - unat (sp_start sp)"
    using lo lt by (simp_all add: l_def unat_sub word_le_nat_alt word_less_nat_alt)
  have lt': "unat (sp_start sp) < unat (sp_end sp)" using lt by (simp add: word_less_nat_alt)
  have "unat d + (unat (sp_start sp) - unat s) < 2 ^ 64" using lo hi lt' assms(4) by linarith
  then have "unat a = unat d + (unat (sp_start sp) - unat s)" by (simp add: a_def unat_plus_if' diff(1))
  then have fits: "unat a + unat l < 2 ^ 64" "0 < l" using diff(2) lo hi lt' assms(4) by (linarith, simp add: word_less_nat_alt)
  obtain hw1 where hw1: "register_source_unlocked T a l (sp_ref sp) hw = Inr hw1" "hw_inv T good hw1"
    "origins_of T hw1 = write_origins a l (origin_of (sp_ref sp)) (origins_of T hw)"
    using register_unlocked_spec [OF Cons.prems(3) fits(2,1)] by blast
  have "b \<in> {a..<a + l} \<longleftrightarrow> s + (b - d) \<in> {sp_start sp..<sp_end sp}" for b
    unfolding fits_interval [OF fits(1)] span_interval [OF less_imp_le [OF lt]] by (simp add: a_def l_def algebra_simps)
  moreover have "m (s + (b - d)) = Some (ref_key (sp_ref sp), hr_offset (sp_ref sp) + (b - a))" if "s + (b - d) \<in> {sp_start sp..<sp_end sp}" for b
  proof -
    have "b - a = s + (b - d) - sp_start sp" by (simp add: a_def)
    then show ?thesis using ok that by (simp add: span_ok_def)
  qed
  ultimately have o1: "origins_of T hw1 = (\<lambda>b. if s + (b - d) \<in> {sp_start sp..<sp_end sp} then m (s + (b - d)) else origins_of T hw b)"
    unfolding hw1(3) write_origins_def origin_of_def by (intro ext) simp
  obtain hw' where "register_spans T d s sps hw1 = Inr hw'" "hw_inv T good hw'"
    "origins_of T hw' = (\<lambda>b. if s + (b - d) \<in> covered sps then m (s + (b - d)) else origins_of T hw1 b)"
    using Cons.IH [OF _ _ hw1(2)] Cons.prems(1,2) by auto
  then show ?case using hw1(1) o1 by (intro exI [of _ hw']) (auto simp: a_def l_def)
qed

end

section \<open>The specification\<close>

definition source_key :: "change_source \<Rightarrow> u32 \<Rightarrow> u32 \<times> u32 \<times> u8 \<times> u16 \<times> u32" where
  "source_key c stage = (cs_packet c, cs_frame c, cs_thread c, cs_call_id c, stage)"

definition register_origins :: "u64 \<Rightarrow> u64 \<Rightarrow> change_source \<Rightarrow> u32 \<Rightarrow> u32 \<Rightarrow> u32 \<Rightarrow> u64 \<Rightarrow> origins \<Rightarrow> origins" where
  "register_origins a n source elements stride stage off m =
    (if n = 0 then m
     else let k = source_key source stage; off = (if off = UINT64_MAX then a else off) in
       if elements = 1 then write_origins a n (k, off) m
       else if stride = 0 then write_origins a (n * ucast elements) (k, off) m
       else fold (\<lambda>i. write_origins (a + of_nat i * ucast stride) n (k, off + of_nat i * ucast stride)) [0..<unat elements] m)"

definition copy_origins :: "origins \<Rightarrow> u64 \<Rightarrow> u64 \<Rightarrow> u64 \<Rightarrow> origins \<Rightarrow> origins" where
  "copy_origins m0 d s n m = (\<lambda>b. if b \<in> {d..<d + n} \<and> m0 (s + (b - d)) \<noteq> None then m0 (s + (b - d)) else m b)"

text \<open>A call the post-processor may make: the source is complete and the ranges do not wrap around.\<close>

definition register_ok :: "u64 \<Rightarrow> u64 \<Rightarrow> change_source \<Rightarrow> u32 \<Rightarrow> u32 \<Rightarrow> u64 \<Rightarrow> bool" where
  "register_ok a n source elements stride off \<longleftrightarrow> n = 0 \<or>
    elements > 0 \<and> change_source_self_test source \<and> (if off = UINT64_MAX then a else off) \<le> 0x7FFFFFFFFFFFFFFF \<and>
    (if stride = 0 then unat a + unat n * unat elements < 2 ^ 64
     else \<forall>i < unat elements. unat (a + of_nat i * ucast stride) + unat n < 2 ^ 64)"

lemma copy_origins_zero [simp]: "copy_origins m0 d s 0 m = m"
  by (simp add: copy_origins_def)

lemma product_div:
  fixes n e :: u64
  assumes "unat n * unat e < 2 ^ 64" "0 < e"
  shows "n * e div e = n" "unat (n * e) = unat n * unat e"
proof -
  show p: "unat (n * e) = unat n * unat e" using assms(1) by (simp add: unat_word_ariths)
  show "n * e div e = n" using assms(2) by (simp add: word_unat_eq_iff unat_div_distrib p word_less_nat_alt)
qed

context flag_tracker
begin

lemma register_elements_spec:
  assumes "hw_inv T good hw" "0 < n" "\<forall>i \<in> set ks. unat (a + of_nat i * stride) + unat n < 2 ^ 64"
  shows "\<exists>hw'. register_elements T a n stride r ks hw = Inr hw' \<and> hw_inv T good hw' \<and>
    origins_of T hw' = fold (\<lambda>i. write_origins (a + of_nat i * stride) n (ref_key r, hr_offset r + of_nat i * stride)) ks (origins_of T hw)"
  using assms
proof (induction ks arbitrary: hw)
  case Nil
  then show ?case by simp
next
  case (Cons i ks)
  have fit: "unat (a + of_nat i * stride) + unat n < 2 ^ 64" using Cons.prems(3) by simp
  obtain hw1 where hw1: "register_source_unlocked T (a + of_nat i * stride) n (r\<lparr>hr_offset := hr_offset r + of_nat i * stride\<rparr>) hw = Inr hw1"
    "hw_inv T good hw1" "origins_of T hw1 = write_origins (a + of_nat i * stride) n (ref_key r, hr_offset r + of_nat i * stride) (origins_of T hw)"
    using register_unlocked_spec [OF Cons.prems(1,2) fit, of "r\<lparr>hr_offset := hr_offset r + of_nat i * stride\<rparr>"]
    unfolding origin_of_offset by blast
  then show ?case using Cons.IH [OF hw1(2) Cons.prems(2)] Cons.prems(3) by simp
qed

lemma register_source_spec:
  assumes "hw_inv T good hw" "register_ok a n source elements stride off"
  shows "\<exists>hw'. register_source T a n source elements stride stage off hw = Inr hw' \<and> hw_inv T good hw' \<and>
    origins_of T hw' = register_origins a n source elements stride stage off (origins_of T hw)"
proof (cases "n = 0")
  case True
  then show ?thesis using assms(1) by (simp add: register_source_def register_origins_def)
next
  case False
  define x where "x = (if off = UINT64_MAX then a else off)"
  define r where "r = \<lparr>hr_source = source, hr_stage = stage, hr_offset = x\<rparr>"
  have key: "ref_key r = source_key source stage" "hr_offset r = x" by (simp_all add: r_def ref_key_def source_key_def)
  have ok: "elements > 0" "change_source_self_test source" "x \<le> 0x7FFFFFFFFFFFFFFF"
    "if stride = 0 then unat a + unat n * unat elements < 2 ^ 64 else \<forall>i < unat elements. unat (a + of_nat i * ucast stride) + unat n < 2 ^ 64"
    using assms(2) False unfolding register_ok_def x_def by blast+
  have n: "0 < n" using False by (simp add: word_gt_0)
  have run: "register_source T a n source elements stride stage off hw =
    (if elements = 1 then register_source_unlocked T a n r hw
     else if stride = 0 then assert_that (n * ucast elements div ucast elements = n) (register_source_unlocked T a (n * ucast elements) r hw)
     else register_elements T a n (ucast stride) r [0..<unat elements] hw)"
    using False ok by (simp add: register_source_def Let_def x_def r_def)
  have meaning: "register_origins a n source elements stride stage off m =
    (if elements = 1 then write_origins a n (ref_key r, hr_offset r) m
     else if stride = 0 then write_origins a (n * ucast elements) (ref_key r, hr_offset r) m
     else fold (\<lambda>i. write_origins (a + of_nat i * ucast stride) n (ref_key r, hr_offset r + of_nat i * ucast stride)) [0..<unat elements] m)" for m
    using False by (simp add: register_origins_def Let_def key x_def)
  consider "elements = 1" | "elements \<noteq> 1" "stride = 0" | "elements \<noteq> 1" "stride \<noteq> 0" by blast
  then show ?thesis
  proof cases
    case 1
    have "unat a + unat n < 2 ^ 64"
    proof (cases "stride = 0")
      case False
      then have "\<forall>i < unat elements. unat (a + of_nat i * ucast stride) + unat n < 2 ^ 64" using ok(4) by simp
      from this [THEN spec [of _ 0]] show ?thesis using 1 by simp
    qed (use ok(4) 1 in simp)
    then show ?thesis using register_unlocked_spec [OF assms(1) n, of a r] 1 unfolding run meaning by (simp add: origin_of_def)
  next
    case 2
    let ?e = "ucast elements :: u64"
    have e: "unat ?e = unat elements" using unsigned_less [of elements, where 'a = nat] by (simp add: unsigned_ucast_eq take_bit_nat_eq_self)
    then have "unat n * unat ?e < 2 ^ 64" "0 < ?e" using ok(1,4) 2 by (simp_all add: word_less_nat_alt)
    note p = product_div [OF this]
    have "0 < n * ?e" "unat a + unat (n * ?e) < 2 ^ 64" using n ok(1,4) 2 p(2) e by (simp_all add: word_less_nat_alt)
    then show ?thesis using register_unlocked_spec [OF assms(1), of "n * ?e" a r] 2 p(1) unfolding run meaning by (simp add: origin_of_def)
  next
    case 3
    then have "\<forall>i \<in> set [0..<unat elements]. unat (a + of_nat i * ucast stride) + unat n < 2 ^ 64" using ok(4) by simp
    then show ?thesis using register_elements_spec [OF assms(1) n, of _ a "ucast stride" r] 3 unfolding run meaning by simp
  qed
qed

lemma copy_sources_spec:
  assumes "hw_inv T good src" "hw_inv T good dst" "unat s + unat n < 2 ^ 64" "unat d + unat n < 2 ^ 64"
  shows "\<exists>hw'. copy_sources T src d s n dst = Inr hw' \<and> hw_inv T good hw' \<and>
    origins_of T hw' = copy_origins (origins_of T src) d s n (origins_of T dst)"
proof (cases "n = 0")
  case True
  then show ?thesis using assms(2) by (simp add: copy_sources_def)
next
  case False
  then have n: "0 < n" by (simp add: word_gt_0)
  have g: "good (hw_tracker src)" using assms(1) by (simp add: hw_inv_def)
  have inv: "hw_inv T good src \<and> unat s + unat n < 2 ^ 64" using assms(1,3) by simp
  let ?spans = "tk_range T s n (hw_tracker src)"
  obtain out where out: "collect_loop False (hw_sources src) s (s + n) s [] ?spans = Some (s, out)" "list_all (span_ok (origins_of T src)) out"
    "covered out = (\<Union>(x, y, i) \<in> set ?spans. {x..<y} \<inter> {s..<s + n})"
    using collect_some [OF inv subset_refl, where out = "[]" and adr = s and en = "s + n" and pos = s]
    by (auto simp del: Int_atLeastLessThan)
  have sub: "covered out \<subseteq> {s..<s + n}" using out(3) by auto
  have cov: "x \<in> covered out \<longleftrightarrow> x \<in> {s..<s + n} \<and> origins_of T src x \<noteq> None" for x
  proof
    assume "x \<in> covered out"
    then show "x \<in> {s..<s + n} \<and> origins_of T src x \<noteq> None" using sub covered_mapped [OF out(2)] by blast
  next
    assume x: "x \<in> {s..<s + n} \<and> origins_of T src x \<noteq> None"
    then obtain i where "fragment T x (hw_tracker src) = Some i" by (fastforce simp: origins_of_def split: option.splits)
    then have "\<exists>(x', y, i) \<in> set ?spans. x \<in> {x'..<y}" using range_complete [OF g n assms(3)] x by blast
    then show "x \<in> covered out" using x unfolding out(3) by blast
  qed
  obtain hw' where hw': "register_spans T d s out dst = Inr hw'" "hw_inv T good hw'"
    "origins_of T hw' = (\<lambda>b. if s + (b - d) \<in> covered out then origins_of T src (s + (b - d)) else origins_of T dst b)"
    using register_spans_spec [OF out(2) sub assms(3,4,2)] by blast
  have "copy_sources T src d s n dst = Inr hw'"
    using False out(1) hw'(1) checked_end_fits [OF assms(3)] checked_end_fits [OF assms(4)]
    by (simp add: copy_sources_def collect_spans_unlocked_def)
  moreover have "s + (b - d) \<in> {s..<s + n} \<longleftrightarrow> b \<in> {d..<d + n}" for b
    by (simp only: fits_interval [OF assms(3)] fits_interval [OF assms(4)]) simp
  then have "origins_of T hw' = copy_origins (origins_of T src) d s n (origins_of T dst)"
    unfolding hw'(3) copy_origins_def cov by (intro ext) simp
  ultimately show ?thesis using hw'(2) by blast
qed

end


section \<open>Objects and calls\<close>

text \<open>The buffers and images of a trace, each with its regions, and the calls the post-processor makes on them.\<close>

datatype hw_call =
    Register nat u64 u64 change_source u32 u32 u32 u64
  | Copy nat nat u64 u64 u64

fun hw_call_run :: "'tr tracker \<Rightarrow> hw_call \<Rightarrow> 'tr host_write_regions list \<Rightarrow> 'tr host_write_regions list result" where
  "hw_call_run T (Register k a n source elements stride stage off) hws =
    (if k < length hws then result_bind (register_source T a n source elements stride stage off (hws ! k)) (\<lambda>hw. Inr (hws[k := hw])) else Inl Out_of_range)"
| "hw_call_run T (Copy k j d s n) hws =
    (if k < length hws \<and> j < length hws then result_bind (copy_sources T (hws ! j) d s n (hws ! k)) (\<lambda>hw. Inr (hws[k := hw])) else Inl Out_of_range)"

fun hw_calls_run :: "'tr tracker \<Rightarrow> hw_call list \<Rightarrow> 'tr host_write_regions list \<Rightarrow> 'tr host_write_regions list result" where
  "hw_calls_run T [] hws = Inr hws"
| "hw_calls_run T (c # cs) hws = result_bind (hw_call_run T c hws) (hw_calls_run T cs)"

fun hw_call_spec :: "hw_call \<Rightarrow> origins list \<Rightarrow> origins list" where
  "hw_call_spec (Register k a n source elements stride stage off) ms = ms[k := register_origins a n source elements stride stage off (ms ! k)]"
| "hw_call_spec (Copy k j d s n) ms = ms[k := copy_origins (ms ! j) d s n (ms ! k)]"

fun hw_call_ok :: "nat \<Rightarrow> hw_call \<Rightarrow> bool" where
  "hw_call_ok N (Register k a n source elements stride stage off) \<longleftrightarrow> k < N \<and> register_ok a n source elements stride off"
| "hw_call_ok N (Copy k j d s n) \<longleftrightarrow> k < N \<and> j < N \<and> unat s + unat n < 2 ^ 64 \<and> unat d + unat n < 2 ^ 64"

context flag_tracker
begin

lemma new_inv: "hw_inv T good (host_write_regions_new T)" "origins_of T (host_write_regions_new T) = (\<lambda>_. None)"
  by (simp_all add: hw_inv_def host_write_regions_new_def origins_of_def empty_good empty_fragment fun_eq_iff)

lemma call_refines:
  assumes "list_all (hw_inv T good) hws" "hw_call_ok (length hws) c"
  shows "\<exists>hws'. hw_call_run T c hws = Inr hws' \<and> list_all (hw_inv T good) hws' \<and> length hws' = length hws \<and>
    map (origins_of T) hws' = hw_call_spec c (map (origins_of T) hws)"
proof (cases c)
  case (Register k a n source elements stride stage off)
  then have k: "k < length hws" "hw_inv T good (hws ! k)" "register_ok a n source elements stride off"
    using assms by (auto simp: list_all_length)
  obtain hw where "register_source T a n source elements stride stage off (hws ! k) = Inr hw" "hw_inv T good hw"
    "origins_of T hw = register_origins a n source elements stride stage off (origins_of T (hws ! k))"
    using register_source_spec [OF k(2,3)] by blast
  then show ?thesis using Register k(1) assms(1) by (simp add: list_all_length nth_list_update map_update)
next
  case (Copy k j d s n)
  then have k: "k < length hws" "j < length hws" "hw_inv T good (hws ! j)" "hw_inv T good (hws ! k)"
    "unat s + unat n < 2 ^ 64" "unat d + unat n < 2 ^ 64"
    using assms by (auto simp: list_all_length)
  obtain hw where "copy_sources T (hws ! j) d s n (hws ! k) = Inr hw" "hw_inv T good hw"
    "origins_of T hw = copy_origins (origins_of T (hws ! j)) d s n (origins_of T (hws ! k))"
    using copy_sources_spec [OF k(3-6)] by blast
  then show ?thesis using Copy k(1,2) assms(1) by (simp add: list_all_length nth_list_update map_update)
qed

lemma calls_refine:
  assumes "list_all (hw_inv T good) hws" "list_all (hw_call_ok (length hws)) cs"
  shows "\<exists>hws'. hw_calls_run T cs hws = Inr hws' \<and> list_all (hw_inv T good) hws' \<and> length hws' = length hws \<and>
    map (origins_of T) hws' = fold hw_call_spec cs (map (origins_of T) hws)"
  using assms
proof (induction cs arbitrary: hws)
  case Nil
  then show ?case by simp
next
  case (Cons c cs)
  obtain hws1 where hws1: "hw_call_run T c hws = Inr hws1" "list_all (hw_inv T good) hws1" "length hws1 = length hws"
    "map (origins_of T) hws1 = hw_call_spec c (map (origins_of T) hws)"
    using call_refines [OF Cons.prems(1)] Cons.prems(2) by auto
  then show ?case using Cons.IH [OF hws1(2)] Cons.prems(2) by simp
qed

end

text \<open>C16: whatever writes and copies are registered on a number of objects, every object then knows for each of its bytes
  the packet, frame, thread, call, stage and object offset of the last write that reached it, also through copies, and a
  query returns the origin of a range exactly when the whole range is one piece of one write.\<close>

theorem host_writes_traced:
  assumes "flag_tracker T good" "list_all (hw_call_ok N) cs"
  shows "\<exists>hws. hw_calls_run T cs (replicate N (host_write_regions_new T)) = Inr hws \<and>
    map (origins_of T) hws = fold hw_call_spec cs (replicate N (\<lambda>_. None)) \<and>
    (\<forall>k < N. \<forall>a n. 0 < n \<longrightarrow> unat a + unat n < 2 ^ 64 \<longrightarrow>
      (\<exists>x. try_get_reference T a n (hws ! k) = Inr x \<and>
        map_option origin_of x = uniform_origin (fold hw_call_spec cs (replicate N (\<lambda>_. None)) ! k) a (ucast n)))"
proof -
  note start = flag_tracker.new_inv [OF assms(1)]
  have "list_all (hw_inv T good) (replicate N (host_write_regions_new T))" using start(1) by (simp add: list_all_length)
  then obtain hws where hws: "hw_calls_run T cs (replicate N (host_write_regions_new T)) = Inr hws" "list_all (hw_inv T good) hws"
    "length hws = N" "map (origins_of T) hws = fold hw_call_spec cs (replicate N (\<lambda>_. None))"
    using flag_tracker.calls_refine [OF assms(1), of "replicate N (host_write_regions_new T)" cs] assms(2) start(2) by auto
  have "\<exists>x. try_get_reference T a n (hws ! k) = Inr x \<and>
      map_option origin_of x = uniform_origin (fold hw_call_spec cs (replicate N (\<lambda>_. None)) ! k) a (ucast n)"
    if "k < N" "0 < n" "unat a + unat n < 2 ^ 64" for k a n
    using flag_tracker.try_get_reference_spec [OF assms(1) _ that(2,3), of "hws ! k"] hws(2,3) that(1)
    by (auto simp: list_all_length hws(4) [symmetric])
  then show ?thesis using hws(1,4) by blast
qed

section \<open>Statistics\<close>

lemma card_word_interval:
  fixes s e :: u64
  shows "card {s..<e} = unat e - unat s"
proof -
  have "unat ` {s..<e} = {unat s..<unat e}"
  proof
    show "{unat s..<unat e} \<subseteq> unat ` {s..<e}"
    proof
      fix k assume k: "k \<in> {unat s..<unat e}"
      then have "unat (of_nat k :: u64) = k" using unat_bound64 [of e] by (simp add: unat_of_nat take_bit_nat_eq_self)
      then show "k \<in> unat ` {s..<e}" using k by (intro image_eqI [of _ _ "of_nat k"]) (simp_all add: word_le_nat_alt word_less_nat_alt)
    qed
  qed (auto simp: word_le_nat_alt word_less_nat_alt)
  moreover have "inj_on unat {s..<e}" by (simp add: inj_on_def word_unat_eq_iff)
  ultimately show ?thesis using card_image [of unat "{s..<e}"] by simp
qed

lemma spans_card:
  fixes spans :: "(u64 \<times> u64 \<times> nat) list"
  assumes "sorted_wrt (\<lambda>(s, e, i) (s', e', i'). e \<le> s') spans" "\<forall>(s, e, i) \<in> set spans. s < e"
  shows "of_nat (card (\<Union>(s, e, i) \<in> set spans. {s..<e})) = sum_list (map (\<lambda>(s, e, i). e - s) spans)"
  using assms
proof (induction spans)
  case (Cons sp spans)
  obtain s e i where sp: "sp = (s, e, i)" by (cases sp)
  let ?U = "\<Union>(s, e, i) \<in> set spans. {s..<e}"
  have disj: "{s..<e} \<inter> ?U = {}" using Cons.prems(1) by (fastforce simp: sp)
  have "s < e" using Cons.prems(2) by (simp add: sp)
  then have "of_nat (card {s..<e}) = e - s" by (simp add: card_word_interval word_less_nat_alt)
  moreover have "card ({s..<e} \<union> ?U) = card {s..<e} + card ?U" by (rule card_Un_disjoint) (use disj in auto)
  ultimately show ?case using Cons by (simp add: sp)
qed simp

lemma stats_loop_bytes:
  assumes "\<forall>(s, e, i) \<in> set spans. map_of srcs i \<noteq> None"
  shows "\<exists>st'. stats_loop srcs previous spans st = Inr st' \<and> st_bytes st' = st_bytes st + sum_list (map (\<lambda>(s, e, i). e - s) spans)"
  using assms
proof (induction spans arbitrary: previous st)
  case (Cons sp spans)
  obtain s e i where sp: "sp = (s, e, i)" by (cases sp)
  obtain r where "map_of srcs i = Some r" using Cons.prems by (auto simp: sp)
  then have "\<exists>p st1. stats_loop srcs previous (sp # spans) st = stats_loop srcs p spans st1 \<and> st_bytes st1 = st_bytes st + (e - s)"
    by (simp only: sp stats_loop.simps option.case Let_def) (intro exI conjI, rule refl, simp)
  then obtain p st1 where "stats_loop srcs previous (sp # spans) st = stats_loop srcs p spans st1" "st_bytes st1 = st_bytes st + (e - s)"
    by blast
  moreover obtain st' where "stats_loop srcs p spans st1 = Inr st'" "st_bytes st' = st_bytes st1 + sum_list (map (\<lambda>(s, e, i). e - s) spans)"
    using Cons.IH [of p st1] Cons.prems by auto
  ultimately show ?case by (simp add: sp)
qed simp

text \<open>The statistics of an object count every byte that has an origin once, and reading them never fails.\<close>

theorem get_stats_counts:
  assumes "flag_tracker T good" "hw_inv T good hw"
  shows "\<exists>st. get_stats T hw = Inr st \<and> st_bytes st = of_nat (card {b. b < UINT64_MAX \<and> origins_of T hw b \<noteq> None})"
proof -
  let ?spans = "tk_range T 0 UINT64_MAX (hw_tracker hw)"
  have g: "good (hw_tracker hw)" using assms(2) by (simp add: hw_inv_def)
  have fit: "unat (0 :: u64) + unat UINT64_MAX < 2 ^ 64" using unat_bound64 [of UINT64_MAX] by simp
  note frag = flag_tracker.range_fragment [OF assms(1) g fit]
  have mapped: "origins_of T hw b \<noteq> None" if "fragment T b (hw_tracker hw) = Some i" for b i
    using that assms(2) by (auto simp: origins_of_def hw_inv_def)
  have "map_of (hw_sources hw) i \<noteq> None" if "(s, e, i) \<in> set ?spans" for s e i
  proof -
    have "fragment T s (hw_tracker hw) = Some i" using frag [OF that] by simp
    then show ?thesis using assms(2) unfolding hw_inv_def by blast
  qed
  then have srcs: "\<forall>(s, e, i) \<in> set ?spans. map_of (hw_sources hw) i \<noteq> None" by blast
  have order: "\<forall>(s, e, i) \<in> set ?spans. s < e" using frag by blast
  have "(\<Union>(s, e, i) \<in> set ?spans. {s..<e}) = {b. b < UINT64_MAX \<and> origins_of T hw b \<noteq> None}" (is "?U = ?B")
  proof
    show "?U \<subseteq> ?B"
    proof
      fix b assume "b \<in> ?U"
      then obtain s e i where sp: "(s, e, i) \<in> set ?spans" "b \<in> {s..<e}" by blast
      then have "b < UINT64_MAX" by (metis atLeastLessThan_iff order_less_le_trans word_n1_ge)
      moreover have "fragment T b (hw_tracker hw) = Some i" using frag [OF sp(1)] sp(2) by blast
      ultimately show "b \<in> ?B" using mapped by blast
    qed
  next
    show "?B \<subseteq> ?U"
    proof
      fix b assume b: "b \<in> ?B"
      then obtain i where i: "fragment T b (hw_tracker hw) = Some i" by (fastforce simp: origins_of_def split: option.splits)
      have pos: "0 < UINT64_MAX" and "b \<in> {0..<0 + UINT64_MAX}" using b by (simp_all add: word_gt_0)
      then obtain s e j where "(s, e, j) \<in> set ?spans" "b \<in> {s..<e}"
        using flag_tracker.range_complete [OF assms(1) g pos fit _ i] by blast
      then show "b \<in> ?U" by blast
    qed
  qed
  then show ?thesis
    using stats_loop_bytes [OF srcs, of None "\<lparr>st_segments = 0, st_bytes = 0\<rparr>"] spans_card [OF flag_tracker.range_sorted [OF assms(1) g fit] order]
    by (simp add: get_stats_def)
qed

section \<open>A tracker\<close>

text \<open>The fragments as a list of writes, the newest first: a concrete tracker with the laws above.\<close>

definition log_owner :: "u64 \<Rightarrow> (u64 \<times> u64) list \<Rightarrow> (u64 \<times> nat) option" where
  "log_owner b ws = (case dropWhile (\<lambda>(a, n). b \<notin> {a..<a + n}) ws of [] \<Rightarrow> None | (a, n) # rest \<Rightarrow> Some (a, length rest))"

definition log_tracker :: "(u64 \<times> u64) list tracker" where
  "log_tracker = \<lparr>tk_empty = [], tk_write = (\<lambda>a n f ws. (a, n) # ws), tk_query = log_owner,
    tk_range = (\<lambda>a n ws. concat (map (\<lambda>i. let b = a + of_nat i in case log_owner b ws of None \<Rightarrow> [] | Some (_, k) \<Rightarrow> [(b, b + 1, k)])
      [0..<unat n]))\<rparr>"

lemma log_owner_Nil [simp]: "log_owner b [] = None"
  by (simp add: log_owner_def)

lemma log_owner_Cons: "log_owner b ((a, n) # ws) = (if b \<in> {a..<a + n} then Some (a, length ws) else log_owner b ws)"
  by (simp add: log_owner_def)

lemma log_owner_less: "log_owner b ws = Some (a, k) \<Longrightarrow> k < length ws"
proof (induction ws)
  case (Cons w ws)
  obtain a' n' where "w = (a', n')" by (cases w)
  then show ?case using Cons by (auto simp: log_owner_Cons split: if_splits)
qed simp

lemma log_fragment: "fragment log_tracker b ws = map_option snd (log_owner b ws)"
  by (simp add: fragment_def log_tracker_def)

definition log_byte :: "(u64 \<times> u64) list \<Rightarrow> u64 \<Rightarrow> (u64 \<times> u64 \<times> nat) list" where
  "log_byte ws b = (case log_owner b ws of None \<Rightarrow> [] | Some (_, k) \<Rightarrow> [(b, b + 1, k)])"

lemma log_byte_set: "(s, e, k) \<in> set (log_byte ws b) \<longleftrightarrow> s = b \<and> e = b + 1 \<and> fragment log_tracker b ws = Some k"
  by (cases "log_owner b ws") (auto simp: log_byte_def log_fragment)

lemma log_range: "tk_range log_tracker a n ws = concat (map (\<lambda>i. log_byte ws (a + of_nat i)) [0..<unat n])"
  by (simp add: log_tracker_def log_byte_def Let_def)

lemma unat_plus_of_nat:
  fixes a n :: u64
  assumes "unat a + unat n < 2 ^ 64" "i < unat n"
  shows "unat (a + of_nat i) = unat a + i" "unat (a + of_nat i + 1) = unat a + i + 1"
proof -
  have i: "unat (of_nat i :: u64) = i" using assms by (simp add: unat_of_nat take_bit_nat_eq_self)
  then show u: "unat (a + of_nat i) = unat a + i" using assms by (simp add: unat_plus_if')
  then show "unat (a + of_nat i + 1) = unat a + i + 1" using assms unat_plus_if' [of "a + of_nat i" 1] by simp
qed

lemma log_sorted:
  fixes a n :: u64
  assumes "unat a + unat n < 2 ^ 64" "m \<le> unat n"
  shows "sorted_wrt (\<lambda>(s, e, i) (s', e', i'). e \<le> s') (concat (map (\<lambda>i. log_byte ws (a + of_nat i)) [0..<m]))"
  using assms(2)
proof (induction m)
  case (Suc m)
  have one: "sorted_wrt P (log_byte ws b)" for P b by (auto simp: log_byte_def split: option.split)
  have order: "a + of_nat i + 1 \<le> a + of_nat m" if "i < m" for i
    using unat_plus_of_nat [OF assms(1), of i] unat_plus_of_nat [OF assms(1), of m] that Suc.prems by (simp add: word_le_nat_alt)
  let ?P = "\<lambda>(s :: u64, e, i :: nat) (s', e' :: u64, i' :: nat). e \<le> s'"
  have before: "?P x y" if x: "x \<in> set (log_byte ws (a + of_nat i))" "i < m" and y: "y \<in> set (log_byte ws (a + of_nat m))" for x y i
  proof -
    obtain s e k s' e' k' where "x = (s, e, k)" "y = (s', e', k')" by (metis prod_cases3)
    then show ?thesis using x(1) y order [OF x(2)] by (simp add: log_byte_set)
  qed
  have "\<forall>x \<in> set (concat (map (\<lambda>i. log_byte ws (a + of_nat i)) [0..<m])). \<forall>y \<in> set (log_byte ws (a + of_nat m)). ?P x y"
  proof (intro ballI)
    fix x y assume "x \<in> set (concat (map (\<lambda>i. log_byte ws (a + of_nat i)) [0..<m]))" and y: "y \<in> set (log_byte ws (a + of_nat m))"
    then obtain i where "i < m" "x \<in> set (log_byte ws (a + of_nat i))" by auto
    then show "?P x y" using before y by blast
  qed
  then show ?case using Suc.IH Suc.prems one by (simp only: upt_Suc_append map_append concat_append sorted_wrt_append list.map concat.simps append_Nil2 Suc_leD le0)
qed simp

interpretation write_log: flag_tracker log_tracker "\<lambda>_. True"
proof
  show "fragment log_tracker b (tk_empty log_tracker) = None" for b by (simp add: log_fragment) (simp add: log_tracker_def)
next
  fix tr :: "(u64 \<times> u64) list" and n a f :: u64
  assume fit: "0 < n" "unat a + unat n < 2 ^ 64"
  have wr: "tk_write log_tracker a n f tr = (a, n) # tr" "tk_query log_tracker = log_owner" by (simp_all add: log_tracker_def)
  have "a \<in> {a..<a + n}" using fit by (simp add: word_less_nat_alt unat_plus_if')
  moreover have "fragment log_tracker b tr \<noteq> Some (length tr)" for b
    using log_owner_less [of b tr] by (auto simp: log_fragment)
  ultimately show "\<exists>i. tk_query log_tracker a (tk_write log_tracker a n f tr) = Some (a, i) \<and>
      (\<forall>b \<in> {a..<a + n}. fragment log_tracker b (tk_write log_tracker a n f tr) = Some i) \<and>
      (\<forall>b. b \<notin> {a..<a + n} \<longrightarrow> fragment log_tracker b (tk_write log_tracker a n f tr) = fragment log_tracker b tr \<and> fragment log_tracker b tr \<noteq> Some i)"
    unfolding wr by (intro exI [of _ "length tr"]) (simp add: log_fragment log_owner_Cons)
next
  fix tr :: "(u64 \<times> u64) list" and a n :: u64
  assume fit: "unat a + unat n < 2 ^ 64"
  show "sorted_wrt (\<lambda>(s, e, i) (s', e', i'). e \<le> s') (tk_range log_tracker a n tr)"
    unfolding log_range by (rule log_sorted [OF fit order_refl])
  fix s e i
  assume "(s, e, i) \<in> set (tk_range log_tracker a n tr)"
  then obtain j where j: "j < unat n" "s = a + of_nat j" "e = s + 1" "fragment log_tracker s tr = Some i"
    by (auto simp: log_range log_byte_set)
  note u = unat_plus_of_nat [OF fit j(1)]
  have only: "b = s" if "b \<in> {s..<e}" for b using that u j(2,3) by (auto simp: word_le_nat_alt word_less_nat_alt word_unat_eq_iff)
  have "s < e" using j(2,3) u by (simp add: word_less_nat_alt)
  then show "s < e \<and> (\<forall>b \<in> {s..<e}. fragment log_tracker b tr = Some i)" using j(4) only by blast
next
  fix tr :: "(u64 \<times> u64) list" and a n b :: u64 and i
  assume fit: "0 < n" "unat a + unat n < 2 ^ 64" and b: "b \<in> {a..<a + n}" "fragment log_tracker b tr = Some i"
  define j where "j = unat (b - a)"
  have "b - a < n" using b(1) fits_interval [OF fit(2)] by blast
  then have j: "j < unat n" "b = a + of_nat j" by (simp_all add: j_def word_less_nat_alt)
  then have "b \<in> {b..<b + 1}" using unat_plus_of_nat [OF fit(2) j(1)] by (simp add: word_less_nat_alt)
  then show "\<exists>(s, e, i) \<in> set (tk_range log_tracker a n tr). b \<in> {s..<e}"
    using b(2) j by (intro bexI [of _ "(b, b + 1, i)"]) (auto simp: log_range log_byte_set)
qed simp_all

text \<open>A sample: four bytes written by one call, two of them copied to another object.\<close>

definition sample_source :: change_source where
  "sample_source = \<lparr>cs_packet = 11, cs_frame = 0, cs_thread = 0, cs_packet_type = 2, cs_call_id = 5\<rparr>"

theorem host_writes_traced_witness:
  "\<exists>hws x. hw_calls_run log_tracker [Register 0 8 4 sample_source 1 0 0 100, Copy 1 0 20 9 2]
      (replicate 2 (host_write_regions_new log_tracker)) = Inr hws \<and>
    try_get_reference log_tracker 20 2 (hws ! 1) = Inr x \<and> map_option origin_of x = Some (source_key sample_source 0, 101)"
proof -
  let ?cs = "[Register 0 8 4 sample_source 1 0 0 100, Copy 1 0 20 9 2]"
  have ok: "list_all (hw_call_ok 2) ?cs"
    by (simp add: register_ok_def sample_source_def change_source_self_test_def)
  obtain hws where hws: "hw_calls_run log_tracker ?cs (replicate 2 (host_write_regions_new log_tracker)) = Inr hws"
    "\<forall>k < 2. \<forall>a n. 0 < n \<longrightarrow> unat a + unat n < 2 ^ 64 \<longrightarrow>
      (\<exists>x. try_get_reference log_tracker a n (hws ! k) = Inr x \<and>
        map_option origin_of x = uniform_origin (fold hw_call_spec ?cs (replicate 2 (\<lambda>_. None)) ! k) a (ucast n))"
    using host_writes_traced [OF write_log.flag_tracker_axioms ok] by blast
  obtain x where x: "try_get_reference log_tracker 20 2 (hws ! 1) = Inr x"
    "map_option origin_of x = uniform_origin (fold hw_call_spec ?cs (replicate 2 (\<lambda>_. None)) ! 1) 20 (ucast (2 :: u32))"
    using hws(2) [rule_format, of 1 2 20] by auto
  have two: "ucast (2 :: u32) = (2 :: u64)" by simp
  define m where "m = copy_origins (write_origins 8 4 (source_key sample_source 0, 100) (\<lambda>_. None)) 20 9 2 (\<lambda>_. None)"
  have pair: "replicate 2 (\<lambda>_. None :: origin option) = [\<lambda>_. None, \<lambda>_. None]" by (simp add: numeral_2_eq_2)
  have m: "fold hw_call_spec ?cs (replicate 2 (\<lambda>_. None)) ! 1 = m"
    unfolding pair by (simp add: register_origins_def m_def Let_def)
  have points: "m 20 = Some (source_key sample_source 0, 101)" "m 21 = Some (source_key sample_source 0, 102)"
    by (simp_all add: m_def copy_origins_def write_origins_def source_key_def)
  have "m b = Some (source_key sample_source 0, 101 + (b - 20))" if "b \<in> {20..<20 + 2 :: u64}" for b
  proof -
    have "unat b = 20 \<or> unat b = 21" using that by (auto simp: word_le_nat_alt word_less_nat_alt)
    then have "b = 20 \<or> b = 21" by (simp add: word_unat_eq_iff)
    then show ?thesis using points by auto
  qed
  then have "uniform_origin m 20 2 = Some (source_key sample_source 0, 101)"
    unfolding uniform_origin_def points(1) by simp
  then have "uniform_origin (fold hw_call_spec ?cs (replicate 2 (\<lambda>_. None)) ! 1) 20 2 = Some (source_key sample_source 0, 101)"
    unfolding m .
  then have "map_option origin_of x = Some (source_key sample_source 0, 101)" using x(2) by (simp only: two)
  then show ?thesis using hws(1) x(1) by blast
qed

theorem get_stats_counts_witness:
  "hw_inv log_tracker (\<lambda>_. True) (host_write_regions_new log_tracker) \<and> (\<exists>st. get_stats log_tracker (host_write_regions_new log_tracker) = Inr st \<and> st_bytes st = 0)"
  using get_stats_counts [OF write_log.flag_tracker_axioms write_log.new_inv(1)] write_log.new_inv by simp

end
