(* ===== verification/Rewriting.thy ===== *)
theory Rewriting
  imports AddressMap Markings Bytes
begin

text \<open>Rewriting marked memory while replaying, from \<^verbatim>\<open>src/hardcode_read.cpp\<close>.  Captured memory holds device
  addresses, shader group handles and descriptors of the captured run; where they are marked, \<open>translate_marked_offsets\<close>
  replaces them by those of the replay before the memory is used.  A buffer is the list of its bytes, and \<open>size\<close> is its
  length.  The constants of the Vulkan headers are parameters.\<close>

section \<open>Shader group handles\<close>

abbreviation (input) marked_handle_size :: nat where "marked_handle_size \<equiv> 32"

record raytracing_pipeline =
  rt_handle_size :: u32
  rt_handles :: bytes
  rt_group_count :: u32
  rt_capture_replay :: bool
  rt_handle_size_replay :: u32
  rt_handles_replay :: bytes

text \<open>Growing a table of handles and copying the new ones in; a copy past the end of the vector is an access out of
  range.  \<open>None\<close> is a null pointer; \<open>data\<close> holds the \<open>groupCount\<close> handles.\<close>

definition resize_table :: "bytes \<Rightarrow> nat \<Rightarrow> bytes" where
  "resize_table table n = table @ replicate (n - length table) 0"

definition copy_handles :: "bytes \<Rightarrow> u32 \<Rightarrow> u32 \<Rightarrow> u32 \<Rightarrow> bytes \<Rightarrow> bytes result" where
  "copy_handles table firstGroup groupCount handle_size data =
    (let pos = unat firstGroup * unat handle_size; n = unat groupCount * unat handle_size in
     if pos + n > length table then Inl Out_of_range else Inr (overwrite table pos (take n data)))"

definition store_raytracing_handles ::
    "u32 \<Rightarrow> u32 \<Rightarrow> u32 \<Rightarrow> bytes option \<Rightarrow> bool \<Rightarrow> raytracing_pipeline \<Rightarrow> raytracing_pipeline result" where
  "store_raytracing_handles firstGroup groupCount handle_size data capture_replay p = (case data of
     None \<Rightarrow> Inr p
   | Some data \<Rightarrow>
       if groupCount = 0 \<or> handle_size = 0 then Inr p
       else if rt_handle_size p \<noteq> 0 \<and> rt_handle_size p \<noteq> handle_size then Inl Aborted
       else let required_groups = max (rt_group_count p) (firstGroup + groupCount) in
         result_bind (copy_handles (resize_table (rt_handles p) (unat required_groups * unat handle_size))
             firstGroup groupCount handle_size data) (\<lambda>table.
           Inr (p\<lparr>rt_handle_size := handle_size, rt_group_count := required_groups, rt_handles := table,
             rt_capture_replay := (capture_replay \<or> rt_capture_replay p)\<rparr>)))"

definition store_raytracing_handles_replay ::
    "u32 \<Rightarrow> u32 \<Rightarrow> u32 \<Rightarrow> bytes option \<Rightarrow> raytracing_pipeline \<Rightarrow> raytracing_pipeline result" where
  "store_raytracing_handles_replay firstGroup groupCount handle_size data p = (case data of
     None \<Rightarrow> Inr p
   | Some data \<Rightarrow>
       if groupCount = 0 \<or> handle_size = 0 then Inr p
       else if rt_handle_size_replay p \<noteq> 0 \<and> rt_handle_size_replay p \<noteq> handle_size then Inl Aborted
       else let required_groups = max (rt_group_count p) (firstGroup + groupCount) in
         result_bind (copy_handles (resize_table (rt_handles_replay p) (unat required_groups * unat handle_size))
             firstGroup groupCount handle_size data) (\<lambda>table.
           Inr (p\<lparr>rt_handle_size_replay := handle_size, rt_handles_replay := table\<rparr>)))"

definition handle_at :: "nat \<Rightarrow> bytes \<Rightarrow> nat \<Rightarrow> bytes" where
  "handle_at n table i = take n (drop (i * n) table)"

text \<open>The number of groups the searches look at.\<close>

definition groups_known :: "nat \<Rightarrow> raytracing_pipeline \<Rightarrow> nat" where
  "groups_known n p = (let max_groups = length (rt_handles p) div n in
    if rt_group_count p = 0 \<or> unat (rt_group_count p) > max_groups then max_groups else unat (rt_group_count p))"

text \<open>The group whose captured handle is \<open>h\<close>, or -1.\<close>

definition find_raytracing_group_index :: "raytracing_pipeline \<Rightarrow> bytes \<Rightarrow> int" where
  "find_raytracing_group_index p h = (let n = unat (rt_handle_size p) in
    if n = 0 \<or> rt_handles p = [] then - 1
    else case List.find (\<lambda>i. handle_at n (rt_handles p) i = take n h) [0..<groups_known n p] of None \<Rightarrow> - 1 | Some i \<Rightarrow> int i)"

text \<open>The first group with the handle and whether there is another.\<close>

definition find_marked_shader_group_handle_match :: "raytracing_pipeline \<Rightarrow> bytes \<Rightarrow> (nat \<times> bool) option" where
  "find_marked_shader_group_handle_match p h =
    (if unat (rt_handle_size p) \<noteq> marked_handle_size \<or> rt_handles p = [] then None
     else case filter (\<lambda>i. handle_at marked_handle_size (rt_handles p) i = h) [0..<groups_known marked_handle_size p] of
       [] \<Rightarrow> None
     | [i] \<Rightarrow> Some (i, False)
     | i # _ \<Rightarrow> Some (i, True))"

text \<open>The loop over the pipelines.  \<open>matched\<close> holds the handle of the pipeline that matched so far, \<open>None\<close> inside if the
  captured handle is preserved.  Where the code gives up, it aborts when replaying and otherwise returns \<open>false\<close>, the
  value \<open>Inr None\<close>.\<close>

definition give_up :: "bool \<Rightarrow> 'a option result" where
  "give_up replay = (if replay then Inl Aborted else Inr None)"

fun match_pipelines :: "bool \<Rightarrow> bytes \<Rightarrow> raytracing_pipeline list \<Rightarrow> bytes option option \<Rightarrow> bytes option option result" where
  "match_pipelines replay h [] matched = (case matched of None \<Rightarrow> give_up replay | Some m \<Rightarrow> Inr (Some m))"
| "match_pipelines replay h (p # ps) matched = (case find_marked_shader_group_handle_match p h of
     None \<Rightarrow> match_pipelines replay h ps matched
   | Some (i, ambiguous) \<Rightarrow>
       if ambiguous \<or> matched \<noteq> None then give_up replay
       else if rt_capture_replay p then match_pipelines replay h ps (Some None)
       else if unat (rt_handle_size_replay p) \<noteq> marked_handle_size then give_up replay
       else if i * marked_handle_size + marked_handle_size > length (rt_handles_replay p) then give_up replay
       else match_pipelines replay h ps (Some (Some (handle_at marked_handle_size (rt_handles_replay p) i))))"

definition rewrite_marked_shader_group_handle :: "bool \<Rightarrow> raytracing_pipeline list \<Rightarrow> nat \<Rightarrow> bytes \<Rightarrow> (bool \<times> bytes) result" where
  "rewrite_marked_shader_group_handle replay ps pos buf =
    result_bind (match_pipelines replay (take marked_handle_size (drop pos buf)) ps None) (\<lambda>m. case m of
      None \<Rightarrow> Inr (False, buf)
    | Some None \<Rightarrow> Inr (True, buf)
    | Some (Some h) \<Rightarrow> Inr (True, overwrite buf pos h))"

section \<open>Marked offsets\<close>

record rewrite_constants =
  rk_device_address :: u32
  rk_descriptor :: u32
  rk_descriptor_size :: u32
  rk_descriptor_offset :: u32
  rk_shader_group_handle :: u32
  rk_buffer :: u32
  rk_acceleration_structure :: u32

record descriptor_rewrite =
  dr_type :: u32
  dr_capture_bytes :: bytes
  dr_bytes :: bytes

text \<open>What a replay thread looks addresses, handles and descriptors up in.\<close>

record 'p rewriter =
  rw_write_output :: bool
  rw_is_replay :: bool
  rw_objects :: "'p \<Rightarrow> remapped_object"
  rw_buffers :: "'p address_map"
  rw_structures :: "'p address_map"
  rw_descriptors :: "descriptor_rewrite list"
  rw_pipelines :: "raytracing_pipeline list"

definition new_address :: "rewrite_constants \<Rightarrow> 'p rewriter \<Rightarrow> u32 \<Rightarrow> u64 \<Rightarrow> u64" where
  "new_address k e address_type current = translate_address (rw_objects e)
    (if address_type = rk_acceleration_structure k then rw_structures e else rw_buffers e) current"

definition matches_descriptor :: "u32 \<Rightarrow> u64 \<Rightarrow> bytes \<Rightarrow> descriptor_rewrite \<Rightarrow> bool" where
  "matches_descriptor type off buf d \<longleftrightarrow> dr_type d = type \<and> dr_capture_bytes d \<noteq> [] \<and>
    off + of_nat (length (dr_capture_bytes d)) \<le> of_nat (length buf) \<and>
    take (length (dr_capture_bytes d)) (drop (unat off) buf) = dr_capture_bytes d"

text \<open>One marking.  The bounds are checked in 64 bits, so a large offset may wrap past the assertion: what is then read or
  written out of bounds is \<open>Out_of_range\<close>.\<close>

definition translate_mark :: "rewrite_constants \<Rightarrow> 'p rewriter \<Rightarrow> marking \<Rightarrow> bytes \<Rightarrow> bytes result" where
  "translate_mark k e x buf = (case x of (off, type, sub) \<Rightarrow>
    if type = rk_device_address k then
      let address_type = ucast sub in
      assert_that (address_type = rk_buffer k \<or> address_type = rk_acceleration_structure k)
       (assert_that (off + 8 \<le> of_nat (length buf))
         (if unat off + 8 > length buf then Inl Out_of_range
          else let newval = new_address k e address_type (take_le 8 (drop (unat off) buf)) in
            assert_that (newval \<noteq> 0 \<or> \<not> rw_is_replay e) (Inr (overwrite buf (unat off) (to_le 8 newval)))))
    else if type = rk_descriptor k then
      (case List.find (matches_descriptor (ucast sub) off buf) (rw_descriptors e) of
         None \<Rightarrow> Inr buf
       | Some d \<Rightarrow>
           if dr_bytes d = [] then Inr buf
           else assert_that (off + of_nat (length (dr_bytes d)) \<le> of_nat (length buf))
             (if unat off + length (dr_bytes d) > length buf then Inl Out_of_range
              else Inr (overwrite buf (unat off) (dr_bytes d))))
    else if type = rk_descriptor_size k \<or> type = rk_descriptor_offset k then Inr buf
    else if type = rk_shader_group_handle k then
      assert_that (off + 32 \<le> of_nat (length buf))
       (if \<not> rw_is_replay e then Inr buf
        else if unat off + marked_handle_size > length buf then Inl Out_of_range
        else result_bind (rewrite_marked_shader_group_handle (rw_is_replay e) (rw_pipelines e) (unat off) buf)
          (\<lambda>(_, buf). Inr buf))
    else Inl Assertion_failed)"

fun translate_marks :: "rewrite_constants \<Rightarrow> 'p rewriter \<Rightarrow> marking list \<Rightarrow> bytes \<Rightarrow> bytes result" where
  "translate_marks k e [] buf = Inr buf"
| "translate_marks k e (x # xs) buf = result_bind (translate_mark k e x buf) (translate_marks k e xs)"

definition translate_marked_offsets :: "rewrite_constants \<Rightarrow> 'p rewriter \<Rightarrow> marked_offsets \<Rightarrow> bytes \<Rightarrow> bytes result" where
  "translate_marked_offsets k e m buf =
    result_bind (entries m) (\<lambda>xs. if rw_write_output e then Inr buf else translate_marks k e xs buf)"

section \<open>Addresses\<close>

definition word_at :: "u64 \<Rightarrow> bytes \<Rightarrow> u64" where
  "word_at off buf = take_le 8 (drop (unat off) buf)"

definition address_mark :: "rewrite_constants \<Rightarrow> nat \<Rightarrow> marking \<Rightarrow> bool" where
  "address_mark k n x \<longleftrightarrow> (case x of (off, type, sub) \<Rightarrow> type = rk_device_address k \<and>
    (ucast sub = rk_buffer k \<or> ucast sub = rk_acceleration_structure k) \<and> unat off + 8 \<le> n)"

definition mark_covers :: "marking \<Rightarrow> nat \<Rightarrow> bool" where
  "mark_covers x i \<longleftrightarrow> unat (fst x) \<le> i \<and> i < unat (fst x) + 8"

definition marks_apart :: "marking \<Rightarrow> marking \<Rightarrow> bool" where
  "marks_apart x y \<longleftrightarrow> unat (fst x) + 8 \<le> unat (fst y) \<or> unat (fst y) + 8 \<le> unat (fst x)"

definition mark_address :: "rewrite_constants \<Rightarrow> 'p rewriter \<Rightarrow> bytes \<Rightarrow> marking \<Rightarrow> u64" where
  "mark_address k e buf x = new_address k e (ucast (snd (snd x))) (word_at (fst x) buf)"

lemma overwrite_nth:
  assumes "pos + length src \<le> length buf" "i < length buf"
  shows "overwrite buf pos src ! i = (if pos \<le> i \<and> i < pos + length src then src ! (i - pos) else buf ! i)"
  using assms by (auto simp: overwrite_def nth_append)

lemma word_at_cong:
  assumes "length buf' = length buf" "unat off + 8 \<le> length buf"
    and "\<And>i. unat off \<le> i \<Longrightarrow> i < unat off + 8 \<Longrightarrow> buf' ! i = buf ! i"
  shows "word_at off buf' = word_at off buf"
proof -
  have "take 8 (drop (unat off) buf') = take 8 (drop (unat off) buf)"
    by (rule nth_equalityI) (use assms in simp_all)
  then show ?thesis by (simp add: word_at_def take_le_def)
qed

lemma word_at_overwrite:
  assumes "unat off + 8 \<le> length buf"
  shows "word_at off (overwrite buf (unat off) (to_le 8 v)) = v"
proof -
  have "drop (unat off) (overwrite buf (unat off) (to_le 8 v)) = to_le 8 v @ drop (unat off + 8) buf"
    using assms by (simp add: overwrite_def)
  then show ?thesis by (simp add: word_at_def)
qed

lemma add_small_le:
  assumes "unat off + n \<le> m" "m < 2 ^ 64"
  shows "off + of_nat n \<le> (of_nat m :: u64)"
proof -
  have "unat (of_nat m :: u64) = m" "unat (of_nat n :: u64) = n" using assms by (simp_all add: unat_of_nat take_bit_nat_eq_self)
  moreover have "unat (off + of_nat n) = unat off + n"
    using assms calculation by (simp add: unat_word_ariths)
  ultimately show ?thesis using assms(1) by (simp add: word_le_nat_alt)
qed

lemma translate_address_mark:
  assumes "address_mark k (length buf) x" "length buf < 2 ^ 64" "mark_address k e buf x \<noteq> 0 \<or> \<not> rw_is_replay e"
  shows "translate_mark k e x buf = Inr (overwrite buf (unat (fst x)) (to_le 8 (mark_address k e buf x)))"
proof -
  obtain off type sub where x: "x = (off, type, sub)" by (cases x)
  have "off + 8 \<le> of_nat (length buf)"
    using add_small_le [of off 8 "length buf"] assms(1,2) by (simp add: address_mark_def x)
  then show ?thesis using assms by (simp add: translate_mark_def address_mark_def x mark_address_def word_at_def Let_def)
qed

lemma translate_address_marks:
  assumes "\<forall>x\<in>set xs. address_mark k (length buf) x" "sorted_wrt marks_apart xs" "length buf < 2 ^ 64"
    and "\<forall>x\<in>set xs. mark_address k e buf x \<noteq> 0 \<or> \<not> rw_is_replay e"
  shows "\<exists>buf'. translate_marks k e xs buf = Inr buf' \<and> length buf' = length buf \<and>
    (\<forall>x\<in>set xs. word_at (fst x) buf' = mark_address k e buf x) \<and>
    (\<forall>i<length buf. (\<forall>x\<in>set xs. \<not> mark_covers x i) \<longrightarrow> buf' ! i = buf ! i)"
  using assms
proof (induction xs arbitrary: buf)
  case (Cons x xs)
  define v where "v = mark_address k e buf x"
  define b where "b = overwrite buf (unat (fst x)) (to_le 8 v)"
  have x: "address_mark k (length buf) x" using Cons.prems(1) by simp
  have room: "unat (fst x) + 8 \<le> length buf" using x by (auto simp: address_mark_def)
  have len: "length b = length buf" using room by (simp add: b_def)
  have b_nth: "b ! i = (if mark_covers x i then to_le 8 v ! (i - unat (fst x)) else buf ! i)" if "i < length buf" for i
    using overwrite_nth [of "unat (fst x)" "to_le 8 v" buf i] room that by (simp add: b_def mark_covers_def)
  have step: "translate_mark k e x buf = Inr b"
    unfolding b_def v_def using x Cons.prems(3,4) by (intro translate_address_mark) auto
  have apart: "\<not> mark_covers x i" if "y \<in> set xs" "mark_covers y i" for y i
    using Cons.prems(2) that by (fastforce simp: marks_apart_def mark_covers_def)
  have in_range: "unat (fst y) + 8 \<le> length buf" if "y \<in> set xs" for y
    using Cons.prems(1) that by (fastforce simp: address_mark_def)
  have same: "word_at (fst y) b = word_at (fst y) buf" if y: "y \<in> set xs" for y
  proof (rule word_at_cong [OF len in_range [OF y]])
    fix i assume i: "unat (fst y) \<le> i" "i < unat (fst y) + 8"
    then have "mark_covers y i" by (simp add: mark_covers_def)
    then show "b ! i = buf ! i" using b_nth [of i] apart [OF y] in_range [OF y] i by simp
  qed
  then have addr: "mark_address k e b y = mark_address k e buf y" if "y \<in> set xs" for y
    using that by (simp add: mark_address_def)
  have "\<exists>buf'. translate_marks k e xs b = Inr buf' \<and> length buf' = length b \<and>
      (\<forall>x\<in>set xs. word_at (fst x) buf' = mark_address k e b x) \<and>
      (\<forall>i<length b. (\<forall>x\<in>set xs. \<not> mark_covers x i) \<longrightarrow> buf' ! i = b ! i)"
    by (rule Cons.IH) (use Cons.prems len addr in auto)
  then obtain buf' where buf': "translate_marks k e xs b = Inr buf'" "length buf' = length b"
      "\<forall>x\<in>set xs. word_at (fst x) buf' = mark_address k e b x"
      "\<forall>i<length b. (\<forall>x\<in>set xs. \<not> mark_covers x i) \<longrightarrow> buf' ! i = b ! i" by blast
  have "word_at (fst x) buf' = word_at (fst x) b"
  proof (rule word_at_cong)
    fix i assume i: "unat (fst x) \<le> i" "i < unat (fst x) + 8"
    then have "\<not> mark_covers y i" if "y \<in> set xs" for y using apart [OF that] by (auto simp: mark_covers_def)
    then show "buf' ! i = b ! i" using buf'(4) len room i(2) by simp
  qed (use buf'(2) len room in simp_all)
  then have "word_at (fst x) buf' = mark_address k e buf x" using word_at_overwrite [OF room] by (simp add: b_def v_def)
  moreover have "buf' ! i = buf ! i" if "i < length buf" "\<forall>y\<in>set (x # xs). \<not> mark_covers y i" for i
    using buf'(4) b_nth [of i] len that by simp
  ultimately show ?case using step buf' addr len by auto
qed simp

text \<open>C21: rewriting device addresses.  Where the markings are addresses of buffers or acceleration structures inside the
  memory that do not overlap, and every marked address translates when replaying, \<open>translate_marked_offsets\<close> succeeds,
  puts the translation of each marked address in its place, and leaves all other bytes as they were.\<close>

theorem marked_addresses_translated:
  assumes "entries m = Inr xs" "\<not> rw_write_output e" "length buf < 2 ^ 64"
    and "\<forall>x\<in>set xs. address_mark k (length buf) x" "sorted_wrt marks_apart xs"
    and "\<forall>x\<in>set xs. mark_address k e buf x \<noteq> 0 \<or> \<not> rw_is_replay e"
  shows "\<exists>buf'. translate_marked_offsets k e m buf = Inr buf' \<and> length buf' = length buf \<and>
    (\<forall>x\<in>set xs. word_at (fst x) buf' = mark_address k e buf x) \<and>
    (\<forall>i<length buf. (\<forall>x\<in>set xs. \<not> mark_covers x i) \<longrightarrow> buf' ! i = buf ! i)"
  using translate_address_marks [OF assms(4,5,3,6)] assms(1,2) by (simp add: translate_marked_offsets_def)

definition sample_constants :: rewrite_constants where
  "sample_constants = \<lparr>rk_device_address = 0, rk_descriptor = 1, rk_descriptor_size = 2, rk_descriptor_offset = 3,
    rk_shader_group_handle = 4, rk_buffer = 0, rk_acceleration_structure = 1\<rparr>"

definition sample_rewriter :: "unit rewriter" where
  "sample_rewriter = \<lparr>rw_write_output = False, rw_is_replay = True,
    rw_objects = (\<lambda>_. \<lparr>ro_size = 256, ro_device_address = 4096, ro_destroyed = False, ro_bound = True, ro_is_as = False\<rparr>),
    rw_buffers = [(512, [Some ()])], rw_structures = [], rw_descriptors = [], rw_pipelines = []\<rparr>"

theorem marked_addresses_translated_witness:
  "\<exists>buf'. translate_marked_offsets sample_constants sample_rewriter
      \<lparr>mo_sType = 0, mo_count = 1, mo_types = Some [0], mo_subs = Some [0], mo_offsets = Some [4]\<rparr>
      ([1, 1, 1, 1] @ to_le 8 (520 :: u64) @ [1, 1]) = Inr buf' \<and> word_at 4 buf' = 4104 \<and> buf' ! 13 = 1"
proof -
  let ?m = "\<lparr>mo_sType = 0, mo_count = 1, mo_types = Some [0], mo_subs = Some [0], mo_offsets = Some [4]\<rparr>"
  let ?buf = "[1, 1, 1, 1] @ to_le 8 (520 :: u64) @ [1, 1]"
  have word: "word_at 4 ?buf = 520" by (simp add: word_at_def)
  have addr: "mark_address sample_constants sample_rewriter ?buf (4, 0, 0) = 4104"
    unfolding mark_address_def fst_conv snd_conv word
    by (simp add: new_address_def sample_rewriter_def sample_constants_def translate_address_def find_candidate_def eligible_def)
  have "entries ?m = Inr [(4, 0, 0)]" by (simp add: entries_def)
  moreover have "\<not> rw_write_output sample_rewriter" "length ?buf < 2 ^ 64" by (simp_all add: sample_rewriter_def)
  moreover have "\<forall>x\<in>set [(4, 0, 0)]. address_mark sample_constants (length ?buf) x"
    by (simp add: address_mark_def sample_constants_def)
  moreover have "sorted_wrt marks_apart [(4, 0, 0)]" by simp
  moreover have "\<forall>x\<in>set [(4, 0, 0)]. mark_address sample_constants sample_rewriter ?buf x \<noteq> 0 \<or> \<not> rw_is_replay sample_rewriter"
    using addr by simp
  ultimately obtain buf' where buf': "translate_marked_offsets sample_constants sample_rewriter ?m ?buf = Inr buf'"
      "\<forall>x\<in>set [(4, 0, 0)]. word_at (fst x) buf' = mark_address sample_constants sample_rewriter ?buf x"
      "\<forall>i<length ?buf. (\<forall>x\<in>set [(4, 0, 0)]. \<not> mark_covers x i) \<longrightarrow> buf' ! i = ?buf ! i"
    using marked_addresses_translated by blast
  have "word_at 4 buf' = 4104" using buf'(2) addr by simp
  moreover have "buf' ! 13 = 1" using buf'(3) [rule_format, of 13] by (simp add: mark_covers_def nth_append)
  ultimately show ?thesis using buf'(1) by blast
qed

section \<open>Handles\<close>

text \<open>All groups of all pipelines that were captured with a handle.\<close>

definition group_hits :: "raytracing_pipeline \<Rightarrow> bytes \<Rightarrow> nat list" where
  "group_hits p h = (if unat (rt_handle_size p) \<noteq> marked_handle_size \<or> rt_handles p = [] then []
    else filter (\<lambda>i. handle_at marked_handle_size (rt_handles p) i = h) [0..<groups_known marked_handle_size p])"

definition handle_hits :: "raytracing_pipeline list \<Rightarrow> bytes \<Rightarrow> (raytracing_pipeline \<times> nat) list" where
  "handle_hits ps h = concat (map (\<lambda>p. map (Pair p) (group_hits p h)) ps)"

definition replay_handle :: "raytracing_pipeline \<Rightarrow> nat \<Rightarrow> bytes option option" where
  "replay_handle p i = (if rt_capture_replay p then Some None
    else if unat (rt_handle_size_replay p) \<noteq> marked_handle_size \<or> (i + 1) * marked_handle_size > length (rt_handles_replay p) then None
    else Some (Some (handle_at marked_handle_size (rt_handles_replay p) i)))"

lemma handle_match_hits:
  "find_marked_shader_group_handle_match p h = (case group_hits p h of [] \<Rightarrow> None | i # is \<Rightarrow> Some (i, is \<noteq> []))"
  by (auto simp: find_marked_shader_group_handle_match_def group_hits_def split: list.splits)

lemma handle_hits_Cons: "handle_hits (p # ps) h = map (Pair p) (group_hits p h) @ handle_hits ps h"
  by (simp add: handle_hits_def)

lemma handle_hits_append: "handle_hits (ps @ qs) h = handle_hits ps h @ handle_hits qs h"
  by (simp add: handle_hits_def)

lemma match_more:
  "match_pipelines True h ps (Some m) = (if handle_hits ps h = [] then Inr (Some m) else Inl Aborted)"
proof (induction ps)
  case (Cons p ps)
  then show ?case
    by (cases "group_hits p h") (auto simp: handle_match_hits handle_hits_Cons give_up_def)
qed (simp add: handle_hits_def)

lemma match_pipelines_hits:
  "match_pipelines True h ps None = (case handle_hits ps h of
     [(p, i)] \<Rightarrow> (case replay_handle p i of None \<Rightarrow> Inl Aborted | Some m \<Rightarrow> Inr (Some m))
   | _ \<Rightarrow> Inl Aborted)"
proof (induction ps)
  case Nil
  then show ?case by (simp add: handle_hits_def give_up_def)
next
  case (Cons p ps)
  show ?case
  proof (cases "group_hits p h")
    case Nil
    then show ?thesis using Cons by (simp add: handle_match_hits handle_hits_Cons)
  next
    case (Cons i "is")
    show ?thesis
    proof (cases "is = [] \<and> handle_hits ps h = []")
      case True
      then show ?thesis using Cons by (auto simp: handle_match_hits handle_hits_Cons match_more replay_handle_def give_up_def)
    next
      case False
      then have "handle_hits (p # ps) h \<noteq> [(q, j)]" for q j using Cons by (cases "is") (auto simp: handle_hits_Cons)
      then have "(case handle_hits (p # ps) h of
           [(p, i)] \<Rightarrow> (case replay_handle p i of None \<Rightarrow> Inl Aborted | Some m \<Rightarrow> Inr (Some m))
         | _ \<Rightarrow> Inl Aborted) = (Inl Aborted :: bytes option option result)"
        by (auto split: list.splits)
      moreover have "match_pipelines True h (p # ps) None = Inl Aborted"
        using False Cons by (auto simp: handle_match_hits match_more give_up_def)
      ultimately show ?thesis by simp
    qed
  qed
qed

text \<open>A pipeline after its handles of the capture and of the replay were stored.\<close>

definition pipeline_new :: raytracing_pipeline where
  "pipeline_new = \<lparr>rt_handle_size = 0, rt_handles = [], rt_group_count = 0, rt_capture_replay = False,
    rt_handle_size_replay = 0, rt_handles_replay = []\<rparr>"

definition learn_handles :: "nat \<Rightarrow> bytes \<Rightarrow> bytes \<Rightarrow> raytracing_pipeline result" where
  "learn_handles n captured replayed =
    result_bind (store_raytracing_handles 0 (of_nat n) 32 (Some captured) False pipeline_new)
      (store_raytracing_handles_replay 0 (of_nat n) 32 (Some replayed))"

lemma learn_handles_ok:
  assumes "0 < n" "n < 2 ^ 32" "length captured = n * 32" "length replayed = n * 32"
  shows "learn_handles n captured replayed = Inr \<lparr>rt_handle_size = 32, rt_handles = captured, rt_group_count = of_nat n,
    rt_capture_replay = False, rt_handle_size_replay = 32, rt_handles_replay = replayed\<rparr>"
proof -
  have n: "unat (of_nat n :: u32) = n" using assms(2) by (simp add: unat_of_nat take_bit_nat_eq_self)
  then have "(of_nat n :: u32) \<noteq> 0" using assms(1) by (metis unat_0 neq0_conv)
  then show ?thesis using assms n
    by (simp add: learn_handles_def store_raytracing_handles_def store_raytracing_handles_replay_def pipeline_new_def
        copy_handles_def resize_table_def overwrite_def Let_def)
qed

lemma filter_one:
  assumes "g < n" "\<And>i. i < n \<Longrightarrow> P i \<longleftrightarrow> i = g"
  shows "filter P [0..<n] = [g]"
proof -
  have "filter P [0..<n] = filter ((=) g) [0..<n]" using assms(2) by (intro filter_cong) auto
  also have "\<dots> = replicate (count_list [0..<n] g) g" by (simp add: count_list_eq_length_filter replicate_length_filter)
  finally show ?thesis using assms(1) by (simp add: count_list_eq_length_filter distinct_length_filter) 
qed

text \<open>C27: shader group handles in the replay.  When the handles of a pipeline's groups were stored as they were captured and
  as the replaying driver returns them, and no other group of any pipeline has the captured handle of group \<open>g\<close>, a
  marked place that holds that handle is given the replay handle of the same group, wherever the pipeline is in the
  table; a handle that no pipeline has, or that two groups have, aborts the replay.\<close>

theorem shader_group_handle_replayed:
  assumes "0 < n" "n < 2 ^ 32" "length captured = n * 32" "length replayed = n * 32" "g < n"
    and "learn_handles n captured replayed = Inr p" "handle_hits (ps @ qs) (handle_at 32 captured g) = []"
    and "\<forall>i<n. handle_at 32 captured i = handle_at 32 captured g \<longrightarrow> i = g"
  shows "rewrite_marked_shader_group_handle True (ps @ p # qs) (length a) (a @ handle_at 32 captured g @ b) =
      Inr (True, a @ handle_at 32 replayed g @ b) \<and>
    rewrite_marked_shader_group_handle True (ps @ qs) (length a) (a @ handle_at 32 captured g @ b) = Inl Aborted \<and>
    rewrite_marked_shader_group_handle True (ps @ p # qs @ [p]) (length a) (a @ handle_at 32 captured g @ b) = Inl Aborted"
proof -
  let ?h = "handle_at 32 captured g"
  have p: "p = \<lparr>rt_handle_size = 32, rt_handles = captured, rt_group_count = of_nat n,
      rt_capture_replay = False, rt_handle_size_replay = 32, rt_handles_replay = replayed\<rparr>"
    using learn_handles_ok [OF assms(1-4)] assms(6) by simp
  have "unat (of_nat n :: u32) = n" using assms(2) by (simp add: unat_of_nat take_bit_nat_eq_self)
  then have known: "groups_known 32 p = n" using assms(3) by (simp add: groups_known_def p)
  have "captured \<noteq> []" using assms(1,3) by auto
  then have hits: "group_hits p ?h = [g]" using assms(5,8) known by (auto simp: group_hits_def p intro!: filter_one)
  have none: "handle_hits ps ?h = []" "handle_hits qs ?h = []" using assms(7) by (simp_all add: handle_hits_append)
  have h: "length ?h = 32" "length (handle_at 32 replayed g) = 32"
    using assms(3-5) by (simp_all add: handle_at_def) 
  have found: "handle_hits (ps @ p # qs) ?h = [(p, g)]" "handle_hits (ps @ p # qs @ [p]) ?h = [(p, g), (p, g)]"
    using none hits by (simp_all add: handle_hits_append handle_hits_Cons) (simp add: handle_hits_def)
  have new: "replay_handle p g = Some (Some (handle_at 32 replayed g))"
    using assms(4,5) by (simp add: replay_handle_def p)
  have "overwrite (a @ ?h @ b) (length a) (handle_at 32 replayed g) = a @ handle_at 32 replayed g @ b"
    by (rule overwrite_append) (simp add: h)
  then show ?thesis
    using h(1) by (simp add: rewrite_marked_shader_group_handle_def match_pipelines_hits found new assms(7))
qed

theorem shader_group_handle_replayed_witness:
  "\<exists>p. learn_handles 1 (replicate 32 7) (replicate 32 9) = Inr p \<and>
    rewrite_marked_shader_group_handle True [p] 2 ([1, 2] @ replicate 32 7 @ [3]) = Inr (True, [1, 2] @ replicate 32 9 @ [3])"
proof -
  obtain p where p: "learn_handles 1 (replicate 32 7) (replicate 32 9) = Inr p"
    using learn_handles_ok [of 1 "replicate 32 7" "replicate 32 9"] by auto
  have at: "handle_at 32 (replicate 32 x) 0 = replicate 32 x" for x :: u8 by (simp add: handle_at_def)
  have "rewrite_marked_shader_group_handle True ([] @ p # []) (length [1, 2 :: u8]) ([1, 2] @ handle_at 32 (replicate 32 7) 0 @ [3]) =
      Inr (True, [1, 2] @ handle_at 32 (replicate 32 9) 0 @ [3])"
    by (rule shader_group_handle_replayed [THEN conjunct1, OF _ _ _ _ _ p]) (simp_all add: handle_hits_def)
  then show ?thesis using p unfolding at by (intro exI [of _ p]) (simp add: numeral_2_eq_2)
qed

end
