(* ===== verification/MemoryUpdates.thy ===== *)
theory MemoryUpdates
  imports Packets RangeTracking Rewriting
begin

text \<open>How host writes to mapped memory get into the trace.  The sources are \<^verbatim>\<open>src/hardcode_write.cpp\<close>, which keeps a
  clone of every mapped memory object and, when command buffers are submitted, compares it with the memory and records
  the differences as update packets, \<^verbatim>\<open>src/lavatube.h\<close> for what command buffers touch, and the reading of update packets in
  \<^verbatim>\<open>src/hardcode_read.cpp\<close>.  The handlers run under the memory mutex, so each is one function.\<close>

section \<open>Update packets\<close>

abbreviation (input) PACKET_TENSOR_UPDATE :: u8 where "PACKET_TENSOR_UPDATE \<equiv> 7"
abbreviation (input) PACKET_IMAGE_UPDATE2 :: u8 where "PACKET_IMAGE_UPDATE2 \<equiv> 8"
abbreviation (input) PACKET_BUFFER_UPDATE2 :: u8 where "PACKET_BUFFER_UPDATE2 \<equiv> 9"
abbreviation (input) PACKET_FLAG_HAS_PNEXT :: u16 where "PACKET_FLAG_HAS_PNEXT \<equiv> 1"

datatype tracked_type = Image | Buffer | Tensor | Other_type

fun update_packet_type :: "tracked_type \<Rightarrow> u8 result" where
  "update_packet_type Image = Inr PACKET_IMAGE_UPDATE2"
| "update_packet_type Buffer = Inr PACKET_BUFFER_UPDATE2"
| "update_packet_type Tensor = Inr PACKET_TENSOR_UPDATE"
| "update_packet_type Other_type = Inl Assertion_failed"

text \<open>An object with backing memory; \<open>to_backing\<close> is the memory object, \<open>None\<close> before it is bound, and \<open>to_alive\<close>
  says that \<open>destroyed.frame\<close> has not been set.\<close>

record tracked_object =
  to_track :: trackable
  to_type :: tracked_type
  to_backing :: "nat option"
  to_offset :: u64
  to_size :: u64
  to_written :: u64
  to_updates :: u32
  to_accessible :: bool
  to_alive :: bool
  to_device :: u32
  to_device_address :: u64

text \<open>\<open>ext\<close> writes the extension structure of marked offsets, which is generated code.\<close>

definition begin_object_update_packet :: "codec \<Rightarrow> trackable \<Rightarrow> tracked_object \<Rightarrow> (file_writer \<Rightarrow> file_writer result) option \<Rightarrow>
    lava_file_writer \<Rightarrow> (later_ptr \<times> u64 \<times> lava_file_writer) result" where
  "begin_object_update_packet cx dev obj ext lw =
    result_bind (update_packet_type (to_type obj)) (\<lambda>type.
    result_bind (begin_packet cx type lw) (\<lambda>lw.
    result_bind (on_stream (write_handle cx (Some dev)) lw) (\<lambda>lw.
    result_bind (on_stream (write_handle cx (Some (to_track obj))) lw) (\<lambda>lw.
    result_bind (write_later cx 8 (0 :: u64) (lw_stream lw)) (\<lambda>(ptr, w).
    let payload_start = fw_bytes w in
    result_bind (on_stream (write_uint16_t cx (case ext of None \<Rightarrow> 0 | Some _ \<Rightarrow> PACKET_FLAG_HAS_PNEXT)) (lw\<lparr>lw_stream := w\<rparr>)) (\<lambda>lw.
    result_bind (case ext of None \<Rightarrow> Inr lw | Some f \<Rightarrow> on_stream f lw) (\<lambda>lw.
      Inr (ptr, payload_start, lw))))))))"

definition end_object_update_packet :: "tracked_object \<Rightarrow> later_ptr \<Rightarrow> u64 \<Rightarrow> u64 \<Rightarrow> lava_file_writer \<Rightarrow> (tracked_object \<times> lava_file_writer) result" where
  "end_object_update_packet obj ptr payload_start written lw =
    result_bind (store_later ptr (to_le 8 (fw_bytes (lw_stream lw) - payload_start)) (lw_stream lw)) (\<lambda>w.
    result_bind (end_packet (lw\<lparr>lw_stream := w\<rparr>)) (\<lambda>lw.
      Inr (obj\<lparr>to_updates := to_updates obj + 1, to_written := to_written obj + written\<rparr>, lw)))"

definition write_object_update_packet :: "codec \<Rightarrow> trackable \<Rightarrow> tracked_object \<Rightarrow> u64 \<Rightarrow> bytes \<Rightarrow>
    (file_writer \<Rightarrow> file_writer result) option \<Rightarrow> lava_file_writer \<Rightarrow> (u64 \<times> tracked_object \<times> lava_file_writer) result" where
  "write_object_update_packet cx dev obj off data ext lw =
    assert_that (off \<le> to_size obj) (assert_that (of_nat (length data) \<le> to_size obj - off)
    (if data = [] then Inr (0, obj, lw)
     else result_bind (begin_object_update_packet cx dev obj ext lw) (\<lambda>(ptr, payload_start, lw).
       result_bind (on_stream (write_memory_span cx data (unat off)) lw) (\<lambda>lw.
       result_bind (end_object_update_packet obj ptr payload_start (of_nat (length data)) lw) (\<lambda>(obj, lw).
         Inr (of_nat (length data), obj, lw))))))"

text \<open>\<open>clone\<close> and \<open>changed\<close> start at the object; the offset is narrowed to the 32 bits of \<open>write_patch\<close>'s parameter.
  The writer of a capture does not translate marked addresses back (\<open>write_output\<close> is off).\<close>

definition write_out_object :: "codec \<Rightarrow> trackable \<Rightarrow> tracked_object \<Rightarrow> bytes \<Rightarrow> bytes \<Rightarrow> u64 \<Rightarrow> u64 \<Rightarrow>
    (file_writer \<Rightarrow> file_writer result) option \<Rightarrow> lava_file_writer \<Rightarrow> (u64 \<times> bytes \<times> tracked_object \<times> lava_file_writer) result" where
  "write_out_object cx dev obj clone changed off sz ext lw =
    (let patch_start = find_patch_start clone changed (unat off) (unat sz) in
     if patch_start = unat sz then Inr (0, clone, obj, lw)
     else let off = off + of_nat patch_start; sz = sz - of_nat patch_start in
       result_bind (begin_object_update_packet cx dev obj ext lw) (\<lambda>(ptr, payload_start, lw).
       result_bind (write_patch cx clone changed (ucast off) (unat sz) (lw_stream lw)) (\<lambda>(written, clone, w).
       result_bind (end_object_update_packet obj ptr payload_start written (lw\<lparr>lw_stream := w\<rparr>)) (\<lambda>(obj, lw).
         Inr (written, clone, obj, lw)))))"

text \<open>Reading.  \<open>rext\<close> reads the extension, which is generated code.\<close>

abbreviation (input) PACKET_IMAGE_UPDATE :: u8 where "PACKET_IMAGE_UPDATE \<equiv> 4"
abbreviation (input) PACKET_BUFFER_UPDATE :: u8 where "PACKET_BUFFER_UPDATE \<equiv> 5"

definition read_version2_packet :: "decoder \<Rightarrow> (file_reader \<Rightarrow> (marked_offsets \<times> file_reader) result) \<Rightarrow> file_reader \<Rightarrow>
    (u64 \<times> marked_offsets option \<times> file_reader) result" where
  "read_version2_packet dx rext s =
    result_bind (read_value (fr_take dx) 8 s) (\<lambda>(sz :: u64, s).
    result_bind (read_value (fr_take dx) 2 s) (\<lambda>(flags :: u16, s).
    if flags AND PACKET_FLAG_HAS_PNEXT \<noteq> 0 then result_bind (rext s) (\<lambda>(m, s). Inr (sz, Some m, s))
    else assert_that (flags = 0) (Inr (sz, None, s))))"

text \<open>The memory of an object as the suballocator finds it: whether it has to be cleared, and its bytes.\<close>

record object_memory =
  om_needs_init :: bool
  om_mapped :: bytes

definition mem_map :: "object_memory \<Rightarrow> bytes" where
  "mem_map loc = (if om_needs_init loc then replicate (length (om_mapped loc)) 0 else om_mapped loc)"

text \<open>\<open>image_update\<close>, \<open>buffer_update\<close> and \<open>tensor_update\<close> when replaying: the number of changed bytes and the memory
  afterwards.  \<open>loc\<close> is what the lookup of the object's memory gives.  With \<open>write_output\<close> the patch is skipped and no object
  is looked up.\<close>

definition object_update :: "decoder \<Rightarrow> rewrite_constants \<Rightarrow> 'p rewriter \<Rightarrow> tracked_type \<Rightarrow> object_memory result \<Rightarrow>
    marked_offsets option \<Rightarrow> file_reader \<Rightarrow> (u32 \<times> bytes option \<times> file_reader) result" where
  "object_update dx k e type loc marked s =
    (if rw_write_output e then result_bind (read_patch dx None 0 s) (\<lambda>(_, _, s). Inr (0, None, s))
     else result_bind loc (\<lambda>loc. assert_that (type = Buffer \<or> marked = None)
       (let mem = mem_map loc in
        result_bind (read_patch dx (Some mem) (length mem) s) (\<lambda>(changed, buf, s).
          let buf = (case buf of None \<Rightarrow> [] | Some b \<Rightarrow> b) in
          result_bind (case marked of None \<Rightarrow> Inr buf | Some m \<Rightarrow> translate_marked_offsets k e m buf) (\<lambda>buf.
            Inr (changed, Some buf, s))))))"

text \<open>\<open>update_image_packet\<close>, \<open>update_buffer_packet\<close> and \<open>update_tensor_packet\<close>; an isolated reader looks at a packet
  without replaying it.  \<open>find_memory\<close> finds the memory of an object of a device.  The result is the index of the device and
  of the object, the bytes changed and the memory, when it was touched.\<close>

definition update_object_packet :: "decoder \<Rightarrow> (file_reader \<Rightarrow> (marked_offsets \<times> file_reader) result) \<Rightarrow> rewrite_constants \<Rightarrow>
    'p rewriter \<Rightarrow> bool \<Rightarrow> (u32 \<Rightarrow> u32 \<Rightarrow> object_memory result) \<Rightarrow> tracked_type \<Rightarrow> u8 \<Rightarrow> lava_file_reader \<Rightarrow>
    (u32 \<times> u32 \<times> u32 \<times> bytes option \<times> lava_file_reader) result" where
  "update_object_packet dx rext k e isolated find_memory type instrtype lr =
    (let thread = cs_thread (lr_current lr) in
     result_bind (read_handle dx isolated thread (lr_stream lr)) (\<lambda>(device_index, _, s).
     result_bind (read_handle dx isolated thread s) (\<lambda>(object_index, _, s).
     result_bind (if instrtype = PACKET_IMAGE_UPDATE \<or> instrtype = PACKET_BUFFER_UPDATE then Inr (0, None, s)
       else read_version2_packet dx rext s) (\<lambda>(sz, marked, s).
     if isolated then result_bind (read_patch dx None (unat sz) s) (\<lambda>(changed, _, s).
       Inr (device_index, object_index, changed, None, lr\<lparr>lr_stream := s\<rparr>))
     else result_bind (object_update dx k e type (find_memory device_index object_index) marked s) (\<lambda>(changed, buf, s).
       Inr (device_index, object_index, changed, buf, lr\<lparr>lr_stream := s\<rparr>))))))"

section \<open>Places in the chunks\<close>

text \<open>Where in the stream the \<open>n\<close> bytes behind a pointer are.\<close>

definition located :: "(bytes \<Rightarrow> bytes) \<Rightarrow> file_writer \<Rightarrow> later_ptr \<Rightarrow> nat \<Rightarrow> nat \<Rightarrow> bool" where
  "located dec w ptr n pos \<longleftrightarrow> (case ptr of (k, off) \<Rightarrow> k < length (parts w) \<and> off + n \<le> length (parts w ! k) \<and>
    pos = length (base dec w) + length (concat (take k (parts w))) + off)"

lemma located_split:
  assumes "located dec w ptr n pos"
  shows "\<exists>P c1 m c2 Q. ptr = (length P, length c1) \<and> parts w = P @ (c1 @ m @ c2) # Q \<and> length m = n \<and>
    pos = length (base dec w @ concat P @ c1)"
proof -
  obtain k off where ptr: "ptr = (k, off)" by fastforce
  let ?c = "parts w ! k"
  have k: "k < length (parts w)" "off + n \<le> length ?c" using assms by (simp_all add: located_def ptr)
  have c: "?c = take off ?c @ take n (drop off ?c) @ drop (off + n) ?c"
    by (metis append_take_drop_id drop_drop add.commute)
  have "parts w = take k (parts w) @ ?c # drop (Suc k) (parts w)" using k(1) by (rule id_take_nth_drop)
  then have "parts w = take k (parts w) @ (take off ?c @ take n (drop off ?c) @ drop (off + n) ?c) # drop (Suc k) (parts w)"
    using c by simp
  then show ?thesis using assms k
    by (intro exI [of _ "take k (parts w)"] exI [of _ "take off ?c"] exI [of _ "take n (drop off ?c)"]
        exI [of _ "drop (off + n) ?c"] exI [of _ "drop (Suc k) (parts w)"])
      (simp add: located_def ptr)
qed

lemma located_same:
  assumes "located dec w ptr n pos" "base dec w' = base dec w" "map length (parts w') = map length (parts w)"
  shows "located dec w' ptr n pos"
proof -
  have len: "length (parts w') = length (parts w)" using assms(3) by (metis length_map)
  have "length (parts w' ! k) = length (parts w ! k)" if "k < length (parts w)" for k
    using assms(3) that len by (metis nth_map)
  moreover have "length (concat (take k (parts w'))) = length (concat (take k (parts w)))" for k
    by (simp only: length_concat take_map [symmetric] assms(3))
  ultimately show ?thesis using assms(1,2) len by (auto simp: located_def split: prod.splits)
qed

lemma located_grows:
  assumes "located dec w ptr n pos" "grows w data w'"
  shows "located dec w' ptr n pos"
proof -
  obtain d more where w': "parts w' = rev (fw_held w) @ (fw_chunk w @ d) # more" "base dec w' = base dec w"
    using assms(2) by (auto simp: grows_def)
  obtain k off where ptr: "ptr = (k, off)" by fastforce
  have k: "k < length (parts w)" "off + n \<le> length (parts w ! k)"
      "pos = length (base dec w) + length (concat (take k (parts w))) + off"
    using assms(1) by (simp_all add: located_def ptr)
  then have "k \<le> length (fw_held w)" by (simp add: parts_def)
  then have "take k (parts w') = take k (parts w)" "length (parts w ! k) \<le> length (parts w' ! k)" "length (parts w) \<le> length (parts w')"
    unfolding w'(1) by (simp_all add: parts_def nth_append)
  then show ?thesis using k w'(2) by (simp add: located_def ptr)
qed

lemma store_located:
  assumes "located dec w ptr (length data) pos"
  shows "\<exists>a b. store_later ptr data w = Inr (w\<lparr>fw_chunk := a, fw_held := b\<rparr>) \<and> length a = length (fw_chunk w) \<and>
    map length (parts (w\<lparr>fw_chunk := a, fw_held := b\<rparr>)) = map length (parts w) \<and>
    fw_stream dec (w\<lparr>fw_chunk := a, fw_held := b\<rparr>) = overwrite (fw_stream dec w) pos data"
proof -
  obtain P c1 m c2 Q where P: "ptr = (length P, length c1)" "parts w = P @ (c1 @ m @ c2) # Q" "length m = length data"
      "pos = length (base dec w @ concat P @ c1)"
    using located_split [OF assms] by blast
  have over: "overwrite (c1 @ m @ c2) (length c1) data = c1 @ data @ c2" using P(3) by (intro overwrite_append) simp
  have same: "length (c1 @ data @ c2) = length (c1 @ m @ c2)" using P(3) by simp
  obtain a b where st: "store_later (length P, length c1) data w = Inr (w\<lparr>fw_chunk := a, fw_held := b\<rparr>)"
    and ab: "parts (w\<lparr>fw_chunk := a, fw_held := b\<rparr>) = P @ (c1 @ data @ c2) # Q" "length a = length (fw_chunk w)"
    using store_parts [OF P(2), of "length c1" data, unfolded over] same by metis
  have "overwrite ((base dec w @ concat P @ c1) @ m @ c2 @ concat Q) pos data = (base dec w @ concat P @ c1) @ data @ c2 @ concat Q"
    unfolding P(4) by (rule overwrite_append) (simp add: P(3))
  then have "fw_stream dec (w\<lparr>fw_chunk := a, fw_held := b\<rparr>) = overwrite (fw_stream dec w) pos data"
    unfolding stream_parts ab(1) P(2) by (simp add: base_def)
  then show ?thesis using st ab P(1,2) same by (intro exI [of _ a] exI [of _ b]) simp
qed

lemma write_later_located:
  assumes "fw_inv w" "fw_holding w" "n < 2 ^ 32"
  shows "\<exists>ptr w'. write_later cx n v w = Inr (ptr, w') \<and> grows w (to_le n v) w' \<and> located dec w' ptr n (length (fw_stream dec w))"
proof (cases "n > fw_cap w - fw_uidx w")
  case True
  define c where "c = (if n > fw_chunk_size w then n else fw_chunk_size w)"
  define w' where "w' = w\<lparr>fw_cap := c, fw_held := fw_chunk w # fw_held w, fw_chunk := to_le n v, fw_bytes := fw_bytes w + of_nat n\<rparr>"
  have "write_later cx n v w = Inr ((Suc (length (fw_held w)), 0), w')"
    using True assms by (simp add: write_later_def check_space_def make_space_def copy_bytes_def freeze_def fw_uidx_def w'_def c_def Let_def fw_inv_def)
  moreover have "grows w (to_le n v) w'"
    using assms by (auto simp: grows_def parts_def base_def fw_inv_def w'_def c_def)
  moreover have "located dec w' (Suc (length (fw_held w)), 0) n (length (fw_stream dec w))"
    by (simp add: located_def stream_parts parts_def base_def w'_def nth_append)
  ultimately show ?thesis by blast
next
  case False
  define w' where "w' = w\<lparr>fw_chunk := fw_chunk w @ to_le n v, fw_bytes := fw_bytes w + of_nat n\<rparr>"
  have fit: "length (fw_chunk w) + n \<le> fw_cap w" using False assms by (auto simp: fw_uidx_def fw_inv_def)
  have "write_later cx n v w = Inr ((length (fw_held w), length (fw_chunk w)), w')"
    using False assms fit by (simp add: write_later_def check_space_def copy_bytes_def freeze_def fw_uidx_def w'_def Let_def fw_inv_def)
  moreover have "grows w (to_le n v) w'" using assms fit by (auto simp: grows_def parts_def base_def fw_inv_def w'_def)
  moreover have "located dec w' (length (fw_held w), length (fw_chunk w)) n (length (fw_stream dec w))"
    by (simp add: located_def stream_parts parts_def base_def w'_def nth_append)
  ultimately show ?thesis by blast
qed

lemma same_length_append: "xs @ ys = us @ vs \<Longrightarrow> length xs = length us \<Longrightarrow> xs = us \<and> ys = vs"
  by simp

text \<open>An open packet in these terms.\<close>

lemma open_ok_located:
  "open_ok dec pre type payload lw \<longleftrightarrow> lw_packet_open lw \<and> fw_inv (lw_stream lw) \<and> fw_holding (lw_stream lw) \<and>
    lw_packet_start lw = of_nat (length pre) \<and> fw_bytes (lw_stream lw) = of_nat (length pre) + of_nat (5 + length payload) \<and>
    (\<exists>ptr. lw_packet_size lw = Some ptr \<and> located dec (lw_stream lw) ptr 4 (length pre + 1)) \<and>
    fw_stream dec (lw_stream lw) = pre @ [type] @ replicate 4 0 @ payload"
  (is "?open \<longleftrightarrow> ?located")
proof
  assume ?open
  then obtain P c1 c2 Q where P: "lw_packet_size lw = Some (length P, length c1)" "parts (lw_stream lw) = P @ (c1 @ replicate 4 0 @ c2) # Q"
      "base dec (lw_stream lw) @ concat P @ c1 = pre @ [type]" "c2 @ concat Q = payload"
    by (auto simp: open_ok_def)
  have "length (base dec (lw_stream lw)) + length (concat P) + length c1 = length pre + 1"
    using arg_cong [OF P(3), of length] by simp
  moreover have "fw_stream dec (lw_stream lw) = (base dec (lw_stream lw) @ concat P @ c1) @ replicate 4 0 @ c2 @ concat Q"
    unfolding stream_parts P(2) by simp
  ultimately show ?located using \<open>?open\<close> P by (auto simp: open_ok_def located_def)
next
  assume l: ?located
  then obtain ptr where ptr: "lw_packet_size lw = Some ptr" "located dec (lw_stream lw) ptr 4 (length pre + 1)" by blast
  obtain P c1 m c2 Q where P: "ptr = (length P, length c1)" "parts (lw_stream lw) = P @ (c1 @ m @ c2) # Q" "length m = 4"
      "length pre + 1 = length (base dec (lw_stream lw) @ concat P @ c1)"
    using located_split [OF ptr(2)] by blast
  have "(base dec (lw_stream lw) @ concat P @ c1) @ m @ c2 @ concat Q = (pre @ [type]) @ replicate 4 0 @ payload"
    using l unfolding stream_parts P(2) by simp
  moreover have "length (base dec (lw_stream lw) @ concat P @ c1) = length (pre @ [type])" "length m = length (replicate 4 0 :: bytes)"
    using P(3,4) by simp_all
  ultimately have "base dec (lw_stream lw) @ concat P @ c1 = pre @ [type]" "m = replicate 4 0" "c2 @ concat Q = payload"
    using same_length_append by blast+
  then show ?open using l ptr(1) P(1,2) unfolding open_ok_def by blast
qed

lemma store_inside:
  assumes "open_ok dec pre type (p1 @ replicate (length data) 0 @ p2) lw"
    and "located dec (lw_stream lw) ptr (length data) (length pre + 5 + length p1)"
  shows "\<exists>w. store_later ptr data (lw_stream lw) = Inr w \<and> fw_bytes w = fw_bytes (lw_stream lw) \<and>
    open_ok dec pre type (p1 @ data @ p2) (lw\<lparr>lw_stream := w\<rparr>)"
proof -
  let ?w = "lw_stream lw"
  obtain a b where ab: "store_later ptr data ?w = Inr (?w\<lparr>fw_chunk := a, fw_held := b\<rparr>)" "length a = length (fw_chunk ?w)"
      "map length (parts (?w\<lparr>fw_chunk := a, fw_held := b\<rparr>)) = map length (parts ?w)"
      "fw_stream dec (?w\<lparr>fw_chunk := a, fw_held := b\<rparr>) = overwrite (fw_stream dec ?w) (length pre + 5 + length p1) data"
    using store_located [OF assms(2)] by blast
  have "overwrite ((pre @ [type] @ replicate 4 0 @ p1) @ replicate (length data) 0 @ p2) (length (pre @ [type] @ replicate 4 0 @ p1)) data =
      (pre @ [type] @ replicate 4 0 @ p1) @ data @ p2" by (rule overwrite_append) simp
  moreover have "length (pre @ [type] @ replicate 4 0 @ p1) = length pre + 5 + length p1" by simp
  moreover have "fw_stream dec ?w = (pre @ [type] @ replicate 4 0 @ p1) @ replicate (length data) 0 @ p2"
    using assms(1) by (simp add: open_ok_located)
  ultimately have "fw_stream dec (?w\<lparr>fw_chunk := a, fw_held := b\<rparr>) = pre @ [type] @ replicate 4 0 @ p1 @ data @ p2"
    using ab(4) by (simp only:) simp
  moreover have "fw_inv (?w\<lparr>fw_chunk := a, fw_held := b\<rparr>)" using assms(1) ab(2) by (auto simp: open_ok_def fw_inv_def)
  moreover have "located dec (?w\<lparr>fw_chunk := a, fw_held := b\<rparr>) p 4 (length pre + 1)" if "located dec ?w p 4 (length pre + 1)" for p
    by (rule located_same [OF that _ ab(3)]) (simp add: base_def)
  ultimately show ?thesis using assms(1) ab(1) by (auto simp: open_ok_located)
qed

section \<open>Update packets in the stream\<close>

definition update_header :: "trackable \<Rightarrow> tracked_object \<Rightarrow> bytes" where
  "update_header dev obj = handle_bytes dev @ handle_bytes (to_track obj)"

definition update_body :: "bytes option \<Rightarrow> bytes \<Rightarrow> bytes" where
  "update_body ext data = to_le 2 (case ext of None \<Rightarrow> 0 | Some _ \<Rightarrow> PACKET_FLAG_HAS_PNEXT) @ (case ext of None \<Rightarrow> [] | Some x \<Rightarrow> x) @ data"

definition update_payload :: "trackable \<Rightarrow> tracked_object \<Rightarrow> bytes option \<Rightarrow> bytes \<Rightarrow> bytes" where
  "update_payload dev obj ext data = update_header dev obj @
    to_le 8 (of_nat (length (update_body ext data)) :: u64) @ update_body ext data"

lemma length_update_header [simp]: "length (update_header dev obj) = 18"
  by (simp add: update_header_def handle_bytes_def)

lemma length_update_payload: "length (update_payload dev obj ext data) = 28 + length (case ext of None \<Rightarrow> [] | Some x \<Rightarrow> x) + length data"
  by (simp add: update_payload_def update_body_def split: option.splits)

text \<open>An extension that is written: the bytes it is written as.\<close>

definition ext_ok :: "(file_writer \<Rightarrow> file_writer result) option \<Rightarrow> bytes option \<Rightarrow> bool" where
  "ext_ok ext x \<longleftrightarrow> (case (ext, x) of (None, None) \<Rightarrow> True | (Some f, Some x) \<Rightarrow> appends f x | _ \<Rightarrow> False)"

lemma located_on_stream:
  assumes "appends f data" "open_ok dec pre type payload lw" "located dec (lw_stream lw) ptr n pos"
  shows "\<exists>lw'. on_stream f lw = Inr lw' \<and> open_ok dec pre type (payload @ data) lw' \<and> located dec (lw_stream lw') ptr n pos"
proof -
  have "fw_inv (lw_stream lw) \<and> fw_holding (lw_stream lw)" using assms(2) by (simp add: open_ok_def)
  then obtain w where w: "f (lw_stream lw) = Inr w" "grows (lw_stream lw) data w" using assms(1) by (auto simp: appends_def)
  from w(1) open_grows [OF assms(2) w(2)] located_grows [OF assms(3) w(2)] show ?thesis by (simp add: on_stream_def)
qed

lemma begin_update_ok:
  assumes "closed_ok dec s lw" "update_packet_type (to_type obj) = Inr type" "tr_created dev" "tr_created (to_track obj)" "ext_ok ext x"
  shows "\<exists>ptr start lw'. begin_object_update_packet cx dev obj ext lw = Inr (ptr, start, lw') \<and>
    open_ok dec s type (update_header dev obj @ replicate 8 0 @ update_body x []) lw' \<and>
    located dec (lw_stream lw') ptr 8 (length s + 23) \<and> start = of_nat (length s) + 31"
proof -
  obtain lw1 where lw1: "begin_packet cx type lw = Inr lw1" "open_ok dec s type [] lw1" using begin_packet_ok [OF assms(1)] by metis
  obtain lw2 where lw2: "on_stream (write_handle cx (Some dev)) lw1 = Inr lw2" "open_ok dec s type (handle_bytes dev) lw2"
    using on_stream_open [OF write_handle_appends [OF assms(3)] lw1(2)] by (metis append_Nil)
  obtain lw3 where lw3: "on_stream (write_handle cx (Some (to_track obj))) lw2 = Inr lw3" "open_ok dec s type (update_header dev obj) lw3"
    using on_stream_open [OF write_handle_appends [OF assms(4)] lw2(2)] by (metis update_header_def)
  define w where "w = lw_stream lw3"
  have w: "fw_inv w" "fw_holding w" "fw_stream dec w = s @ [type] @ replicate 4 0 @ update_header dev obj"
      "fw_bytes w = of_nat (length s) + of_nat (5 + length (update_header dev obj))"
    using lw3(2) unfolding open_ok_located w_def by blast+
  obtain ptr w' where w': "write_later cx 8 (0 :: u64) w = Inr (ptr, w')" "grows w (to_le 8 (0 :: u64)) w'"
      "located dec w' ptr 8 (length (fw_stream dec w))"
    using write_later_located [OF w(1,2), of 8 cx "0 :: u64" dec] by auto
  define lw4 where "lw4 = lw3\<lparr>lw_stream := w'\<rparr>"
  have open4: "open_ok dec s type (update_header dev obj @ replicate 8 0) lw4"
    using open_grows [OF lw3(2), of "to_le 8 (0 :: u64)" w'] w'(2) by (simp add: lw4_def w_def)
  have at4: "located dec (lw_stream lw4) ptr 8 (length s + 23)"
    using w'(3) by (simp add: lw4_def w(3))
  have start: "fw_bytes w' = of_nat (length s) + 31" using w'(2) w(4) by (simp add: grows_def)
  define flags :: u16 where "flags = (case ext of None \<Rightarrow> 0 | Some _ \<Rightarrow> PACKET_FLAG_HAS_PNEXT)"
  obtain lw5 where lw5: "on_stream (write_uint16_t cx flags) lw4 = Inr lw5"
      "open_ok dec s type ((update_header dev obj @ replicate 8 0) @ to_le 2 flags) lw5" "located dec (lw_stream lw5) ptr 8 (length s + 23)"
    using located_on_stream [OF write_int_appends(2) open4 at4] by blast
  have "\<exists>lw6. (case ext of None \<Rightarrow> Inr lw5 | Some f \<Rightarrow> on_stream f lw5) = Inr lw6 \<and>
      open_ok dec s type (update_header dev obj @ replicate 8 0 @ update_body x []) lw6 \<and> located dec (lw_stream lw6) ptr 8 (length s + 23)"
  proof (cases ext)
    case None
    then have "x = None" using assms(5) by (auto simp: ext_ok_def split: option.splits)
    then show ?thesis using None lw5 by (simp add: flags_def update_body_def)
  next
    case (Some f)
    then obtain d where d: "x = Some d" "appends f d" using assms(5) by (auto simp: ext_ok_def split: option.splits)
    then show ?thesis using Some located_on_stream [OF d(2) lw5(2,3)] by (auto simp: flags_def update_body_def)
  qed
  then obtain lw6 where lw6: "(case ext of None \<Rightarrow> Inr lw5 | Some f \<Rightarrow> on_stream f lw5) = Inr lw6"
      "open_ok dec s type (update_header dev obj @ replicate 8 0 @ update_body x []) lw6" "located dec (lw_stream lw6) ptr 8 (length s + 23)" by blast
  have "begin_object_update_packet cx dev obj ext lw = Inr (ptr, fw_bytes w', lw6)"
    using assms(2) lw1(1) lw2(1) lw3(1) w'(1) lw5(1) lw6(1)
    by (simp add: begin_object_update_packet_def flags_def Let_def flip: w_def lw4_def)
  then show ?thesis using lw6(2,3) start by blast
qed

lemma end_update_ok:
  assumes "open_ok dec s type (update_header dev obj @ replicate 8 0 @ update_body x data) lw"
    and "located dec (lw_stream lw) ptr 8 (length s + 23)" "5 + length (update_payload dev obj x data) < 2 ^ 32"
  shows "\<exists>lw'. end_object_update_packet obj ptr (of_nat (length s) + 31) n lw =
      Inr (obj\<lparr>to_updates := to_updates obj + 1, to_written := to_written obj + n\<rparr>, lw') \<and>
    closed_ok dec (s @ packet_bytes type (update_payload dev obj x data)) lw'"
proof -
  define len where "len = to_le 8 (of_nat (length (update_body x data)) :: u64)"
  have bytes: "fw_bytes (lw_stream lw) - (of_nat (length s) + 31) = of_nat (length (update_body x data))"
    using assms(1) by (simp add: open_ok_def)
  have len: "length len = 8" by (simp add: len_def)
  have at: "located dec (lw_stream lw) ptr (length len) (length s + 5 + length (update_header dev obj))"
    using assms(2) by (simp add: len add.commute)
  obtain w where w: "store_later ptr len (lw_stream lw) = Inr w"
      "open_ok dec s type (update_header dev obj @ len @ update_body x data) (lw\<lparr>lw_stream := w\<rparr>)"
    using store_inside [OF _ at, of type "update_body x data"] assms(1) unfolding len by auto
  have "open_ok dec s type (update_payload dev obj x data) (lw\<lparr>lw_stream := w\<rparr>)"
    using w(2) by (simp add: update_payload_def len_def)
  then obtain lw' where "end_packet (lw\<lparr>lw_stream := w\<rparr>) = Inr lw'" "closed_ok dec (s @ packet_bytes type (update_payload dev obj x data)) lw'"
    using end_packet_ok [OF _ assms(3)] by metis
  then show ?thesis using w(1) by (simp add: end_object_update_packet_def bytes flip: len_def)
qed

section \<open>Patches inside a packet\<close>

lemma write_record_appends:
  assumes "length (snd rec) < 2 ^ 32 - 8"
  shows "appends (write_record cx rec) (record_bytes rec)"
proof -
  have "unat (8 + (of_nat (length (snd rec)) :: u32)) = 8 + length (snd rec)"
    using assms by (subst unat_word_ariths) simp
  moreover have "appends (append_bytes cx (8 + length (snd rec)) (record_bytes rec)) (record_bytes rec)"
    by (rule append_bytes_appends) (use assms in \<open>simp_all add: record_bytes_def\<close>)
  ultimately show ?thesis by (simp add: appends_def write_record_def record_bytes_def)
qed

lemma write_records_appends:
  "\<forall>(_, p)\<in>set recs. length p < 2 ^ 32 - 8 \<Longrightarrow> appends (write_records cx recs) (concat (map record_bytes recs))"
proof (induction recs)
  case Nil
  then show ?case by (auto simp: appends_def grows_refl)
next
  case (Cons r recs)
  then have "appends (write_record cx r) (record_bytes r)" "appends (write_records cx recs) (concat (map record_bytes recs))"
    by (auto intro: write_record_appends split: prod.splits)
  from appends_bind [OF this] show ?case by (simp add: appends_def)
qed

lemma records_length: "sum_list (map (length \<circ> snd) recs) + pos \<le> records_end pos recs"
  by (induction pos recs rule: records_end.induct) auto

lemma patch_length:
  assumes "\<forall>(_, p)\<in>set recs. p \<noteq> []"
  shows "length (patch_bytes recs) \<le> 9 * records_end 0 recs + 8"
proof -
  have "length (concat (map record_bytes recs)) \<le> 9 * sum_list (map (length \<circ> snd) recs)"
    using assms
  proof (induction recs)
    case (Cons r recs)
    obtain off p where r: "r = (off, p)" by fastforce
    then have "1 \<le> length p" using Cons.prems by (cases p) auto
    moreover have "length (record_bytes r) = 8 + length p" by (simp add: record_bytes_def r)
    moreover have "length (concat (map record_bytes recs)) \<le> 9 * sum_list (map (length \<circ> snd) recs)" using Cons by (simp add: o_def)
    ultimately show ?case by (simp add: r o_def)
  qed simp
  then show ?thesis using records_length [of recs 0] by (simp add: patch_bytes_def)
qed

lemma write_patch_grows:
  assumes "fw_inv w" "fw_holding w" "unat off + sz \<le> length orig" "unat off + sz \<le> length chng" "unat off + sz < 2 ^ 32 - 8"
  shows "\<exists>recs w'. write_patch cx orig chng off sz w = Inr (of_nat (sum_list (map (length \<circ> snd) recs)),
      overwrite orig (unat off) (take sz (drop (unat off) chng)), w') \<and> grows w (patch_bytes recs) w' \<and>
    apply_records 0 recs orig = overwrite orig (unat off) (take sz (drop (unat off) chng)) \<and>
    records_end 0 recs \<le> unat off + sz \<and> (\<forall>(_, p)\<in>set recs. p \<noteq> [] \<and> length p \<le> sz)"
proof -
  obtain recs orig' where loop: "patch_loop (take sz (drop (unat off) orig)) (take sz (drop (unat off) chng)) off = (recs, orig')" by fastforce
  note sound = patch_loop_records [OF assms(3-5) loop]
  have "\<forall>(_, p)\<in>set recs. length p < 2 ^ 32 - 8" using sound(4) assms(5) by fastforce
  note writes = appends_bind [OF write_records_appends [OF this, of cx]
      appends_bind [OF write_int_appends(3) [of cx 0] write_int_appends(3) [of cx 0]]]
  obtain w' where w': "result_bind (write_records cx recs w) (\<lambda>s. result_bind (write_uint32_t cx 0 s) (write_uint32_t cx 0)) = Inr w'"
      "grows w (patch_bytes recs) w'"
    using writes assms(1,2) unfolding appends_def patch_bytes_def by blast
  then have "write_patch cx orig chng off sz w = Inr (of_nat (sum_list (map (length \<circ> snd) recs)),
      overwrite orig (unat off) (take sz (drop (unat off) chng)), w')"
    using sound(1) by (auto simp: write_patch_def loop)
  then show ?thesis using w'(2) sound(2-4) by blast
qed

text \<open>Skipping the bytes in front that are the same does not matter to the patched memory.\<close>

lemma overwrite_skip:
  assumes "p \<le> sz" "off + sz \<le> length orig" "off + sz \<le> length chng" "same_at (drop off orig) (drop off chng) 0 p"
  shows "overwrite orig (off + p) (take (sz - p) (drop (off + p) chng)) = overwrite orig off (take sz (drop off chng))"
proof -
  have "take p (drop off orig) = take p (drop off chng)" using assms(4) by (simp add: same_at_def)
  then have "take (off + p) orig = take off orig @ take p (drop off chng)" by (metis take_add)
  moreover have "take sz (drop off chng) = take p (drop off chng) @ take (sz - p) (drop (off + p) chng)"
    using assms(1) by (metis take_add le_add_diff_inverse drop_drop add.commute)
  ultimately show ?thesis using assms(1-3) by (simp add: overwrite_def)
qed

section \<open>Recording an update\<close>

lemma write_out_object_unchanged:
  assumes "find_patch_start clone changed (unat off) (unat sz) = unat sz"
  shows "write_out_object cx dev obj clone changed off sz ext lw = Inr (0, clone, obj, lw)"
  using assms by (simp add: write_out_object_def)

lemma write_out_object_ok:
  assumes "closed_ok dec s lw" "update_packet_type (to_type obj) = Inr type" "tr_created dev" "tr_created (to_track obj)" "ext_ok ext x"
    and "unat off + unat sz \<le> length clone" "unat off + unat sz \<le> length changed"
    and "length (case x of None \<Rightarrow> [] | Some x \<Rightarrow> x) + 9 * (unat off + unat sz) + 41 < 2 ^ 32"
    and "find_patch_start clone changed (unat off) (unat sz) \<noteq> unat sz"
  shows "\<exists>recs lw'. write_out_object cx dev obj clone changed off sz ext lw =
      Inr (of_nat (sum_list (map (length \<circ> snd) recs)), overwrite clone (unat off) (take (unat sz) (drop (unat off) changed)),
        obj\<lparr>to_updates := to_updates obj + 1, to_written := to_written obj + of_nat (sum_list (map (length \<circ> snd) recs))\<rparr>, lw') \<and>
    closed_ok dec (s @ packet_bytes type (update_payload dev obj x (patch_bytes recs))) lw' \<and>
    apply_records 0 recs clone = overwrite clone (unat off) (take (unat sz) (drop (unat off) changed)) \<and>
    records_end 0 recs \<le> unat off + unat sz \<and> (\<forall>(_, p)\<in>set recs. p \<noteq> [] \<and> length p < 2 ^ 32) \<and>
    5 + length (update_payload dev obj x (patch_bytes recs)) < 2 ^ 32"
proof -
  define p where "p = find_patch_start clone changed (unat off) (unat sz)"
  note start = find_patch_start_props [OF p_def]
  have p: "p < unat sz" using start(1) assms(9) by (simp add: p_def)
  define off' where "off' = off + of_nat p"
  define sz' where "sz' = sz - of_nat p"
  have small: "unat off + unat sz < 2 ^ 32" using assms(8) by simp
  have up: "unat (of_nat p :: u64) = p" using p small by (simp add: unat_of_nat take_bit_nat_eq_self)
  have uoff: "unat off' = unat off + p" using p small up by (simp add: off'_def unat_word_ariths)
  have usz: "unat sz' = unat sz - p" using p up by (simp add: sz'_def unat_sub_if')
  have narrow: "unat (ucast off' :: u32) = unat off + p"
    using uoff p small by (simp add: unsigned_ucast_eq take_bit_nat_eq_self)
  obtain ptr st lw1 where b: "begin_object_update_packet cx dev obj ext lw = Inr (ptr, st, lw1)"
      "open_ok dec s type (update_header dev obj @ replicate 8 0 @ update_body x []) lw1"
      "located dec (lw_stream lw1) ptr 8 (length s + 23)" "st = of_nat (length s) + 31"
    using begin_update_ok [OF assms(1-5)] by blast
  have "fw_inv (lw_stream lw1)" "fw_holding (lw_stream lw1)" using b(2) by (simp_all add: open_ok_def)
  moreover have "unat (ucast off' :: u32) + unat sz' \<le> length clone" "unat (ucast off' :: u32) + unat sz' \<le> length changed"
      "unat (ucast off' :: u32) + unat sz' < 2 ^ 32 - 8"
    using narrow usz p assms(6-8) by simp_all
  ultimately obtain recs w where w: "write_patch cx clone changed (ucast off') (unat sz') (lw_stream lw1) =
        Inr (of_nat (sum_list (map (length \<circ> snd) recs)),
          overwrite clone (unat (ucast off' :: u32)) (take (unat sz') (drop (unat (ucast off' :: u32)) changed)), w)"
      "grows (lw_stream lw1) (patch_bytes recs) w"
    and recs: "apply_records 0 recs clone = overwrite clone (unat (ucast off' :: u32)) (take (unat sz') (drop (unat (ucast off' :: u32)) changed))"
      "records_end 0 recs \<le> unat (ucast off' :: u32) + unat sz'" "\<forall>(_, p)\<in>set recs. p \<noteq> [] \<and> length p \<le> unat sz'"
    using write_patch_grows [of "lw_stream lw1" "ucast off'" "unat sz'" clone changed cx] by blast
  have new: "overwrite clone (unat (ucast off' :: u32)) (take (unat sz') (drop (unat (ucast off' :: u32)) changed)) =
      overwrite clone (unat off) (take (unat sz) (drop (unat off) changed))"
    unfolding narrow usz using overwrite_skip [OF start(1) assms(6,7) start(2)] .
  have ends: "records_end 0 recs \<le> unat off + unat sz" using recs(2) narrow usz p by simp
  have nonempty: "\<forall>(_, p)\<in>set recs. p \<noteq> []" and short: "\<forall>(_, p)\<in>set recs. p \<noteq> [] \<and> length p < 2 ^ 32"
    using recs(3) usz small by fastforce+
  have fits: "5 + length (update_payload dev obj x (patch_bytes recs)) < 2 ^ 32"
    using patch_length [OF nonempty] ends assms(8) unfolding length_update_payload by simp
  have "update_body x [] @ patch_bytes recs = update_body x (patch_bytes recs)" by (simp add: update_body_def)
  then have grown: "open_ok dec s type (update_header dev obj @ replicate 8 0 @ update_body x (patch_bytes recs)) (lw1\<lparr>lw_stream := w\<rparr>)"
    using open_grows [OF b(2) w(2)] by simp
  have "located dec (lw_stream (lw1\<lparr>lw_stream := w\<rparr>)) ptr 8 (length s + 23)" using located_grows [OF b(3) w(2)] by simp
  from end_update_ok [OF grown this fits] obtain lw' where
    "end_object_update_packet obj ptr st (of_nat (sum_list (map (length \<circ> snd) recs))) (lw1\<lparr>lw_stream := w\<rparr>) =
      Inr (obj\<lparr>to_updates := to_updates obj + 1, to_written := to_written obj + of_nat (sum_list (map (length \<circ> snd) recs))\<rparr>, lw')"
    "closed_ok dec (s @ packet_bytes type (update_payload dev obj x (patch_bytes recs))) lw'" unfolding b(4) by blast
  moreover have "write_out_object cx dev obj clone changed off sz ext lw =
    result_bind (begin_object_update_packet cx dev obj ext lw) (\<lambda>(ptr, payload_start, lw).
       result_bind (write_patch cx clone changed (ucast off') (unat sz') (lw_stream lw)) (\<lambda>(written, clone, w).
       result_bind (end_object_update_packet obj ptr payload_start written (lw\<lparr>lw_stream := w\<rparr>)) (\<lambda>(obj, lw).
         Inr (written, clone, obj, lw))))"
    using p by (simp add: write_out_object_def Let_def off'_def sz'_def flip: p_def)
  ultimately show ?thesis using b(1) w(1) new recs(1) ends short fits
    by (intro exI [of _ recs] exI [of _ lw']) simp
qed

section \<open>Replaying an update\<close>

lemma read_value_exact:
  fixes v :: "'a::len word"
  assumes "fr_good r" "fr_rest r = to_le n v @ t" "LENGTH('a) \<le> 8 * n"
  shows "read_value (fr_take dx) n r = Inr (v, r\<lparr>fr_read := fr_read r + n\<rparr>)"
    "fr_good (r\<lparr>fr_read := fr_read r + n\<rparr>)" "fr_rest (r\<lparr>fr_read := fr_read r + n\<rparr>) = t"
  using fr_take_prefix [OF assms(1,2), of n dx] assms(3) by (simp_all add: read_value_def)

lemma widths: "LENGTH(8) \<le> 8 * 1" "LENGTH(16) \<le> 8 * 2" "LENGTH(32) \<le> 8 * 4" "LENGTH(64) \<le> 8 * 8"
  by simp_all

lemma read_handle_exact:
  assumes "fr_good r" "fr_rest r = handle_bytes h @ t"
  shows "\<exists>d. read_handle dx isolated thread r = Inr (tr_index h, d, r\<lparr>fr_read := fr_read r + 9\<rparr>)"
    "fr_good (r\<lparr>fr_read := fr_read r + 9\<rparr>)" "fr_rest (r\<lparr>fr_read := fr_read r + 9\<rparr>) = t"
proof -
  have "fr_rest r = to_le 4 (tr_index h) @ to_le 1 (cs_thread (tr_last_modified h)) @ to_le 4 (cs_packet (tr_last_modified h)) @ t"
    using assms(2) by (simp add: handle_bytes_def)
  note 1 = read_value_exact [OF assms(1) this widths(3)]
  note 2 = read_value_exact [OF 1(2,3) widths(1)]
  note 3 = read_value_exact [OF 2(2,3) widths(3)]
  show "\<exists>d. read_handle dx isolated thread r = Inr (tr_index h, d, r\<lparr>fr_read := fr_read r + 9\<rparr>)"
    using 1(1) [of dx] 2(1) [of dx] 3(1) [of dx] by (simp add: read_handle_def add.commute)
  show "fr_good (r\<lparr>fr_read := fr_read r + 9\<rparr>)" "fr_rest (r\<lparr>fr_read := fr_read r + 9\<rparr>) = t" using 3(2,3) by (simp_all add: add.commute)
qed

lemma read_update_header:
  assumes "fr_good r" "fr_rest r = update_payload dev obj None data @ t"
    and "instrtype \<noteq> PACKET_IMAGE_UPDATE" "instrtype \<noteq> PACKET_BUFFER_UPDATE"
  shows "\<exists>d e s1 s2. read_handle dx isolated thread r = Inr (tr_index dev, d, s1) \<and>
    read_handle dx isolated thread s1 = Inr (tr_index (to_track obj), e, s2) \<and>
    read_version2_packet dx rext s2 = Inr (of_nat (2 + length data), None, r\<lparr>fr_read := fr_read r + 28\<rparr>)"
    "fr_good (r\<lparr>fr_read := fr_read r + 28\<rparr>)" "fr_rest (r\<lparr>fr_read := fr_read r + 28\<rparr>) = data @ t"
proof -
  have "fr_rest r = handle_bytes dev @ handle_bytes (to_track obj) @ to_le 8 (of_nat (2 + length data) :: u64) @ to_le 2 (0 :: u16) @ data @ t"
    using assms(2) by (simp add: update_payload_def update_header_def update_body_def)
  note 1 = read_handle_exact [OF assms(1) this]
  note 2 = read_handle_exact [OF 1(2,3)]
  note 3 = read_value_exact [OF 2(2,3) widths(4)]
  note 4 = read_value_exact [OF 3(2,3) widths(2)]
  obtain d e where "read_handle dx isolated thread r = Inr (tr_index dev, d, r\<lparr>fr_read := fr_read r + 9\<rparr>)"
    "read_handle dx isolated thread (r\<lparr>fr_read := fr_read r + 9\<rparr>) = Inr (tr_index (to_track obj), e, r\<lparr>fr_read := fr_read r + 18\<rparr>)"
    using 1(1) [of dx isolated thread] 2(1) [of dx isolated thread] by auto
  moreover have "read_version2_packet dx rext (r\<lparr>fr_read := fr_read r + 18\<rparr>) = Inr (of_nat (2 + length data), None, r\<lparr>fr_read := fr_read r + 28\<rparr>)"
    using 3(1) [of dx] 4(1) [of dx] by (simp add: read_version2_packet_def add.commute)
  ultimately show "\<exists>d e s1 s2. read_handle dx isolated thread r = Inr (tr_index dev, d, s1) \<and>
    read_handle dx isolated thread s1 = Inr (tr_index (to_track obj), e, s2) \<and>
    read_version2_packet dx rext s2 = Inr (of_nat (2 + length data), None, r\<lparr>fr_read := fr_read r + 28\<rparr>)" by blast
  show "fr_good (r\<lparr>fr_read := fr_read r + 28\<rparr>)" "fr_rest (r\<lparr>fr_read := fr_read r + 28\<rparr>) = data @ t" using 4(2,3) by (simp_all add: add.commute)
qed

lemma replay_update_ok:
  assumes "before_packet (packet_bytes instrtype (update_payload dev obj None (patch_bytes recs)) @ rest) lr"
    and "instrtype \<notin> {0, PACKET_IMAGE_UPDATE, PACKET_BUFFER_UPDATE}" "5 + length (update_payload dev obj None (patch_bytes recs)) < 2 ^ 32"
    and "\<forall>(_, p)\<in>set recs. p \<noteq> [] \<and> length p < 2 ^ 32" "\<not> rw_write_output e"
    and "find_memory (tr_index dev) (tr_index (to_track obj)) = Inr loc" "records_end 0 recs \<le> length (mem_map loc)"
  shows "\<exists>lr1 lr2. lr_step dx page False lr = Inr (instrtype, lr1) \<and>
    update_object_packet dx rext k e False find_memory type instrtype lr1 = Inr (tr_index dev, tr_index (to_track obj),
      of_nat (sum_list (map (length \<circ> snd) recs)), Some (apply_records 0 recs (mem_map loc)), lr2) \<and>
    before_packet rest lr2 \<and> (stream_kept (lr_stream lr) \<longrightarrow> stream_kept (lr_stream lr2))"
proof -
  let ?payload = "update_payload dev obj None (patch_bytes recs)"
  let ?mem = "mem_map loc"
  obtain lr1 where lr1: "lr_step dx page False lr = Inr (instrtype, lr1)" "lr_packet_open lr1" 
      "fr_good (lr_stream lr1)" "fr_rest (lr_stream lr1) = ?payload @ rest" "fr_done (lr_stream lr1)" "checkpoint_ok (lr_stream lr1)"
      "lr_packet_end lr1 = fr_read (lr_stream lr1) + length ?payload" "stream_kept (lr_stream lr) \<longrightarrow> stream_kept (lr_stream lr1)"
    using lr_step_packet [OF assms(1) _ assms(3), of dx page] assms(2) by auto
  define r where "r = lr_stream lr1"
  have r: "fr_good r" "fr_rest r = ?payload @ rest" using lr1(3,4) by (simp_all add: r_def)
  have instr: "instrtype \<noteq> PACKET_IMAGE_UPDATE" "instrtype \<noteq> PACKET_BUFFER_UPDATE" using assms(2) by simp_all
  note head = read_update_header [OF r instr]
  obtain r' where r': "read_patch dx (Some ?mem) (length ?mem) (r\<lparr>fr_read := fr_read r + 28\<rparr>) =
      Inr (of_nat (sum_list (map (length \<circ> snd) recs)), Some (apply_records 0 recs ?mem), r')"
      "r' = r\<lparr>fr_read := fr_read r + 28 + length (patch_bytes recs)\<rparr>"
    using read_patch_records [OF head(2,3) assms(4,7), of "length ?mem" dx 0] by (auto simp: read_patch_def)
  have end_r: "fr_read r + 28 + length (patch_bytes recs) = lr_packet_end lr1"
    using lr1(7) by (simp add: length_update_payload r_def)
  have "update_object_packet dx rext k e False find_memory type instrtype lr1 = Inr (tr_index dev, tr_index (to_track obj),
      of_nat (sum_list (map (length \<circ> snd) recs)), Some (apply_records 0 recs ?mem), lr1\<lparr>lr_stream := r'\<rparr>)"
    using head(1) [of dx False "cs_thread (lr_current lr1)" rext] instr r'(1) assms(5,6) by (auto simp: update_object_packet_def object_update_def Let_def simp flip: r_def)
  moreover have "before_packet rest (lr1\<lparr>lr_stream := r'\<rparr>)"
  proof -
    have len: "length (fr_data r) - fr_read r = length ?payload + length rest"
      using r(2) by (metis fr_rest_def length_append length_drop)
    have "drop (lr_packet_end lr1) (fr_data r) = rest"
      using r(2) lr1(7) by (metis fr_rest_def append_eq_conv_conj drop_drop add.commute r_def)
    then show ?thesis using lr1(2,5,6,7) len r(1) end_r
      by (simp add: before_packet_def r'(2) r_def fr_good_def Let_def)
  qed
  moreover have "stream_kept (lr_stream lr) \<longrightarrow> stream_kept r'"
    using lr1(8) by (auto simp: r'(2) r_def intro!: stream_kept_forward)
  ultimately show ?thesis using lr1(1) by (intro exI [of _ lr1] exI [of _ "lr1\<lparr>lr_stream := r'\<rparr>"]) simp
qed

text \<open>C9: an update of memory recorded and replayed.  When the part of an object that is compared differs from the clone,
  \<open>write_out_object\<close> updates the clone to the memory in that part, appends one complete packet to the stream, with the
  size of the part behind the handles stored in it, and counts the update; a replay thread that comes to the packet
  finds the device and the object of the capture and, where the memory of the object is as the clone was, leaves it as
  the clone is now, and stands before what follows.\<close>

theorem update_packet_round_trip:
  assumes "closed_ok dec s lw" "update_packet_type (to_type obj) = Inr type" "tr_created dev" "tr_created (to_track obj)"
    and "unat off + unat sz \<le> length clone" "length changed = length clone" "length clone < 2 ^ 28"
    and "take (unat sz) (drop (unat off) clone) \<noteq> take (unat sz) (drop (unat off) changed)"
  shows "\<exists>n payload lw'. write_out_object cx dev obj clone changed off sz None lw =
      Inr (n, overwrite clone (unat off) (take (unat sz) (drop (unat off) changed)),
        obj\<lparr>to_updates := to_updates obj + 1, to_written := to_written obj + n\<rparr>, lw') \<and>
    closed_ok dec (s @ packet_bytes type payload) lw' \<and>
    (\<forall>lr rest find_memory loc. before_packet (packet_bytes type payload @ rest) lr \<and>
        find_memory (tr_index dev) (tr_index (to_track obj)) = Inr loc \<and> mem_map loc = clone \<and> \<not> rw_write_output e \<longrightarrow>
      (\<exists>lr1 lr2. lr_step dx page False lr = Inr (type, lr1) \<and>
        update_object_packet dx rext k e False find_memory (to_type obj) type lr1 =
          Inr (tr_index dev, tr_index (to_track obj), ucast n,
            Some (overwrite clone (unat off) (take (unat sz) (drop (unat off) changed))), lr2) \<and>
        before_packet rest lr2))"
proof -
  have start: "find_patch_start clone changed (unat off) (unat sz) \<noteq> unat sz"
    using find_patch_start_props(2) [OF refl, of "unat off" clone changed "unat sz"] assms(8) by (auto simp: same_at_def)
  have x: "ext_ok None None" by (simp add: ext_ok_def)
  have fits: "length (case None of None \<Rightarrow> [] :: bytes | Some x \<Rightarrow> x) + 9 * (unat off + unat sz) + 41 < 2 ^ 32"
    using assms(5,7) by simp
  have within: "unat off + unat sz \<le> length changed" using assms(5,6) by simp
  obtain recs lw' where out: "write_out_object cx dev obj clone changed off sz None lw =
      Inr (of_nat (sum_list (map (length \<circ> snd) recs)), overwrite clone (unat off) (take (unat sz) (drop (unat off) changed)),
        obj\<lparr>to_updates := to_updates obj + 1, to_written := to_written obj + of_nat (sum_list (map (length \<circ> snd) recs))\<rparr>, lw')"
      "closed_ok dec (s @ packet_bytes type (update_payload dev obj None (patch_bytes recs))) lw'"
    and recs: "apply_records 0 recs clone = overwrite clone (unat off) (take (unat sz) (drop (unat off) changed))"
      "records_end 0 recs \<le> unat off + unat sz" "\<forall>(_, p)\<in>set recs. p \<noteq> [] \<and> length p < 2 ^ 32"
      "5 + length (update_payload dev obj None (patch_bytes recs)) < 2 ^ 32"
    using write_out_object_ok [OF assms(1-4) x assms(5) within fits start, of cx] by blast
  have type: "type \<notin> {0, PACKET_IMAGE_UPDATE, PACKET_BUFFER_UPDATE}" using assms(2) by (cases "to_type obj") auto
  have ends: "records_end 0 recs \<le> length clone" using recs(2) assms(5) by simp
  have count: "(ucast (of_nat n :: u64) :: u32) = of_nat n" for n
    by (simp add: word_unat_eq_iff unsigned_ucast_eq unat_of_nat take_bit_eq_mod mod_mod_cancel)
  have replayed: "\<exists>lr1 lr2. lr_step dx page False lr = Inr (type, lr1) \<and>
      update_object_packet dx rext k e False find_memory (to_type obj) type lr1 =
        Inr (tr_index dev, tr_index (to_track obj), ucast (of_nat (sum_list (map (length \<circ> snd) recs)) :: u64),
          Some (overwrite clone (unat off) (take (unat sz) (drop (unat off) changed))), lr2) \<and> before_packet rest lr2"
    if "before_packet (packet_bytes type (update_payload dev obj None (patch_bytes recs)) @ rest) lr"
      "find_memory (tr_index dev) (tr_index (to_track obj)) = Inr loc" "mem_map loc = clone" "\<not> rw_write_output e" for lr rest find_memory loc
    using replay_update_ok [where find_memory = find_memory, OF that(1) type recs(4,3) that(4,2), of dx page rext k "to_type obj"] that(3) ends recs(1)
    unfolding count by auto
  show ?thesis
    by (intro exI [of _ "of_nat (sum_list (map (length \<circ> snd) recs))"] exI [of _ "update_payload dev obj None (patch_bytes recs)"] exI [of _ lw'] conjI
        allI impI) (use out replayed in blast)+
qed

text \<open>A buffer of twelve bytes of which one byte changed, in the first packet of a stream.\<close>

definition sample_update_object :: tracked_object where
  "sample_update_object = \<lparr>to_track = sample_object 1, to_type = Buffer, to_backing = Some 0, to_offset = 0, to_size = 12, to_written = 0,
    to_updates = 0, to_accessible = True, to_alive = True, to_device = 0, to_device_address = 0\<rparr>"

theorem update_packet_round_trip_witness:
  "\<exists>n obj lw. write_out_object plain_codec (sample_object 1) sample_update_object (replicate 12 0) (replicate 8 0 @ [5, 0, 0, 0]) 0 12 None
      (lava_file_writer_new 1 (file_writer_set plain_codec (file_writer_new 8))) = Inr (n, replicate 8 0 @ [5, 0, 0, 0], obj, lw) \<and>
    to_updates obj = 1 \<and>
    (\<exists>lr1 lr2. lr_step plain_decoder 4096 False (lava_file_reader_new 1 (sample_reader (fw_stream (\<lambda>x. x) (lw_stream lw)))) =
        Inr (PACKET_BUFFER_UPDATE2, lr1) \<and>
      update_object_packet plain_decoder (\<lambda>_. Inl End_of_data) sample_constants sample_rewriter False
        (\<lambda>_ _. Inr \<lparr>om_needs_init = True, om_mapped = replicate 12 7\<rparr>) Buffer PACKET_BUFFER_UPDATE2 lr1 =
        Inr (7, 7, ucast n, Some (replicate 8 0 @ [5, 0, 0, 0]), lr2))"
proof -
  let ?clone = "replicate 12 0 :: bytes" and ?changed = "replicate 8 0 @ [5, 0, 0, 0] :: bytes"
  let ?lw = "lava_file_writer_new 1 (file_writer_set plain_codec (file_writer_new 8))"
  let ?loc = "\<lparr>om_needs_init = True, om_mapped = replicate 12 7\<rparr>"
  let ?memory = "(\<lambda>_ _. Inr ?loc) :: u32 \<Rightarrow> u32 \<Rightarrow> object_memory result"
  have nums: "0 < (8 :: nat)" "(8 :: nat) < 2 ^ 32" by simp_all
  have obj: "update_packet_type (to_type sample_update_object) = Inr PACKET_BUFFER_UPDATE2" "tr_created (to_track sample_update_object)"
      "tr_created (sample_object 1)" "tr_index (to_track sample_update_object) = 7" "tr_index (sample_object 1) = 7"
      "to_type sample_update_object = Buffer" "to_updates sample_update_object = 0"
    by (simp_all add: sample_update_object_def sample_object_def)
  have bounds: "unat (0 :: u64) + unat (12 :: u64) \<le> length ?clone" "length ?changed = length ?clone" "length ?clone < 2 ^ 28" by simp_all
  have differ: "take (unat (12 :: u64)) (drop (unat (0 :: u64)) ?clone) \<noteq> take (unat (12 :: u64)) (drop (unat (0 :: u64)) ?changed)"
    (is "?l \<noteq> ?r")
  proof -
    have "?l ! 8 = 0" "?r ! 8 = 5" by (simp_all add: nth_append)
    moreover have "(0 :: u8) \<noteq> 5" by simp
    ultimately show ?thesis by metis
  qed
  have new: "overwrite ?clone (unat (0 :: u64)) (take (unat (12 :: u64)) (drop (unat (0 :: u64)) ?changed)) = ?changed"
    by (simp add: overwrite_def)
  have rw: "\<not> rw_write_output sample_rewriter" by (simp add: sample_rewriter_def)
  have mem: "?memory (tr_index (sample_object 1)) (tr_index (to_track sample_update_object)) = Inr ?loc" "mem_map ?loc = ?clone"
    by (simp_all add: mem_map_def)
  have closed: "closed_ok (\<lambda>x. x) [] ?lw" by (rule writer_new_closed [OF nums])
  obtain n payload lw where run: "write_out_object plain_codec (sample_object 1) sample_update_object ?clone ?changed 0 12 None ?lw =
      Inr (n, ?changed, sample_update_object\<lparr>to_updates := to_updates sample_update_object + 1,
        to_written := to_written sample_update_object + n\<rparr>, lw)"
      "closed_ok (\<lambda>x. x) ([] @ packet_bytes PACKET_BUFFER_UPDATE2 payload) lw"
    and again: "\<forall>lr rest find_memory loc. before_packet (packet_bytes PACKET_BUFFER_UPDATE2 payload @ rest) lr \<and>
        find_memory (tr_index (sample_object 1)) (tr_index (to_track sample_update_object)) = Inr loc \<and> mem_map loc = ?clone \<and> \<not> rw_write_output sample_rewriter \<longrightarrow>
      (\<exists>lr1 lr2. lr_step plain_decoder 4096 False lr = Inr (PACKET_BUFFER_UPDATE2, lr1) \<and>
        update_object_packet plain_decoder (\<lambda>_. Inl End_of_data) sample_constants sample_rewriter False find_memory (to_type sample_update_object)
          PACKET_BUFFER_UPDATE2 lr1 = Inr (tr_index (sample_object 1), tr_index (to_track sample_update_object), ucast n, Some ?changed, lr2) \<and>
        before_packet rest lr2)"
    using update_packet_round_trip [OF closed obj(1,3,2) bounds differ, of plain_codec sample_rewriter plain_decoder 4096 "\<lambda>_. Inl End_of_data" sample_constants] unfolding new by blast
  have "fw_stream (\<lambda>x. x) (lw_stream lw) = packet_bytes PACKET_BUFFER_UPDATE2 payload" using run(2) by (simp add: closed_ok_def)
  then have "before_packet (packet_bytes PACKET_BUFFER_UPDATE2 payload @ [])
      (lava_file_reader_new 1 (sample_reader (fw_stream (\<lambda>x. x) (lw_stream lw))))"
    by (simp add: before_packet_def lava_file_reader_new_def sample_reader_def checkpoint_ok_def)
  from again [rule_format, OF conjI [OF this conjI [OF mem(1) conjI [OF mem(2) rw]]]] run(1) show ?thesis unfolding obj by force
qed

text \<open>C39: looking at a packet without replaying it.  An isolated reader skips the patch of an update with the size of the
  packet's payload as the bound for positions in the object; an update of one stretch that starts further into the object than the
  payload is long, which replays well into the memory of the object, fails the assertion in \<open>read_patch\<close>.\<close>

theorem isolated_update_fails:
  assumes "before_packet (packet_bytes instrtype (update_payload dev obj None (patch_bytes [(off, p)])) @ rest) lr"
    and "instrtype \<notin> {0, PACKET_IMAGE_UPDATE, PACKET_BUFFER_UPDATE}" "length p < 2 ^ 31" "p \<noteq> []" "18 + length p < unat off"
    and "find_memory (tr_index dev) (tr_index (to_track obj)) = Inr loc" "unat off + length p \<le> length (mem_map loc)" "\<not> rw_write_output e"
  shows "\<exists>lr1 r. lr_step dx page False lr = Inr (instrtype, lr1) \<and>
    update_object_packet dx rext k e True find_memory type instrtype lr1 = Inl Assertion_failed \<and>
    update_object_packet dx rext k e False find_memory type instrtype lr1 = Inr r"
proof -
  let ?payload = "update_payload dev obj None (patch_bytes [(off, p)])"
  have len: "length (patch_bytes [(off, p)]) = 16 + length p" by (simp add: patch_bytes_def record_bytes_def)
  then have fits: "5 + length ?payload < 2 ^ 32" using assms(3) by (simp add: length_update_payload)
  have one: "\<forall>(_, q)\<in>set [(off, p)]. q \<noteq> [] \<and> length q < 2 ^ 32" using assms(3,4) by simp
  have ends: "records_end 0 [(off, p)] \<le> length (mem_map loc)" using assms(7) by simp
  obtain lr1 r where lr1: "lr_step dx page False lr = Inr (instrtype, lr1)" "update_object_packet dx rext k e False find_memory type instrtype lr1 = Inr r"
    using replay_update_ok [where find_memory = find_memory, OF assms(1,2) fits one assms(8,6), of dx page rext k type] ends by blast
  have at: "fr_good (lr_stream lr1)" "fr_rest (lr_stream lr1) = ?payload @ rest"
    using lr_step_packet [OF assms(1) _ fits, of dx page] assms(2) lr1(1) by auto
  have instr: "instrtype \<noteq> PACKET_IMAGE_UPDATE" "instrtype \<noteq> PACKET_BUFFER_UPDATE" using assms(2) by simp_all
  note head = read_update_header [OF at instr]
  let ?s = "(lr_stream lr1)\<lparr>fr_read := fr_read (lr_stream lr1) + 28\<rparr>"
  have bound: "unat (of_nat (2 + length (patch_bytes [(off, p)])) :: u64) = 18 + length p"
    unfolding len using assms(3) by (subst unat_of_nat_less) simp_all
  have "fr_rest ?s = to_le 4 off @ to_le 4 (of_nat (length p) :: u32) @ p @ to_le 4 (0 :: u32) @ to_le 4 (0 :: u32) @ rest"
    using head(3) by (simp add: patch_bytes_def record_bytes_def)
  then have "fr_take dx 4 ?s = Inr (to_le 4 off, ?s\<lparr>fr_read := fr_read ?s + 4\<rparr>)" using fr_take_prefix [OF head(2), of "to_le 4 off" _ 4 dx] by simp
  then have "read_patch dx None (18 + length p) ?s = Inl Assertion_failed"
    using assms(5) unfolding read_patch_def by (subst read_patch_loop.simps) simp
  then have "update_object_packet dx rext k e True find_memory type instrtype lr1 = Inl Assertion_failed"
    using head(1) [of dx True "cs_thread (lr_current lr1)" rext] instr bound by (auto simp: update_object_packet_def Let_def)
  then show ?thesis using lr1 by blast
qed

theorem isolated_update_fails_witness:
  "\<exists>lr1 r. lr_step plain_decoder 4096 False (lava_file_reader_new 1 (sample_reader
      (packet_bytes PACKET_BUFFER_UPDATE2 (update_payload (sample_object 1) sample_update_object None (patch_bytes [(100, [5])]))))) =
      Inr (PACKET_BUFFER_UPDATE2, lr1) \<and>
    update_object_packet plain_decoder (\<lambda>_. Inl End_of_data) sample_constants sample_rewriter True
      (\<lambda>_ _. Inr \<lparr>om_needs_init = True, om_mapped = replicate 128 7\<rparr>) Buffer PACKET_BUFFER_UPDATE2 lr1 = Inl Assertion_failed \<and>
    update_object_packet plain_decoder (\<lambda>_. Inl End_of_data) sample_constants sample_rewriter False
      (\<lambda>_ _. Inr \<lparr>om_needs_init = True, om_mapped = replicate 128 7\<rparr>) Buffer PACKET_BUFFER_UPDATE2 lr1 = Inr r"
proof (rule isolated_update_fails)
  let ?data = "packet_bytes PACKET_BUFFER_UPDATE2 (update_payload (sample_object 1) sample_update_object None (patch_bytes [(100, [5])]))"
  show "before_packet (?data @ []) (lava_file_reader_new 1 (sample_reader ?data))"
    by (simp add: before_packet_def lava_file_reader_new_def sample_reader_def checkpoint_ok_def)
qed (simp_all add: mem_map_def sample_rewriter_def, simp)

end
