(* ===== verification/TracedUpdates.thy ===== *)
theory TracedUpdates
  imports MemoryUpdates
begin

text \<open>What a trace holds of the memory of objects: the update packets in it, one after the other, with the packets of API
  calls between them, and the contents that the updates give an object that starts out cleared.  These are the terms in
  which the capture (\<^verbatim>\<open>src/hardcode_write.cpp\<close>) and the replay (\<^verbatim>\<open>src/hardcode_read.cpp\<close>) of memory are related.\<close>

section \<open>Packets of a trace\<close>

text \<open>An update of an object, with the records of its patch, or a call with the bytes of its parameters.\<close>

datatype traced = Update_packet nat "(u32 \<times> bytes) list" | Call_packet bytes

definition object_packet :: "tracked_object \<Rightarrow> u8" where
  "object_packet od = projr (update_packet_type (to_type od))"

fun traced_bytes :: "trackable \<Rightarrow> (nat \<Rightarrow> tracked_object) \<Rightarrow> traced \<Rightarrow> bytes" where
  "traced_bytes dev objs (Update_packet obj recs) =
    packet_bytes (object_packet (objs obj)) (update_payload dev (objs obj) None (patch_bytes recs))"
| "traced_bytes dev objs (Call_packet p) = packet_bytes PACKET_VULKAN_API_CALL p"

definition trace_bytes :: "trackable \<Rightarrow> (nat \<Rightarrow> tracked_object) \<Rightarrow> traced list \<Rightarrow> bytes" where
  "trace_bytes dev objs es = concat (map (traced_bytes dev objs) es)"

definition patch_ok :: "trackable \<Rightarrow> tracked_object \<Rightarrow> (u32 \<times> bytes) list \<Rightarrow> bool" where
  "patch_ok dev od recs \<longleftrightarrow> records_end 0 recs \<le> unat (to_size od) \<and> (\<forall>(_, p)\<in>set recs. p \<noteq> [] \<and> length p < 2 ^ 32) \<and>
    5 + length (update_payload dev od None (patch_bytes recs)) < 2 ^ 32"

fun traced_ok :: "trackable \<Rightarrow> (nat \<Rightarrow> tracked_object) \<Rightarrow> traced \<Rightarrow> bool" where
  "traced_ok dev objs (Update_packet obj recs) \<longleftrightarrow> to_accessible (objs obj) \<and> to_type (objs obj) \<noteq> Other_type \<and>
    to_backing (objs obj) \<noteq> None \<and> patch_ok dev (objs obj) recs"
| "traced_ok dev objs (Call_packet p) \<longleftrightarrow> 5 + length p < 2 ^ 32"

text \<open>The contents of an object after the packets of a trace.\<close>

fun contents_after :: "traced list \<Rightarrow> nat \<Rightarrow> bytes \<Rightarrow> bytes" where
  "contents_after [] obj buf = buf"
| "contents_after (Update_packet o' recs # es) obj buf = contents_after es obj (if o' = obj then apply_records 0 recs buf else buf)"
| "contents_after (Call_packet p # es) obj buf = contents_after es obj buf"

lemma contents_after_append: "contents_after (es @ fs) obj buf = contents_after fs obj (contents_after es obj buf)"
  by (induction es obj buf rule: contents_after.induct) simp_all

lemma trace_bytes_simps [simp]:
  "trace_bytes dev objs [] = []"
  "trace_bytes dev objs (e # es) = traced_bytes dev objs e @ trace_bytes dev objs es"
  "trace_bytes dev objs (es @ fs) = trace_bytes dev objs es @ trace_bytes dev objs fs"
  by (simp_all add: trace_bytes_def)

text \<open>Counting updates changes nothing of this.\<close>

definition same_identity :: "(nat \<Rightarrow> tracked_object) \<Rightarrow> (nat \<Rightarrow> tracked_object) \<Rightarrow> bool" where
  "same_identity objs objs' \<longleftrightarrow> (\<forall>obj. \<exists>u w. objs' obj = (objs obj)\<lparr>to_updates := u, to_written := w\<rparr>)"

lemma same_identity_fields:
  assumes "same_identity objs objs'"
  shows "to_track (objs' obj) = to_track (objs obj)" "to_type (objs' obj) = to_type (objs obj)"
    "to_backing (objs' obj) = to_backing (objs obj)" "to_offset (objs' obj) = to_offset (objs obj)"
    "to_size (objs' obj) = to_size (objs obj)" "to_accessible (objs' obj) = to_accessible (objs obj)"
proof -
  obtain u w where "objs' obj = (objs obj)\<lparr>to_updates := u, to_written := w\<rparr>" using assms unfolding same_identity_def by blast
  then show "to_track (objs' obj) = to_track (objs obj)" "to_type (objs' obj) = to_type (objs obj)"
    "to_backing (objs' obj) = to_backing (objs obj)" "to_offset (objs' obj) = to_offset (objs obj)"
    "to_size (objs' obj) = to_size (objs obj)" "to_accessible (objs' obj) = to_accessible (objs obj)" by simp_all
qed

lemma same_identity_refl: "same_identity objs objs"
proof -
  have "\<exists>u w. od = od\<lparr>to_updates := u, to_written := w\<rparr>" for od :: tracked_object
    by (rule exI [of _ "to_updates od"], rule exI [of _ "to_written od"]) simp
  then show ?thesis by (simp add: same_identity_def)
qed

lemma same_identity_trans:
  assumes "same_identity a b" "same_identity b c"
  shows "same_identity a c"
proof -
  have "\<exists>u w. c obj = (a obj)\<lparr>to_updates := u, to_written := w\<rparr>" for obj
  proof -
    obtain u w where 1: "b obj = (a obj)\<lparr>to_updates := u, to_written := w\<rparr>" using assms(1) unfolding same_identity_def by blast
    obtain u' w' where "c obj = (b obj)\<lparr>to_updates := u', to_written := w'\<rparr>" using assms(2) unfolding same_identity_def by blast
    then show ?thesis unfolding 1 by (intro exI [of _ u'] exI [of _ w']) simp
  qed
  then show ?thesis by (simp add: same_identity_def)
qed

lemma same_identity_bytes:
  assumes "same_identity objs objs'"
  shows "trace_bytes dev objs' es = trace_bytes dev objs es" "traced_ok dev objs' e = traced_ok dev objs e"
proof -
  note f = same_identity_fields [OF assms]
  have payload: "update_payload dev (objs' obj) None data = update_payload dev (objs obj) None data" for obj data
    by (simp add: update_payload_def update_header_def f)
  have "traced_bytes dev objs' e = traced_bytes dev objs e" for e
    by (cases e) (simp_all add: payload object_packet_def f)
  then have "traced_bytes dev objs' = traced_bytes dev objs" by (rule ext)
  then show "trace_bytes dev objs' es = trace_bytes dev objs es" by (simp add: trace_bytes_def)
  show "traced_ok dev objs' e = traced_ok dev objs e" by (cases e) (simp_all add: patch_ok_def payload f)
qed

section \<open>Recording\<close>

lemma overwrite_same: "off + n \<le> length b \<Longrightarrow> overwrite b off (take n (drop off b)) = b"
proof -
  assume len: "off + n \<le> length b"
  have "take off b @ take n (drop off b) @ drop (off + n) b = b" by (metis append_take_drop_id drop_drop add.commute)
  then show ?thesis using len by (simp add: overwrite_def)
qed

lemma overwrite_take: "pos + length p \<le> n \<Longrightarrow> overwrite (take n buf) pos p = take n (overwrite buf pos p)"
proof -
  assume fit: "pos + length p \<le> n"
  have "drop (pos + length p) (take n buf) = take (n - (pos + length p)) (drop (pos + length p) buf)" by (rule drop_take)
  moreover have "take n (take pos buf @ p @ drop (pos + length p) buf) =
      take pos buf @ p @ take (n - (pos + length p)) (drop (pos + length p) buf)"
    using fit by (cases "pos \<le> length buf"; cases "n = pos") (simp_all add: min_def)
  ultimately show ?thesis using fit by (simp add: overwrite_def min_def)
qed

lemma apply_records_take: "records_end pos recs \<le> n \<Longrightarrow> apply_records pos recs (take n buf) = take n (apply_records pos recs buf)"
proof (induction pos recs buf rule: apply_records.induct)
  case (2 pos off p recs buf)
  have "pos + unat off + length p \<le> n" using 2(2) records_end_ge [of "pos + unat off + length p" recs] by simp
  then show ?case using 2 by (simp add: overwrite_take)
qed simp

text \<open>Several updates of one object.\<close>

lemma contents_after_updates:
  "contents_after (map (Update_packet o') rss) obj buf = (if o' = obj then fold (apply_records 0) rss buf else buf)"
  by (induction rss arbitrary: buf) simp_all

lemma trace_bytes_updates: "trace_bytes dev objs (map (Update_packet obj) rss) =
    concat (map (\<lambda>recs. packet_bytes (object_packet (objs obj)) (update_payload dev (objs obj) None (patch_bytes recs))) rss)"
  by (simp add: trace_bytes_def comp_def)

lemma fold_records_take:
  "list_all (patch_ok dev od) rss \<Longrightarrow> unat (to_size od) \<le> n \<Longrightarrow>
    fold (apply_records 0) rss (take n buf) = take n (fold (apply_records 0) rss buf)"
  by (induction rss arbitrary: buf) (simp_all add: patch_ok_def apply_records_take)

text \<open>What \<open>write_out_object\<close> leaves in the stream: nothing when nothing changed, else one update.\<close>

lemma write_out_traced:
  assumes "closed_ok dec s lw" "to_type obj \<noteq> Other_type" "tr_created dev" "tr_created (to_track obj)"
    and "unat off + unat sz \<le> length clone" "unat off + unat sz \<le> length changed" "unat off + unat sz < 2 ^ 28"
    and "unat off + unat sz \<le> unat (to_size obj)"
  shows "\<exists>n u w rss lw'. write_out_object cx dev obj clone changed off sz None lw =
      Inr (n, overwrite clone (unat off) (take (unat sz) (drop (unat off) changed)), obj\<lparr>to_updates := u, to_written := w\<rparr>, lw') \<and>
    closed_ok dec (s @ concat (map (\<lambda>recs. packet_bytes (object_packet obj) (update_payload dev obj None (patch_bytes recs))) rss)) lw' \<and>
    list_all (patch_ok dev obj) rss \<and>
    fold (apply_records 0) rss clone = overwrite clone (unat off) (take (unat sz) (drop (unat off) changed))"
proof (cases "find_patch_start clone changed (unat off) (unat sz) = unat sz")
  case True
  have "take (unat sz) (drop (unat off) clone) = take (unat sz) (drop (unat off) changed)"
    using find_patch_start_props(2) [OF refl, of "unat off" clone changed "unat sz"] True by (simp add: same_at_def)
  then have "overwrite clone (unat off) (take (unat sz) (drop (unat off) changed)) = clone"
    using overwrite_same [OF assms(5)] by simp
  then show ?thesis using write_out_object_unchanged [OF True] assms(1)
    by (intro exI [of _ 0] exI [of _ "to_updates obj"] exI [of _ "to_written obj"] exI [of _ "[]"] exI [of _ lw]) simp
next
  case False
  obtain type where type: "update_packet_type (to_type obj) = Inr type" using assms(2) by (cases "to_type obj") auto
  have x: "ext_ok None None" by (simp add: ext_ok_def)
  have "length (case None of None \<Rightarrow> [] :: bytes | Some x \<Rightarrow> x) + 9 * (unat off + unat sz) + 41 < 2 ^ 32" using assms(7) by simp
  from write_out_object_ok [OF assms(1) type assms(3,4) x assms(5,6) this False, of cx] obtain recs lw' where
    out: "write_out_object cx dev obj clone changed off sz None lw =
      Inr (of_nat (sum_list (map (length \<circ> snd) recs)), overwrite clone (unat off) (take (unat sz) (drop (unat off) changed)),
        obj\<lparr>to_updates := to_updates obj + 1, to_written := to_written obj + of_nat (sum_list (map (length \<circ> snd) recs))\<rparr>, lw')"
      "closed_ok dec (s @ packet_bytes type (update_payload dev obj None (patch_bytes recs))) lw'"
      "apply_records 0 recs clone = overwrite clone (unat off) (take (unat sz) (drop (unat off) changed))"
      "records_end 0 recs \<le> unat off + unat sz" "\<forall>(_, p)\<in>set recs. p \<noteq> [] \<and> length p < 2 ^ 32"
      "5 + length (update_payload dev obj None (patch_bytes recs)) < 2 ^ 32" by blast
  have "patch_ok dev obj recs" using out(4-6) assms(8) by (simp add: patch_ok_def)
  moreover have "object_packet obj = type" using type by (simp add: object_packet_def)
  ultimately show ?thesis using out(1-3)
    by (intro exI [of _ "of_nat (sum_list (map (length \<circ> snd) recs))"] exI [of _ "to_updates obj + 1"]
        exI [of _ "to_written obj + of_nat (sum_list (map (length \<circ> snd) recs))"] exI [of _ "[recs]"] exI [of _ lw']) simp
qed

end
