(* ===== verification/MemoryCapture.thy ===== *)
theory MemoryCapture
  imports TracedUpdates "HOL-Library.AList"
begin

text \<open>Which host writes the capture has to look for, and that it finds them.  The sources are
  \<^verbatim>\<open>src/hardcode_write.cpp\<close>, the handlers of mapping, unmapping, flushing and submitting, and \<open>trackedcmdbuffer_trace\<close> of
  \<^verbatim>\<open>src/lavatube.h\<close>.  A memory object has a clone, the contents the trace knows of, and the ranges that were exposed to
  the application since they were last compared.  Command buffers collect what they touch; before a submit, the touched
  and exposed ranges are compared with the clone and the differences are recorded.  The handlers run under the memory
  mutex, so each of them is one step.\<close>

section \<open>Memory objects and command buffers\<close>

text \<open>The part of \<open>trackedmemory\<close> the capture uses; \<open>dm_contents\<close> is the memory itself, as the host sees it.\<close>

record device_memory =
  dm_host_visible :: bool
  dm_host_coherent :: bool
  dm_allocation_size :: u64
  dm_mapped :: bool
  dm_offset :: u64
  dm_size :: u64
  dm_clone :: "bytes option"
  dm_exposed :: exposure
  dm_contents :: bytes

text \<open>Objects, memory objects and command buffers stand for pointers; an unordered map is an association list.\<close>

type_synonym touched = "(nat \<times> exposure) list"

datatype index_type = Uint16 | Uint32 | Other_index

record cmdbuffer =
  cb_device :: u32
  cb_touched :: touched
  cb_uses_device_address_shader :: bool
  cb_index_buffer :: "nat option"
  cb_index_offset :: u64
  cb_index_type :: index_type

record memory_capture =
  mc_writer :: lava_file_writer
  mc_objects :: "nat \<Rightarrow> tracked_object"
  mc_buffers :: "nat list"
  mc_memories :: "nat \<Rightarrow> device_memory"
  mc_cmdbufs :: "nat \<Rightarrow> cmdbuffer"

abbreviation VK_WHOLE_SIZE :: u64 where "VK_WHOLE_SIZE \<equiv> - 1"

definition ranges_of :: "touched \<Rightarrow> nat \<Rightarrow> exposure" where
  "ranges_of t obj = (case map_of t obj of None \<Rightarrow> exposure_new | Some e \<Rightarrow> e)"

definition touch :: "(nat \<Rightarrow> tracked_object) \<Rightarrow> nat \<Rightarrow> u64 \<Rightarrow> u64 \<Rightarrow> touched \<Rightarrow> touched result" where
  "touch objs obj off sz t =
    (if \<not> to_accessible (objs obj) then Inr t
     else let sz = (if sz = VK_WHOLE_SIZE then to_size (objs obj) - off else sz) in
       result_bind (exposure_add_os off sz (ranges_of t obj)) (\<lambda>e. Inr (AList.update obj e t)))"

definition touch_index_buffer :: "(nat \<Rightarrow> tracked_object) \<Rightarrow> u64 \<Rightarrow> u64 \<Rightarrow> cmdbuffer \<Rightarrow> cmdbuffer result" where
  "touch_index_buffer objs firstIndex indexCount cb = (case cb_index_buffer cb of
     None \<Rightarrow> Inl Out_of_range
   | Some b \<Rightarrow>
       let multiplier = (case cb_index_type cb of Uint16 \<Rightarrow> 2 | Uint32 \<Rightarrow> 4 | Other_index \<Rightarrow> 1);
           off = cb_index_offset cb + firstIndex * multiplier;
           sz = (if indexCount = VK_WHOLE_SIZE then to_size (objs b) - off else indexCount * multiplier)
       in assert_that (off + sz \<le> to_size (objs b))
         (result_bind (touch objs b off sz (cb_touched cb)) (\<lambda>t. Inr (cb\<lparr>cb_touched := t\<rparr>))))"

fun add_ranges :: "range_t list \<Rightarrow> exposure \<Rightarrow> exposure result" where
  "add_ranges [] e = Inr e"
| "add_ranges (r # rs) e = result_bind (exposure_add (rfirst r) (rlast r) e) (add_ranges rs)"

fun touch_merge :: "touched \<Rightarrow> touched \<Rightarrow> touched result" where
  "touch_merge [] t = Inr t"
| "touch_merge ((obj, e) # other) t = (case map_of t obj of
     None \<Rightarrow> touch_merge other (AList.update obj e t)
   | Some e' \<Rightarrow> result_bind (add_ranges (exposure_list e) e') (\<lambda>e'. touch_merge other (AList.update obj e' t)))"

fun touch_buffers :: "(nat \<Rightarrow> tracked_object) \<Rightarrow> u32 \<Rightarrow> nat list \<Rightarrow> touched \<Rightarrow> touched result" where
  "touch_buffers objs dev [] t = Inr t"
| "touch_buffers objs dev (b # bs) t =
    (if to_device (objs b) \<noteq> dev \<or> to_device_address (objs b) = 0 \<or> \<not> tr_created (to_track (objs b)) then touch_buffers objs dev bs t
     else result_bind (touch objs b 0 (to_size (objs b)) t) (touch_buffers objs dev bs))"

definition touch_all_address_taken_buffers :: "nat \<Rightarrow> memory_capture \<Rightarrow> memory_capture result" where
  "touch_all_address_taken_buffers c mc = (let cb = mc_cmdbufs mc c in
    result_bind (touch_buffers (mc_objects mc) (cb_device cb) (mc_buffers mc) (cb_touched cb)) (\<lambda>t.
      Inr (mc\<lparr>mc_cmdbufs := (mc_cmdbufs mc)(c := cb\<lparr>cb_touched := t\<rparr>)\<rparr>)))"

section \<open>Submitting\<close>

type_synonym memory_ranges = "(nat \<times> range_t) list"

definition merge_range :: "nat \<Rightarrow> range_t \<Rightarrow> memory_ranges \<Rightarrow> memory_ranges result" where
  "merge_range m minrange ranges = assert_that (rfirst minrange \<le> rlast minrange) (case map_of ranges m of
     None \<Rightarrow> Inr (AList.update m minrange ranges)
   | Some r \<Rightarrow> assert_that (rfirst r \<le> rlast r)
       (Inr (AList.update m (mk_range (min (rfirst r) (rfirst minrange)) (max (rlast r) (rlast minrange))) ranges)))"

fun queue_ranges :: "memory_capture \<Rightarrow> nat \<Rightarrow> touched \<Rightarrow> memory_ranges \<times> nat list \<Rightarrow> (memory_ranges \<times> nat list) result" where
  "queue_ranges mc c [] (ranges, cs) = Inr (ranges, cs)"
| "queue_ranges mc c ((obj, e) # t) (ranges, cs) = (case to_backing (mc_objects mc obj) of
     None \<Rightarrow> queue_ranges mc c t (ranges, cs)
   | Some m \<Rightarrow>
       let minrange = exposure_overlap (dm_exposed (mc_memories mc m)) e (to_offset (mc_objects mc obj)) in
       if \<not> range_valid minrange then queue_ranges mc c t (ranges, cs)
       else result_bind (merge_range m minrange ranges) (\<lambda>ranges. queue_ranges mc c t (ranges, List.insert c cs)))"

definition queue_update :: "nat \<Rightarrow> memory_capture \<times> memory_ranges \<times> nat list \<Rightarrow> (memory_capture \<times> memory_ranges \<times> nat list) result" where
  "queue_update c = (\<lambda>(mc, acc).
    result_bind (if cb_uses_device_address_shader (mc_cmdbufs mc c) then touch_all_address_taken_buffers c mc else Inr mc) (\<lambda>mc.
    result_bind (queue_ranges mc c (cb_touched (mc_cmdbufs mc c)) acc) (\<lambda>acc. Inr (mc, acc))))"

text \<open>The part of the memory that is mapped while it is compared: the mapping of the application when it is large
  enough, else one that is made for the comparison.\<close>

definition binding :: "device_memory \<Rightarrow> range_t \<Rightarrow> (u64 \<times> u64) result" where
  "binding mem r =
    (if dm_mapped mem \<and> dm_offset mem \<le> rfirst r \<and> dm_size mem + dm_offset mem \<ge> rlast r then Inr (dm_offset mem, dm_size mem)
     else assert_that (rfirst r \<le> rlast r)
       (let binding_size = rlast r - rfirst r + 1 in
        assert_that (binding_size \<le> dm_allocation_size mem) (Inr (rfirst r, binding_size))))"

text \<open>The touched ranges of one object.  The clone and the memory are handed to \<open>write_out_object\<close> from the start of the
  object on; comparing bytes that are not mapped is an access out of range.\<close>

fun update_ranges :: "codec \<Rightarrow> trackable \<Rightarrow> nat \<Rightarrow> nat \<Rightarrow> u64 \<times> u64 \<Rightarrow> range_t list \<Rightarrow> memory_capture \<Rightarrow> memory_capture result" where
  "update_ranges cx dev m obj b [] mc = Inr mc"
| "update_ranges cx dev m obj b (r # rs) mc =
    (let od = mc_objects mc obj; mem = mc_memories mc m; start = rfirst r + to_offset od; end = rlast r + to_offset od in
     assert_that (end < to_offset od + to_size od)
     (result_bind (exposure_fetch start end (dm_mapped mem) (dm_exposed mem)) (\<lambda>(v, ex).
      let mem = mem\<lparr>dm_exposed := ex\<rparr> in
      if \<not> range_valid v then update_ranges cx dev m obj b rs (mc\<lparr>mc_memories := (mc_memories mc)(m := mem)\<rparr>)
      else case dm_clone mem of
        None \<Rightarrow> Inl Out_of_range
      | Some clone \<Rightarrow>
          if rfirst v < fst b \<or> rlast v - fst b \<ge> snd b then Inl Out_of_range
          else let k = unat (to_offset od) in
            result_bind (write_out_object cx dev od (drop k clone) (drop k (dm_contents mem)) (rfirst v - to_offset od)
                (rlast v - rfirst v + 1) None (mc_writer mc)) (\<lambda>(_, changed, od, lw).
              update_ranges cx dev m obj b rs (mc\<lparr>mc_writer := lw, mc_objects := (mc_objects mc)(obj := od),
                mc_memories := (mc_memories mc)(m := mem\<lparr>dm_clone := Some (take k clone @ changed)\<rparr>)\<rparr>)))))"

fun update_objects :: "codec \<Rightarrow> trackable \<Rightarrow> nat \<Rightarrow> u64 \<times> u64 \<Rightarrow> touched \<Rightarrow> memory_capture \<Rightarrow> memory_capture result" where
  "update_objects cx dev m b [] mc = Inr mc"
| "update_objects cx dev m b ((obj, e) # t) mc =
    (if to_backing (mc_objects mc obj) \<noteq> Some m then update_objects cx dev m b t mc
     else assert_that (to_alive (mc_objects mc obj))
       (result_bind (update_ranges cx dev m obj b (exposure_list e) mc) (update_objects cx dev m b t)))"

fun update_cmdbufs :: "codec \<Rightarrow> trackable \<Rightarrow> nat \<Rightarrow> u64 \<times> u64 \<Rightarrow> nat list \<Rightarrow> memory_capture \<Rightarrow> memory_capture result" where
  "update_cmdbufs cx dev m b [] mc = Inr mc"
| "update_cmdbufs cx dev m b (c # cs) mc =
    result_bind (update_objects cx dev m b (cb_touched (mc_cmdbufs mc c)) mc) (update_cmdbufs cx dev m b cs)"

fun memory_update :: "codec \<Rightarrow> trackable \<Rightarrow> memory_ranges \<Rightarrow> nat list \<Rightarrow> memory_capture \<Rightarrow> memory_capture result" where
  "memory_update cx dev [] cs mc = Inr mc"
| "memory_update cx dev ((m, r) # ranges) cs mc =
    assert_that (dm_host_visible (mc_memories mc m))
    (result_bind (binding (mc_memories mc m) r) (\<lambda>b.
     result_bind (update_cmdbufs cx dev m b cs mc) (memory_update cx dev ranges cs)))"

fun queue_updates :: "nat list \<Rightarrow> memory_capture \<times> memory_ranges \<times> nat list \<Rightarrow> (memory_capture \<times> memory_ranges \<times> nat list) result" where
  "queue_updates [] acc = Inr acc"
| "queue_updates (c # cs) acc = result_bind (queue_update c acc) (queue_updates cs)"

text \<open>\<open>trace_pre_vkQueueSubmit\<close> and its variants, with the command buffers of all submits.\<close>

definition trace_pre_vkQueueSubmit :: "codec \<Rightarrow> trackable \<Rightarrow> bool \<Rightarrow> nat list \<Rightarrow> memory_capture \<Rightarrow> memory_capture result" where
  "trace_pre_vkQueueSubmit cx dev explicit_host_updates cs mc =
    (if explicit_host_updates then Inr mc
     else result_bind (queue_updates cs (mc, [], [])) (\<lambda>(mc, ranges, used). memory_update cx dev ranges used mc))"

section \<open>Mapping and flushing\<close>

definition trace_post_vkMapMemory :: "bool \<Rightarrow> u64 \<Rightarrow> u64 \<Rightarrow> device_memory \<Rightarrow> device_memory result" where
  "trace_post_vkMapMemory success off sz mem =
    (if \<not> success then Inr mem
     else let mem1 = mem\<lparr>dm_mapped := True, dm_offset := off,
            dm_size := (if sz = VK_WHOLE_SIZE \<or> sz + off > dm_allocation_size mem then dm_allocation_size mem - off else sz),
            dm_clone := (case dm_clone mem of None \<Rightarrow> Some (replicate (unat (dm_allocation_size mem)) 0) | Some c \<Rightarrow> Some c)\<rparr> in
       if dm_host_coherent mem
       then result_bind (exposure_add_os off (dm_size mem1) (dm_exposed mem1)) (\<lambda>e. Inr (mem1\<lparr>dm_exposed := e\<rparr>))
       else Inr mem1)"

definition trace_post_vkUnmapMemory_common :: "device_memory \<Rightarrow> device_memory" where
  "trace_post_vkUnmapMemory_common mem = mem\<lparr>dm_mapped := False, dm_offset := 0, dm_size := 0\<rparr>"

text \<open>The requested range cut down to what is mapped, or nothing.\<close>

definition capture_clamp_mapped_flush_range :: "u64 \<Rightarrow> u64 \<Rightarrow> device_memory \<Rightarrow> (u64 \<times> u64) option" where
  "capture_clamp_mapped_flush_range off sz mem =
    (if \<not> dm_mapped mem \<or> dm_size mem = 0 then None
     else let mapped_limit = dm_offset mem + dm_size mem;
              requested_end = (if sz \<noteq> VK_WHOLE_SIZE then (if sz > UINT64_MAX - off then UINT64_MAX else off + sz) else mapped_limit);
              mapped_start = max off (dm_offset mem); mapped_end = min requested_end mapped_limit
          in if mapped_start \<ge> mapped_end then None else Some (mapped_start, mapped_end))"

text \<open>One range of \<open>trace_post_vkFlushMappedMemoryRanges\<close>, on a device without explicit host updates and without marked
  offsets.\<close>

definition flush_range :: "u64 \<Rightarrow> u64 \<Rightarrow> device_memory \<Rightarrow> device_memory result" where
  "flush_range off sz mem = (case capture_clamp_mapped_flush_range off sz mem of
     None \<Rightarrow> Inr mem
   | Some (mapped_start, mapped_end) \<Rightarrow>
       result_bind (exposure_add_os mapped_start (mapped_end - mapped_start) (dm_exposed mem)) (\<lambda>e. Inr (mem\<lparr>dm_exposed := e\<rparr>)))"

section \<open>What the capture keeps true\<close>

abbreviation allocated :: "device_memory \<Rightarrow> nat" where "allocated mem \<equiv> unat (dm_allocation_size mem)"

definition mapped_bytes :: "device_memory \<Rightarrow> nat set" where
  "mapped_bytes mem = {unat (dm_offset mem)..<unat (dm_offset mem) + unat (dm_size mem)}"

definition mem_ok :: "device_memory \<Rightarrow> bool" where
  "mem_ok mem \<longleftrightarrow> length (dm_contents mem) = allocated mem \<and>
    (\<forall>c. dm_clone mem = Some c \<longrightarrow> length c = allocated mem \<and> dm_host_visible mem) \<and>
    exposure_inv (dm_exposed mem) \<and> exposed (dm_exposed mem) \<subseteq> {..<allocated mem} \<and>
    (dm_clone mem = None \<longrightarrow> exposed (dm_exposed mem) = {} \<and> \<not> dm_mapped mem) \<and>
    (dm_mapped mem \<longrightarrow> mapped_bytes mem \<subseteq> {..<allocated mem} \<and>
      (dm_host_coherent mem \<longrightarrow> mapped_bytes mem \<subseteq> exposed (dm_exposed mem)))"

text \<open>A byte of the memory that the trace knows of.\<close>

definition clean :: "device_memory \<Rightarrow> nat \<Rightarrow> bool" where
  "clean mem i \<longleftrightarrow> (\<exists>c. dm_clone mem = Some c \<and> i < length c \<and> c ! i = dm_contents mem ! i)"

text \<open>\<open>V\<close> are the bytes the host wrote and made visible to the device.\<close>

definition synced :: "nat set \<Rightarrow> device_memory \<Rightarrow> bool" where
  "synced V mem \<longleftrightarrow> V \<subseteq> {..<allocated mem} \<and> (\<forall>i\<in>V. clean mem i \<or> i \<in> exposed (dm_exposed mem)) \<and> (dm_clone mem = None \<longrightarrow> V = {})"

definition object_ok :: "(nat \<Rightarrow> device_memory) \<Rightarrow> tracked_object \<Rightarrow> bool" where
  "object_ok mems od \<longleftrightarrow> (to_accessible od \<longrightarrow> to_alive od \<and> tr_created (to_track od) \<and> to_type od \<noteq> Other_type \<and>
    0 < unat (to_size od) \<and> unat (to_size od) < 2 ^ 28 \<and>
    (\<forall>m. to_backing od = Some m \<longrightarrow> unat (to_offset od) + unat (to_size od) \<le> allocated (mems m)))"

definition touched_ok :: "(nat \<Rightarrow> tracked_object) \<Rightarrow> touched \<Rightarrow> bool" where
  "touched_ok objs t \<longleftrightarrow> distinct (map fst t) \<and> (\<forall>(obj, e)\<in>set t. to_accessible (objs obj) \<and> exposure_inv e \<and>
    exposed e \<subseteq> {..<unat (to_size (objs obj))})"

definition capture_inv :: "(nat \<Rightarrow> nat set) \<Rightarrow> memory_capture \<Rightarrow> bool" where
  "capture_inv V mc \<longleftrightarrow> (\<exists>s. closed_ok (\<lambda>x. x) s (mc_writer mc)) \<and>
    (\<forall>m. mem_ok (mc_memories mc m) \<and> synced (V m) (mc_memories mc m)) \<and>
    (\<forall>obj. object_ok (mc_memories mc) (mc_objects mc obj)) \<and>
    (\<forall>c. touched_ok (mc_objects mc) (cb_touched (mc_cmdbufs mc c)))"

text \<open>How comparing changes a memory object: only the clone and the exposed ranges, and no clean byte becomes dirty.\<close>

definition mem_advances :: "device_memory \<Rightarrow> device_memory \<Rightarrow> bool" where
  "mem_advances mem mem' \<longleftrightarrow> mem' = mem\<lparr>dm_clone := dm_clone mem', dm_exposed := dm_exposed mem'\<rparr> \<and>
    exposed (dm_exposed mem') \<subseteq> exposed (dm_exposed mem) \<and> (\<forall>i. clean mem i \<longrightarrow> clean mem' i)"

text \<open>The bytes of an object that the clone knows; memory that was never mapped is cleared when its clone is made.\<close>

definition object_image :: "device_memory \<Rightarrow> tracked_object \<Rightarrow> bytes" where
  "object_image mem od = take (unat (to_size od)) (drop (unat (to_offset od))
    (case dm_clone mem of None \<Rightarrow> replicate (allocated mem) 0 | Some c \<Rightarrow> c))"

definition separate :: "(nat \<Rightarrow> tracked_object) \<Rightarrow> bool" where
  "separate objs \<longleftrightarrow> (\<forall>o1 o2 m. o1 \<noteq> o2 \<and> to_accessible (objs o1) \<and> to_accessible (objs o2) \<and>
    to_backing (objs o1) = Some m \<and> to_backing (objs o2) = Some m \<longrightarrow>
    unat (to_offset (objs o1)) + unat (to_size (objs o1)) \<le> unat (to_offset (objs o2)) \<or>
    unat (to_offset (objs o2)) + unat (to_size (objs o2)) \<le> unat (to_offset (objs o1)))"

text \<open>The packets \<open>es\<close> were added to the stream, and they turn what the clones held of each object into what they hold now,
  when the objects do not share bytes of their memory.\<close>

definition logs :: "trackable \<Rightarrow> memory_capture \<Rightarrow> memory_capture \<Rightarrow> traced list \<Rightarrow> bool" where
  "logs dev mc mc' es \<longleftrightarrow> list_all (traced_ok dev (mc_objects mc)) es \<and>
    (\<forall>s. closed_ok (\<lambda>x. x) s (mc_writer mc) \<longrightarrow> closed_ok (\<lambda>x. x) (s @ trace_bytes dev (mc_objects mc) es) (mc_writer mc')) \<and>
    (separate (mc_objects mc) \<longrightarrow> (\<forall>obj m. to_accessible (mc_objects mc obj) \<and> to_backing (mc_objects mc obj) = Some m \<longrightarrow>
      object_image (mc_memories mc' m) (mc_objects mc obj) = contents_after es obj (object_image (mc_memories mc m) (mc_objects mc obj))))"

definition advances :: "trackable \<Rightarrow> memory_capture \<Rightarrow> memory_capture \<Rightarrow> bool" where
  "advances dev mc mc' \<longleftrightarrow> mc_cmdbufs mc' = mc_cmdbufs mc \<and> mc_buffers mc' = mc_buffers mc \<and>
    same_identity (mc_objects mc) (mc_objects mc') \<and> (\<forall>m. mem_advances (mc_memories mc m) (mc_memories mc' m)) \<and>
    (\<exists>es. logs dev mc mc' es)"

lemma mem_advances_refl: "mem_advances mem mem"
  by (simp add: mem_advances_def)

lemma mem_advances_trans:
  assumes "mem_advances a b" "mem_advances b c"
  shows "mem_advances a c"
proof -
  have "c = b\<lparr>dm_clone := dm_clone c, dm_exposed := dm_exposed c\<rparr>" "b = a\<lparr>dm_clone := dm_clone b, dm_exposed := dm_exposed b\<rparr>"
    using assms by (simp_all add: mem_advances_def)
  then have "c = a\<lparr>dm_clone := dm_clone c, dm_exposed := dm_exposed c\<rparr>" by (cases a; cases b; cases c) simp
  then show ?thesis using assms unfolding mem_advances_def by blast
qed

lemma mem_advances_fields:
  assumes "mem_advances mem mem'"
  shows "dm_host_visible mem' = dm_host_visible mem" "dm_allocation_size mem' = dm_allocation_size mem"
    "dm_mapped mem' = dm_mapped mem" "dm_offset mem' = dm_offset mem" "dm_size mem' = dm_size mem" "dm_contents mem' = dm_contents mem"
proof -
  have "mem' = mem\<lparr>dm_clone := dm_clone mem', dm_exposed := dm_exposed mem'\<rparr>" using assms by (simp add: mem_advances_def)
  then show "dm_host_visible mem' = dm_host_visible mem" "dm_allocation_size mem' = dm_allocation_size mem"
    "dm_mapped mem' = dm_mapped mem" "dm_offset mem' = dm_offset mem" "dm_size mem' = dm_size mem" "dm_contents mem' = dm_contents mem"
    by (metis device_memory.ext_inject device_memory.surjective device_memory.update_convs(7,8))+
qed

lemma object_image_identity: "same_identity objs objs' \<Longrightarrow> object_image mem (objs' obj) = object_image mem (objs obj)"
  by (simp add: object_image_def same_identity_fields)

lemma separate_identity: "same_identity objs objs' \<Longrightarrow> separate objs' = separate objs"
  by (simp add: separate_def same_identity_fields)

lemma logs_trans:
  assumes "same_identity (mc_objects a) (mc_objects b)" "logs dev a b es" "logs dev b c fs"
  shows "logs dev a c (es @ fs)"
proof -
  note same = same_identity_bytes [OF assms(1), of dev] same_identity_fields [OF assms(1)] object_image_identity [OF assms(1)] separate_identity [OF assms(1)]
  have "traced_ok dev (mc_objects b) = traced_ok dev (mc_objects a)" by (rule ext) (rule same(2))
  then have "list_all (traced_ok dev (mc_objects a)) (es @ fs)" using assms(2,3) by (simp add: logs_def)
  moreover have "closed_ok (\<lambda>x. x) (s @ trace_bytes dev (mc_objects a) (es @ fs)) (mc_writer c)" if "closed_ok (\<lambda>x. x) s (mc_writer a)" for s
  proof -
    have "closed_ok (\<lambda>x. x) (s @ trace_bytes dev (mc_objects a) es) (mc_writer b)" using assms(2) that by (simp add: logs_def)
    then have "closed_ok (\<lambda>x. x) ((s @ trace_bytes dev (mc_objects a) es) @ trace_bytes dev (mc_objects b) fs) (mc_writer c)"
      using assms(3) unfolding logs_def by blast
    then show ?thesis by (simp add: same(1))
  qed
  moreover have "object_image (mc_memories c m) (mc_objects a obj) = contents_after (es @ fs) obj (object_image (mc_memories a m) (mc_objects a obj))"
    if "separate (mc_objects a)" "to_accessible (mc_objects a obj)" "to_backing (mc_objects a obj) = Some m" for obj m
  proof -
    have "object_image (mc_memories b m) (mc_objects a obj) = contents_after es obj (object_image (mc_memories a m) (mc_objects a obj))"
      using assms(2) that unfolding logs_def by blast
    moreover have "object_image (mc_memories c m) (mc_objects b obj) = contents_after fs obj (object_image (mc_memories b m) (mc_objects b obj))"
      using assms(3) that unfolding logs_def same by blast
    ultimately show ?thesis by (simp add: same contents_after_append)
  qed
  ultimately show ?thesis unfolding logs_def by blast
qed

lemma logs_nothing:
  assumes "mc_writer mc' = mc_writer mc" "\<And>m od. object_image (mc_memories mc' m) od = object_image (mc_memories mc m) od"
  shows "logs dev mc mc' []"
  using assms by (simp add: logs_def)

lemma object_image_cong:
  "dm_clone mem' = dm_clone mem \<Longrightarrow> dm_allocation_size mem' = dm_allocation_size mem \<Longrightarrow> object_image mem' od = object_image mem od"
  by (cases "dm_clone mem") (simp_all add: object_image_def)

lemma advances_refl: "advances dev mc mc"
proof -
  have "logs dev mc mc []" by (rule logs_nothing) simp_all
  then show ?thesis by (auto simp: advances_def mem_advances_refl same_identity_refl)
qed

lemma advances_trans:
  assumes "advances dev a b" "advances dev b c"
  shows "advances dev a c"
proof -
  have "\<exists>es. logs dev a c es" using assms logs_trans unfolding advances_def by blast
  moreover have "mem_advances (mc_memories a m) (mc_memories c m)" for m using assms mem_advances_trans unfolding advances_def by blast
  moreover have "same_identity (mc_objects a) (mc_objects c)" using assms same_identity_trans unfolding advances_def by blast
  ultimately show ?thesis using assms unfolding advances_def by simp
qed

lemma advances_object:
  assumes "advances dev mc mc'"
  shows "to_backing (mc_objects mc' obj) = to_backing (mc_objects mc obj)" "to_offset (mc_objects mc' obj) = to_offset (mc_objects mc obj)"
    "to_size (mc_objects mc' obj) = to_size (mc_objects mc obj)" "to_accessible (mc_objects mc' obj) = to_accessible (mc_objects mc obj)"
proof -
  have "same_identity (mc_objects mc) (mc_objects mc')" using assms by (simp add: advances_def)
  then show "to_backing (mc_objects mc' obj) = to_backing (mc_objects mc obj)" "to_offset (mc_objects mc' obj) = to_offset (mc_objects mc obj)"
    "to_size (mc_objects mc' obj) = to_size (mc_objects mc obj)" "to_accessible (mc_objects mc' obj) = to_accessible (mc_objects mc obj)"
    by (simp_all add: same_identity_fields)
qed

lemma advances_mem: "advances dev mc mc' \<Longrightarrow> mem_advances (mc_memories mc m) (mc_memories mc' m)"
  by (simp add: advances_def)

section \<open>Comparing one range\<close>

lemma mem_compare:
  assumes "mem_ok mem" "synced V mem" "exposure_inv ex"
    and ex: "exposed ex = (if dm_mapped mem then exposed (dm_exposed mem) else exposed (dm_exposed mem) - {a..b})"
    and clone: "dm_clone mem = None \<Longrightarrow> clone = None"
      "\<And>c. dm_clone mem = Some c \<Longrightarrow> \<exists>c'. clone = Some c' \<and> length c' = length c \<and>
        (\<forall>i<length c. c' ! i = c ! i \<or> c' ! i = dm_contents mem ! i) \<and>
        (\<forall>i\<in>exposed (dm_exposed mem) \<inter> {a..b}. c' ! i = dm_contents mem ! i)"
  shows "mem_ok (mem\<lparr>dm_exposed := ex, dm_clone := clone\<rparr>)" "synced V (mem\<lparr>dm_exposed := ex, dm_clone := clone\<rparr>)"
    "mem_advances mem (mem\<lparr>dm_exposed := ex, dm_clone := clone\<rparr>)"
    "\<forall>i\<in>V. a \<le> i \<and> i \<le> b \<longrightarrow> clean (mem\<lparr>dm_exposed := ex, dm_clone := clone\<rparr>) i"
proof -
  let ?mem = "mem\<lparr>dm_exposed := ex, dm_clone := clone\<rparr>"
  have sub: "exposed ex \<subseteq> exposed (dm_exposed mem)" using ex by auto
  have mono: "clean ?mem i" if old: "clean mem i" for i
  proof -
    obtain c where c: "dm_clone mem = Some c" "i < length c" "c ! i = dm_contents mem ! i" using old unfolding clean_def by blast
    obtain c' where "clone = Some c'" "length c' = length c" "c' ! i = c ! i \<or> c' ! i = dm_contents mem ! i" using clone(2) [OF c(1)] c(2) by blast
    then show ?thesis using c by (auto simp: clean_def)
  qed
  have compared: "clean ?mem i" if i: "i \<in> V" "a \<le> i" "i \<le> b" for i
  proof (cases "clean mem i")
    case False
    then have "i \<in> exposed (dm_exposed mem)" using assms(2) i(1) by (auto simp: synced_def)
    moreover obtain c where c: "dm_clone mem = Some c" using assms(2) i(1) by (cases "dm_clone mem") (auto simp: synced_def)
    moreover have "i < length c" using assms(1,2) i(1) c by (auto simp: synced_def mem_ok_def)
    moreover obtain c' where "clone = Some c'" "length c' = length c" "\<forall>i\<in>exposed (dm_exposed mem) \<inter> {a..b}. c' ! i = dm_contents mem ! i"
      using clone(2) [OF c] by blast
    ultimately show ?thesis using i by (auto simp: clean_def)
  qed (rule mono)
  then show "\<forall>i\<in>V. a \<le> i \<and> i \<le> b \<longrightarrow> clean ?mem i" by blast
  have "clean ?mem i \<or> i \<in> exposed ex" if "i \<in> V" for i
    using assms(2) that mono [of i] compared [OF that] ex unfolding synced_def by (cases "i \<in> exposed (dm_exposed mem)") auto
  moreover have none: "clone = None \<longleftrightarrow> dm_clone mem = None" using clone by (cases "dm_clone mem") auto
  ultimately show "synced V ?mem" using assms(2) unfolding synced_def by auto
  have "length c' = allocated mem \<and> dm_host_visible mem" if new: "clone = Some c'" for c'
  proof -
    obtain c where "dm_clone mem = Some c" using new none by (cases "dm_clone mem") auto
    then show ?thesis using clone(2) new assms(1) by (fastforce simp: mem_ok_def)
  qed
  then show "mem_ok ?mem" using assms(1,3) sub none ex by (auto simp: mem_ok_def mapped_bytes_def)
  show "mem_advances mem ?mem" using mono sub by (simp add: mem_advances_def)
qed

lemma overwrite_drop: "k \<le> length b \<Longrightarrow> take k b @ overwrite (drop k b) p src = overwrite b (k + p) src"
proof -
  assume "k \<le> length b"
  moreover have "take (k + p) b = take k b @ take p (drop k b)" by (rule take_add)
  ultimately show ?thesis by (simp add: overwrite_def ac_simps)
qed

lemma capture_inv_compared:
  assumes "capture_inv V mc" "closed_ok (\<lambda>x. x) s lw" "mem_ok mem" "synced (V m) mem" "mem_advances (mc_memories mc m) mem"
    and "logs dev mc (mc\<lparr>mc_writer := lw, mc_objects := (mc_objects mc)(obj := (mc_objects mc obj)\<lparr>to_updates := u, to_written := w\<rparr>),
      mc_memories := (mc_memories mc)(m := mem)\<rparr>) es"
  shows "capture_inv V (mc\<lparr>mc_writer := lw, mc_objects := (mc_objects mc)(obj := (mc_objects mc obj)\<lparr>to_updates := u, to_written := w\<rparr>),
      mc_memories := (mc_memories mc)(m := mem)\<rparr>)"
    (is "capture_inv V ?mc")
    and "advances dev mc (mc\<lparr>mc_writer := lw, mc_objects := (mc_objects mc)(obj := (mc_objects mc obj)\<lparr>to_updates := u, to_written := w\<rparr>),
      mc_memories := (mc_memories mc)(m := mem)\<rparr>)"
proof -
  have alloc: "allocated (mc_memories ?mc n) = allocated (mc_memories mc n)" for n
    using mem_advances_fields(2) [OF assms(5)] by simp
  have fields: "to_accessible (mc_objects ?mc o') = to_accessible (mc_objects mc o')" "to_alive (mc_objects ?mc o') = to_alive (mc_objects mc o')"
      "to_track (mc_objects ?mc o') = to_track (mc_objects mc o')" "to_type (mc_objects ?mc o') = to_type (mc_objects mc o')"
      "to_size (mc_objects ?mc o') = to_size (mc_objects mc o')" "to_backing (mc_objects ?mc o') = to_backing (mc_objects mc o')"
      "to_offset (mc_objects ?mc o') = to_offset (mc_objects mc o')" for o'
    by simp_all
  have "object_ok (mc_memories ?mc) (mc_objects ?mc o')" for o'
    using assms(1) unfolding capture_inv_def object_ok_def fields alloc by blast
  moreover have "touched_ok (mc_objects ?mc) (cb_touched (mc_cmdbufs ?mc c))" for c
    using assms(1) unfolding capture_inv_def touched_ok_def fields by simp
  moreover have "mem_ok (mc_memories ?mc n) \<and> synced (V n) (mc_memories ?mc n)" for n
    using assms(1,3,4) by (simp add: capture_inv_def)
  ultimately show "capture_inv V ?mc" using assms(2) unfolding capture_inv_def by (auto simp del: fun_upd_apply)
  have "\<exists>u w. mc_objects ?mc o' = (mc_objects mc o')\<lparr>to_updates := u, to_written := w\<rparr>" for o'
  proof (cases "o' = obj")
    case False
    then show ?thesis by (intro exI [of _ "to_updates (mc_objects mc o')"] exI [of _ "to_written (mc_objects mc o')"]) simp
  qed auto
  then have "same_identity (mc_objects mc) (mc_objects ?mc)" unfolding same_identity_def by blast
  moreover have "mem_advances (mc_memories mc n) (mc_memories ?mc n)" for n using assms(5) by (simp add: mem_advances_refl)
  ultimately show "advances dev mc ?mc"
    unfolding advances_def by (intro conjI allI exI [of _ es] assms(6)) (simp_all del: fun_upd_apply)
qed

definition in_binding :: "u64 \<times> u64 \<Rightarrow> nat \<Rightarrow> bool" where
  "in_binding b i \<longleftrightarrow> unat (fst b) \<le> i \<and> i < unat (fst b) + unat (snd b)"

lemma in_binding_check:
  assumes "in_binding b (unat x)" "in_binding b (unat y)"
  shows "\<not> (x < fst b \<or> y - fst b \<ge> snd b)"
proof -
  have "fst b \<le> y" using assms(2) by (simp add: in_binding_def word_le_nat_alt)
  then have "unat (y - fst b) = unat y - unat (fst b)" by (rule unat_sub)
  then show ?thesis using assms by (auto simp: in_binding_def word_less_nat_alt word_le_nat_alt)
qed

lemma hull_members:
  assumes "is_hull v S" "range_valid v"
  shows "unat (rfirst v) \<in> S" "unat (rlast v) \<in> S" "S \<subseteq> range_set v" "unat (rfirst v) \<le> unat (rlast v)"
  using assms by (auto simp: is_hull_def range_valid_def word_le_nat_alt split: if_splits)

lemma hull_empty: "is_hull v S \<Longrightarrow> \<not> range_valid v \<Longrightarrow> S = {}"
  by (auto simp: is_hull_def split: if_splits)

text \<open>Overwriting the part of the clone that was compared.\<close>

lemma compared_clone:
  assumes "is_hull v (E \<inter> {a..b})" "range_valid v" "length clone = n" "length contents = n" "unat (rlast v) < n"
  shows "let c = overwrite clone (unat (rfirst v)) (take (unat (rlast v) - unat (rfirst v) + 1) (drop (unat (rfirst v)) contents)) in
    length c = length clone \<and> (\<forall>i<length clone. c ! i = clone ! i \<or> c ! i = contents ! i) \<and> (\<forall>i\<in>E \<inter> {a..b}. c ! i = contents ! i)"
proof -
  note v = hull_members [OF assms(1,2)]
  define src where "src = take (unat (rlast v) - unat (rfirst v) + 1) (drop (unat (rfirst v)) contents)"
  have len: "length src = unat (rlast v) - unat (rfirst v) + 1" using assms(4,5) v(4) by (simp add: src_def)
  then have fit: "unat (rfirst v) + length src \<le> length clone" using assms(3,5) v(4) by simp
  have src_nth: "src ! (i - unat (rfirst v)) = contents ! i" if "unat (rfirst v) \<le> i" "i < unat (rfirst v) + length src" for i
    using that len by (simp add: src_def)
  have nth: "overwrite clone (unat (rfirst v)) src ! i = (if unat (rfirst v) \<le> i \<and> i < unat (rfirst v) + length src then contents ! i else clone ! i)"
    if "i < length clone" for i using overwrite_nth [OF fit that] src_nth by simp
  have "overwrite clone (unat (rfirst v)) src ! i = contents ! i" if "i \<in> E \<inter> {a..b}" for i
  proof -
    have "i \<in> range_set v" using v(3) that by blast
    then have "unat (rfirst v) \<le> i" "i < unat (rfirst v) + length src" using len v(4) by (auto simp: range_set_def)
    then show ?thesis using nth [of i] fit by simp
  qed
  then show ?thesis using nth fit unfolding Let_def src_def [symmetric] by auto
qed

text \<open>Overwriting inside one object leaves the images of the others.\<close>

lemma overwrite_elsewhere:
  assumes "length src + a \<le> length c" "a + length src \<le> p \<or> p + n \<le> a"
  shows "take n (drop p (overwrite c a src)) = take n (drop p c)"
proof (rule nth_equalityI)
  show "length (take n (drop p (overwrite c a src))) = length (take n (drop p c))" using assms(1) by simp
  fix i assume "i < length (take n (drop p (overwrite c a src)))"
  then have i: "i < n" "p + i < length c" using assms(1) by (simp_all add: less_diff_conv add.commute)
  have "overwrite c a src ! (p + i) = c ! (p + i)"
    using overwrite_nth [of a src c "p + i"] i assms by auto
  then show "take n (drop p (overwrite c a src)) ! i = take n (drop p c) ! i" using i assms(1) by simp
qed

lemma compared_logs:
  fixes mc :: memory_capture and obj m :: nat
  defines "od \<equiv> mc_objects mc obj"
  defines "k \<equiv> unat (to_offset od)"
  assumes s: "closed_ok (\<lambda>x. x) s (mc_writer mc)" "closed_ok (\<lambda>x. x) (s @ trace_bytes dev (mc_objects mc) (map (Update_packet obj) rss)) lw"
    and rss: "list_all (patch_ok dev od) rss" "fold (apply_records 0) rss (drop k c) = drop k c'"
    and od: "to_accessible od" "to_type od \<noteq> Other_type" "to_backing od = Some m"
    and clone: "dm_clone (mc_memories mc m) = Some c" "dm_clone mem = Some c'" "c' = overwrite c a src"
    and room: "k \<le> a" "a + length src \<le> k + unat (to_size od)" "k + unat (to_size od) \<le> length c"
  shows "logs dev mc (mc\<lparr>mc_writer := lw, mc_objects := (mc_objects mc)(obj := od\<lparr>to_updates := u, to_written := w\<rparr>),
      mc_memories := (mc_memories mc)(m := mem)\<rparr>) (map (Update_packet obj) rss)"
    (is "logs dev mc ?mc ?es")
proof -
  have "list_all (traced_ok dev (mc_objects mc)) ?es"
    using rss(1) od unfolding od_def by (simp add: list_all_iff)
  moreover have "closed_ok (\<lambda>x. x) (t @ trace_bytes dev (mc_objects mc) ?es) (mc_writer ?mc)" if "closed_ok (\<lambda>x. x) t (mc_writer mc)" for t
  proof -
    have "t = s" using that s(1) by (simp add: closed_ok_def)
    then show ?thesis using s(2) by simp
  qed
  moreover have "object_image (mc_memories ?mc n) (mc_objects mc o') = contents_after ?es o' (object_image (mc_memories mc n) (mc_objects mc o'))"
    if sep: "separate (mc_objects mc)" "to_accessible (mc_objects mc o')" "to_backing (mc_objects mc o') = Some n" for o' n
  proof (cases "o' = obj")
    case True
    then have "n = m" using that(3) od(3) by (simp add: od_def)
    moreover have "fold (apply_records 0) rss (take (unat (to_size od)) (drop k c)) = take (unat (to_size od)) (drop k c')"
      using fold_records_take [OF rss(1), of "unat (to_size od)" "drop k c"] rss(2) by simp
    ultimately show ?thesis using True clone(1,2)
      by (simp add: object_image_def contents_after_updates flip: od_def k_def)
  next
    case False
    have "unat (to_offset (mc_objects mc o')) + unat (to_size (mc_objects mc o')) \<le> k \<or>
        k + unat (to_size od) \<le> unat (to_offset (mc_objects mc o'))" if "n = m"
    proof -
      have "to_backing (mc_objects mc o') = Some m" using sep(3) that by simp
      then show ?thesis using sep(1,2) od(1,3) False unfolding separate_def od_def k_def by blast
    qed
    then have "n = m \<Longrightarrow> take (unat (to_size (mc_objects mc o'))) (drop (unat (to_offset (mc_objects mc o'))) c') =
        take (unat (to_size (mc_objects mc o'))) (drop (unat (to_offset (mc_objects mc o'))) c)"
      unfolding clone(3) using room by (intro overwrite_elsewhere) auto
    then show ?thesis using False clone(1,2) by (simp add: object_image_def contents_after_updates)
  qed
  ultimately show ?thesis unfolding logs_def by blast
qed

text \<open>Writing out a stretch of an object: what it leaves in the stream and in the clone.\<close>

lemma write_out_captured:
  fixes mc :: memory_capture and obj m :: nat
  defines "od \<equiv> mc_objects mc obj" and "mem \<equiv> mc_memories mc m"
  defines "k \<equiv> unat (to_offset od)"
  assumes inv: "capture_inv V mc" and dev: "tr_created dev" and obj: "to_accessible od" "to_backing od = Some m"
    and c: "dm_clone mem = Some c" and off: "k + unat off + unat sz \<le> k + unat (to_size od)"
  shows "\<exists>n changed u w lw s es. write_out_object cx dev od (drop k c) (drop k (dm_contents mem)) off sz None (mc_writer mc) =
      Inr (n, changed, od\<lparr>to_updates := u, to_written := w\<rparr>, lw) \<and>
    take k c @ changed = overwrite c (k + unat off) (take (unat sz) (drop (k + unat off) (dm_contents mem))) \<and> closed_ok (\<lambda>x. x) s lw \<and>
    (\<forall>mem1. dm_clone mem1 = Some (take k c @ changed) \<longrightarrow> logs dev mc (mc\<lparr>mc_writer := lw,
      mc_objects := (mc_objects mc)(obj := od\<lparr>to_updates := u, to_written := w\<rparr>), mc_memories := (mc_memories mc)(m := mem1)\<rparr>) es)"
proof -
  have okm: "mem_ok mem" using inv by (simp add: capture_inv_def mem_def)
  obtain s where closed: "closed_ok (\<lambda>x. x) s (mc_writer mc)" using inv by (auto simp: capture_inv_def)
  have od: "tr_created (to_track od)" "to_type od \<noteq> Other_type" "unat (to_size od) < 2 ^ 28" "k + unat (to_size od) \<le> allocated mem"
    using inv obj by (auto simp: capture_inv_def object_ok_def od_def mem_def k_def)
  have len: "length c = allocated mem" "length (dm_contents mem) = allocated mem" using okm c by (simp_all add: mem_ok_def)
  have fits: "unat off + unat sz \<le> length (drop k c)" "unat off + unat sz \<le> length (drop k (dm_contents mem))"
      "unat off + unat sz < 2 ^ 28" "unat off + unat sz \<le> unat (to_size od)"
    using off od(3,4) len by simp_all
  define src where "src = take (unat sz) (drop (k + unat off) (dm_contents mem))"
  have src: "take (unat sz) (drop (unat off) (drop k (dm_contents mem))) = src" "length src = unat sz"
    using off od(4) len by (simp_all add: src_def add.commute)
  obtain n u w rss lw where out: "write_out_object cx dev od (drop k c) (drop k (dm_contents mem)) off sz None (mc_writer mc) =
        Inr (n, overwrite (drop k c) (unat off) src, od\<lparr>to_updates := u, to_written := w\<rparr>, lw)"
      "closed_ok (\<lambda>x. x) (s @ trace_bytes dev (mc_objects mc) (map (Update_packet obj) rss)) lw" "list_all (patch_ok dev od) rss"
      "fold (apply_records 0) rss (drop k c) = overwrite (drop k c) (unat off) src"
    using write_out_traced [OF closed od(2) dev od(1) fits, of cx] unfolding src trace_bytes_updates od_def [symmetric] by blast
  define c' where "c' = overwrite c (k + unat off) src"
  have cut: "take k c @ overwrite (drop k c) (unat off) src = c'"
    using overwrite_drop [of k c "unat off" src] od(4) len(1) by (simp add: c'_def)
  have "drop k (take k c @ x) = x" for x using od(4) len(1) by simp
  then have records: "fold (apply_records 0) rss (drop k c) = drop k c'" unfolding out(4) cut [symmetric] by metis
  have room: "k \<le> k + unat off" "k + unat off + length src \<le> k + unat (to_size od)" "k + unat (to_size od) \<le> length c"
    using off od(4) len(1) src(2) by simp_all
  have "logs dev mc (mc\<lparr>mc_writer := lw, mc_objects := (mc_objects mc)(obj := od\<lparr>to_updates := u, to_written := w\<rparr>),
      mc_memories := (mc_memories mc)(m := mem1)\<rparr>) (map (Update_packet obj) rss)" if "dm_clone mem1 = Some c'" for mem1
    using compared_logs [OF closed out(2), folded od_def, folded k_def, OF out(3) records obj(1) od(2) obj(2) c [unfolded mem_def] that c'_def room] .
  then show ?thesis using out(1,2) cut unfolding c'_def [unfolded src_def, symmetric]
    by (intro exI [of _ n] exI [of _ "overwrite (drop k c) (unat off) src"] exI [of _ u] exI [of _ w] exI [of _ lw]
        exI [of _ "s @ trace_bytes dev (mc_objects mc) (map (Update_packet obj) rss)"] exI [of _ "map (Update_packet obj) rss"]) simp
qed

lemma update_range_step:
  assumes inv: "capture_inv V mc" and dev: "tr_created dev"
    and obj: "to_accessible (mc_objects mc obj)" "to_backing (mc_objects mc obj) = Some m"
    and r: "rfirst r \<le> rlast r" "unat (rlast r) < unat (to_size (mc_objects mc obj))"
    and b: "\<And>i. i \<in> exposed (dm_exposed (mc_memories mc m)) \<Longrightarrow> unat (to_offset (mc_objects mc obj)) + unat (rfirst r) \<le> i \<Longrightarrow>
      i \<le> unat (to_offset (mc_objects mc obj)) + unat (rlast r) \<Longrightarrow> in_binding b i"
  shows "\<exists>mc1. update_ranges cx dev m obj b (r # rs) mc = update_ranges cx dev m obj b rs mc1 \<and> capture_inv V mc1 \<and> advances dev mc mc1 \<and>
    (\<forall>i\<in>V m. unat (to_offset (mc_objects mc obj)) + unat (rfirst r) \<le> i \<and> i \<le> unat (to_offset (mc_objects mc obj)) + unat (rlast r) \<longrightarrow>
      clean (mc_memories mc1 m) i)"
proof -
  define od mem where "od = mc_objects mc obj" and "mem = mc_memories mc m"
  define k where "k = unat (to_offset od)"
  have okm: "mem_ok mem" "synced (V m) mem" using inv by (simp_all add: capture_inv_def mem_def)
  obtain s where closed: "closed_ok (\<lambda>x. x) s (mc_writer mc)" using inv by (auto simp: capture_inv_def)
  have od: "to_alive od" "tr_created (to_track od)" "to_type od \<noteq> Other_type" "unat (to_size od) < 2 ^ 28"
      "k + unat (to_size od) \<le> allocated mem"
    using inv obj by (auto simp: capture_inv_def object_ok_def od_def mem_def k_def)
  have big: "allocated mem < 2 ^ 64" using unsigned_less [of "dm_allocation_size mem", where 'a = nat] by simp
  have rl: "unat (rfirst r) \<le> unat (rlast r)" "unat (rlast r) < unat (to_size od)" using r by (simp_all add: word_le_nat_alt od_def)
  define start stop where "start = rfirst r + to_offset od" and "stop = rlast r + to_offset od"
  have us: "unat start = k + unat (rfirst r)" "unat stop = k + unat (rlast r)" "unat (to_offset od + to_size od) = k + unat (to_size od)"
    unfolding start_def stop_def k_def by (subst unat_add_small; use rl od(5) big in \<open>simp add: k_def\<close>)+
  have ends: "stop < to_offset od + to_size od" "start \<le> stop" using us rl by (simp_all add: word_less_nat_alt word_le_nat_alt)
  obtain v ex where f: "exposure_fetch start stop (dm_mapped mem) (dm_exposed mem) = Inr (v, ex)" "exposure_inv ex"
      "exposed ex = (if dm_mapped mem then exposed (dm_exposed mem) else exposed (dm_exposed mem) - {unat start..unat stop})"
      "is_hull v (exposed (dm_exposed mem) \<inter> {unat start..unat stop})"
    using exposure_tracker.fetch_law [of "dm_exposed mem" start stop "dm_mapped mem"] okm(1) ends(2) by (auto simp: mem_ok_def)
  note unfold = update_ranges.simps(2) [of cx dev m obj b r rs mc, unfolded Let_def, folded od_def mem_def, folded start_def stop_def, unfolded f(1)]
  show ?thesis
  proof (cases "range_valid v")
    case False
    then have none: "exposed (dm_exposed mem) \<inter> {unat start..unat stop} = {}" using f(4) hull_empty by blast
    define mem1 where "mem1 = mem\<lparr>dm_exposed := ex, dm_clone := dm_clone mem\<rparr>"
    have m1: "mem_ok mem1" "synced (V m) mem1" "mem_advances mem mem1" "\<forall>i\<in>V m. unat start \<le> i \<and> i \<le> unat stop \<longrightarrow> clean mem1 i"
      using mem_compare [OF okm f(2,3), of "dm_clone mem"] none unfolding mem1_def by auto
    define mc1 where "mc1 = mc\<lparr>mc_writer := mc_writer mc, mc_objects := (mc_objects mc)(obj := od\<lparr>to_updates := to_updates od, to_written := to_written od\<rparr>),
      mc_memories := (mc_memories mc)(m := mem1)\<rparr>"
    have "mc1 = mc\<lparr>mc_memories := (mc_memories mc)(m := mem\<lparr>dm_exposed := ex\<rparr>)\<rparr>" by (simp add: mc1_def mem1_def od_def)
    then have "update_ranges cx dev m obj b (r # rs) mc = update_ranges cx dev m obj b rs mc1"
      unfolding unfold using False ends(1) by simp
    moreover have "logs dev mc mc1 []"
      by (rule logs_nothing) (auto simp: mc1_def mem1_def mem_def intro: object_image_cong)
    then have "capture_inv V mc1" "advances dev mc mc1"
      using capture_inv_compared [OF inv closed m1(1,2) m1(3) [unfolded mem_def]] unfolding mc1_def od_def by blast+
    moreover have "mc_memories mc1 m = mem1" by (simp add: mc1_def)
    ultimately show ?thesis using m1(4) us(1,2) by (auto simp: k_def od_def)
  next
    case True
    note v = hull_members [OF f(4) True]
    have vk: "k \<le> unat (rfirst v)" "unat (rlast v) < k + unat (to_size od)" "unat (rfirst v) \<le> unat (rlast v)"
      using v(1,2,4) us rl by auto
    obtain c where c: "dm_clone mem = Some c" "length c = allocated mem" using v(1) okm(1) by (cases "dm_clone mem") (auto simp: mem_ok_def)
    have len: "length (dm_contents mem) = allocated mem" using okm(1) by (simp add: mem_ok_def)
    have "in_binding b (unat (rfirst v))" "in_binding b (unat (rlast v))" using v(1,2) b us by (simp_all add: mem_def od_def k_def)
    then have bound: "\<not> (rfirst v < fst b \<or> rlast v - fst b \<ge> snd b)" by (rule in_binding_check)
    define n where "n = unat (rlast v) - unat (rfirst v) + 1"
    have uv: "unat (rfirst v - to_offset od) = unat (rfirst v) - k" "unat (rlast v - rfirst v + 1) = n"
    proof -
      show "unat (rfirst v - to_offset od) = unat (rfirst v) - k"
        unfolding k_def by (rule unat_sub) (use vk(1) in \<open>simp add: word_le_nat_alt k_def\<close>)
      have "unat (rlast v - rfirst v) = unat (rlast v) - unat (rfirst v)" by (rule unat_sub) (use vk(3) in \<open>simp add: word_le_nat_alt\<close>)
      moreover have "unat (rlast v) - unat (rfirst v) + 1 < 2 ^ 64" using vk od(5) big by linarith
      ultimately show "unat (rlast v - rfirst v + 1) = n" unfolding n_def by (simp add: unat_word_ariths)
    qed
    have vback: "k + unat (rfirst v - to_offset od) = unat (rfirst v)" using uv(1) vk(1) by simp
    have room: "k + unat (rfirst v - to_offset od) + unat (rlast v - rfirst v + 1) \<le> k + unat (to_size od)"
      unfolding vback uv(2) using vk by (simp add: n_def)
    define c' where "c' = overwrite c (unat (rfirst v)) (take n (drop (unat (rfirst v)) (dm_contents mem)))"
    obtain n' changed u w lw' s' es where out: "write_out_object cx dev od (drop k c) (drop k (dm_contents mem)) (rfirst v - to_offset od)
          (rlast v - rfirst v + 1) None (mc_writer mc) = Inr (n', changed, od\<lparr>to_updates := u, to_written := w\<rparr>, lw')"
        "take k c @ changed = c'" "closed_ok (\<lambda>x. x) s' lw'"
        "\<forall>mem1. dm_clone mem1 = Some (take k c @ changed) \<longrightarrow> logs dev mc (mc\<lparr>mc_writer := lw',
          mc_objects := (mc_objects mc)(obj := od\<lparr>to_updates := u, to_written := w\<rparr>), mc_memories := (mc_memories mc)(m := mem1)\<rparr>) es"
      using write_out_captured [OF inv dev obj c(1) [unfolded mem_def], folded od_def mem_def, folded k_def, OF room, of cx]
      unfolding vback uv(2) c'_def by blast
    have cc: "length c' = length c \<and> (\<forall>i<length c. c' ! i = c ! i \<or> c' ! i = dm_contents mem ! i) \<and>
        (\<forall>i\<in>exposed (dm_exposed mem) \<inter> {unat start..unat stop}. c' ! i = dm_contents mem ! i)"
      using compared_clone [OF f(4) True c(2) len] vk(2) od(5) unfolding c'_def n_def Let_def by simp
    define mem1 where "mem1 = mem\<lparr>dm_exposed := ex, dm_clone := Some c'\<rparr>"
    have m1: "mem_ok mem1" "synced (V m) mem1" "mem_advances mem mem1" "\<forall>i\<in>V m. unat start \<le> i \<and> i \<le> unat stop \<longrightarrow> clean mem1 i"
      using mem_compare [OF okm f(2,3), of "Some c'"] c(1) cc unfolding mem1_def by auto
    define mc1 where "mc1 = mc\<lparr>mc_writer := lw', mc_objects := (mc_objects mc)(obj := od\<lparr>to_updates := u, to_written := w\<rparr>),
      mc_memories := (mc_memories mc)(m := mem1)\<rparr>"
    have "update_ranges cx dev m obj b (r # rs) mc = update_ranges cx dev m obj b rs mc1"
      unfolding unfold using True ends(1) bound c(1) out(1,2) by (simp add: mc1_def mem1_def flip: k_def)
    moreover have "logs dev mc mc1 es" using out(2,4) by (simp add: mc1_def mem1_def)
    then have "capture_inv V mc1" "advances dev mc mc1"
      using capture_inv_compared [OF inv out(3) m1(1,2) m1(3) [unfolded mem_def]] unfolding mc1_def od_def by blast+
    moreover have "mc_memories mc1 m = mem1" by (simp add: mc1_def)
    ultimately show ?thesis using m1(4) us(1,2) by (auto simp: k_def od_def)
  qed
qed

section \<open>Comparing everything a submit touches\<close>

text \<open>The bytes of the memory object that are touched through an object.\<close>

definition touched_bytes :: "tracked_object \<Rightarrow> exposure \<Rightarrow> nat set" where
  "touched_bytes od e = (\<lambda>i. unat (to_offset od) + i) ` exposed e"

lemma touched_bytes_advances:
  "advances dev mc mc' \<Longrightarrow> touched_bytes (mc_objects mc' obj) e = touched_bytes (mc_objects mc obj) e"
  by (simp add: touched_bytes_def advances_object)

lemma clean_advances: "advances dev mc mc' \<Longrightarrow> clean (mc_memories mc m) i \<Longrightarrow> clean (mc_memories mc' m) i"
  using advances_mem by (auto simp: mem_advances_def)

lemma exposed_advances: "advances dev mc mc' \<Longrightarrow> exposed (dm_exposed (mc_memories mc' m)) \<subseteq> exposed (dm_exposed (mc_memories mc m))"
  using advances_mem by (auto simp: mem_advances_def)

lemma update_ranges_ok:
  assumes "capture_inv V mc" "tr_created dev" "to_accessible (mc_objects mc obj)" "to_backing (mc_objects mc obj) = Some m"
    and "\<forall>r\<in>set rs. rfirst r \<le> rlast r \<and> unat (rlast r) < unat (to_size (mc_objects mc obj))"
    and "\<forall>r\<in>set rs. \<forall>i\<in>range_set r. unat (to_offset (mc_objects mc obj)) + i \<in> exposed (dm_exposed (mc_memories mc m)) \<longrightarrow>
      in_binding b (unat (to_offset (mc_objects mc obj)) + i)"
  shows "\<exists>mc'. update_ranges cx dev m obj b rs mc = Inr mc' \<and> capture_inv V mc' \<and> advances dev mc mc' \<and>
    (\<forall>r\<in>set rs. \<forall>i\<in>range_set r. unat (to_offset (mc_objects mc obj)) + i \<in> V m \<longrightarrow>
      clean (mc_memories mc' m) (unat (to_offset (mc_objects mc obj)) + i))"
  using assms
proof (induction rs arbitrary: mc)
  case Nil
  then show ?case by (auto simp: advances_refl)
next
  case (Cons r rs)
  define k where "k = unat (to_offset (mc_objects mc obj))"
  have first: "in_binding b i" if "i \<in> exposed (dm_exposed (mc_memories mc m))" "k + unat (rfirst r) \<le> i" "i \<le> k + unat (rlast r)" for i
  proof -
    have "i - k \<in> range_set r" "k + (i - k) = i" using that by (auto simp: range_set_def)
    then show ?thesis using Cons.prems(6) that(1) by (metis k_def list.set_intros(1))
  qed
  obtain mc1 where mc1: "update_ranges cx dev m obj b (r # rs) mc = update_ranges cx dev m obj b rs mc1" "capture_inv V mc1" "advances dev mc mc1"
      "\<forall>i\<in>V m. k + unat (rfirst r) \<le> i \<and> i \<le> k + unat (rlast r) \<longrightarrow> clean (mc_memories mc1 m) i"
    using update_range_step [OF Cons.prems(1-4), of r b cx rs] first Cons.prems(5) by (auto simp: k_def)
  note same = advances_object [OF mc1(3), of obj]
  have "\<exists>mc'. update_ranges cx dev m obj b rs mc1 = Inr mc' \<and> capture_inv V mc' \<and> advances dev mc1 mc' \<and>
      (\<forall>r\<in>set rs. \<forall>i\<in>range_set r. unat (to_offset (mc_objects mc1 obj)) + i \<in> V m \<longrightarrow>
        clean (mc_memories mc' m) (unat (to_offset (mc_objects mc1 obj)) + i))"
    by (rule Cons.IH [OF mc1(2) Cons.prems(2)]) (use Cons.prems(3-6) same exposed_advances [OF mc1(3), of m] in auto)
  then obtain mc' where mc': "update_ranges cx dev m obj b rs mc1 = Inr mc'" "capture_inv V mc'" "advances dev mc1 mc'"
      "\<forall>r\<in>set rs. \<forall>i\<in>range_set r. k + i \<in> V m \<longrightarrow> clean (mc_memories mc' m) (k + i)"
    unfolding same k_def by blast
  have "clean (mc_memories mc' m) (k + i)" if "i \<in> range_set r" "k + i \<in> V m" for i
    using mc1(4) that clean_advances [OF mc'(3)] by (auto simp: range_set_def)
  then show ?case using mc1(1) mc' advances_trans [OF mc1(3) mc'(3)] unfolding k_def by auto
qed

text \<open>What holds of a set of touched ranges once it was compared, and what the mapping has to cover.\<close>

definition covers :: "memory_capture \<Rightarrow> nat \<Rightarrow> touched \<Rightarrow> (nat \<Rightarrow> bool) \<Rightarrow> bool" where
  "covers mc m t P \<longleftrightarrow> (\<forall>(obj, e)\<in>set t. to_backing (mc_objects mc obj) = Some m \<longrightarrow> (\<forall>i\<in>touched_bytes (mc_objects mc obj) e. P i))"

lemma covers_advances: "advances dev mc mc' \<Longrightarrow> covers mc' m t P = covers mc m t P"
  by (simp add: covers_def touched_bytes_advances advances_object)

lemma covers_mono: "covers mc m t P \<Longrightarrow> (\<And>i. P i \<Longrightarrow> Q i) \<Longrightarrow> covers mc m t Q"
  unfolding covers_def by fast

lemma touched_ok_advances: "advances dev mc mc' \<Longrightarrow> touched_ok (mc_objects mc') t = touched_ok (mc_objects mc) t"
  by (simp add: touched_ok_def advances_object)

lemma touched_ranges:
  assumes "exposure_inv e" "exposed e \<subseteq> {..<n}" "r \<in> set (exposure_list e)"
  shows "rfirst r \<le> rlast r" "unat (rlast r) < n" "range_set r \<subseteq> exposed e"
proof -
  show le: "rfirst r \<le> rlast r" using assms(1,3) canonical_valid by (auto simp: exposure_inv_def word_le_nat_alt)
  show sub: "range_set r \<subseteq> exposed e" using assms(3) by (auto simp: exposed_list ranges_set_def)
  have "unat (rlast r) \<in> range_set r" using le by (simp add: range_set_def word_le_nat_alt)
  then show "unat (rlast r) < n" using sub assms(2) by blast
qed

lemma update_objects_ok:
  assumes "capture_inv V mc" "tr_created dev" "touched_ok (mc_objects mc) t"
    and "covers mc m t (\<lambda>i. i \<in> exposed (dm_exposed (mc_memories mc m)) \<longrightarrow> in_binding b i)"
  shows "\<exists>mc'. update_objects cx dev m b t mc = Inr mc' \<and> capture_inv V mc' \<and> advances dev mc mc' \<and>
    covers mc m t (\<lambda>i. i \<in> V m \<longrightarrow> clean (mc_memories mc' m) i)"
  using assms
proof (induction t arbitrary: mc)
  case Nil
  then show ?case by (auto simp: advances_refl covers_def)
next
  case (Cons p t)
  obtain obj e where p: "p = (obj, e)" by fastforce
  have "\<exists>mc1. update_objects cx dev m b (p # t) mc = update_objects cx dev m b t mc1 \<and> capture_inv V mc1 \<and> advances dev mc mc1 \<and>
      covers mc m [p] (\<lambda>i. i \<in> V m \<longrightarrow> clean (mc_memories mc1 m) i)"
  proof (cases "to_backing (mc_objects mc obj) = Some m")
    case False
    then show ?thesis using Cons.prems(1) by (auto simp: p advances_refl covers_def)
  next
    case True
    have e: "to_accessible (mc_objects mc obj)" "exposure_inv e" "exposed e \<subseteq> {..<unat (to_size (mc_objects mc obj))}"
      using Cons.prems(3) by (auto simp: touched_ok_def p)
    have "\<exists>mc'. update_ranges cx dev m obj b (exposure_list e) mc = Inr mc' \<and> capture_inv V mc' \<and> advances dev mc mc' \<and>
        (\<forall>r\<in>set (exposure_list e). \<forall>i\<in>range_set r. unat (to_offset (mc_objects mc obj)) + i \<in> V m \<longrightarrow>
          clean (mc_memories mc' m) (unat (to_offset (mc_objects mc obj)) + i))"
      by (rule update_ranges_ok [OF Cons.prems(1,2) e(1) True])
        (use touched_ranges [OF e(2,3)] Cons.prems(4) True in \<open>fastforce simp: covers_def p touched_bytes_def\<close>)+
    then obtain mc1 where mc1: "update_ranges cx dev m obj b (exposure_list e) mc = Inr mc1" "capture_inv V mc1" "advances dev mc mc1"
        "\<forall>r\<in>set (exposure_list e). \<forall>i\<in>range_set r. unat (to_offset (mc_objects mc obj)) + i \<in> V m \<longrightarrow>
          clean (mc_memories mc1 m) (unat (to_offset (mc_objects mc obj)) + i)" by blast
    have "to_alive (mc_objects mc obj)" using Cons.prems(1) e(1) by (auto simp: capture_inv_def object_ok_def)
    then have "update_objects cx dev m b (p # t) mc = update_objects cx dev m b t mc1" using True mc1(1) by (simp add: p)
    moreover have "covers mc m [p] (\<lambda>i. i \<in> V m \<longrightarrow> clean (mc_memories mc1 m) i)"
      using mc1(4) by (auto simp: covers_def p touched_bytes_def exposed_list ranges_set_def)
    ultimately show ?thesis using mc1(2,3) by blast
  qed
  then obtain mc1 where mc1: "update_objects cx dev m b (p # t) mc = update_objects cx dev m b t mc1" "capture_inv V mc1" "advances dev mc mc1"
      "covers mc m [p] (\<lambda>i. i \<in> V m \<longrightarrow> clean (mc_memories mc1 m) i)" by blast
  have "touched_ok (mc_objects mc1) t" using Cons.prems(3) unfolding touched_ok_advances [OF mc1(3)] by (simp add: touched_ok_def)
  moreover have "covers mc1 m t (\<lambda>i. i \<in> exposed (dm_exposed (mc_memories mc1 m)) \<longrightarrow> in_binding b i)"
  proof -
    have "covers mc m t (\<lambda>i. i \<in> exposed (dm_exposed (mc_memories mc m)) \<longrightarrow> in_binding b i)" using Cons.prems(4) by (simp add: covers_def)
    then show ?thesis unfolding covers_advances [OF mc1(3)]
      by (rule covers_mono) (use exposed_advances [OF mc1(3), of m] in auto)
  qed
  ultimately obtain mc' where mc': "update_objects cx dev m b t mc1 = Inr mc'" "capture_inv V mc'" "advances dev mc1 mc'"
      "covers mc1 m t (\<lambda>i. i \<in> V m \<longrightarrow> clean (mc_memories mc' m) i)"
    using Cons.IH [OF mc1(2) Cons.prems(2)] by blast
  have "covers mc m [p] (\<lambda>i. i \<in> V m \<longrightarrow> clean (mc_memories mc' m) i)"
    by (rule covers_mono [OF mc1(4)]) (use clean_advances [OF mc'(3)] in blast)
  then have "covers mc m (p # t) (\<lambda>i. i \<in> V m \<longrightarrow> clean (mc_memories mc' m) i)"
    using mc'(4) unfolding covers_advances [OF mc1(3)] by (simp add: covers_def)
  then show ?case using mc1(1) mc' advances_trans [OF mc1(3) mc'(3)] by auto
qed

lemma update_cmdbufs_ok:
  assumes "capture_inv V mc" "tr_created dev"
    and "\<forall>c\<in>set cs. covers mc m (cb_touched (mc_cmdbufs mc c)) (\<lambda>i. i \<in> exposed (dm_exposed (mc_memories mc m)) \<longrightarrow> in_binding b i)"
  shows "\<exists>mc'. update_cmdbufs cx dev m b cs mc = Inr mc' \<and> capture_inv V mc' \<and> advances dev mc mc' \<and>
    (\<forall>c\<in>set cs. covers mc m (cb_touched (mc_cmdbufs mc c)) (\<lambda>i. i \<in> V m \<longrightarrow> clean (mc_memories mc' m) i))"
  using assms
proof (induction cs arbitrary: mc)
  case Nil
  then show ?case by (auto simp: advances_refl)
next
  case (Cons c cs)
  have "touched_ok (mc_objects mc) (cb_touched (mc_cmdbufs mc c))" using Cons.prems(1) by (simp add: capture_inv_def)
  moreover have "covers mc m (cb_touched (mc_cmdbufs mc c)) (\<lambda>i. i \<in> exposed (dm_exposed (mc_memories mc m)) \<longrightarrow> in_binding b i)"
    using Cons.prems(3) by simp
  ultimately obtain mc1 where mc1: "update_objects cx dev m b (cb_touched (mc_cmdbufs mc c)) mc = Inr mc1" "capture_inv V mc1" "advances dev mc mc1"
      "covers mc m (cb_touched (mc_cmdbufs mc c)) (\<lambda>i. i \<in> V m \<longrightarrow> clean (mc_memories mc1 m) i)"
    using update_objects_ok [OF Cons.prems(1,2)] by blast
  have cmds: "mc_cmdbufs mc1 = mc_cmdbufs mc" using mc1(3) by (simp add: advances_def)
  have "covers mc1 m (cb_touched (mc_cmdbufs mc1 d)) (\<lambda>i. i \<in> exposed (dm_exposed (mc_memories mc1 m)) \<longrightarrow> in_binding b i)" if "d \<in> set cs" for d
  proof -
    have "covers mc m (cb_touched (mc_cmdbufs mc d)) (\<lambda>i. i \<in> exposed (dm_exposed (mc_memories mc m)) \<longrightarrow> in_binding b i)"
      using Cons.prems(3) that by simp
    then show ?thesis unfolding covers_advances [OF mc1(3)] cmds
      by (rule covers_mono) (use exposed_advances [OF mc1(3), of m] in auto)
  qed
  then obtain mc' where mc': "update_cmdbufs cx dev m b cs mc1 = Inr mc'" "capture_inv V mc'" "advances dev mc1 mc'"
      "\<forall>c\<in>set cs. covers mc1 m (cb_touched (mc_cmdbufs mc1 c)) (\<lambda>i. i \<in> V m \<longrightarrow> clean (mc_memories mc' m) i)"
    using Cons.IH [OF mc1(2) Cons.prems(2)] by blast
  have "covers mc m (cb_touched (mc_cmdbufs mc c)) (\<lambda>i. i \<in> V m \<longrightarrow> clean (mc_memories mc' m) i)"
    by (rule covers_mono [OF mc1(4)]) (use clean_advances [OF mc'(3)] in blast)
  then show ?case using mc1(1) mc' advances_trans [OF mc1(3) mc'(3)] unfolding covers_advances [OF mc1(3)] cmds by auto
qed

lemma binding_advances: "mem_advances mem mem' \<Longrightarrow> binding mem' r = binding mem r"
  by (simp add: binding_def mem_advances_fields)

lemma memory_update_ok:
  assumes "capture_inv V mc" "tr_created dev"
    and "\<forall>(m, r)\<in>set ranges. dm_host_visible (mc_memories mc m) \<and> (\<exists>b. binding (mc_memories mc m) r = Inr b \<and> (\<forall>i\<in>range_set r. in_binding b i))"
    and "\<forall>(m, r)\<in>set ranges. \<forall>c\<in>set cs. covers mc m (cb_touched (mc_cmdbufs mc c))
      (\<lambda>i. i \<in> exposed (dm_exposed (mc_memories mc m)) \<longrightarrow> i \<in> range_set r)"
  shows "\<exists>mc'. memory_update cx dev ranges cs mc = Inr mc' \<and> capture_inv V mc' \<and> advances dev mc mc' \<and>
    (\<forall>(m, r)\<in>set ranges. \<forall>c\<in>set cs. covers mc m (cb_touched (mc_cmdbufs mc c)) (\<lambda>i. i \<in> V m \<longrightarrow> clean (mc_memories mc' m) i))"
  using assms
proof (induction ranges arbitrary: mc)
  case Nil
  then show ?case by (auto simp: advances_refl)
next
  case (Cons p ranges)
  obtain m r where p: "p = (m, r)" by fastforce
  obtain b where b: "binding (mc_memories mc m) r = Inr b" "\<forall>i\<in>range_set r. in_binding b i" and visible: "dm_host_visible (mc_memories mc m)"
    using Cons.prems(3) by (auto simp: p)
  have "\<forall>c\<in>set cs. covers mc m (cb_touched (mc_cmdbufs mc c)) (\<lambda>i. i \<in> exposed (dm_exposed (mc_memories mc m)) \<longrightarrow> in_binding b i)"
  proof
    fix c assume "c \<in> set cs"
    then have "covers mc m (cb_touched (mc_cmdbufs mc c)) (\<lambda>i. i \<in> exposed (dm_exposed (mc_memories mc m)) \<longrightarrow> i \<in> range_set r)"
      using Cons.prems(4) by (simp add: p)
    then show "covers mc m (cb_touched (mc_cmdbufs mc c)) (\<lambda>i. i \<in> exposed (dm_exposed (mc_memories mc m)) \<longrightarrow> in_binding b i)"
      by (rule covers_mono) (use b(2) in blast)
  qed
  then obtain mc1 where mc1: "update_cmdbufs cx dev m b cs mc = Inr mc1" "capture_inv V mc1" "advances dev mc mc1"
      "\<forall>c\<in>set cs. covers mc m (cb_touched (mc_cmdbufs mc c)) (\<lambda>i. i \<in> V m \<longrightarrow> clean (mc_memories mc1 m) i)"
    using update_cmdbufs_ok [OF Cons.prems(1,2)] by blast
  have cmds: "mc_cmdbufs mc1 = mc_cmdbufs mc" using mc1(3) by (simp add: advances_def)
  note adv = advances_mem [OF mc1(3)]
  have "\<forall>(m, r)\<in>set ranges. dm_host_visible (mc_memories mc1 m) \<and> (\<exists>b. binding (mc_memories mc1 m) r = Inr b \<and> (\<forall>i\<in>range_set r. in_binding b i))"
    using Cons.prems(3) binding_advances [OF adv] mem_advances_fields(1) [OF adv] by auto
  moreover have "\<forall>(m, r)\<in>set ranges. \<forall>c\<in>set cs. covers mc1 m (cb_touched (mc_cmdbufs mc1 c))
      (\<lambda>i. i \<in> exposed (dm_exposed (mc_memories mc1 m)) \<longrightarrow> i \<in> range_set r)"
  proof (intro ballI, clarify)
    fix n q c assume "(n, q) \<in> set ranges" "c \<in> set cs"
    then have "covers mc n (cb_touched (mc_cmdbufs mc c)) (\<lambda>i. i \<in> exposed (dm_exposed (mc_memories mc n)) \<longrightarrow> i \<in> range_set q)"
      using Cons.prems(4) by fastforce
    then show "covers mc1 n (cb_touched (mc_cmdbufs mc1 c)) (\<lambda>i. i \<in> exposed (dm_exposed (mc_memories mc1 n)) \<longrightarrow> i \<in> range_set q)"
      unfolding covers_advances [OF mc1(3)] cmds by (rule covers_mono) (use exposed_advances [OF mc1(3), of n] in auto)
  qed
  ultimately obtain mc' where mc': "memory_update cx dev ranges cs mc1 = Inr mc'" "capture_inv V mc'" "advances dev mc1 mc'"
      "\<forall>(m, r)\<in>set ranges. \<forall>c\<in>set cs. covers mc1 m (cb_touched (mc_cmdbufs mc1 c)) (\<lambda>i. i \<in> V m \<longrightarrow> clean (mc_memories mc' m) i)"
    using Cons.IH [OF mc1(2) Cons.prems(2)] by blast
  have "covers mc m (cb_touched (mc_cmdbufs mc c)) (\<lambda>i. i \<in> V m \<longrightarrow> clean (mc_memories mc' m) i)" if "c \<in> set cs" for c
    by (rule covers_mono [OF mc1(4) [rule_format, OF that]]) (use clean_advances [OF mc'(3)] in blast)
  moreover have "memory_update cx dev (p # ranges) cs mc = Inr mc'" using visible b(1) mc1(1) mc'(1) by (simp add: p)
  ultimately show ?case using mc'(2,4) advances_trans [OF mc1(3) mc'(3)]
    unfolding covers_advances [OF mc1(3)] cmds by (intro exI [of _ mc']) (auto simp: p)
qed

section \<open>The ranges to compare\<close>

definition ranges_ok :: "memory_capture \<Rightarrow> memory_ranges \<Rightarrow> bool" where
  "ranges_ok mc ranges \<longleftrightarrow> distinct (map fst ranges) \<and> (\<forall>m r. map_of ranges m = Some r \<longrightarrow>
    rfirst r \<le> rlast r \<and> unat (rfirst r) \<in> exposed (dm_exposed (mc_memories mc m)) \<and> unat (rlast r) \<in> exposed (dm_exposed (mc_memories mc m)))"

definition in_ranges :: "memory_ranges \<Rightarrow> nat \<Rightarrow> nat \<Rightarrow> bool" where
  "in_ranges ranges m i \<longleftrightarrow> (\<exists>r. map_of ranges m = Some r \<and> i \<in> range_set r)"

lemma update_set:
  "distinct (map fst al) \<Longrightarrow> (a, b) \<in> set (AList.update k v al) \<longleftrightarrow> (if a = k then b = v else (a, b) \<in> set al)"
  using map_of_eq_Some_iff [of "AList.update k v al" a b] map_of_eq_Some_iff [of al a b] distinct_update [of al k v]
  by (auto simp: update_conv')

lemma merge_range_ok:
  assumes "ranges_ok mc ranges" "is_hull r (exposed (dm_exposed (mc_memories mc m)) \<inter> S)" "range_valid r"
  shows "\<exists>ranges'. merge_range m r ranges = Inr ranges' \<and> ranges_ok mc ranges' \<and>
    (\<forall>n i. in_ranges ranges n i \<longrightarrow> in_ranges ranges' n i) \<and> (\<forall>i\<in>range_set r. in_ranges ranges' m i)"
proof -
  note r = hull_members [OF assms(2,3)]
  have le: "rfirst r \<le> rlast r" using r(4) by (simp add: word_le_nat_alt)
  show ?thesis
  proof (cases "map_of ranges m")
    case None
    then show ?thesis using assms(1) r(1,2) le
      by (intro exI [of _ "AList.update m r ranges"]) (auto simp: merge_range_def ranges_ok_def in_ranges_def update_conv' distinct_update)
  next
    case (Some q)
    define q' where "q' = mk_range (min (rfirst q) (rfirst r)) (max (rlast q) (rlast r))"
    have q: "rfirst q \<le> rlast q" "unat (rfirst q) \<in> exposed (dm_exposed (mc_memories mc m))" "unat (rlast q) \<in> exposed (dm_exposed (mc_memories mc m))"
      using assms(1) Some by (auto simp: ranges_ok_def)
    have sub: "range_set q \<subseteq> range_set q'" "range_set r \<subseteq> range_set q'"
      by (auto simp: range_set_def q'_def unat_min unat_max)
    have "rfirst q' \<le> rlast q'" "unat (rfirst q') \<in> exposed (dm_exposed (mc_memories mc m))" "unat (rlast q') \<in> exposed (dm_exposed (mc_memories mc m))"
      using q r(1,2) le by (auto simp: q'_def min_def max_def)
    then show ?thesis using assms(1) Some le q(1) sub
      by (intro exI [of _ "AList.update m q' ranges"])
        (auto simp: merge_range_def ranges_ok_def in_ranges_def update_conv' distinct_update simp flip: q'_def simp del: map_of_eq_Some_iff)
  qed
qed

lemma queue_ranges_ok:
  assumes "capture_inv V mc" "ranges_ok mc ranges" "touched_ok (mc_objects mc) t"
  shows "\<exists>ranges' cs'. queue_ranges mc c t (ranges, cs) = Inr (ranges', cs') \<and> ranges_ok mc ranges' \<and>
    set cs \<subseteq> set cs' \<and> set cs' \<subseteq> insert c (set cs) \<and> (\<forall>n i. in_ranges ranges n i \<longrightarrow> in_ranges ranges' n i) \<and>
    (\<forall>m. covers mc m t (\<lambda>i. i \<in> exposed (dm_exposed (mc_memories mc m)) \<longrightarrow> c \<in> set cs' \<and> in_ranges ranges' m i))"
  using assms(2,3)
proof (induction t arbitrary: ranges cs)
  case Nil
  then show ?case by (auto simp: covers_def)
next
  case (Cons p t)
  obtain obj e where p: "p = (obj, e)" by fastforce
  have t: "touched_ok (mc_objects mc) t" and e: "exposure_inv e" using Cons.prems(2) by (auto simp: touched_ok_def p)
  let ?new = "\<lambda>ranges' cs'. \<forall>m. covers mc m [p] (\<lambda>i. i \<in> exposed (dm_exposed (mc_memories mc m)) \<longrightarrow> c \<in> set cs' \<and> in_ranges ranges' m i)"
  have "\<exists>ranges1 cs1. queue_ranges mc c (p # t) (ranges, cs) = queue_ranges mc c t (ranges1, cs1) \<and> ranges_ok mc ranges1 \<and>
      set cs \<subseteq> set cs1 \<and> set cs1 \<subseteq> insert c (set cs) \<and> (\<forall>n i. in_ranges ranges n i \<longrightarrow> in_ranges ranges1 n i) \<and> ?new ranges1 cs1"
  proof (cases "to_backing (mc_objects mc obj)")
    case None
    then show ?thesis using Cons.prems(1) by (auto simp: p covers_def)
  next
    case (Some m)
    let ?mem = "mc_memories mc m" and ?off = "to_offset (mc_objects mc obj)"
    define r where "r = exposure_overlap (dm_exposed ?mem) e ?off"
    have mem: "mem_ok ?mem" using assms(1) by (simp add: capture_inv_def)
    have hull: "is_hull r (exposed (dm_exposed ?mem) \<inter> shifted (unat ?off) (exposed e))"
      unfolding r_def using mem e by (intro exposure_overlap_hull) (simp_all add: mem_ok_def)
    have hit: "i \<in> exposed (dm_exposed ?mem) \<inter> shifted (unat ?off) (exposed e)"
      if "i \<in> touched_bytes (mc_objects mc obj) e" "i \<in> exposed (dm_exposed ?mem)" for i
    proof -
      have "i < allocated ?mem" using that(2) mem by (auto simp: mem_ok_def)
      then have "i < 2 ^ 64" using unsigned_less [of "dm_allocation_size ?mem", where 'a = nat] by simp
      then show ?thesis using that by (auto simp: touched_bytes_def shifted_def add.commute)
    qed
    show ?thesis
    proof (cases "range_valid r")
      case False
      then have "exposed (dm_exposed ?mem) \<inter> shifted (unat ?off) (exposed e) = {}" using hull hull_empty by blast
      then have "?new ranges cs" using hit Some by (auto simp: covers_def p)
      moreover have "queue_ranges mc c (p # t) (ranges, cs) = queue_ranges mc c t (ranges, cs)" using Some False by (simp add: p flip: r_def)
      ultimately show ?thesis using Cons.prems(1) by blast
    next
      case True
      obtain ranges1 where r1: "merge_range m r ranges = Inr ranges1" "ranges_ok mc ranges1"
          "\<forall>n i. in_ranges ranges n i \<longrightarrow> in_ranges ranges1 n i" "\<forall>i\<in>range_set r. in_ranges ranges1 m i"
        using merge_range_ok [OF Cons.prems(1) hull True] by blast
      have "?new ranges1 (List.insert c cs)"
        using hit r1(4) hull_members(3) [OF hull True] Some by (auto simp: covers_def p)
      moreover have "queue_ranges mc c (p # t) (ranges, cs) = queue_ranges mc c t (ranges1, List.insert c cs)"
        using Some True r1(1) by (simp add: p flip: r_def)
      ultimately show ?thesis using r1(2,3) by (intro exI [of _ ranges1] exI [of _ "List.insert c cs"]) auto
    qed
  qed
  then obtain ranges1 cs1 where 1: "queue_ranges mc c (p # t) (ranges, cs) = queue_ranges mc c t (ranges1, cs1)" "ranges_ok mc ranges1"
      "set cs \<subseteq> set cs1" "set cs1 \<subseteq> insert c (set cs)" "\<forall>n i. in_ranges ranges n i \<longrightarrow> in_ranges ranges1 n i" "?new ranges1 cs1" by blast
  obtain ranges' cs' where 2: "queue_ranges mc c t (ranges1, cs1) = Inr (ranges', cs')" "ranges_ok mc ranges'"
      "set cs1 \<subseteq> set cs'" "set cs' \<subseteq> insert c (set cs1)" "\<forall>n i. in_ranges ranges1 n i \<longrightarrow> in_ranges ranges' n i"
      "\<forall>m. covers mc m t (\<lambda>i. i \<in> exposed (dm_exposed (mc_memories mc m)) \<longrightarrow> c \<in> set cs' \<and> in_ranges ranges' m i)"
    using Cons.IH [OF 1(2) t] by blast
  have "?new ranges' cs'" using 1(6) 2(3,5) by (auto simp: covers_def p)
  then have "\<forall>m. covers mc m (p # t) (\<lambda>i. i \<in> exposed (dm_exposed (mc_memories mc m)) \<longrightarrow> c \<in> set cs' \<and> in_ranges ranges' m i)"
    using 2(6) by (simp add: covers_def)
  then show ?case using 1 2 by (intro exI [of _ ranges'] exI [of _ cs']) auto
qed

section \<open>Touching\<close>

lemma ranges_of_ok:
  assumes "touched_ok objs t"
  shows "exposure_inv (ranges_of t obj)" "exposed (ranges_of t obj) \<subseteq> {..<unat (to_size (objs obj))}"
  using assms by (auto simp: ranges_of_def touched_ok_def split: option.splits dest!: map_of_SomeD)

lemma touched_update:
  assumes "touched_ok objs t" "to_accessible (objs obj)" "exposure_inv e" "exposed e \<subseteq> {..<unat (to_size (objs obj))}"
  shows "touched_ok objs (AList.update obj e t)"
proof -
  have "to_accessible (objs a) \<and> exposure_inv b \<and> exposed b \<subseteq> {..<unat (to_size (objs a))}" if "(a, b) \<in> set (AList.update obj e t)" for a b
  proof (cases "a = obj")
    case True
    then show ?thesis using that assms by (simp add: update_set touched_ok_def)
  next
    case False
    then have "(a, b) \<in> set t" using that assms(1) by (simp add: update_set touched_ok_def)
    then show ?thesis using assms(1) bspec by (fastforce simp: touched_ok_def)
  qed
  then show ?thesis using assms(1) by (auto simp: touched_ok_def distinct_update)
qed

lemma add_os_ok:
  assumes "exposure_inv e" "unat off + unat sz \<le> n" "n < 2 ^ 64"
  shows "\<exists>e'. exposure_add_os off sz e = Inr e' \<and> exposure_inv e' \<and> exposed e' = exposed e \<union> {unat off..<unat off + unat sz}"
proof (cases "sz = 0")
  case True
  then show ?thesis using assms(1) by (simp add: exposure_add_os_def)
next
  case False
  then have pos: "0 < unat sz" by (simp add: unat_gt_0)
  have total: "unat (off + sz) = unat off + unat sz" using assms(2,3) by (intro unat_add_small) simp
  then have "off + sz \<noteq> 0" using pos by (metis add_is_0 unat_0 less_nat_zero_code)
  then have last_byte: "unat (off + sz - 1) = unat off + unat sz - 1" using total by (simp add: unat_minus_one)
  then have le: "off \<le> off + sz - 1" using pos by (simp add: word_le_nat_alt)
  show ?thesis using exposure_tracker.add_law [OF assms(1) le] last_byte pos False
    by (auto simp: exposure_add_os_def word_neq_0_conv atLeastLessThanSuc_atLeastAtMost [symmetric])
qed

lemma ranges_of_update: "ranges_of (AList.update obj e t) x = (if x = obj then e else ranges_of t x)"
  by (simp add: ranges_of_def update_conv')

definition touched_grows :: "touched \<Rightarrow> touched \<Rightarrow> bool" where
  "touched_grows t t' \<longleftrightarrow> (\<forall>obj. exposed (ranges_of t obj) \<subseteq> exposed (ranges_of t' obj))"

lemma touched_grows_refl [simp]: "touched_grows t t"
  by (simp add: touched_grows_def)

lemma touched_grows_trans: "touched_grows a b \<Longrightarrow> touched_grows b c \<Longrightarrow> touched_grows a c"
  unfolding touched_grows_def by blast

lemma touch_ok:
  assumes "touched_ok objs t" "unat off + unat (if sz = VK_WHOLE_SIZE then to_size (objs obj) - off else sz) \<le> unat (to_size (objs obj))"
  shows "\<exists>t'. touch objs obj off sz t = Inr t' \<and> touched_ok objs t' \<and> touched_grows t t' \<and>
    (to_accessible (objs obj) \<longrightarrow> {unat off..<unat off + unat (if sz = VK_WHOLE_SIZE then to_size (objs obj) - off else sz)} \<subseteq> exposed (ranges_of t' obj))"
proof (cases "to_accessible (objs obj)")
  case False
  then show ?thesis using assms(1) by (simp add: touch_def)
next
  case True
  let ?sz = "if sz = VK_WHOLE_SIZE then to_size (objs obj) - off else sz"
  have "unat (to_size (objs obj)) < 2 ^ 64" using unsigned_less [of "to_size (objs obj)", where 'a = nat] by simp
  then obtain e where e: "exposure_add_os off ?sz (ranges_of t obj) = Inr e" "exposure_inv e"
      "exposed e = exposed (ranges_of t obj) \<union> {unat off..<unat off + unat ?sz}"
    using add_os_ok [OF ranges_of_ok(1) [OF assms(1)] assms(2)] by blast
  have sub: "exposed e \<subseteq> {..<unat (to_size (objs obj))}"
    unfolding e(3) using ranges_of_ok(2) [OF assms(1), of obj] assms(2) by auto
  have "touched_grows t (AList.update obj e t)" using e(3) by (auto simp: touched_grows_def ranges_of_update)
  moreover have "{unat off..<unat off + unat ?sz} \<subseteq> exposed (ranges_of (AList.update obj e t) obj)" using e(3) by (simp add: ranges_of_update)
  moreover have "touch objs obj off sz t = Inr (AList.update obj e t)" using True e(1) by (simp add: touch_def)
  ultimately show ?thesis using touched_update [OF assms(1) True e(2) sub] by blast
qed

text \<open>The buffers a shader may reach through device addresses.\<close>

definition address_taken :: "(nat \<Rightarrow> tracked_object) \<Rightarrow> u32 \<Rightarrow> nat \<Rightarrow> bool" where
  "address_taken objs dev b \<longleftrightarrow> to_accessible (objs b) \<and> to_device (objs b) = dev \<and> to_device_address (objs b) \<noteq> 0 \<and> tr_created (to_track (objs b))"

lemma touch_buffers_ok:
  assumes "touched_ok objs t"
  shows "\<exists>t'. touch_buffers objs dev bs t = Inr t' \<and> touched_ok objs t' \<and> touched_grows t t' \<and>
    (\<forall>b\<in>set bs. address_taken objs dev b \<longrightarrow> {..<unat (to_size (objs b))} \<subseteq> exposed (ranges_of t' b))"
  using assms
proof (induction bs arbitrary: t)
  case (Cons b bs)
  have whole: "(if to_size (objs b) = VK_WHOLE_SIZE then to_size (objs b) - 0 else to_size (objs b)) = to_size (objs b)" by simp
  have "unat (0 :: u64) + unat (if to_size (objs b) = VK_WHOLE_SIZE then to_size (objs b) - 0 else to_size (objs b)) \<le> unat (to_size (objs b))"
    unfolding whole by simp
  from touch_ok [OF Cons.prems this] obtain t1 where t1: "touch objs b 0 (to_size (objs b)) t = Inr t1" "touched_ok objs t1" "touched_grows t t1"
      "to_accessible (objs b) \<longrightarrow> {..<unat (to_size (objs b))} \<subseteq> exposed (ranges_of t1 b)"
    unfolding whole by (auto simp: lessThan_atLeast0)
  show ?case
  proof (cases "to_device (objs b) \<noteq> dev \<or> to_device_address (objs b) = 0 \<or> \<not> tr_created (to_track (objs b))")
    case True
    then show ?thesis using Cons.IH [OF Cons.prems] by (auto simp: address_taken_def)
  next
    case False
    obtain t' where t': "touch_buffers objs dev bs t1 = Inr t'" "touched_ok objs t'" "touched_grows t1 t'"
        "\<forall>b\<in>set bs. address_taken objs dev b \<longrightarrow> {..<unat (to_size (objs b))} \<subseteq> exposed (ranges_of t' b)"
      using Cons.IH [OF t1(2)] by blast
    have "address_taken objs dev b \<longrightarrow> {..<unat (to_size (objs b))} \<subseteq> exposed (ranges_of t' b)"
      using t1(4) t'(3) unfolding touched_grows_def address_taken_def by blast
    moreover have "touch_buffers objs dev (b # bs) t = Inr t'" using False t1(1) t'(1) by simp
    ultimately show ?thesis using t'(2,4) touched_grows_trans [OF t1(3) t'(3)] by auto
  qed
qed simp

section \<open>A submit\<close>

text \<open>What a command buffer touches, with the buffers its shaders may reach.\<close>

definition touches :: "memory_capture \<Rightarrow> nat \<Rightarrow> nat \<Rightarrow> nat \<Rightarrow> bool" where
  "touches mc c obj i \<longleftrightarrow> i \<in> exposed (ranges_of (cb_touched (mc_cmdbufs mc c)) obj) \<or>
    cb_uses_device_address_shader (mc_cmdbufs mc c) \<and> obj \<in> set (mc_buffers mc) \<and>
    address_taken (mc_objects mc) (cb_device (mc_cmdbufs mc c)) obj \<and> i < unat (to_size (mc_objects mc obj))"

definition retouched :: "memory_capture \<Rightarrow> memory_capture \<Rightarrow> bool" where
  "retouched mc mc' \<longleftrightarrow> (\<exists>f. mc' = mc\<lparr>mc_cmdbufs := f\<rparr> \<and>
    (\<forall>c. \<exists>t. f c = (mc_cmdbufs mc c)\<lparr>cb_touched := t\<rparr> \<and> touched_grows (cb_touched (mc_cmdbufs mc c)) t))"

lemma retouched_simps:
  assumes "retouched mc mc'"
  shows "mc_writer mc' = mc_writer mc" "mc_objects mc' = mc_objects mc" "mc_memories mc' = mc_memories mc" "mc_buffers mc' = mc_buffers mc"
    "covers mc' = covers mc" "ranges_ok mc' = ranges_ok mc"
  using assms by (auto simp: retouched_def covers_def fun_eq_iff ranges_ok_def)

lemma retouched_cmdbuf:
  assumes "retouched mc mc'"
  shows "\<exists>t. mc_cmdbufs mc' c = (mc_cmdbufs mc c)\<lparr>cb_touched := t\<rparr> \<and> touched_grows (cb_touched (mc_cmdbufs mc c)) t"
  using assms by (auto simp: retouched_def)

lemma retouched_refl: "retouched mc mc"
  unfolding retouched_def
  by (intro exI [of _ "mc_cmdbufs mc"] conjI allI, simp) (metis (no_types, lifting) cmdbuffer.surjective cmdbuffer.update_convs(2) touched_grows_refl)

lemma retouched_trans:
  assumes "retouched a b" "retouched b c"
  shows "retouched a c"
proof -
  obtain f g where f: "b = a\<lparr>mc_cmdbufs := f\<rparr>" and g: "c = b\<lparr>mc_cmdbufs := g\<rparr>" using assms by (auto simp: retouched_def)
  have "\<exists>t. g n = (mc_cmdbufs a n)\<lparr>cb_touched := t\<rparr> \<and> touched_grows (cb_touched (mc_cmdbufs a n)) t" for n
  proof -
    obtain t where t: "mc_cmdbufs b n = (mc_cmdbufs a n)\<lparr>cb_touched := t\<rparr>" "touched_grows (cb_touched (mc_cmdbufs a n)) t"
      using retouched_cmdbuf [OF assms(1)] by blast
    obtain t' where t': "mc_cmdbufs c n = (mc_cmdbufs b n)\<lparr>cb_touched := t'\<rparr>" "touched_grows (cb_touched (mc_cmdbufs b n)) t'"
      using retouched_cmdbuf [OF assms(2)] by blast
    have "g n = (mc_cmdbufs a n)\<lparr>cb_touched := t'\<rparr>" using t(1) t'(1) g by simp
    moreover have "touched_grows (cb_touched (mc_cmdbufs a n)) t'" using t t'(2) touched_grows_trans by simp
    ultimately show ?thesis by blast
  qed
  then show ?thesis unfolding retouched_def using f g by (intro exI [of _ g]) simp
qed

lemma touches_retouched:
  assumes "retouched mc mc'" "touches mc c obj i"
  shows "touches mc' c obj i"
proof -
  obtain t where "mc_cmdbufs mc' c = (mc_cmdbufs mc c)\<lparr>cb_touched := t\<rparr>" "touched_grows (cb_touched (mc_cmdbufs mc c)) t"
    using retouched_cmdbuf [OF assms(1)] by blast
  then show ?thesis using assms(2) retouched_simps(2,4) [OF assms(1)] by (auto simp: touches_def touched_grows_def)
qed

lemma touched_retouched:
  assumes "retouched mc mc'" "i \<in> exposed (ranges_of (cb_touched (mc_cmdbufs mc c)) obj)"
  shows "i \<in> exposed (ranges_of (cb_touched (mc_cmdbufs mc' c)) obj)"
proof -
  obtain t where "mc_cmdbufs mc' c = (mc_cmdbufs mc c)\<lparr>cb_touched := t\<rparr>" "touched_grows (cb_touched (mc_cmdbufs mc c)) t"
    using retouched_cmdbuf [OF assms(1)] by blast
  then show ?thesis using assms(2) by (auto simp: touched_grows_def)
qed

lemma touch_all_ok:
  assumes "capture_inv V mc"
  shows "\<exists>mc'. touch_all_address_taken_buffers c mc = Inr mc' \<and> capture_inv V mc' \<and> retouched mc mc' \<and>
    (\<forall>d. d \<noteq> c \<longrightarrow> mc_cmdbufs mc' d = mc_cmdbufs mc d) \<and>
    (\<forall>obj i. touches mc c obj i \<longrightarrow> i \<in> exposed (ranges_of (cb_touched (mc_cmdbufs mc' c)) obj))"
proof -
  have "touched_ok (mc_objects mc) (cb_touched (mc_cmdbufs mc c))" using assms by (simp add: capture_inv_def)
  then obtain t where t: "touch_buffers (mc_objects mc) (cb_device (mc_cmdbufs mc c)) (mc_buffers mc) (cb_touched (mc_cmdbufs mc c)) = Inr t"
      "touched_ok (mc_objects mc) t" "touched_grows (cb_touched (mc_cmdbufs mc c)) t"
      "\<forall>b\<in>set (mc_buffers mc). address_taken (mc_objects mc) (cb_device (mc_cmdbufs mc c)) b \<longrightarrow>
        {..<unat (to_size (mc_objects mc b))} \<subseteq> exposed (ranges_of t b)"
    using touch_buffers_ok by blast
  define mc' where "mc' = mc\<lparr>mc_cmdbufs := (mc_cmdbufs mc)(c := (mc_cmdbufs mc c)\<lparr>cb_touched := t\<rparr>)\<rparr>"
  have "touch_all_address_taken_buffers c mc = Inr mc'" using t(1) by (simp add: touch_all_address_taken_buffers_def mc'_def Let_def)
  moreover have "capture_inv V mc'" using assms t(2) by (simp add: capture_inv_def mc'_def)
  moreover have "retouched mc mc'"
  proof -
    have "\<exists>u. mc_cmdbufs mc' d = (mc_cmdbufs mc d)\<lparr>cb_touched := u\<rparr> \<and> touched_grows (cb_touched (mc_cmdbufs mc d)) u" for d
      using t(3) retouched_cmdbuf [OF retouched_refl, of mc d] by (cases "d = c") (auto simp: mc'_def)
    then show ?thesis unfolding retouched_def by (intro exI [of _ "mc_cmdbufs mc'"]) (simp add: mc'_def)
  qed
  moreover have "i \<in> exposed (ranges_of (cb_touched (mc_cmdbufs mc' c)) obj)" if "touches mc c obj i" for obj i
    using that t(3,4) by (auto simp: touches_def mc'_def touched_grows_def)
  ultimately show ?thesis by (auto simp: mc'_def)
qed

text \<open>Every exposed byte that one of the command buffers \<open>D\<close> touches is in a range of a memory object that is compared.\<close>

definition queued :: "memory_capture \<Rightarrow> memory_ranges \<Rightarrow> nat list \<Rightarrow> nat set \<Rightarrow> bool" where
  "queued mc ranges used D \<longleftrightarrow> ranges_ok mc ranges \<and> set used \<subseteq> D \<and>
    (\<forall>c\<in>D. \<forall>m. covers mc m (cb_touched (mc_cmdbufs mc c)) (\<lambda>i. i \<in> exposed (dm_exposed (mc_memories mc m)) \<longrightarrow> c \<in> set used \<and> in_ranges ranges m i))"

lemma queue_update_ok:
  assumes "capture_inv V mc" "queued mc ranges used D"
  shows "\<exists>mc' ranges' used'. queue_update c (mc, ranges, used) = Inr (mc', ranges', used') \<and> capture_inv V mc' \<and> retouched mc mc' \<and>
    queued mc' ranges' used' (insert c D) \<and> (\<forall>obj i. touches mc c obj i \<longrightarrow> i \<in> exposed (ranges_of (cb_touched (mc_cmdbufs mc' c)) obj))"
proof -
  have "\<exists>mc1. (if cb_uses_device_address_shader (mc_cmdbufs mc c) then touch_all_address_taken_buffers c mc else Inr mc) = Inr mc1 \<and>
      capture_inv V mc1 \<and> retouched mc mc1 \<and> (\<forall>d. d \<noteq> c \<longrightarrow> mc_cmdbufs mc1 d = mc_cmdbufs mc d) \<and>
      (\<forall>obj i. touches mc c obj i \<longrightarrow> i \<in> exposed (ranges_of (cb_touched (mc_cmdbufs mc1 c)) obj))"
    using touch_all_ok [OF assms(1), of c] assms(1) retouched_refl [of mc]
    by (cases "cb_uses_device_address_shader (mc_cmdbufs mc c)") (simp_all add: touches_def)
  then obtain mc1 where mc1: "(if cb_uses_device_address_shader (mc_cmdbufs mc c) then touch_all_address_taken_buffers c mc else Inr mc) = Inr mc1"
      "capture_inv V mc1" "retouched mc mc1" "\<forall>d. d \<noteq> c \<longrightarrow> mc_cmdbufs mc1 d = mc_cmdbufs mc d"
      "\<forall>obj i. touches mc c obj i \<longrightarrow> i \<in> exposed (ranges_of (cb_touched (mc_cmdbufs mc1 c)) obj)" by blast
  note same = retouched_simps [OF mc1(3)]
  have t: "touched_ok (mc_objects mc1) (cb_touched (mc_cmdbufs mc1 c))" using mc1(2) by (simp add: capture_inv_def)
  have "ranges_ok mc1 ranges" using assms(2) same(6) by (simp add: queued_def)
  from queue_ranges_ok [OF mc1(2) this t] obtain ranges' used' where q: "queue_ranges mc1 c (cb_touched (mc_cmdbufs mc1 c)) (ranges, used) = Inr (ranges', used')"
      "ranges_ok mc1 ranges'" "set used \<subseteq> set used'" "set used' \<subseteq> insert c (set used)" "\<forall>n i. in_ranges ranges n i \<longrightarrow> in_ranges ranges' n i"
      "\<forall>m. covers mc1 m (cb_touched (mc_cmdbufs mc1 c)) (\<lambda>i. i \<in> exposed (dm_exposed (mc_memories mc1 m)) \<longrightarrow> c \<in> set used' \<and> in_ranges ranges' m i)"
    by blast
  have "covers mc1 m (cb_touched (mc_cmdbufs mc1 d)) (\<lambda>i. i \<in> exposed (dm_exposed (mc_memories mc1 m)) \<longrightarrow> d \<in> set used' \<and> in_ranges ranges' m i)"
    if d: "d \<in> insert c D" for d m
  proof (cases "d = c")
    case False
    then have "covers mc m (cb_touched (mc_cmdbufs mc d)) (\<lambda>i. i \<in> exposed (dm_exposed (mc_memories mc m)) \<longrightarrow> d \<in> set used \<and> in_ranges ranges m i)"
      using assms(2) d by (simp add: queued_def)
    then have "covers mc m (cb_touched (mc_cmdbufs mc d)) (\<lambda>i. i \<in> exposed (dm_exposed (mc_memories mc m)) \<longrightarrow> d \<in> set used' \<and> in_ranges ranges' m i)"
      by (rule covers_mono) (use q(3,5) in blast)
    then show ?thesis using False mc1(4) same(3,5) by simp
  qed (use q(6) in simp)
  moreover have "set used' \<subseteq> insert c D" using q(4) assms(2) by (auto simp: queued_def)
  ultimately have "queued mc1 ranges' used' (insert c D)" using q(2) by (simp add: queued_def)
  moreover have "queue_update c (mc, ranges, used) = Inr (mc1, ranges', used')" using mc1(1) q(1) by (simp add: queue_update_def)
  ultimately show ?thesis using mc1(2,3,5) by blast
qed

lemma queue_updates_ok:
  assumes "capture_inv V mc" "queued mc ranges used D"
  shows "\<exists>mc' ranges' used'. queue_updates cs (mc, ranges, used) = Inr (mc', ranges', used') \<and> capture_inv V mc' \<and> retouched mc mc' \<and>
    queued mc' ranges' used' (set cs \<union> D) \<and>
    (\<forall>c\<in>set cs. \<forall>obj i. touches mc c obj i \<longrightarrow> i \<in> exposed (ranges_of (cb_touched (mc_cmdbufs mc' c)) obj))"
  using assms
proof (induction cs arbitrary: mc ranges used D)
  case Nil
  then show ?case using retouched_refl by auto
next
  case (Cons c cs)
  obtain mc1 ranges1 used1 where 1: "queue_update c (mc, ranges, used) = Inr (mc1, ranges1, used1)" "capture_inv V mc1" "retouched mc mc1"
      "queued mc1 ranges1 used1 (insert c D)" "\<forall>obj i. touches mc c obj i \<longrightarrow> i \<in> exposed (ranges_of (cb_touched (mc_cmdbufs mc1 c)) obj)"
    using queue_update_ok [OF Cons.prems] by metis
  obtain mc' ranges' used' where 2: "queue_updates cs (mc1, ranges1, used1) = Inr (mc', ranges', used')" "capture_inv V mc'" "retouched mc1 mc'"
      "queued mc' ranges' used' (set cs \<union> insert c D)"
      "\<forall>c\<in>set cs. \<forall>obj i. touches mc1 c obj i \<longrightarrow> i \<in> exposed (ranges_of (cb_touched (mc_cmdbufs mc' c)) obj)"
    using Cons.IH [OF 1(2,4)] by blast
  have "i \<in> exposed (ranges_of (cb_touched (mc_cmdbufs mc' d)) obj)" if "d \<in> set (c # cs)" "touches mc d obj i" for d obj i
    using that 1(5) 2(5) touches_retouched [OF 1(3)] touched_retouched [OF 2(3)] by auto
  then show ?case using 1(1) 2 retouched_trans [OF 1(3) 2(3)] by auto
qed

text \<open>The first byte behind a mapping counts as mapped in \<open>memory_update\<close>; as long as it is not exposed this does no harm.\<close>

definition edge_clear :: "memory_capture \<Rightarrow> bool" where
  "edge_clear mc \<longleftrightarrow> (\<forall>m. let mem = mc_memories mc m in dm_mapped mem \<longrightarrow>
    unat (dm_offset mem) + unat (dm_size mem) \<notin> exposed (dm_exposed mem))"

lemma mapped_end:
  assumes "mem_ok mem" "dm_mapped mem" "dm_size mem \<noteq> 0"
  shows "unat (dm_offset mem) + unat (dm_size mem) \<le> allocated mem"
proof -
  have "0 < unat (dm_size mem)" using assms(3) by (simp add: unat_gt_0)
  then have "unat (dm_offset mem) + unat (dm_size mem) - 1 \<in> mapped_bytes mem" by (auto simp: mapped_bytes_def)
  then have "unat (dm_offset mem) + unat (dm_size mem) - 1 < allocated mem" using assms(1,2) by (auto simp: mem_ok_def)
  then show ?thesis by simp
qed

lemma allocated_bound: "allocated mem < 2 ^ 64"
  using unsigned_less [of "dm_allocation_size mem", where 'a = nat] by simp

lemma binding_ok:
  assumes "mem_ok mem" "rfirst r \<le> rlast r" "unat (rfirst r) \<in> exposed (dm_exposed mem)" "unat (rlast r) \<in> exposed (dm_exposed mem)"
    and "dm_mapped mem \<longrightarrow> unat (dm_offset mem) + unat (dm_size mem) \<notin> exposed (dm_exposed mem)"
  shows "\<exists>b. binding mem r = Inr b \<and> (\<forall>i\<in>range_set r. in_binding b i)"
proof (cases "dm_mapped mem \<and> dm_offset mem \<le> rfirst r \<and> dm_size mem + dm_offset mem \<ge> rlast r")
  case True
  have "unat (dm_size mem) + unat (dm_offset mem) < 2 ^ 64"
    using mapped_end [OF assms(1)] True allocated_bound [of mem] unsigned_less [of "dm_offset mem", where 'a = nat]
    by (cases "dm_size mem = 0") auto
  then have "unat (rlast r) \<le> unat (dm_offset mem) + unat (dm_size mem)"
    using True unat_add_small [of "dm_size mem" "dm_offset mem"] by (simp add: word_le_nat_alt)
  moreover have "unat (rlast r) \<noteq> unat (dm_offset mem) + unat (dm_size mem)" using assms(4,5) True by metis
  ultimately have "in_binding (dm_offset mem, dm_size mem) i" if "i \<in> range_set r" for i
    using that True by (auto simp: in_binding_def range_set_def word_le_nat_alt)
  then show ?thesis using True by (auto simp: binding_def)
next
  case False
  have bound: "unat (rlast r) < allocated mem" using assms(1,4) by (auto simp: mem_ok_def)
  have le: "unat (rfirst r) \<le> unat (rlast r)" using assms(2) by (simp add: word_le_nat_alt)
  have "unat (rlast r - rfirst r) = unat (rlast r) - unat (rfirst r)" using assms(2) by (rule unat_sub)
  moreover have "unat (rlast r - rfirst r) + unat (1 :: u64) < 2 ^ LENGTH(64)" using calculation bound allocated_bound [of mem] by simp
  ultimately have n: "unat (rlast r - rfirst r + 1) = unat (rlast r) - unat (rfirst r) + 1" by (subst unat_add_small) simp_all
  then have "rlast r - rfirst r + 1 \<le> dm_allocation_size mem" using bound le by (simp add: word_le_nat_alt)
  then have "binding mem r = Inr (rfirst r, rlast r - rfirst r + 1)" using False assms(2) by (auto simp: binding_def Let_def)
  moreover have "in_binding (rfirst r, rlast r - rfirst r + 1) i" if "i \<in> range_set r" for i
    using that le by (auto simp: in_binding_def range_set_def n)
  ultimately show ?thesis by blast
qed

lemma submit_ok:
  assumes "capture_inv V mc" "tr_created dev" "edge_clear mc"
  shows "\<exists>mc' es. trace_pre_vkQueueSubmit cx dev False cs mc = Inr mc' \<and> capture_inv V mc' \<and>
    same_identity (mc_objects mc) (mc_objects mc') \<and> logs dev mc mc' es \<and>
    (\<forall>m. dm_contents (mc_memories mc' m) = dm_contents (mc_memories mc m)) \<and>
    (\<forall>c\<in>set cs. \<forall>obj i m. touches mc c obj i \<and> to_backing (mc_objects mc obj) = Some m \<and>
      unat (to_offset (mc_objects mc obj)) + i \<in> V m \<longrightarrow> clean (mc_memories mc' m) (unat (to_offset (mc_objects mc obj)) + i))"
proof -
  have "queued mc [] [] {}" by (simp add: queued_def ranges_ok_def)
  from queue_updates_ok [OF assms(1) this, of cs] obtain mc1 ranges used where
    1: "queue_updates cs (mc, [], []) = Inr (mc1, ranges, used)" "capture_inv V mc1" "retouched mc mc1" "queued mc1 ranges used (set cs)"
    "\<forall>c\<in>set cs. \<forall>obj i. touches mc c obj i \<longrightarrow> i \<in> exposed (ranges_of (cb_touched (mc_cmdbufs mc1 c)) obj)" by auto
  have used: "set used \<subseteq> set cs" using 1(4) by (simp add: queued_def)
  have okr: "ranges_ok mc1 ranges" using 1(4) by (simp add: queued_def)
  have entry: "map_of ranges m = Some r" if "(m, r) \<in> set ranges" for m r using that okr by (simp add: ranges_ok_def)
  have cover: "covers mc1 m (cb_touched (mc_cmdbufs mc1 c)) (\<lambda>i. i \<in> exposed (dm_exposed (mc_memories mc1 m)) \<longrightarrow> c \<in> set used \<and> in_ranges ranges m i)"
    if "c \<in> set cs" for c m using 1(4) that unfolding queued_def by blast
  have mem: "mem_ok (mc_memories mc1 m)" for m using 1(2) by (simp add: capture_inv_def)
  have "\<forall>(m, r)\<in>set ranges. dm_host_visible (mc_memories mc1 m) \<and> (\<exists>b. binding (mc_memories mc1 m) r = Inr b \<and> (\<forall>i\<in>range_set r. in_binding b i))"
  proof clarify
    fix m r assume "(m, r) \<in> set ranges"
    then have r: "rfirst r \<le> rlast r" "unat (rfirst r) \<in> exposed (dm_exposed (mc_memories mc1 m))" "unat (rlast r) \<in> exposed (dm_exposed (mc_memories mc1 m))"
      using entry okr unfolding ranges_ok_def by blast+
    have "dm_clone (mc_memories mc1 m) \<noteq> None" using mem [of m] r(2) by (auto simp: mem_ok_def)
    then have "dm_host_visible (mc_memories mc1 m)" using mem [of m] by (auto simp: mem_ok_def)
    moreover have "dm_mapped (mc_memories mc1 m) \<longrightarrow>
        unat (dm_offset (mc_memories mc1 m)) + unat (dm_size (mc_memories mc1 m)) \<notin> exposed (dm_exposed (mc_memories mc1 m))"
      using assms(3) retouched_simps(3) [OF 1(3)] by (simp add: edge_clear_def Let_def)
    ultimately show "dm_host_visible (mc_memories mc1 m) \<and> (\<exists>b. binding (mc_memories mc1 m) r = Inr b \<and> (\<forall>i\<in>range_set r. in_binding b i))"
      using binding_ok [OF mem r] by blast
  qed
  moreover have "\<forall>(m, r)\<in>set ranges. \<forall>c\<in>set used. covers mc1 m (cb_touched (mc_cmdbufs mc1 c))
      (\<lambda>i. i \<in> exposed (dm_exposed (mc_memories mc1 m)) \<longrightarrow> i \<in> range_set r)"
  proof clarify
    fix m r c assume "(m, r) \<in> set ranges" "c \<in> set used"
    then show "covers mc1 m (cb_touched (mc_cmdbufs mc1 c)) (\<lambda>i. i \<in> exposed (dm_exposed (mc_memories mc1 m)) \<longrightarrow> i \<in> range_set r)"
      using entry used by (intro covers_mono [OF cover]) (auto simp: in_ranges_def)
  qed
  ultimately obtain mc' where mc': "memory_update cx dev ranges used mc1 = Inr mc'" "capture_inv V mc'" "advances dev mc1 mc'"
      "\<forall>(m, r)\<in>set ranges. \<forall>c\<in>set used. covers mc1 m (cb_touched (mc_cmdbufs mc1 c)) (\<lambda>i. i \<in> V m \<longrightarrow> clean (mc_memories mc' m) i)"
    using memory_update_ok [OF 1(2) assms(2)] by blast
  have compared: "clean (mc_memories mc' m) i"
    if c: "c \<in> set cs" and e: "(obj, e) \<in> set (cb_touched (mc_cmdbufs mc1 c))" "to_backing (mc_objects mc1 obj) = Some m"
      and i: "i \<in> touched_bytes (mc_objects mc1 obj) e" "i \<in> V m" for c obj e m i
  proof (cases "i \<in> exposed (dm_exposed (mc_memories mc1 m))")
    case True
    then have "c \<in> set used" "in_ranges ranges m i" using cover [OF c, of m] e i(1) by (auto simp: covers_def)
    then obtain r where "(m, r) \<in> set ranges" by (auto simp: in_ranges_def dest: map_of_SomeD)
    then have "covers mc1 m (cb_touched (mc_cmdbufs mc1 c)) (\<lambda>i. i \<in> V m \<longrightarrow> clean (mc_memories mc' m) i)"
      using mc'(4) \<open>c \<in> set used\<close> by blast
    then show ?thesis using e i by (auto simp: covers_def)
  next
    case False
    then have "clean (mc_memories mc1 m) i" using 1(2) i(2) by (auto simp: capture_inv_def synced_def)
    then show ?thesis using clean_advances [OF mc'(3)] by blast
  qed
  have "clean (mc_memories mc' m) (unat (to_offset (mc_objects mc obj)) + i)"
    if "c \<in> set cs" "touches mc c obj i" "to_backing (mc_objects mc obj) = Some m" "unat (to_offset (mc_objects mc obj)) + i \<in> V m" for c obj i m
  proof -
    define e where "e = ranges_of (cb_touched (mc_cmdbufs mc1 c)) obj"
    have i: "i \<in> exposed e" using 1(5) that(1,2) by (simp add: e_def)
    then have "(obj, e) \<in> set (cb_touched (mc_cmdbufs mc1 c))"
      by (auto simp: e_def ranges_of_def split: option.splits dest: map_of_SomeD)
    then show ?thesis using compared [OF that(1)] that(3,4) i retouched_simps(2) [OF 1(3)] by (simp add: touched_bytes_def)
  qed
  moreover obtain es where "logs dev mc1 mc' es" using mc'(3) unfolding advances_def by blast
  then have "logs dev mc mc' es" unfolding logs_def retouched_simps(1-3) [OF 1(3)] .
  moreover have "same_identity (mc_objects mc) (mc_objects mc')" using mc'(3) unfolding advances_def retouched_simps(2) [OF 1(3)] by blast
  moreover have "trace_pre_vkQueueSubmit cx dev False cs mc = Inr mc'" using 1(1) mc'(1) by (simp add: trace_pre_vkQueueSubmit_def)
  moreover have "dm_contents (mc_memories mc' m) = dm_contents (mc_memories mc m)" for m
    using mem_advances_fields(6) [OF advances_mem [OF mc'(3)]] retouched_simps(3) [OF 1(3)] by simp
  ultimately show ?thesis using mc'(2) by (intro exI [of _ mc'] exI [of _ es]) blast
qed

section \<open>An application that maps, writes, flushes and submits\<close>

text \<open>\<open>V\<close> are, for every memory object, the bytes whose last write by the host is visible to the device, and \<open>U\<close> those
  written to memory that is not coherent and not flushed since.  The application keeps to the rules of the
  Vulkan specification: it maps memory that is host visible and not mapped, within its size, writes what it has mapped, and
  touches objects within their size; a submit in a state that is not \<open>edge_clear\<close> is the subject of a theorem below.\<close>

type_synonym bytes_of = "nat \<Rightarrow> nat set"

definition set_memory :: "nat \<Rightarrow> device_memory \<Rightarrow> memory_capture \<Rightarrow> memory_capture" where
  "set_memory m mem mc = mc\<lparr>mc_memories := (mc_memories mc)(m := mem)\<rparr>"

definition set_touched :: "nat \<Rightarrow> touched \<Rightarrow> memory_capture \<Rightarrow> memory_capture" where
  "set_touched c t mc = mc\<lparr>mc_cmdbufs := (mc_cmdbufs mc)(c := (mc_cmdbufs mc c)\<lparr>cb_touched := t\<rparr>)\<rparr>"

definition host_write :: "nat \<Rightarrow> u8 \<Rightarrow> device_memory \<Rightarrow> device_memory" where
  "host_write i x mem = mem\<lparr>dm_contents := (dm_contents mem)[i := x]\<rparr>"

definition flushed_bytes :: "u64 \<Rightarrow> u64 \<Rightarrow> device_memory \<Rightarrow> nat set" where
  "flushed_bytes off sz mem = (case capture_clamp_mapped_flush_range off sz mem of None \<Rightarrow> {} | Some (a, b) \<Rightarrow> {unat a..<unat b})"

inductive capture_step :: "codec \<Rightarrow> trackable \<Rightarrow> memory_capture \<Rightarrow> bytes_of \<Rightarrow> bytes_of \<Rightarrow> memory_capture \<Rightarrow> bytes_of \<Rightarrow> bytes_of \<Rightarrow> bool"
  for cx :: codec and dev :: trackable where
  Map: "mem = mc_memories mc m \<Longrightarrow> dm_host_visible mem \<Longrightarrow> \<not> dm_mapped mem \<Longrightarrow> off < dm_allocation_size mem \<Longrightarrow>
    sz = VK_WHOLE_SIZE \<or> 0 < sz \<and> unat off + unat sz \<le> allocated mem \<Longrightarrow> trace_post_vkMapMemory True off sz mem = Inr mem' \<Longrightarrow>
    capture_step cx dev mc V U (set_memory m mem' mc) V U"
| Unmap: "capture_step cx dev mc V U (set_memory m (trace_post_vkUnmapMemory_common (mc_memories mc m)) mc) V U"
| Write: "mem = mc_memories mc m \<Longrightarrow> dm_mapped mem \<Longrightarrow> i \<in> mapped_bytes mem \<Longrightarrow>
    capture_step cx dev mc V U (set_memory m (host_write i x mem) mc)
      (if dm_host_coherent mem then V(m := insert i (V m)) else V(m := V m - {i})) (U(m := insert i (U m)))"
| Flush: "mem = mc_memories mc m \<Longrightarrow> flush_range off sz mem = Inr mem' \<Longrightarrow>
    capture_step cx dev mc V U (set_memory m mem' mc) (V(m := V m \<union> U m \<inter> flushed_bytes off sz mem)) (U(m := U m - flushed_bytes off sz mem))"
| Touch: "unat off + unat (if sz = VK_WHOLE_SIZE then to_size (mc_objects mc obj) - off else sz) \<le> unat (to_size (mc_objects mc obj)) \<Longrightarrow>
    touch (mc_objects mc) obj off sz (cb_touched (mc_cmdbufs mc c)) = Inr t \<Longrightarrow> capture_step cx dev mc V U (set_touched c t mc) V U"
| Execute: "touch_merge (cb_touched (mc_cmdbufs mc secondary)) (cb_touched (mc_cmdbufs mc c)) = Inr t \<Longrightarrow>
    capture_step cx dev mc V U (set_touched c t mc) V U"
| Reset: "capture_step cx dev mc V U (set_touched c [] mc) V U"
| Call: "appends body payload \<Longrightarrow> 5 + length payload < 2 ^ 32 \<Longrightarrow> write_packet cx PACKET_VULKAN_API_CALL body (mc_writer mc) = Inr lw \<Longrightarrow>
    capture_step cx dev mc V U (mc\<lparr>mc_writer := lw\<rparr>) V U"
| Submit: "edge_clear mc \<Longrightarrow> trace_pre_vkQueueSubmit cx dev False cs mc = Inr mc' \<Longrightarrow> capture_step cx dev mc V U mc' V U"

definition capture_start :: "memory_capture \<Rightarrow> bool" where
  "capture_start mc \<longleftrightarrow> closed_ok (\<lambda>x. x) [] (mc_writer mc) \<and>
    (\<forall>m. let mem = mc_memories mc m in length (dm_contents mem) = allocated mem \<and> dm_clone mem = None \<and>
      \<not> dm_mapped mem \<and> dm_exposed mem = exposure_new) \<and>
    (\<forall>obj. object_ok (mc_memories mc) (mc_objects mc obj)) \<and> (\<forall>c. cb_touched (mc_cmdbufs mc c) = [])"

inductive capture_reachable :: "codec \<Rightarrow> trackable \<Rightarrow> memory_capture \<Rightarrow> bytes_of \<Rightarrow> bytes_of \<Rightarrow> bool"
  for cx :: codec and dev :: trackable where
  start: "capture_start mc \<Longrightarrow> capture_reachable cx dev mc (\<lambda>_. {}) (\<lambda>_. {})"
| step: "capture_reachable cx dev mc V U \<Longrightarrow> capture_step cx dev mc V U mc' V' U' \<Longrightarrow> capture_reachable cx dev mc' V' U'"

lemma clean_None [simp]: "dm_clone mem = None \<Longrightarrow> \<not> clean mem i"
  by (simp add: clean_def)

lemma mem_ok_exposure: "mem_ok mem \<Longrightarrow> exposure_inv (dm_exposed mem)"
  by (simp add: mem_ok_def)

lemma set_memory_inv:
  assumes "capture_inv V mc" "mem_ok mem" "synced (V' m) mem" "allocated mem = allocated (mc_memories mc m)" "\<forall>n. n \<noteq> m \<longrightarrow> V' n = V n"
  shows "capture_inv V' (set_memory m mem mc)"
proof -
  have "allocated (mc_memories (set_memory m mem mc) n) = allocated (mc_memories mc n)" for n
    using assms(4) by (simp add: set_memory_def)
  then have "object_ok (mc_memories (set_memory m mem mc)) od = object_ok (mc_memories mc) od" for od
    by (simp add: object_ok_def)
  then show ?thesis using assms by (simp add: capture_inv_def) (simp add: set_memory_def)
qed

lemma set_touched_inv:
  assumes "capture_inv V mc" "touched_ok (mc_objects mc) t"
  shows "capture_inv V (set_touched c t mc)"
  using assms by (simp add: capture_inv_def set_touched_def)

lemma map_ok:
  assumes "mem_ok mem" "synced V mem" "dm_host_visible mem" "\<not> dm_mapped mem" "off < dm_allocation_size mem"
    and "sz = VK_WHOLE_SIZE \<or> 0 < sz \<and> unat off + unat sz \<le> allocated mem"
  shows "\<exists>mem'. trace_post_vkMapMemory True off sz mem = Inr mem' \<and> mem_ok mem' \<and> synced V mem' \<and> allocated mem' = allocated mem"
proof -
  define size' where "size' = (if sz = VK_WHOLE_SIZE \<or> sz + off > dm_allocation_size mem then dm_allocation_size mem - off else sz)"
  have off: "unat off < allocated mem" using assms(5) by (simp add: word_less_nat_alt)
  have "unat (dm_allocation_size mem - off) = allocated mem - unat off" by (rule unat_sub) (use off in \<open>simp add: word_le_nat_alt\<close>)
  then have fit: "unat off + unat size' \<le> allocated mem" using off assms(6) by (auto simp: size'_def)
  define clone where "clone = (case dm_clone mem of None \<Rightarrow> replicate (allocated mem) 0 | Some c \<Rightarrow> c)"
  have clone: "length clone = allocated mem" using assms(1) by (auto simp: clone_def mem_ok_def split: option.splits)
  obtain e where e: "exposure_add_os off size' (dm_exposed mem) = Inr e" "exposure_inv e"
      "exposed e = exposed (dm_exposed mem) \<union> {unat off..<unat off + unat size'}"
    using add_os_ok [OF mem_ok_exposure [OF assms(1)] fit allocated_bound] by blast
  define ex where "ex = (if dm_host_coherent mem then e else dm_exposed mem)"
  define mem' where "mem' = mem\<lparr>dm_mapped := True, dm_offset := off, dm_size := size', dm_clone := Some clone, dm_exposed := ex\<rparr>"
  have "trace_post_vkMapMemory True off sz mem = Inr mem'"
    using e(1) by (simp add: trace_post_vkMapMemory_def Let_def mem'_def clone_def ex_def flip: size'_def split: option.splits)
  moreover have "mem_ok mem'"
    using assms(1,3) clone e(2,3) fit by (auto simp: mem_ok_def mem'_def ex_def mapped_bytes_def)
  moreover have "clean mem' i" if "clean mem i" for i using that by (auto simp: clean_def mem'_def clone_def)
  then have "synced V mem'" using assms(2) e(3) by (auto simp: synced_def mem'_def ex_def)
  ultimately show ?thesis by (auto simp: mem'_def)
qed

lemma map_image:
  assumes "trace_post_vkMapMemory True off sz mem = Inr mem'"
  shows "object_image mem' od = object_image mem od"
proof -
  have "dm_clone mem' = Some (case dm_clone mem of None \<Rightarrow> replicate (allocated mem) 0 | Some c \<Rightarrow> c)"
    using assms by (auto simp: trace_post_vkMapMemory_def Let_def result_bind_def split: if_splits option.splits sum.splits)
  then show ?thesis by (simp add: object_image_def)
qed

lemma map_fields:
  assumes "trace_post_vkMapMemory True off sz mem = Inr mem'"
  shows "dm_contents mem' = dm_contents mem \<and> (dm_clone mem \<noteq> None \<longrightarrow> dm_clone mem' = dm_clone mem)"
  using assms by (auto simp: trace_post_vkMapMemory_def Let_def result_bind_def split: if_splits option.splits sum.splits)

lemma unmap_ok:
  assumes "mem_ok mem" "synced V mem"
  shows "mem_ok (trace_post_vkUnmapMemory_common mem)" "synced V (trace_post_vkUnmapMemory_common mem)"
  using assms by (auto simp: trace_post_vkUnmapMemory_common_def mem_ok_def synced_def clean_def)

lemma write_ok:
  assumes "mem_ok mem" "synced V mem" "dm_mapped mem" "i \<in> mapped_bytes mem"
  shows "mem_ok (host_write i x mem)" "synced (if dm_host_coherent mem then insert i V else V - {i}) (host_write i x mem)"
proof -
  show "mem_ok (host_write i x mem)" using assms(1) by (simp add: mem_ok_def host_write_def mapped_bytes_def)
  have new: "dm_exposed (host_write i x mem) = dm_exposed mem" "dm_clone (host_write i x mem) = dm_clone mem"
      "allocated (host_write i x mem) = allocated mem" by (simp_all add: host_write_def)
  have "clean (host_write i x mem) j \<or> j \<in> exposed (dm_exposed mem)" if "j \<in> V" "j \<noteq> i" for j
  proof -
    have "clean mem j \<or> j \<in> exposed (dm_exposed mem)" using assms(2) that(1) by (simp add: synced_def)
    then show ?thesis using that(2) by (auto simp: clean_def host_write_def)
  qed
  moreover have "i < allocated mem" "dm_clone mem \<noteq> None" "dm_host_coherent mem \<longrightarrow> i \<in> exposed (dm_exposed mem)"
    using assms(1,3,4) by (auto simp: mem_ok_def)
  ultimately show "synced (if dm_host_coherent mem then insert i V else V - {i}) (host_write i x mem)"
    using assms(2) unfolding synced_def new by auto
qed

lemma clamp_bounds:
  assumes "capture_clamp_mapped_flush_range off sz mem = Some (a, b)" "mem_ok mem"
  shows "a < b" "unat b \<le> allocated mem" "dm_mapped mem"
proof -
  have c: "dm_mapped mem" "dm_size mem \<noteq> 0" "a < b" "b \<le> dm_offset mem + dm_size mem"
    using assms(1) by (auto simp: capture_clamp_mapped_flush_range_def Let_def not_le split: if_splits)
  have "unat (dm_offset mem) + unat (dm_size mem) \<le> allocated mem" by (rule mapped_end [OF assms(2) c(1,2)])
  moreover from this have "unat (dm_offset mem + dm_size mem) = unat (dm_offset mem) + unat (dm_size mem)"
    using allocated_bound [of mem] by (intro unat_add_small) simp
  ultimately show "a < b" "unat b \<le> allocated mem" "dm_mapped mem" using c by (simp_all add: word_le_nat_alt)
qed

lemma flush_range_defined:
  assumes "mem_ok mem"
  shows "\<exists>mem'. flush_range off sz mem = Inr mem'"
proof (cases "capture_clamp_mapped_flush_range off sz mem")
  case None
  then show ?thesis by (simp add: flush_range_def)
next
  case (Some ab)
  obtain a b where ab: "ab = (a, b)" by fastforce
  note clamp = clamp_bounds [OF Some [unfolded ab] assms]
  have "unat (b - a) = unat b - unat a" using clamp(1) by (intro unat_sub) simp
  then have "unat a + unat (b - a) \<le> allocated mem" using clamp(1,2) by (simp add: word_less_nat_alt)
  then show ?thesis using add_os_ok [OF mem_ok_exposure [OF assms] _ allocated_bound] Some ab by (fastforce simp: flush_range_def)
qed

lemma flush_ok:
  assumes "mem_ok mem" "synced V mem" "flush_range off sz mem = Inr mem'"
  shows "mem_ok mem'" "synced (V \<union> U \<inter> flushed_bytes off sz mem) mem'" "allocated mem' = allocated mem"
proof -
  have "mem_ok mem' \<and> synced (V \<union> U \<inter> flushed_bytes off sz mem) mem' \<and> allocated mem' = allocated mem"
  proof (cases "capture_clamp_mapped_flush_range off sz mem")
    case None
    then show ?thesis using assms by (simp add: flush_range_def flushed_bytes_def)
  next
    case (Some ab)
    obtain a b where ab: "ab = (a, b)" by fastforce
    have c: "dm_mapped mem" "dm_size mem \<noteq> 0" "dm_offset mem \<le> a" "a < b" "b \<le> dm_offset mem + dm_size mem"
      using Some ab by (auto simp: capture_clamp_mapped_flush_range_def Let_def not_le split: if_splits)
    have "unat (dm_offset mem) + unat (dm_size mem) \<le> allocated mem" by (rule mapped_end [OF assms(1) c(1,2)])
    moreover from this have "unat (dm_offset mem + dm_size mem) = unat (dm_offset mem) + unat (dm_size mem)"
      using allocated_bound [of mem] by (intro unat_add_small) simp
    moreover have "unat (b - a) = unat b - unat a" using c(4) by (intro unat_sub) simp
    ultimately have fit: "unat a + unat (b - a) \<le> allocated mem" and stop: "unat a + unat (b - a) = unat b"
      using c(4,5) by (auto simp: word_le_nat_alt word_less_nat_alt)
    obtain e where e: "exposure_add_os a (b - a) (dm_exposed mem) = Inr e" "exposure_inv e"
        "exposed e = exposed (dm_exposed mem) \<union> {unat a..<unat b}"
      using add_os_ok [OF mem_ok_exposure [OF assms(1)] fit allocated_bound] unfolding stop by blast
    have mem': "mem' = mem\<lparr>dm_exposed := e\<rparr>" using assms(3) Some ab e(1) by (simp add: flush_range_def)
    have "mem_ok mem'" using assms(1) e(2,3) fit stop c(1) by (auto simp: mem_ok_def mem' mapped_bytes_def)
    moreover have "synced (V \<union> U \<inter> {unat a..<unat b}) mem'"
      using assms(1,2) e(3) fit stop c(1) by (auto simp: synced_def mem' clean_def mem_ok_def)
    ultimately show ?thesis using Some ab by (simp add: flushed_bytes_def mem')
  qed
  then show "mem_ok mem'" "synced (V \<union> U \<inter> flushed_bytes off sz mem) mem'" "allocated mem' = allocated mem" by blast+
qed

lemma add_ranges_ok:
  assumes "\<forall>r\<in>set rs. rfirst r \<le> rlast r \<and> range_set r \<subseteq> S" "exposure_inv e" "exposed e \<subseteq> S"
  shows "\<exists>e'. add_ranges rs e = Inr e' \<and> exposure_inv e' \<and> exposed e' \<subseteq> S"
  using assms
proof (induction rs arbitrary: e)
  case (Cons r rs)
  obtain e1 where e1: "exposure_add (rfirst r) (rlast r) e = Inr e1" "exposure_inv e1" "exposed e1 = exposed e \<union> {unat (rfirst r)..unat (rlast r)}"
    using exposure_tracker.add_law [OF Cons.prems(2), of "rfirst r" "rlast r"] Cons.prems(1) by auto
  have "exposed e1 \<subseteq> S" unfolding e1(3) using Cons.prems(1,3) by (auto simp: range_set_def)
  then show ?case using Cons.IH [OF _ e1(2)] Cons.prems(1) e1(1) by simp
qed simp

lemma touch_merge_ok:
  assumes "touched_ok objs other" "touched_ok objs t"
  shows "\<exists>t'. touch_merge other t = Inr t' \<and> touched_ok objs t'"
  using assms
proof (induction other arbitrary: t)
  case (Cons p other)
  obtain obj e where p: "p = (obj, e)" by fastforce
  let ?S = "{..<unat (to_size (objs obj))}"
  have rest: "touched_ok objs other" and e: "to_accessible (objs obj)" "exposure_inv e" "exposed e \<subseteq> ?S"
    using Cons.prems(1) by (auto simp: touched_ok_def p)
  have "\<exists>t1. touch_merge (p # other) t = touch_merge other t1 \<and> touched_ok objs t1"
  proof (cases "map_of t obj")
    case None
    then show ?thesis using touched_update [OF Cons.prems(2) e] by (intro exI [of _ "AList.update obj e t"]) (simp add: p)
  next
    case (Some e0)
    then have e0: "exposure_inv e0" "exposed e0 \<subseteq> ?S" using ranges_of_ok [OF Cons.prems(2), of obj] by (simp_all add: ranges_of_def)
    have "\<forall>r\<in>set (exposure_list e). rfirst r \<le> rlast r \<and> range_set r \<subseteq> ?S"
      using touched_ranges [OF e(2,3)] e(3) by blast
    then obtain e1 where e1: "add_ranges (exposure_list e) e0 = Inr e1" "exposure_inv e1" "exposed e1 \<subseteq> ?S"
      using add_ranges_ok e0 by blast
    show ?thesis using touched_update [OF Cons.prems(2) e(1) e1(2,3)] Some e1(1)
      by (intro exI [of _ "AList.update obj e1 t"]) (simp add: p)
  qed
  then show ?case using Cons.IH [OF rest] by metis
qed simp

text \<open>The handlers stay within what the submit of the next command buffers relies on.\<close>

lemma capture_step_inv:
  assumes "capture_step cx dev mc V U mc' V' U'" "capture_inv V mc" "tr_created dev"
  shows "capture_inv V' mc'"
  using assms(1)
proof cases
  case (Map mem m off sz mem')
  have "mem_ok mem" "synced (V m) mem" using assms(2) Map(4) by (simp_all add: capture_inv_def)
  then have "mem_ok mem'" "synced (V m) mem'" "allocated mem' = allocated mem" using map_ok [of mem "V m" off sz] Map by auto
  then show ?thesis unfolding Map(1,2) using set_memory_inv [OF assms(2), of mem' V m] Map(4) by simp
next
  case (Unmap m)
  have "mem_ok (mc_memories mc m)" "synced (V m) (mc_memories mc m)" using assms(2) by (simp_all add: capture_inv_def)
  then show ?thesis unfolding Unmap(1,2) using unmap_ok by (intro set_memory_inv [OF assms(2)]) (auto simp: trace_post_vkUnmapMemory_common_def)
next
  case (Write mem m i x)
  have mem: "mem_ok mem" "synced (V m) mem" using assms(2) Write(4) by (simp_all add: capture_inv_def)
  show ?thesis unfolding Write(1,2) using write_ok [OF mem Write(5,6), of x] Write(4)
    by (intro set_memory_inv [OF assms(2)]) (auto simp: host_write_def)
next
  case (Flush mem m off sz mem')
  have mem: "mem_ok mem" "synced (V m) mem" using assms(2) Flush(4) by (simp_all add: capture_inv_def)
  show ?thesis unfolding Flush(1,2) using flush_ok(1,3) [OF mem Flush(5)] flush_ok(2) [OF mem Flush(5), of "U m"] Flush(4) by (intro set_memory_inv [OF assms(2)]) auto
next
  case (Touch off sz obj c t)
  have "touched_ok (mc_objects mc) (cb_touched (mc_cmdbufs mc c))" using assms(2) by (simp add: capture_inv_def)
  from touch_ok [OF this Touch(4)] show ?thesis unfolding Touch(1,2) using Touch(5) by (intro set_touched_inv [OF assms(2)]) simp
next
  case (Execute secondary c t)
  have "touched_ok (mc_objects mc) (cb_touched (mc_cmdbufs mc d))" for d using assms(2) by (simp add: capture_inv_def)
  from touch_merge_ok [OF this this, of secondary c] show ?thesis unfolding Execute(1,2) using Execute(4) by (intro set_touched_inv [OF assms(2)]) simp
next
  case (Reset c)
  then show ?thesis using set_touched_inv [OF assms(2), of "[]" c] by (simp add: touched_ok_def)
next
  case (Call body payload lw)
  obtain s where "closed_ok (\<lambda>x. x) s (mc_writer mc)" using assms(2) by (auto simp: capture_inv_def)
  from write_packet_ok [OF this Call(4,5)] have "\<exists>s. closed_ok (\<lambda>x. x) s lw" using Call(6) by (metis sum.inject(2))
  then show ?thesis unfolding Call(1,2) using assms(2) by (simp add: capture_inv_def)
next
  case (Submit cs)
  then show ?thesis using submit_ok [OF assms(2,3), of cx cs] by auto
qed

lemma capture_start_inv: "capture_start mc \<Longrightarrow> capture_inv (\<lambda>_. {}) mc"
  by (auto simp add: capture_start_def capture_inv_def mem_ok_def synced_def touched_ok_def Let_def)

lemma capture_reachable_inv: "capture_reachable cx dev mc V U \<Longrightarrow> tr_created dev \<Longrightarrow> capture_inv V mc"
  by (induction rule: capture_reachable.induct) (auto intro: capture_start_inv capture_step_inv)

text \<open>C3: no host write is missed.  In every state that an application reaches by mapping, writing, flushing, recording and
  submitting, unless the byte behind a mapping is exposed, the handler of a submit succeeds, and then every byte that one of the
  submitted command buffers touches and that the host has written and made visible is the same in the clone, and so in the update
  packets of the trace, as in the memory.\<close>

theorem host_writes_captured:
  assumes "capture_reachable cx dev mc V U" "tr_created dev" "edge_clear mc"
  shows "\<exists>mc'. trace_pre_vkQueueSubmit cx dev False cs mc = Inr mc' \<and>
    (\<forall>c\<in>set cs. \<forall>obj i m. touches mc c obj i \<and> to_backing (mc_objects mc obj) = Some m \<and>
      unat (to_offset (mc_objects mc obj)) + i \<in> V m \<longrightarrow> clean (mc_memories mc' m) (unat (to_offset (mc_objects mc obj)) + i))"
  using submit_ok [OF capture_reachable_inv [OF assms(1,2)] assms(2,3), of cx cs] by blast

text \<open>Sixteen bytes of coherent memory with a buffer of twelve bytes at the start.\<close>

definition sample_memory :: device_memory where
  "sample_memory = \<lparr>dm_host_visible = True, dm_host_coherent = True, dm_allocation_size = 16, dm_mapped = False, dm_offset = 0,
    dm_size = 0, dm_clone = None, dm_exposed = exposure_new, dm_contents = replicate 16 0\<rparr>"

definition mapped_memory :: "u64 \<Rightarrow> device_memory" where
  "mapped_memory n = sample_memory\<lparr>dm_mapped := True, dm_size := n, dm_clone := Some (replicate 16 0),
    dm_exposed := \<lparr>ex_r = [mk_range 0 15], ex_reversed = False\<rparr>\<rparr>"

definition sample_objects :: "nat \<Rightarrow> tracked_object" where
  "sample_objects obj = (if obj = 0 then sample_update_object else sample_update_object\<lparr>to_accessible := False\<rparr>)"

lemma sample_objects_0 [simp]: "sample_objects 0 = sample_update_object"
  by (simp add: sample_objects_def)

lemma sample_objects_accessible [simp]: "to_accessible (sample_objects obj) = (obj = 0)"
  by (simp add: sample_objects_def sample_update_object_def)

definition sample_capture :: memory_capture where
  "sample_capture = \<lparr>mc_writer = lava_file_writer_new 1 (file_writer_set plain_codec (file_writer_new 8)),
    mc_objects = sample_objects, mc_buffers = [], mc_memories = (\<lambda>_. sample_memory),
    mc_cmdbufs = (\<lambda>_. \<lparr>cb_device = 0, cb_touched = [], cb_uses_device_address_shader = False, cb_index_buffer = None,
      cb_index_offset = 0, cb_index_type = Uint16\<rparr>)\<rparr>"

definition touched_to :: "u64 \<Rightarrow> touched" where
  "touched_to n = [(0, \<lparr>ex_r = [mk_range 0 n], ex_reversed = False\<rparr>)]"

lemma sample_capture_start: "capture_start sample_capture"
proof -
  have "0 < (8 :: nat)" "(8 :: nat) < 2 ^ 32" by simp_all
  from writer_new_closed [OF this, of "\<lambda>x. x" 1 plain_codec] have "closed_ok (\<lambda>x. x) [] (mc_writer sample_capture)"
    by (simp add: sample_capture_def)
  then show ?thesis unfolding capture_start_def
    by (simp add: sample_capture_def sample_memory_def object_ok_def Let_def) (simp add: sample_update_object_def sample_object_def)
qed

lemma sample_start: "capture_reachable cx dev sample_capture (\<lambda>_. {}) (\<lambda>_. {})"
  by (rule capture_reachable.start [OF sample_capture_start])

lemma sample_map: "trace_post_vkMapMemory True 0 16 sample_memory = Inr (mapped_memory 16)"
  by (simp add: trace_post_vkMapMemory_def sample_memory_def mapped_memory_def exposure_add_os_def exposure_add_def exposure_new_def Let_def)

lemma sample_touch: "touch sample_objects 0 0 12 [] = Inr (touched_to 11)" "touch sample_objects 0 0 9 [] = Inr (touched_to 8)"
  by (simp_all add: touch_def sample_update_object_def exposure_add_os_def exposure_add_def exposure_new_def ranges_of_def touched_to_def)

lemma sample_mapped_reachable: "capture_reachable cx dev (set_memory 0 (mapped_memory 16) sample_capture) (\<lambda>_. {}) (\<lambda>_. {})"
proof (rule capture_reachable.step [OF sample_start])
  show "capture_step cx dev sample_capture (\<lambda>_. {}) (\<lambda>_. {}) (set_memory 0 (mapped_memory 16) sample_capture) (\<lambda>_. {}) (\<lambda>_. {})"
    by (rule Map [OF refl, of _ _ 0 16]) (simp_all add: sample_capture_def sample_map, simp_all add: sample_memory_def)
qed

definition written_capture :: memory_capture where
  "written_capture = set_touched 0 (touched_to 11) (set_memory 0 (host_write 3 5 (mapped_memory 16)) sample_capture)"

lemma written_reachable: "capture_reachable cx dev written_capture ((\<lambda>_. {})(0 := {3})) ((\<lambda>_. {})(0 := {3}))"
proof -
  let ?mc = "set_memory 0 (mapped_memory 16) sample_capture"
  have mem: "mc_memories ?mc 0 = mapped_memory 16" by (simp add: set_memory_def)
  have "capture_step cx dev ?mc (\<lambda>_. {}) (\<lambda>_. {}) (set_memory 0 (host_write 3 5 (mapped_memory 16)) ?mc)
      (if dm_host_coherent (mapped_memory 16) then (\<lambda>_. {})(0 := insert 3 {}) else (\<lambda>_. {})(0 := {} - {3})) ((\<lambda>_. {})(0 := insert 3 {}))"
    by (rule Write [OF mem [symmetric]]) (simp_all add: mapped_memory_def mapped_bytes_def sample_memory_def)
  from capture_reachable.step [OF sample_mapped_reachable this]
  have "capture_reachable cx dev (set_memory 0 (host_write 3 5 (mapped_memory 16)) sample_capture) ((\<lambda>_. {})(0 := {3})) ((\<lambda>_. {})(0 := {3}))"
    by (simp add: set_memory_def mapped_memory_def sample_memory_def)
  then show ?thesis unfolding written_capture_def
  proof (rule capture_reachable.step)
    show "capture_step cx dev (set_memory 0 (host_write 3 5 (mapped_memory 16)) sample_capture) V U
        (set_touched 0 (touched_to 11) (set_memory 0 (host_write 3 5 (mapped_memory 16)) sample_capture)) V U" for V U
      by (rule Touch [of 0 12 _ 0]) (simp_all add: set_memory_def sample_capture_def sample_touch, simp add: sample_update_object_def)
  qed
qed

theorem host_writes_captured_witness:
  "\<exists>mc'. trace_pre_vkQueueSubmit plain_codec (sample_object 1) False [0] written_capture = Inr mc' \<and> clean (mc_memories mc' 0) 3"
proof -
  have dev: "tr_created (sample_object 1)" by (simp add: sample_object_def)
  have "edge_clear written_capture"
    by (simp add: edge_clear_def written_capture_def set_touched_def set_memory_def host_write_def mapped_memory_def sample_memory_def
        sample_capture_def exposed_def Let_def)
  moreover have "touches written_capture 0 0 3" "to_backing (mc_objects written_capture 0) = Some 0"
      "unat (to_offset (mc_objects written_capture 0)) = 0"
    by (simp_all add: touches_def written_capture_def set_touched_def ranges_of_def touched_to_def exposed_def
        set_memory_def sample_capture_def sample_update_object_def)
  ultimately show ?thesis
    using host_writes_captured [OF written_reachable dev, of plain_codec "[0]"] by fastforce
qed

definition sample_exposed :: exposure where
  "sample_exposed = \<lparr>ex_r = [mk_range 0 15], ex_reversed = False\<rparr>"

lemma sample_overlap: "exposure_overlap sample_exposed \<lparr>ex_r = [mk_range 0 8], ex_reversed = False\<rparr> 0 = mk_range 0 8"
  by (simp add: exposure_overlap_def sample_exposed_def exposure_list_def exposure_normalize_def shifted_last_def overlap_loop.simps
      hull_extend_def range_invalid_def range_valid_def)

lemma sample_fetch: "exposure_fetch 0 8 True sample_exposed = Inr (mk_range 0 8, sample_exposed)"
  by (simp add: exposure_fetch_def sample_exposed_def exposure_normalize_def fetch_single_def)

lemma short_mapping_out_of_range:
  assumes state: "mc_objects mc = sample_objects" "mc_memories mc 0 = mapped_memory 8" "cb_touched (mc_cmdbufs mc 0) = touched_to 8"
    "\<not> cb_uses_device_address_shader (mc_cmdbufs mc 0)"
  shows "trace_pre_vkQueueSubmit plain_codec (sample_object 1) False [0] mc = Inl Out_of_range"
proof -
  have touched: "touched_to 8 = [(0, \<lparr>ex_r = [mk_range 0 8], ex_reversed = False\<rparr>)]" by (simp add: touched_to_def)
  have obj: "to_backing sample_update_object = Some 0" "to_offset sample_update_object = 0" "to_size sample_update_object = 12"
      "to_alive sample_update_object" by (simp_all add: sample_update_object_def)
  have mem: "dm_host_visible (mapped_memory 8)" "dm_mapped (mapped_memory 8)" "dm_offset (mapped_memory 8) = 0" "dm_size (mapped_memory 8) = 8"
      "dm_clone (mapped_memory 8) = Some (replicate 16 0)" "dm_exposed (mapped_memory 8) = sample_exposed"
    by (simp_all add: mapped_memory_def sample_memory_def sample_exposed_def)
  have "queue_updates [0] (mc, [], []) = Inr (mc, [(0, mk_range 0 8)], [0])"
    by (simp add: queue_update_def state touched obj mem sample_overlap merge_range_def range_valid_def Let_def)
  moreover have "update_cmdbufs plain_codec (sample_object 1) 0 (0, 8) [0] mc = Inl Out_of_range"
    by (simp add: state touched obj mem sample_fetch range_valid_def exposure_list_def exposure_normalize_def Let_def)
  ultimately show ?thesis by (simp add: trace_pre_vkQueueSubmit_def state mem binding_def)
qed

text \<open>C37: one byte too many.  \<open>memory_update\<close> takes the mapping of the application when the last byte to compare is the first one
  behind it.  An application that maps sixteen bytes, unmaps them, maps eight of them again and submits a command
  buffer that touches nine makes the handler read the ninth byte, which is not mapped.\<close>

theorem submit_reads_behind_mapping:
  "\<exists>mc. capture_reachable plain_codec (sample_object 1) mc (\<lambda>_. {}) (\<lambda>_. {}) \<and>
    trace_pre_vkQueueSubmit plain_codec (sample_object 1) False [0] mc = Inl Out_of_range"
proof -
  let ?un = "trace_post_vkUnmapMemory_common (mapped_memory 16)"
  let ?mc1 = "set_memory 0 ?un sample_capture"
  let ?mc2 = "set_memory 0 (mapped_memory 8) sample_capture"
  let ?mc3 = "set_touched 0 (touched_to 8) ?mc2"
  have "capture_step plain_codec (sample_object 1) (set_memory 0 (mapped_memory 16) sample_capture) V U ?mc1 V U" for V U
    using Unmap [of plain_codec "sample_object 1" "set_memory 0 (mapped_memory 16) sample_capture" V U 0] by (simp add: set_memory_def)
  from capture_reachable.step [OF sample_mapped_reachable this]
  have "capture_reachable plain_codec (sample_object 1) ?mc1 (\<lambda>_. {}) (\<lambda>_. {})" .
  moreover have again: "trace_post_vkMapMemory True 0 8 ?un = Inr (mapped_memory 8)"
    by (simp add: trace_post_vkMapMemory_def trace_post_vkUnmapMemory_common_def sample_memory_def mapped_memory_def exposure_add_os_def
        exposure_add_def exposure_normalize_def add_sorted_def Let_def)
  have "capture_step plain_codec (sample_object 1) ?mc1 V U (set_memory 0 (mapped_memory 8) ?mc1) V U" for V U
    by (rule Map [OF refl, of _ _ 0 8]) (simp_all add: set_memory_def again, simp_all add: trace_post_vkUnmapMemory_common_def mapped_memory_def sample_memory_def)
  then have "capture_step plain_codec (sample_object 1) ?mc1 V U ?mc2 V U" for V U by (simp add: set_memory_def)
  ultimately have "capture_reachable plain_codec (sample_object 1) ?mc2 (\<lambda>_. {}) (\<lambda>_. {})" by (metis capture_reachable.step)
  moreover have "capture_step plain_codec (sample_object 1) ?mc2 V U ?mc3 V U" for V U
    by (rule Touch [of 0 9 _ 0]) (simp_all add: set_memory_def sample_capture_def sample_touch, simp add: sample_update_object_def)
  ultimately have "capture_reachable plain_codec (sample_object 1) ?mc3 (\<lambda>_. {}) (\<lambda>_. {})" by (metis capture_reachable.step)
  moreover have "trace_pre_vkQueueSubmit plain_codec (sample_object 1) False [0] ?mc3 = Inl Out_of_range"
    by (rule short_mapping_out_of_range) (simp_all add: set_touched_def set_memory_def sample_capture_def)
  ultimately show ?thesis by blast
qed

end
