(* ===== verification/MemoryReplay.thy ===== *)
theory MemoryReplay
  imports MemoryCapture SuballocatorRuns
begin

text \<open>From the memory of the captured application to the memory of the replay.  The trace that the capture handlers write
  (\<open>MemoryCapture\<close>) is read by a replay thread, the loop of \<^verbatim>\<open>src/replay.cpp\<close> and \<open>switchboard_packet\<close> of
  \<^verbatim>\<open>src/hardcode_read.cpp\<close>, which finds the memory of every object through the suballocator (\<open>Suballocator\<close>) and applies
  the patches there.\<close>

section \<open>The replay of update packets\<close>

text \<open>The memory a replay writes: the suballocator of every device, by the device's index, and the address space of the process,
  into which the heaps are mapped.\<close>

record replay_state =
  rs_sub :: "u32 \<Rightarrow> suballocator"
  rs_ram :: "u64 \<Rightarrow> u8"

definition bytes_at :: "(u64 \<Rightarrow> u8) \<Rightarrow> u64 \<Rightarrow> nat \<Rightarrow> bytes" where
  "bytes_at ram addr n = map (\<lambda>i. ram (addr + of_nat i)) [0..<n]"

definition store_bytes :: "u64 \<Rightarrow> bytes \<Rightarrow> (u64 \<Rightarrow> u8) \<Rightarrow> u64 \<Rightarrow> u8" where
  "store_bytes addr buf ram = (\<lambda>a. if unat (a - addr) < length buf then buf ! unat (a - addr) else ram a)"

definition find_update_memory :: "tracked_type \<Rightarrow> u32 \<Rightarrow> suballocator \<Rightarrow> (suballoc_location \<times> suballocator) result" where
  "find_update_memory type i sb = (case type of
     Image \<Rightarrow> find_image_memory i sb
   | Buffer \<Rightarrow> find_buffer_memory i sb
   | Tensor \<Rightarrow> find_tensor_memory i sb
   | Other_type \<Rightarrow> Inl Assertion_failed)"

definition memory_at :: "(u64 \<Rightarrow> u8) \<Rightarrow> suballoc_location \<Rightarrow> object_memory result" where
  "memory_at ram loc = assert_that (loc_mapped loc \<noteq> 0)
    (Inr \<lparr>om_needs_init = loc_needs_init loc, om_mapped = bytes_at ram (loc_mapped loc) (unat (loc_size loc))\<rparr>)"

text \<open>An update packet with the memory it finds and changes; finding the memory also notes that it is initialized.\<close>

definition replay_update_packet :: "decoder \<Rightarrow> (file_reader \<Rightarrow> (marked_offsets \<times> file_reader) result) \<Rightarrow> rewrite_constants \<Rightarrow>
    'p rewriter \<Rightarrow> tracked_type \<Rightarrow> u8 \<Rightarrow> replay_state \<Rightarrow> lava_file_reader \<Rightarrow> (replay_state \<times> lava_file_reader) result" where
  "replay_update_packet dx rext k e type instrtype rs lr =
    result_bind (update_object_packet dx rext k e False
        (\<lambda>d i. result_bind (find_update_memory type i (rs_sub rs d)) (\<lambda>(loc, _). memory_at (rs_ram rs) loc)) type instrtype lr)
      (\<lambda>(d, i, _, buf, lr). case buf of
         None \<Rightarrow> Inr (rs, lr)
       | Some buf \<Rightarrow> result_bind (find_update_memory type i (rs_sub rs d)) (\<lambda>(loc, sb).
           Inr (\<lparr>rs_sub = (rs_sub rs)(d := sb), rs_ram = store_bytes (loc_mapped loc) buf (rs_ram rs)\<rparr>, lr)))"

abbreviation (input) PACKET_IMAGE_INITIALIZATION :: u8 where "PACKET_IMAGE_INITIALIZATION \<equiv> 11"
abbreviation (input) PACKET_BUFFER_INITIALIZATION :: u8 where "PACKET_BUFFER_INITIALIZATION \<equiv> 12"

text \<open>What the build generates: the translation of recorded call numbers and a replay function for every call; and the
  initialization packets, which are copies made by the driver.  The waits of a barrier are in \<open>ThreadSync\<close>.\<close>

type_synonym replay_function = "replay_state \<Rightarrow> lava_file_reader \<Rightarrow> (replay_state \<times> lava_file_reader) result"

record replay_code =
  rc_dictionary :: "u16 \<rightharpoonup> u16"
  rc_function :: "u16 \<Rightarrow> replay_function"
  rc_initialization :: "u8 \<Rightarrow> replay_function"

definition switchboard_packet :: "decoder \<Rightarrow> (file_reader \<Rightarrow> (marked_offsets \<times> file_reader) result) \<Rightarrow> rewrite_constants \<Rightarrow>
    'p rewriter \<Rightarrow> replay_code \<Rightarrow> u8 \<Rightarrow> replay_state \<Rightarrow> lava_file_reader \<Rightarrow> (replay_state \<times> lava_file_reader) result" where
  "switchboard_packet dx rext k e code instrtype rs lr =
    (if instrtype = PACKET_VULKAN_API_CALL then
       result_bind (read_apicall dx (rc_dictionary code) (rc_function code) rs lr) (\<lambda>(_, rs, lr). Inr (rs, lr))
     else if instrtype = PACKET_THREAD_BARRIER then result_bind (read_barrier dx lr) (\<lambda>(_, lr). Inr (rs, lr))
     else if instrtype = PACKET_IMAGE_UPDATE \<or> instrtype = PACKET_IMAGE_UPDATE2 then replay_update_packet dx rext k e Image instrtype rs lr
     else if instrtype = PACKET_BUFFER_UPDATE \<or> instrtype = PACKET_BUFFER_UPDATE2 then replay_update_packet dx rext k e Buffer instrtype rs lr
     else if instrtype = PACKET_IMAGE_INITIALIZATION \<or> instrtype = PACKET_BUFFER_INITIALIZATION then rc_initialization code instrtype rs lr
     else if instrtype = PACKET_TENSOR_UPDATE then replay_update_packet dx rext k e Tensor instrtype rs lr
     else Inr (rs, lr))"

text \<open>The loop of \<open>replay_thread\<close>, less the commands of the interactive user.\<close>

partial_function (option) replay_thread :: "decoder \<Rightarrow> nat \<Rightarrow> (file_reader \<Rightarrow> (marked_offsets \<times> file_reader) result) \<Rightarrow> rewrite_constants \<Rightarrow>
    'p rewriter \<Rightarrow> replay_code \<Rightarrow> replay_state \<Rightarrow> lava_file_reader \<Rightarrow> (replay_state \<times> lava_file_reader) result option" where
  "replay_thread dx page rext k e code rs lr = (case lr_step dx page False lr of
     Inl x \<Rightarrow> Some (Inl x)
   | Inr (instrtype, lr) \<Rightarrow>
       if instrtype = 0 then Some (Inr (rs, lr))
       else case switchboard_packet dx rext k e code instrtype rs lr of
         Inl x \<Rightarrow> Some (Inl x)
       | Inr (rs, lr) \<Rightarrow> replay_thread dx page rext k e code rs lr)"

section \<open>The packets behind a state of the capture\<close>

text \<open>\<open>es\<close> are the packets in the stream, and they hold all that the clones know.\<close>

definition recorded :: "trackable \<Rightarrow> memory_capture \<Rightarrow> traced list \<Rightarrow> bool" where
  "recorded dev mc es \<longleftrightarrow> list_all (traced_ok dev (mc_objects mc)) es \<and>
    closed_ok (\<lambda>x. x) (trace_bytes dev (mc_objects mc) es) (mc_writer mc) \<and>
    (separate (mc_objects mc) \<longrightarrow> (\<forall>obj m. to_accessible (mc_objects mc obj) \<and> to_backing (mc_objects mc obj) = Some m \<longrightarrow>
      object_image (mc_memories mc m) (mc_objects mc obj) = contents_after es obj (replicate (unat (to_size (mc_objects mc obj))) 0)))"

lemma recorded_logs:
  assumes "recorded dev mc es" "logs dev mc mc' fs" "same_identity (mc_objects mc) (mc_objects mc')"
  shows "recorded dev mc' (es @ fs)"
proof -
  note same = same_identity_bytes [OF assms(3), of dev] same_identity_fields [OF assms(3)] object_image_identity [OF assms(3)] separate_identity [OF assms(3)]
  have "traced_ok dev (mc_objects mc') = traced_ok dev (mc_objects mc)" by (rule ext) (rule same(2))
  then have "list_all (traced_ok dev (mc_objects mc')) (es @ fs)" using assms(1,2) by (simp add: recorded_def logs_def)
  moreover have "closed_ok (\<lambda>x. x) (trace_bytes dev (mc_objects mc') (es @ fs)) (mc_writer mc')"
    using assms(1,2) unfolding recorded_def logs_def same by simp
  ultimately show ?thesis using assms(1,2) unfolding recorded_def logs_def same contents_after_append by simp
qed

lemma logs_same_images:
  assumes "mc_writer mc' = mc_writer mc" "\<And>n. n \<noteq> m \<Longrightarrow> mc_memories mc' n = mc_memories mc n"
    and "\<And>od. object_image (mc_memories mc' m) od = object_image (mc_memories mc m) od"
  shows "logs dev mc mc' []"
  by (rule logs_nothing) (use assms in \<open>metis+\<close>)

lemma flush_image:
  assumes "flush_range off sz mem = Inr mem'"
  shows "object_image mem' od = object_image mem od"
  by (rule object_image_cong) (use assms in \<open>auto simp: flush_range_def result_bind_def split: option.splits sum.splits\<close>)

lemma capture_step_logs:
  assumes "capture_step cx dev mc V U mc' V' U'" "capture_inv V mc" "tr_created dev"
  shows "\<exists>fs. logs dev mc mc' fs \<and> same_identity (mc_objects mc) (mc_objects mc')"
  using assms(1)
proof cases
  case (Map mem m off sz mem')
  have "logs dev mc (set_memory m mem' mc) []"
    by (rule logs_same_images [where m = m]) (use map_image [OF Map(9)] Map(4) in \<open>simp_all add: set_memory_def\<close>)
  then show ?thesis using Map(1) same_identity_refl by (auto simp: set_memory_def)
next
  case (Unmap m)
  have "logs dev mc (set_memory m (trace_post_vkUnmapMemory_common (mc_memories mc m)) mc) []"
    by (rule logs_same_images [where m = m]) (auto simp: set_memory_def trace_post_vkUnmapMemory_common_def intro: object_image_cong)
  then show ?thesis using Unmap(1) same_identity_refl by (auto simp: set_memory_def)
next
  case (Write mem m i x)
  have "logs dev mc (set_memory m (host_write i x mem) mc) []"
    by (rule logs_same_images [where m = m]) (auto simp: set_memory_def host_write_def Write(4) intro: object_image_cong)
  then show ?thesis using Write(1) same_identity_refl by (auto simp: set_memory_def)
next
  case (Flush mem m off sz mem')
  have "logs dev mc (set_memory m mem' mc) []"
    by (rule logs_same_images [where m = m]) (use flush_image [OF Flush(5)] Flush(4) in \<open>simp_all add: set_memory_def\<close>)
  then show ?thesis using Flush(1) same_identity_refl by (auto simp: set_memory_def)
next
  case (Touch off sz obj c t)
  have "logs dev mc (set_touched c t mc) []" by (rule logs_nothing) (simp_all add: set_touched_def)
  then show ?thesis using Touch(1) same_identity_refl by (auto simp: set_touched_def)
next
  case (Execute secondary c t)
  have "logs dev mc (set_touched c t mc) []" by (rule logs_nothing) (simp_all add: set_touched_def)
  then show ?thesis using Execute(1) same_identity_refl by (auto simp: set_touched_def)
next
  case (Reset c)
  have "logs dev mc (set_touched c [] mc) []" by (rule logs_nothing) (simp_all add: set_touched_def)
  then show ?thesis using Reset(1) same_identity_refl by (auto simp: set_touched_def)
next
  case (Call body payload lw)
  have "closed_ok (\<lambda>x. x) (s @ packet_bytes PACKET_VULKAN_API_CALL payload) lw" if "closed_ok (\<lambda>x. x) s (mc_writer mc)" for s
    using write_packet_ok [OF that Call(4,5), of cx PACKET_VULKAN_API_CALL] Call(6) by (metis sum.inject(2))
  then have "logs dev mc mc' [Call_packet payload]" using Call(1,5) by (simp add: logs_def)
  then show ?thesis using Call(1) same_identity_refl by auto
next
  case (Submit cs)
  then show ?thesis using submit_ok [OF assms(2,3), of cx cs] by auto
qed

lemma capture_start_recorded:
  assumes "capture_start mc"
  shows "recorded dev mc []"
proof -
  have "object_image (mc_memories mc m) (mc_objects mc obj) = replicate (unat (to_size (mc_objects mc obj))) 0"
    if "to_accessible (mc_objects mc obj)" "to_backing (mc_objects mc obj) = Some m" for obj m
  proof -
    have "dm_clone (mc_memories mc m) = None" "object_ok (mc_memories mc) (mc_objects mc obj)"
      using assms by (simp_all add: capture_start_def Let_def)
    then have none: "dm_clone (mc_memories mc m) = None"
        "unat (to_offset (mc_objects mc obj)) + unat (to_size (mc_objects mc obj)) \<le> allocated (mc_memories mc m)"
      using that by (simp_all add: object_ok_def)
    then have "unat (to_size (mc_objects mc obj)) \<le> allocated (mc_memories mc m) - unat (to_offset (mc_objects mc obj))" by linarith
    then show ?thesis using none by (simp add: object_image_def min_def)
  qed
  then show ?thesis using assms by (simp add: recorded_def capture_start_def)
qed

lemma capture_reachable_recorded: "capture_reachable cx dev mc V U \<Longrightarrow> tr_created dev \<Longrightarrow> \<exists>es. recorded dev mc es"
proof (induction rule: capture_reachable.induct)
  case (start mc)
  then show ?case using capture_start_recorded by blast
next
  case (step mc V U mc' V' U')
  then show ?case using capture_step_logs [OF step(2) capture_reachable_inv [OF step(1)]] recorded_logs by blast
qed

section \<open>Memory of the replay\<close>

lemma length_bytes_at [simp]: "length (bytes_at ram addr n) = n"
  by (simp add: bytes_at_def)

lemma length_store [simp]: "length buf < 2 ^ 64 \<Longrightarrow> bytes_at (store_bytes addr buf ram) addr (length buf) = buf"
  by (rule nth_equalityI) (simp_all add: bytes_at_def store_bytes_def)

lemma store_elsewhere:
  assumes "unat b + n \<le> 2 ^ 64" "unat a + length buf \<le> 2 ^ 64" "unat b + n \<le> unat a \<or> unat a + length buf \<le> unat b"
  shows "bytes_at (store_bytes a buf ram) b n = bytes_at ram b n"
proof (rule nth_equalityI)
  fix i assume "i < length (bytes_at (store_bytes a buf ram) b n)"
  then have i: "i < n" by simp
  define x where "x = b + of_nat i"
  have "unat b + i < 2 ^ 64" using i assms(1) by simp
  then have x: "unat x = unat b + i" unfolding x_def by (subst unat_add_small) simp_all
  have "\<not> unat (x - a) < length buf"
  proof (cases "a \<le> x")
    case True
    then have "unat (x - a) = unat x - unat a" "unat a \<le> unat x" by (simp_all add: unat_sub word_le_nat_alt)
    then show ?thesis using assms(3) i x by linarith
  next
    case False
    then have less: "unat x < unat a" by (simp add: word_less_nat_alt not_le)
    have "unat (x - a) = 2 ^ 64 - (unat a - unat x)"
      using less unsigned_less [of a, where 'a = nat] by (simp add: unat_sub_if')
    then show ?thesis using assms(2,3) i x less by linarith
  qed
  then show "bytes_at (store_bytes a buf ram) b n ! i = bytes_at ram b n ! i" using i by (simp add: bytes_at_def store_bytes_def x_def)
qed simp

lemma length_apply_records: "records_end pos recs \<le> length buf \<Longrightarrow> length (apply_records pos recs buf) = length buf"
proof (induction pos recs buf rule: apply_records.induct)
  case (2 pos off p recs buf)
  have "pos + unat off + length p \<le> length buf" using 2(2) records_end_ge [of "pos + unat off + length p" recs] by simp
  then show ?case using 2 by simp
qed simp

text \<open>Heaps that are mapped lie apart in the address space, as the mappings of a process do.\<close>

definition heaps_mapped :: "suballocator \<Rightarrow> bool" where
  "heaps_mapped sb \<longleftrightarrow>
    (\<forall>p. valid_ptr sb p \<and> hp_mapped (heap_at sb p) \<noteq> 0 \<longrightarrow> unat (hp_mapped (heap_at sb p)) + unat (hp_total (heap_at sb p)) \<le> 2 ^ 64) \<and>
    (\<forall>p q. valid_ptr sb p \<and> valid_ptr sb q \<and> p \<noteq> q \<and> hp_mapped (heap_at sb p) \<noteq> 0 \<and> hp_mapped (heap_at sb q) \<noteq> 0 \<longrightarrow>
      unat (hp_mapped (heap_at sb p)) + unat (hp_total (heap_at sb p)) \<le> unat (hp_mapped (heap_at sb q)) \<or>
      unat (hp_mapped (heap_at sb q)) + unat (hp_total (heap_at sb q)) \<le> unat (hp_mapped (heap_at sb p)))"

fun object_key :: "tracked_type \<Rightarrow> u32 \<Rightarrow> key option" where
  "object_key Image i = Some (K_image (unat i))"
| "object_key Buffer i = Some (K_buffer (unat i))"
| "object_key Tensor i = Some (K_tensor (unat i))"
| "object_key Other_type i = None"

text \<open>The memory of an object with the key \<open>\<kappa>\<close>: its heap, its lookup entry and the address of its first byte.\<close>

definition placed_at :: "suballocator \<Rightarrow> key \<Rightarrow> heap_ptr \<Rightarrow> lookup \<Rightarrow> bool" where
  "placed_at sb \<kappa> p l \<longleftrightarrow> entry sb \<kappa> = Some l \<and> lk_home l = Some p \<and> \<not> lk_alias_member l \<and> hp_mapped (heap_at sb p) \<noteq> 0"

definition place_address :: "suballocator \<Rightarrow> heap_ptr \<Rightarrow> lookup \<Rightarrow> u64" where
  "place_address sb p l = hp_mapped (heap_at sb p) + lk_offset l"

lemma placed_bound: "placed_at sb \<kappa> p l \<Longrightarrow> bound sb \<kappa> = Some (p, lk_offset l, lk_size l, False)"
  by (simp add: placed_at_def bound_def place_of_def)

lemma placed_sub:
  assumes "tables_ok sb" "placed_at sb \<kappa> p l"
  shows "valid_ptr sb p" "\<exists>s\<in>set (hp_subs (heap_at sb p)). sub_key s = Some \<kappa> \<and> sa_offset s = lk_offset l \<and> sa_size s = lk_size l"
    "unat (lk_offset l) + unat (lk_size l) \<le> unat (hp_total (heap_at sb p))" "heap_ok (heap_at sb p)"
proof -
  have k: "valid_ptr sb p" "key_ok (heap_at sb p) \<kappa> (lk_offset l) (lk_size l) False"
    using tables_okD(4) [OF assms(1) placed_bound [OF assms(2)]] by simp_all
  show "valid_ptr sb p" by (rule k(1))
  show h: "heap_ok (heap_at sb p)" using heaps_okD [OF tables_okD(1) [OF assms(1)] k(1)] .
  show sub: "\<exists>s\<in>set (hp_subs (heap_at sb p)). sub_key s = Some \<kappa> \<and> sa_offset s = lk_offset l \<and> sa_size s = lk_size l"
    using k(2) by (simp add: key_ok_def)
  then show "unat (lk_offset l) + unat (lk_size l) \<le> unat (hp_total (heap_at sb p))"
    using h subs_ok_bounds unfolding heap_ok_def by metis
qed

lemma place_in_memory:
  assumes "tables_ok sb" "heaps_mapped sb" "placed_at sb \<kappa> p l"
  shows "unat (place_address sb p l) = unat (hp_mapped (heap_at sb p)) + unat (lk_offset l)"
    "unat (place_address sb p l) + unat (lk_size l) \<le> unat (hp_mapped (heap_at sb p)) + unat (hp_total (heap_at sb p))"
    "unat (place_address sb p l) + unat (lk_size l) \<le> 2 ^ 64"
proof -
  have m: "unat (hp_mapped (heap_at sb p)) + unat (hp_total (heap_at sb p)) \<le> 2 ^ 64"
    using assms(2) placed_sub(1) [OF assms(1,3)] assms(3) unfolding heaps_mapped_def placed_at_def by blast
  note fit = placed_sub(3) [OF assms(1,3)]
  have "lk_size l \<noteq> 0" using tables_okD(4) [OF assms(1) placed_bound [OF assms(3)]] by (simp add: key_ok_def)
  then have "0 < unat (lk_size l)" by (simp add: unat_gt_0)
  then show addr: "unat (place_address sb p l) = unat (hp_mapped (heap_at sb p)) + unat (lk_offset l)"
    unfolding place_address_def using m fit by (intro unat_add_small) simp
  show "unat (place_address sb p l) + unat (lk_size l) \<le> unat (hp_mapped (heap_at sb p)) + unat (hp_total (heap_at sb p))"
    "unat (place_address sb p l) + unat (lk_size l) \<le> 2 ^ 64"
    using addr m fit by simp_all
qed

lemma places_apart:
  assumes "tables_ok sb" "heaps_mapped sb" "placed_at sb \<kappa> p l" "placed_at sb \<kappa>' p' l'" "\<kappa> \<noteq> \<kappa>'"
  shows "unat (place_address sb p l) + unat (lk_size l) \<le> unat (place_address sb p' l') \<or>
    unat (place_address sb p' l') + unat (lk_size l') \<le> unat (place_address sb p l)"
proof (cases "p = p'")
  case True
  obtain s where s: "s \<in> set (hp_subs (heap_at sb p))" "sub_key s = Some \<kappa>" "sa_offset s = lk_offset l" "sa_size s = lk_size l"
    using placed_sub(2) [OF assms(1,3)] by blast
  obtain t where t: "t \<in> set (hp_subs (heap_at sb p))" "sub_key t = Some \<kappa>'" "sa_offset t = lk_offset l'" "sa_size t = lk_size l'"
    using placed_sub(2) [OF assms(1,4)] True by blast
  obtain xs ys where xs: "hp_subs (heap_at sb p) = xs @ s # ys" using split_list [OF s(1)] by blast
  have "t \<noteq> s" using s(2) t(2) assms(5) by auto
  then have "t \<in> set xs \<union> set ys" using t(1) xs by auto
  moreover have "subs_ok 0 (unat (hp_total (heap_at sb p))) (xs @ s # ys)"
    using placed_sub(4) [OF assms(1,3)] unfolding heap_ok_def xs by blast
  ultimately have "unat (lk_offset l') + unat (lk_size l') \<le> unat (lk_offset l) \<or> unat (lk_offset l) + unat (lk_size l) \<le> unat (lk_offset l')"
    using subs_ok_disjoint s(3,4) t(3,4) by metis
  then show ?thesis using place_in_memory(1) [OF assms(1-3)] place_in_memory(1) [OF assms(1,2,4)] True by auto
next
  case False
  have v: "valid_ptr sb p" "valid_ptr sb p'" using placed_sub(1) [OF assms(1)] assms(3,4) by blast+
  have "hp_mapped (heap_at sb p) \<noteq> 0" "hp_mapped (heap_at sb p') \<noteq> 0" using assms(3,4) by (simp_all add: placed_at_def)
  then have "unat (hp_mapped (heap_at sb p)) + unat (hp_total (heap_at sb p)) \<le> unat (hp_mapped (heap_at sb p')) \<or>
      unat (hp_mapped (heap_at sb p')) + unat (hp_total (heap_at sb p')) \<le> unat (hp_mapped (heap_at sb p))"
    using assms(2) False v unfolding heaps_mapped_def by blast
  then show ?thesis using place_in_memory [OF assms(1-3)] place_in_memory [OF assms(1,2,4)] by linarith
qed

section \<open>Replaying a trace\<close>

lemma find_placed:
  assumes "placed_at sb \<kappa> p l" "object_key type i = Some \<kappa>"
  shows "\<exists>loc sb'. find_update_memory type i sb = Inr (loc, sb') \<and> loc_mapped loc = place_address sb p l \<and> loc_size loc = lk_size l \<and>
    loc_needs_init loc = (\<not> lk_initialized l) \<and> same_places sb sb' \<and> entry sb' \<kappa> = Some (l\<lparr>lk_initialized := True\<rparr>) \<and>
    (\<forall>\<kappa>'. \<kappa>' \<noteq> \<kappa> \<longrightarrow> entry sb' \<kappa>' = entry sb \<kappa>')"
proof -
  have home: "lk_home l = Some p" "hp_mapped (heap_at sb p) \<noteq> 0" using assms(1) by (simp_all add: placed_at_def)
  define loc where "loc = \<lparr>loc_memory = hp_mem (heap_at sb p), loc_offset = lk_offset l, loc_size = lk_size l, loc_needs_init = \<not> lk_initialized l,
    loc_needs_flush = needs_flush sb (hp_memoryTypeIndex (heap_at sb p)), loc_mapped = place_address sb p l\<rparr>"
  have found: "lookup_location sb l = Inr loc"
    using home by (simp add: lookup_location_def loc_def place_address_def at_offset_def Let_def)
  have "\<exists>sb'. find_update_memory type i sb = Inr (loc, sb') \<and> entry sb' \<kappa> = Some (l\<lparr>lk_initialized := True\<rparr>) \<and>
    (\<forall>\<kappa>'. \<kappa>' \<noteq> \<kappa> \<longrightarrow> entry sb' \<kappa>' = entry sb \<kappa>') \<and> same_places sb sb'"
  proof (cases type)
    case Image
    then have l: "unat i < length (sb_images sb)" "sb_images sb ! unat i = l" "\<kappa> = K_image (unat i)"
      using assms by (auto simp: placed_at_def slot_def split: if_splits)
    define sb' where "sb' = sb\<lparr>sb_images := (sb_images sb)[unat i := l\<lparr>lk_initialized := True\<rparr>]\<rparr>"
    have run: "find_image_memory i sb = Inr (loc, sb')" using l found by (simp add: find_image_memory_def sb'_def)
    have "entry sb' \<kappa>' = entry sb \<kappa>'" if "\<kappa>' \<noteq> \<kappa>" for \<kappa>' using that l(3) by (cases \<kappa>') (auto simp: sb'_def slot_def)
    then show ?thesis using run l find_same(1) [OF run] Image by (auto simp: find_update_memory_def sb'_def)
  next
    case Buffer
    then have l: "unat i < length (sb_buffers sb)" "sb_buffers sb ! unat i = l" "\<kappa> = K_buffer (unat i)"
      using assms by (auto simp: placed_at_def slot_def split: if_splits)
    define sb' where "sb' = sb\<lparr>sb_buffers := (sb_buffers sb)[unat i := l\<lparr>lk_initialized := True\<rparr>]\<rparr>"
    have run: "find_buffer_memory i sb = Inr (loc, sb')" using l found by (simp add: find_buffer_memory_def sb'_def)
    have "entry sb' \<kappa>' = entry sb \<kappa>'" if "\<kappa>' \<noteq> \<kappa>" for \<kappa>' using that l(3) by (cases \<kappa>') (auto simp: sb'_def slot_def)
    then show ?thesis using run l find_same(2) [OF run] Buffer by (auto simp: find_update_memory_def sb'_def)
  next
    case Tensor
    then have l: "unat i < length (sb_tensors sb)" "sb_tensors sb ! unat i = l" "\<kappa> = K_tensor (unat i)"
      using assms by (auto simp: placed_at_def slot_def split: if_splits)
    define sb' where "sb' = sb\<lparr>sb_tensors := (sb_tensors sb)[unat i := l\<lparr>lk_initialized := True\<rparr>]\<rparr>"
    have run: "find_tensor_memory i sb = Inr (loc, sb')" using l found by (simp add: find_tensor_memory_def sb'_def)
    have "entry sb' \<kappa>' = entry sb \<kappa>'" if "\<kappa>' \<noteq> \<kappa>" for \<kappa>' using that l(3) by (cases \<kappa>') (auto simp: sb'_def slot_def)
    then show ?thesis using run l find_same(3) [OF run] Tensor by (auto simp: find_update_memory_def sb'_def)
  qed (use assms in simp)
  then show ?thesis by (auto simp: loc_def)
qed

text \<open>What the next update of an object would find in its memory.\<close>

definition found_bytes :: "suballocator \<Rightarrow> (u64 \<Rightarrow> u8) \<Rightarrow> heap_ptr \<Rightarrow> lookup \<Rightarrow> bytes" where
  "found_bytes sb ram p l = (if lk_initialized l then bytes_at ram (place_address sb p l) (unat (lk_size l)) else replicate (unat (lk_size l)) 0)"

text \<open>The objects with memory of their own that the trace updates.\<close>

definition backed :: "tracked_object \<Rightarrow> bool" where
  "backed od \<longleftrightarrow> to_accessible od \<and> to_backing od \<noteq> None \<and> to_type od \<noteq> Other_type"

definition replayed_to :: "suballocator \<Rightarrow> (u64 \<Rightarrow> u8) \<Rightarrow> tracked_object \<Rightarrow> bool \<Rightarrow> bytes \<Rightarrow> bool" where
  "replayed_to sb ram od updated buf \<longleftrightarrow> (\<exists>\<kappa> p l. object_key (to_type od) (tr_index (to_track od)) = Some \<kappa> \<and> placed_at sb \<kappa> p l \<and>
    unat (to_size od) \<le> unat (lk_size l) \<and> take (unat (to_size od)) (found_bytes sb ram p l) = buf \<and> (updated \<longrightarrow> lk_initialized l))"

definition updated_in :: "traced list \<Rightarrow> nat \<Rightarrow> bool" where
  "updated_in es obj \<longleftrightarrow> (\<exists>recs. Update_packet obj recs \<in> set es)"

definition replay_inv :: "trackable \<Rightarrow> (nat \<Rightarrow> tracked_object) \<Rightarrow> replay_state \<Rightarrow> traced list \<Rightarrow> bool" where
  "replay_inv dev objs rs es \<longleftrightarrow> (let sb = rs_sub rs (tr_index dev) in suballoc_reachable sb \<and> heaps_mapped sb \<and>
    (\<forall>obj. backed (objs obj) \<longrightarrow>
      replayed_to sb (rs_ram rs) (objs obj) (updated_in es obj) (contents_after es obj (replicate (unat (to_size (objs obj))) 0))))"

lemma updated_in_append [simp]: "updated_in (es @ fs) obj \<longleftrightarrow> updated_in es obj \<or> updated_in fs obj"
  by (auto simp: updated_in_def)

lemma updated_in_one [simp]: "updated_in [Update_packet o' recs] obj \<longleftrightarrow> o' = obj" "\<not> updated_in [Call_packet p] obj" "\<not> updated_in [] obj"
  by (auto simp: updated_in_def)

text \<open>No two objects have one index.\<close>

definition identified :: "(nat \<Rightarrow> tracked_object) \<Rightarrow> bool" where
  "identified objs \<longleftrightarrow> (\<forall>o1 o2. o1 \<noteq> o2 \<and> backed (objs o1) \<and> backed (objs o2) \<longrightarrow>
    object_key (to_type (objs o1)) (tr_index (to_track (objs o1))) \<noteq> object_key (to_type (objs o2)) (tr_index (to_track (objs o2))))"

lemma same_places_heaps:
  assumes "same_places sb sb'"
  shows "heap_at sb' = heap_at sb" "valid_ptr sb' = valid_ptr sb" "heaps_mapped sb' = heaps_mapped sb"
proof -
  have "sb_heaps sb' = sb_heaps sb" using assms by (simp add: same_places_def)
  then show "heap_at sb' = heap_at sb" "valid_ptr sb' = valid_ptr sb" by (simp_all add: heap_at_def valid_ptr_def fun_eq_iff)
  then show "heaps_mapped sb' = heaps_mapped sb" by (simp add: heaps_mapped_def)
qed

text \<open>Writing the memory of one object.\<close>

lemma replayed_write:
  assumes "tables_ok sb" "heaps_mapped sb" "placed_at sb \<kappa> p l" "same_places sb sb'"
    and "entry sb' \<kappa> = Some (l\<lparr>lk_initialized := True\<rparr>)" "\<forall>\<kappa>'. \<kappa>' \<noteq> \<kappa> \<longrightarrow> entry sb' \<kappa>' = entry sb \<kappa>'"
    and "length buf = unat (lk_size l)"
  shows "placed_at sb' \<kappa> p (l\<lparr>lk_initialized := True\<rparr>)"
    and "found_bytes sb' (store_bytes (place_address sb p l) buf ram) p (l\<lparr>lk_initialized := True\<rparr>) = buf"
    and "object_key (to_type od) (tr_index (to_track od)) \<noteq> Some \<kappa> \<Longrightarrow> replayed_to sb ram od u b \<Longrightarrow>
      replayed_to sb' (store_bytes (place_address sb p l) buf ram) od u b"
proof -
  note h = same_places_heaps(1) [OF assms(4)]
  show "placed_at sb' \<kappa> p (l\<lparr>lk_initialized := True\<rparr>)" using assms(3,5) by (simp add: placed_at_def h)
  have "length buf < 2 ^ 64" using assms(7) unsigned_less [of "lk_size l", where 'a = nat] by simp
  from length_store [OF this] show "found_bytes sb' (store_bytes (place_address sb p l) buf ram) p (l\<lparr>lk_initialized := True\<rparr>) = buf"
    using assms(7) by (simp add: found_bytes_def place_address_def h)
  assume other: "object_key (to_type od) (tr_index (to_track od)) \<noteq> Some \<kappa>" "replayed_to sb ram od u b"
  obtain \<kappa>' p' l' where o': "object_key (to_type od) (tr_index (to_track od)) = Some \<kappa>'" "placed_at sb \<kappa>' p' l'"
      "unat (to_size od) \<le> unat (lk_size l')" "take (unat (to_size od)) (found_bytes sb ram p' l') = b" "u \<longrightarrow> lk_initialized l'"
    using other(2) unfolding replayed_to_def by blast
  have ne: "\<kappa>' \<noteq> \<kappa>" using other(1) o'(1) by auto
  then have "placed_at sb' \<kappa>' p' l'" using o'(2) assms(6) by (simp add: placed_at_def h)
  moreover have "bytes_at (store_bytes (place_address sb p l) buf ram) (place_address sb p' l') (unat (lk_size l')) =
      bytes_at ram (place_address sb p' l') (unat (lk_size l'))"
    using place_in_memory(3) [OF assms(1-3)] place_in_memory(3) [OF assms(1,2) o'(2)] places_apart [OF assms(1-3) o'(2)] ne assms(7)
    by (intro store_elsewhere) auto
  then have "found_bytes sb' (store_bytes (place_address sb p l) buf ram) p' l' = found_bytes sb ram p' l'"
    by (simp add: found_bytes_def place_address_def h)
  ultimately show "replayed_to sb' (store_bytes (place_address sb p l) buf ram) od u b" using o' unfolding replayed_to_def by metis
qed

lemma object_packet_types:
  assumes "to_type od \<noteq> Other_type"
  shows "object_packet od \<notin> {0, PACKET_IMAGE_UPDATE, PACKET_BUFFER_UPDATE}"
    "switchboard_packet dx rext k e code (object_packet od) rs lr = replay_update_packet dx rext k e (to_type od) (object_packet od) rs lr"
  using assms by (cases "to_type od"; simp add: object_packet_def switchboard_packet_def)+

text \<open>What an update packet does to the state of the replay.\<close>

definition updates_memory :: "trackable \<Rightarrow> replay_state \<Rightarrow> replay_state \<Rightarrow> bool" where
  "updates_memory dev rs rs' \<longleftrightarrow> (\<exists>type i loc sb buf. find_update_memory type i (rs_sub rs (tr_index dev)) = Inr (loc, sb) \<and>
    length buf = unat (loc_size loc) \<and>
    rs' = \<lparr>rs_sub = (rs_sub rs)(tr_index dev := sb), rs_ram = store_bytes (loc_mapped loc) buf (rs_ram rs)\<rparr>)"

lemma find_reachable: "suballoc_reachable sb \<Longrightarrow> find_update_memory type i sb = Inr (loc, sb') \<Longrightarrow> suballoc_reachable sb'"
  by (cases type) (auto simp: find_update_memory_def intro: suballoc_reachable.step suballoc_step.intros)

lemma replay_update_step:
  assumes inv: "replay_inv dev objs rs es" and ids: "identified objs" and obj: "backed (objs obj)" "patch_ok dev (objs obj) recs"
    and lr: "before_packet (traced_bytes dev objs (Update_packet obj recs) @ rest) lr" and e: "\<not> rw_write_output e"
  shows "\<exists>lr1 rs' lr2. lr_step dx page False lr = Inr (object_packet (objs obj), lr1) \<and>
    switchboard_packet dx rext k e code (object_packet (objs obj)) rs lr1 = Inr (rs', lr2) \<and> before_packet rest lr2 \<and>
    (stream_kept (lr_stream lr) \<longrightarrow> stream_kept (lr_stream lr2)) \<and> replay_inv dev objs rs' (es @ [Update_packet obj recs]) \<and> updates_memory dev rs rs'"
proof -
  define od where "od = objs obj"
  define d where "d = tr_index dev"
  define sb where "sb = rs_sub rs d"
  have reach: "suballoc_reachable sb" using inv by (simp add: replay_inv_def Let_def sb_def d_def)
  then have sb: "tables_ok sb" "heaps_mapped sb" using inv suballoc_reachable_ok by (simp_all add: replay_inv_def Let_def sb_def d_def)
  have here: "replayed_to sb (rs_ram rs) (objs o') (updated_in es o') (contents_after es o' (replicate (unat (to_size (objs o'))) 0))" if "backed (objs o')" for o'
    using inv that by (simp add: replay_inv_def Let_def sb_def d_def)
  obtain \<kappa> p l where pl: "object_key (to_type od) (tr_index (to_track od)) = Some \<kappa>" "placed_at sb \<kappa> p l" "unat (to_size od) \<le> unat (lk_size l)"
      "take (unat (to_size od)) (found_bytes sb (rs_ram rs) p l) = contents_after es obj (replicate (unat (to_size od)) 0)"
    using here [OF obj(1)] unfolding replayed_to_def od_def by blast
  obtain loc sb' where find: "find_update_memory (to_type od) (tr_index (to_track od)) sb = Inr (loc, sb')" "loc_mapped loc = place_address sb p l"
      "loc_size loc = lk_size l" "loc_needs_init loc = (\<not> lk_initialized l)" "same_places sb sb'" "entry sb' \<kappa> = Some (l\<lparr>lk_initialized := True\<rparr>)"
      "\<forall>\<kappa>'. \<kappa>' \<noteq> \<kappa> \<longrightarrow> entry sb' \<kappa>' = entry sb \<kappa>'"
    using find_placed [OF pl(2,1)] by blast
  have "hp_mapped (heap_at sb p) \<noteq> 0" using pl(2) by (simp add: placed_at_def)
  then have "0 < unat (hp_mapped (heap_at sb p))" by (simp add: unat_gt_0)
  then have "place_address sb p l \<noteq> 0" using place_in_memory(1) [OF sb pl(2)] by auto
  then have mem: "memory_at (rs_ram rs) loc =
      Inr \<lparr>om_needs_init = \<not> lk_initialized l, om_mapped = bytes_at (rs_ram rs) (place_address sb p l) (unat (lk_size l))\<rparr>" (is "_ = Inr ?om")
    using find(2-4) by (simp add: memory_at_def)
  have om: "mem_map ?om = found_bytes sb (rs_ram rs) p l" by (simp add: mem_map_def found_bytes_def)
  have len: "length (found_bytes sb (rs_ram rs) p l) = unat (lk_size l)" by (simp add: found_bytes_def)
  have recs: "records_end 0 recs \<le> unat (to_size od)" "\<forall>(_, p)\<in>set recs. p \<noteq> [] \<and> length p < 2 ^ 32"
      "5 + length (update_payload dev od None (patch_bytes recs)) < 2 ^ 32" using obj(2) by (simp_all add: patch_ok_def od_def)
  have type: "to_type od \<noteq> Other_type" using obj(1) by (simp add: backed_def od_def)
  let ?find = "\<lambda>d i. result_bind (find_update_memory (to_type od) i (rs_sub rs d)) (\<lambda>(loc, _). memory_at (rs_ram rs) loc)"
  have found: "?find (tr_index dev) (tr_index (to_track od)) = Inr ?om" using find(1) mem by (simp add: sb_def d_def)
  have room: "records_end 0 recs \<le> length (mem_map ?om)" using recs(1) pl(3) om len by simp
  have "before_packet (packet_bytes (object_packet od) (update_payload dev od None (patch_bytes recs)) @ rest) lr" using lr by (simp add: od_def)
  from replay_update_ok [where find_memory = ?find, OF this object_packet_types(1) [OF type] recs(3,2) e found room, of dx page rext k "to_type od"]
  obtain lr1 lr2 where step: "lr_step dx page False lr = Inr (object_packet od, lr1)"
      "update_object_packet dx rext k e False ?find (to_type od) (object_packet od) lr1 = Inr (tr_index dev, tr_index (to_track od),
        of_nat (sum_list (map (length \<circ> snd) recs)), Some (apply_records 0 recs (found_bytes sb (rs_ram rs) p l)), lr2)" "before_packet rest lr2"
      "stream_kept (lr_stream lr) \<longrightarrow> stream_kept (lr_stream lr2)"
    unfolding om by blast
  define buf where "buf = apply_records 0 recs (found_bytes sb (rs_ram rs) p l)"
  define rs' where "rs' = \<lparr>rs_sub = (rs_sub rs)(d := sb'), rs_ram = store_bytes (place_address sb p l) buf (rs_ram rs)\<rparr>"
  have "switchboard_packet dx rext k e code (object_packet od) rs lr1 = Inr (rs', lr2)"
    using step(2) find(1,2) unfolding object_packet_types(2) [OF type]
    by (simp add: replay_update_packet_def rs'_def buf_def flip: sb_def d_def)
  moreover have size: "length buf = unat (lk_size l)" unfolding buf_def using room om len by (simp add: length_apply_records)
  moreover have "updates_memory dev rs rs'"
    unfolding updates_memory_def rs'_def using find(1-3) size
    by (intro exI [of _ "to_type od"] exI [of _ "tr_index (to_track od)"] exI [of _ loc] exI [of _ sb'] exI [of _ buf]) (simp add: sb_def d_def)
  moreover have "replay_inv dev objs rs' (es @ [Update_packet obj recs])"
  proof -
    note wr = replayed_write [OF sb pl(2) find(5-7) size]
    have "take (unat (to_size od)) buf = apply_records 0 recs (contents_after es obj (replicate (unat (to_size od)) 0))"
      unfolding buf_def pl(4) [symmetric] apply_records_take [OF recs(1)] ..
    then have new: "replayed_to sb' (rs_ram rs') od True (contents_after (es @ [Update_packet obj recs]) obj (replicate (unat (to_size od)) 0))"
      using pl(1,3) wr(1,2) unfolding replayed_to_def by (intro exI [of _ \<kappa>] exI [of _ p] exI [of _ "l\<lparr>lk_initialized := True\<rparr>"])
        (simp add: contents_after_append rs'_def)
    have "replayed_to sb' (rs_ram rs') (objs o') (updated_in (es @ [Update_packet obj recs]) o') (contents_after (es @ [Update_packet obj recs]) o' (replicate (unat (to_size (objs o'))) 0))"
      if "backed (objs o')" for o'
    proof (cases "o' = obj")
      case False
      then have "object_key (to_type (objs o')) (tr_index (to_track (objs o'))) \<noteq> Some \<kappa>"
        using ids that obj(1) pl(1) unfolding identified_def od_def by metis
      from wr(3) [OF this here [OF that]] show ?thesis using False by (simp add: contents_after_append rs'_def)
    qed (use new in \<open>simp add: od_def\<close>)
    moreover have "suballoc_reachable sb'" "heaps_mapped sb'" using find_reachable [OF reach find(1)] same_places_heaps(3) [OF find(5)] sb(2) by simp_all
    ultimately show ?thesis by (simp add: replay_inv_def rs'_def d_def)
  qed
  ultimately show ?thesis using step(1,3,4) unfolding od_def by blast
qed

section \<open>API calls\<close>

text \<open>The packets of a stream.\<close>

function stream_packets :: "bytes \<Rightarrow> (u8 \<times> bytes) list" where
  "stream_packets bs = (let n = unat (take_le 4 (tl bs) :: u32) in
    if length bs < 5 \<or> n < 5 \<or> length bs < n then [] else (hd bs, take (n - 5) (drop 5 bs)) # stream_packets (drop n bs))"
  by auto
termination by (relation "measure length") (auto simp: Let_def)

declare stream_packets.simps [simp del]

definition call_payloads :: "bytes \<Rightarrow> bytes list" where
  "call_payloads bs = map snd (filter (\<lambda>p. fst p = PACKET_VULKAN_API_CALL) (stream_packets bs))"

text \<open>There is an update packet of the object in the stream.\<close>

definition has_update :: "trackable \<Rightarrow> tracked_object \<Rightarrow> bytes \<Rightarrow> bool" where
  "has_update dev od bs \<longleftrightarrow> (\<exists>data. (object_packet od, update_payload dev od None data) \<in> set (stream_packets bs))"

lemma stream_packets_Nil [simp]: "stream_packets [] = []"
  by (simp add: stream_packets.simps)

lemma stream_packets_packet:
  assumes "5 + length payload < 2 ^ 32"
  shows "stream_packets (packet_bytes type payload @ rest) = (type, payload) # stream_packets rest"
proof -
  have "unat (of_nat (5 + length payload) :: u32) = 5 + length payload" using assms by (intro unat_of_nat_less) simp
  then have n: "unat (take_le 4 (tl (packet_bytes type payload @ rest)) :: u32) = 5 + length payload" by (simp add: packet_bytes_def)
  have len: "length (packet_bytes type payload) = 5 + length payload" by (simp add: packet_bytes_def)
  have "drop (5 + length payload) (packet_bytes type payload @ rest) = rest" unfolding len [symmetric] by simp
  moreover have "take (5 + length payload - 5) (drop 5 (packet_bytes type payload @ rest)) = payload"
    "hd (packet_bytes type payload @ rest) = type" "length (packet_bytes type payload @ rest) = 5 + length payload + length rest"
    by (simp_all add: packet_bytes_def)
  ultimately show ?thesis using n by (subst stream_packets.simps) (simp add: Let_def)
qed

fun traced_packet :: "trackable \<Rightarrow> (nat \<Rightarrow> tracked_object) \<Rightarrow> traced \<Rightarrow> u8 \<times> bytes" where
  "traced_packet dev objs (Update_packet obj recs) = (object_packet (objs obj), update_payload dev (objs obj) None (patch_bytes recs))"
| "traced_packet dev objs (Call_packet p) = (PACKET_VULKAN_API_CALL, p)"

lemma stream_packets_trace:
  assumes "list_all (traced_ok dev objs) es"
  shows "stream_packets (trace_bytes dev objs es) = map (traced_packet dev objs) es"
  using assms
proof (induction es)
  case (Cons e es)
  have "5 + length (snd (traced_packet dev objs e)) < 2 ^ 32" "traced_bytes dev objs e = packet_bytes (fst (traced_packet dev objs e)) (snd (traced_packet dev objs e))"
    using Cons.prems by (cases e; simp add: patch_ok_def)+
  then show ?case using Cons by (simp add: stream_packets_packet)
qed simp

fun trace_calls :: "traced list \<Rightarrow> bytes list" where
  "trace_calls [] = []"
| "trace_calls (Update_packet obj recs # es) = trace_calls es"
| "trace_calls (Call_packet p # es) = p # trace_calls es"

lemma trace_calls_append [simp]: "trace_calls (es @ fs) = trace_calls es @ trace_calls fs"
  by (induction es rule: trace_calls.induct) simp_all

lemma call_payloads_trace:
  assumes "list_all (traced_ok dev objs) es"
  shows "call_payloads (trace_bytes dev objs es) = trace_calls es"
  unfolding call_payloads_def stream_packets_trace [OF assms] using assms
proof (induction es rule: trace_calls.induct)
  case (2 obj recs es)
  have "to_type (objs obj) \<noteq> Other_type" using 2(2) by simp
  then have "object_packet (objs obj) \<noteq> PACKET_VULKAN_API_CALL" by (cases "to_type (objs obj)") (simp_all add: object_packet_def)
  then show ?case using 2 by simp
qed simp_all

lemma object_packet_type:
  assumes "object_packet od = object_packet od'" "to_type od \<noteq> Other_type" "to_type od' \<noteq> Other_type"
  shows "to_type od = to_type od'"
  using assms by (cases "to_type od"; cases "to_type od'") (simp_all add: object_packet_def)

lemma update_payload_index:
  assumes "update_payload dev od None data = update_payload dev od' None data'"
  shows "tr_index (to_track od) = tr_index (to_track od')"
proof -
  have index: "take_le 4 (drop 9 (update_payload dev x None y)) = tr_index (to_track x)" for x y
    by (simp add: update_payload_def update_header_def handle_bytes_def)
  show ?thesis using index [of od data] index [of od' data'] assms by simp
qed

lemma has_update_trace:
  assumes "list_all (traced_ok dev objs) es" "identified objs" "backed (objs obj)"
  shows "has_update dev (objs obj) (trace_bytes dev objs es) \<longleftrightarrow> updated_in es obj"
proof
  assume "has_update dev (objs obj) (trace_bytes dev objs es)"
  then obtain data e where e: "e \<in> set es" "traced_packet dev objs e = (object_packet (objs obj), update_payload dev (objs obj) None data)"
    unfolding has_update_def stream_packets_trace [OF assms(1)] set_map by (metis imageE)
  have type: "to_type (objs obj) \<noteq> Other_type" using assms(3) by (simp add: backed_def)
  then have "object_packet (objs obj) \<noteq> PACKET_VULKAN_API_CALL" by (cases "to_type (objs obj)") (simp_all add: object_packet_def)
  then obtain o' recs where o': "e = Update_packet o' recs" using e(2) by (cases e) auto
  have ok: "traced_ok dev objs (Update_packet o' recs)" using assms(1) e(1) o' by (auto simp: list_all_iff)
  then have "backed (objs o')" by (simp add: backed_def)
  moreover have "to_type (objs o') = to_type (objs obj)" using object_packet_type [of "objs o'" "objs obj"] ok type e(2) o' by simp
  moreover have "tr_index (to_track (objs o')) = tr_index (to_track (objs obj))"
    using update_payload_index [of dev "objs o'" "patch_bytes recs" "objs obj" data] e(2) o' by simp
  ultimately have "o' = obj" using assms(2,3) unfolding identified_def by metis
  then show "updated_in es obj" using e(1) o' by (auto simp: updated_in_def)
next
  assume "updated_in es obj"
  then obtain recs where "Update_packet obj recs \<in> set es" by (auto simp: updated_in_def)
  then show "has_update dev (objs obj) (trace_bytes dev objs es)"
    unfolding has_update_def stream_packets_trace [OF assms(1)] by (force intro: image_eqI [rotated])
qed

text \<open>A reader inside a packet, in front of the given bytes of it and of the rest of the stream.\<close>

definition in_packet :: "bytes \<Rightarrow> bytes \<Rightarrow> lava_file_reader \<Rightarrow> bool" where
  "in_packet payload rest lr \<longleftrightarrow> lr_packet_open lr \<and> fr_good (lr_stream lr) \<and> fr_rest (lr_stream lr) = payload @ rest \<and>
    fr_done (lr_stream lr) \<and> stream_kept (lr_stream lr) \<and> lr_packet_end lr = fr_read (lr_stream lr) + length payload"

text \<open>Every object has a place of its own in memory that is mapped.\<close>

definition objects_placed :: "trackable \<Rightarrow> (nat \<Rightarrow> tracked_object) \<Rightarrow> replay_state \<Rightarrow> bool" where
  "objects_placed dev objs rs \<longleftrightarrow> suballoc_reachable (rs_sub rs (tr_index dev)) \<and> heaps_mapped (rs_sub rs (tr_index dev)) \<and>
    (\<forall>obj. backed (objs obj) \<longrightarrow> (\<exists>\<kappa> p l. object_key (to_type (objs obj)) (tr_index (to_track (objs obj))) = Some \<kappa> \<and>
      placed_at (rs_sub rs (tr_index dev)) \<kappa> p l \<and> unat (to_size (objs obj)) \<le> unat (lk_size l)))"

text \<open>A call may create, bind and destroy other objects and write other memory; the objects that are looked at keep their
  place and, once they are initialized, their bytes.\<close>

definition keeps_objects :: "trackable \<Rightarrow> (nat \<Rightarrow> tracked_object) \<Rightarrow> replay_state \<Rightarrow> replay_state \<Rightarrow> bool" where
  "keeps_objects dev objs rs rs' \<longleftrightarrow> (let sb = rs_sub rs (tr_index dev); sb' = rs_sub rs' (tr_index dev) in
    suballoc_reachable sb' \<and> heaps_mapped sb' \<and>
    (\<forall>obj \<kappa> p l. backed (objs obj) \<and> object_key (to_type (objs obj)) (tr_index (to_track (objs obj))) = Some \<kappa> \<and> placed_at sb \<kappa> p l \<longrightarrow>
      placed_at sb' \<kappa> p l \<and> place_address sb' p l = place_address sb p l \<and>
      (lk_initialized l \<longrightarrow> bytes_at (rs_ram rs') (place_address sb p l) (unat (lk_size l)) = bytes_at (rs_ram rs) (place_address sb p l) (unat (lk_size l)))))"

text \<open>What is asked of the generated functions, for the calls of one trace in their order: each call is in the dictionary,
  and its function, run where the calls before it have led, succeeds, reads no further than its packet and keeps the objects.
  \<open>phase n\<close> describes the states of a replay after \<open>n\<close> calls; update packets do not matter to it.\<close>

definition call_replays :: "trackable \<Rightarrow> (nat \<Rightarrow> tracked_object) \<Rightarrow> replay_code \<Rightarrow> (nat \<Rightarrow> replay_state \<Rightarrow> bool) \<Rightarrow> nat \<Rightarrow> bytes \<Rightarrow> bool" where
  "call_replays dev objs code phase n payload \<longleftrightarrow> (\<exists>(i :: u16) apicall (reserved :: u32) args.
    payload = to_le 2 i @ to_le 4 reserved @ args \<and> rc_dictionary code i = Some apicall \<and>
    (\<forall>rs lr rest. phase n rs \<and> objects_placed dev objs rs \<and> in_packet args rest lr \<longrightarrow>
      (\<exists>rs' lr'. rc_function code apicall rs lr = Inr (rs', lr') \<and> before_packet rest lr' \<and> stream_kept (lr_stream lr') \<and>
        keeps_objects dev objs rs rs' \<and> phase (Suc n) rs')))"

definition calls_replay :: "trackable \<Rightarrow> (nat \<Rightarrow> tracked_object) \<Rightarrow> replay_code \<Rightarrow> (nat \<Rightarrow> replay_state \<Rightarrow> bool) \<Rightarrow> bytes list \<Rightarrow> bool" where
  "calls_replay dev objs code phase payloads \<longleftrightarrow>
    (\<forall>n rs rs'. phase n rs \<and> objects_placed dev objs rs \<and> updates_memory dev rs rs' \<longrightarrow> phase n rs') \<and>
    (\<forall>n < length payloads. call_replays dev objs code phase n (payloads ! n))"

lemma replay_inv_placed: "replay_inv dev objs rs es \<Longrightarrow> objects_placed dev objs rs"
  by (auto simp: replay_inv_def objects_placed_def replayed_to_def Let_def) blast

lemma replay_inv_keeps:
  assumes "replay_inv dev objs rs es" "keeps_objects dev objs rs rs'"
  shows "replay_inv dev objs rs' (es @ [Call_packet p])"
proof -
  define sb sb' where "sb = rs_sub rs (tr_index dev)" and "sb' = rs_sub rs' (tr_index dev)"
  have keep: "placed_at sb' \<kappa> p l \<and> place_address sb' p l = place_address sb p l \<and>
      (lk_initialized l \<longrightarrow> bytes_at (rs_ram rs') (place_address sb p l) (unat (lk_size l)) = bytes_at (rs_ram rs) (place_address sb p l) (unat (lk_size l)))"
    if "backed (objs obj)" "object_key (to_type (objs obj)) (tr_index (to_track (objs obj))) = Some \<kappa>" "placed_at sb \<kappa> p l" for obj \<kappa> p l
    using assms(2) that unfolding keeps_objects_def Let_def sb_def sb'_def by blast
  have "replayed_to sb' (rs_ram rs') (objs obj) u b" if b: "backed (objs obj)" and rep: "replayed_to sb (rs_ram rs) (objs obj) u b" for obj u b
  proof -
    obtain \<kappa> p l where o: "object_key (to_type (objs obj)) (tr_index (to_track (objs obj))) = Some \<kappa>" "placed_at sb \<kappa> p l"
        "unat (to_size (objs obj)) \<le> unat (lk_size l)" "take (unat (to_size (objs obj))) (found_bytes sb (rs_ram rs) p l) = b" "u \<longrightarrow> lk_initialized l"
      using rep unfolding replayed_to_def by blast
    have "found_bytes sb' (rs_ram rs') p l = found_bytes sb (rs_ram rs) p l" using keep [OF b o(1,2)] by (simp add: found_bytes_def)
    then show ?thesis using o keep [OF b o(1,2)] unfolding replayed_to_def by metis
  qed
  then show ?thesis using assms unfolding replay_inv_def keeps_objects_def
    by (simp add: Let_def contents_after_append flip: sb_def sb'_def)
qed

lemma read_apicall_header:
  fixes i :: u16 and reserved :: u32
  assumes "in_packet (to_le 2 i @ to_le 4 reserved @ args) rest lr" "dictionary i = Some apicall"
  shows "\<exists>lr'. in_packet args rest lr' \<and>
    read_apicall dx dictionary func rs lr = result_bind (func apicall rs lr') (\<lambda>(rs, lr). Inr (apicall, rs, lr))"
proof -
  define r where "r = set_checkpoint (lr_stream lr)"
  have r: "fr_good r" "fr_rest r = to_le 2 i @ to_le 4 reserved @ args @ rest" "stream_kept r" "fr_done r" "lr_packet_end lr = fr_read r + 6 + length args"
    using assms(1) stream_kept_checkpoint [of "lr_stream lr"] by (simp_all add: in_packet_def r_def set_checkpoint_def fr_good_def fr_rest_def)
  note one = read_value_exact [OF r(1,2) widths(2)]
  note two = read_value_exact [OF one(2,3) widths(3)]
  define lr' where "lr' = lr\<lparr>lr_stream := r\<lparr>fr_read := fr_read r + 6\<rparr>, lr_current := (lr_current lr)\<lparr>cs_call_id := apicall, cs_packet_type := PACKET_VULKAN_API_CALL\<rparr>\<rparr>"
  have "in_packet args rest lr'" using two(2,3) r(3-5) stream_kept_forward [OF r(3), of "fr_read r + 6"] assms(1)
    by (simp add: in_packet_def lr'_def add.commute)
  moreover have "read_apicall dx dictionary func rs lr = result_bind (func apicall rs lr') (\<lambda>(rs, lr). Inr (apicall, rs, lr))"
    unfolding read_apicall_def r_def [symmetric] one(1) using two(1) assms(2) by (simp add: lr'_def add.commute)
  ultimately show ?thesis by blast
qed

lemma replay_call_step:
  assumes "calls_replay dev objs code phase (ps @ p # qs)" "before_packet (packet_bytes PACKET_VULKAN_API_CALL p @ rest) lr"
    and "5 + length p < 2 ^ 32" "stream_kept (lr_stream lr)" "phase (length ps) rs" "replay_inv dev objs rs es"
  shows "\<exists>lr1 rs' lr2. lr_step dx page False lr = Inr (PACKET_VULKAN_API_CALL, lr1) \<and>
    switchboard_packet dx rext k e code PACKET_VULKAN_API_CALL rs lr1 = Inr (rs', lr2) \<and> before_packet rest lr2 \<and>
    stream_kept (lr_stream lr2) \<and> replay_inv dev objs rs' (es @ [Call_packet p]) \<and> phase (Suc (length ps)) rs'"
proof -
  have "(PACKET_VULKAN_API_CALL :: u8) \<noteq> 0" by simp
  then obtain lr1 where step: "lr_step dx page False lr = Inr (PACKET_VULKAN_API_CALL, lr1)" "lr_packet_open lr1"
      "fr_good (lr_stream lr1)" "fr_rest (lr_stream lr1) = p @ rest" "fr_done (lr_stream lr1)"
      "lr_packet_end lr1 = fr_read (lr_stream lr1) + length p" "stream_kept (lr_stream lr) \<longrightarrow> stream_kept (lr_stream lr1)"
    using lr_step_packet [OF assms(2) _ assms(3), of dx page] by metis
  then have lr1: "lr_step dx page False lr = Inr (PACKET_VULKAN_API_CALL, lr1)" "in_packet p rest lr1" using assms(4) by (simp_all add: in_packet_def)
  have "length ps < length (ps @ p # qs)" "(ps @ p # qs) ! length ps = p" by simp_all
  then have "call_replays dev objs code phase (length ps) p" using assms(1) unfolding calls_replay_def by metis
  then obtain i :: u16 and apicall and reserved :: u32 and args where call: "p = to_le 2 i @ to_le 4 reserved @ args" "rc_dictionary code i = Some apicall"
    and run: "\<And>rs lr rest. phase (length ps) rs \<Longrightarrow> objects_placed dev objs rs \<Longrightarrow> in_packet args rest lr \<Longrightarrow>
        \<exists>rs' lr'. rc_function code apicall rs lr = Inr (rs', lr') \<and> before_packet rest lr' \<and> stream_kept (lr_stream lr') \<and>
          keeps_objects dev objs rs rs' \<and> phase (Suc (length ps)) rs'"
    unfolding call_replays_def by blast
  obtain lr' where lr': "in_packet args rest lr'"
      "read_apicall dx (rc_dictionary code) (rc_function code) rs lr1 = result_bind (rc_function code apicall rs lr') (\<lambda>(rs, lr). Inr (apicall, rs, lr))"
    using read_apicall_header [where dictionary = "rc_dictionary code" and func = "rc_function code" and rs = rs and dx = dx, OF lr1(2) [unfolded call(1)] call(2)] by blast
  obtain rs' lr2 where fin: "rc_function code apicall rs lr' = Inr (rs', lr2)" "before_packet rest lr2" "stream_kept (lr_stream lr2)"
      "keeps_objects dev objs rs rs'" "phase (Suc (length ps)) rs'"
    using run [OF assms(5) replay_inv_placed [OF assms(6)] lr'(1)] by blast
  have "switchboard_packet dx rext k e code PACKET_VULKAN_API_CALL rs lr1 = Inr (rs', lr2)"
    using lr'(2) fin(1) by (simp add: switchboard_packet_def)
  then show ?thesis using lr1(1) fin(2-5) replay_inv_keeps [OF assms(6) fin(4)] by blast
qed

lemma step_at_end:
  assumes "before_packet [] lr"
  shows "\<exists>lr'. lr_step dx page False lr = Inr (0, lr') \<and> lr_terminated lr'"
proof -
  obtain lr0 where "complete_packet lr = Inr lr0" "fr_rest (lr_stream lr0) = []" "fr_done (lr_stream lr0)"
    using complete_packet_ok [OF assms] by auto
  then show ?thesis by (simp add: lr_step_def fr_finished_def fr_rest_def)
qed

lemma replay_trace_ok:
  assumes "identified objs" "\<not> rw_write_output e" "calls_replay dev objs code phase (trace_calls (es @ fs))"
    and "list_all (traced_ok dev objs) fs" "before_packet (trace_bytes dev objs fs) lr" "stream_kept (lr_stream lr)"
    and "replay_inv dev objs rs es" "phase (length (trace_calls es)) rs"
  shows "\<exists>rs' lr'. replay_thread dx page rext k e code rs lr = Some (Inr (rs', lr')) \<and> lr_terminated lr' \<and> replay_inv dev objs rs' (es @ fs)"
  using assms(3-8)
proof (induction fs arbitrary: lr rs es)
  case Nil
  then obtain lr' where "lr_step dx page False lr = Inr (0, lr')" "lr_terminated lr'" using step_at_end [of lr dx page] by auto
  then show ?case using Nil.prems(5) by (subst replay_thread.simps) simp
next
  case (Cons f fs)
  have "\<exists>t lr1 rs1 lr2. lr_step dx page False lr = Inr (t, lr1) \<and> t \<noteq> 0 \<and> switchboard_packet dx rext k e code t rs lr1 = Inr (rs1, lr2) \<and>
      before_packet (trace_bytes dev objs fs) lr2 \<and> stream_kept (lr_stream lr2) \<and> replay_inv dev objs rs1 (es @ [f]) \<and>
      phase (length (trace_calls (es @ [f]))) rs1"
  proof (cases f)
    case (Update_packet obj recs)
    then have obj: "backed (objs obj)" "patch_ok dev (objs obj) recs" using Cons.prems(2) by (simp_all add: backed_def)
    have "before_packet (traced_bytes dev objs (Update_packet obj recs) @ trace_bytes dev objs fs) lr" using Cons.prems(3) Update_packet by simp
    from replay_update_step [OF Cons.prems(5) assms(1) obj this assms(2), of dx page rext k code] obtain lr1 rs1 lr2 where
      1: "lr_step dx page False lr = Inr (object_packet (objs obj), lr1)"
      "switchboard_packet dx rext k e code (object_packet (objs obj)) rs lr1 = Inr (rs1, lr2)" "before_packet (trace_bytes dev objs fs) lr2"
      "stream_kept (lr_stream lr) \<longrightarrow> stream_kept (lr_stream lr2)" "replay_inv dev objs rs1 (es @ [Update_packet obj recs])" "updates_memory dev rs rs1" by blast
    have "phase (length (trace_calls es)) rs1"
      using Cons.prems(1,6) replay_inv_placed [OF Cons.prems(5)] 1(6) unfolding calls_replay_def by blast
    moreover have "object_packet (objs obj) \<noteq> 0" using object_packet_types(1) [of "objs obj"] obj(1) by (simp add: backed_def)
    ultimately show ?thesis using 1 Cons.prems(4) Update_packet by auto
  next
    case (Call_packet p)
    then have "before_packet (packet_bytes PACKET_VULKAN_API_CALL p @ trace_bytes dev objs fs) lr" "5 + length p < 2 ^ 32"
      using Cons.prems(2,3) by simp_all
    moreover have "calls_replay dev objs code phase (trace_calls es @ p # trace_calls fs)" using Cons.prems(1) Call_packet by simp
    note here = this calculation
    obtain lr1 rs1 lr2 where "lr_step dx page False lr = Inr (PACKET_VULKAN_API_CALL, lr1)"
      "switchboard_packet dx rext k e code PACKET_VULKAN_API_CALL rs lr1 = Inr (rs1, lr2)" "before_packet (trace_bytes dev objs fs) lr2"
      "stream_kept (lr_stream lr2)" "replay_inv dev objs rs1 (es @ [Call_packet p])" "phase (Suc (length (trace_calls es))) rs1"
      using replay_call_step [OF here(1-3) Cons.prems(4,6,5), of dx page rext k e] by blast
    moreover have "(PACKET_VULKAN_API_CALL :: u8) \<noteq> 0" by simp
    ultimately show ?thesis using Call_packet by auto
  qed
  then obtain t lr1 rs1 lr2 where 1: "lr_step dx page False lr = Inr (t, lr1)" "t \<noteq> 0" "switchboard_packet dx rext k e code t rs lr1 = Inr (rs1, lr2)"
      "before_packet (trace_bytes dev objs fs) lr2" "stream_kept (lr_stream lr2)" "replay_inv dev objs rs1 (es @ [f])"
      "phase (length (trace_calls (es @ [f]))) rs1" by blast
  have "replay_thread dx page rext k e code rs lr = replay_thread dx page rext k e code rs1 lr2"
    by (subst replay_thread.simps) (simp add: 1(1-3))
  moreover have "list_all (traced_ok dev objs) fs" "calls_replay dev objs code phase (trace_calls ((es @ [f]) @ fs))" using Cons.prems(1,2) by simp_all
  ultimately show ?case using Cons.IH [OF _ _ 1(4-7)] by simp
qed

section \<open>What the host wrote is what the replay has\<close>

text \<open>The memory of the replay before the first update: every object has a place of its own that is not initialized yet.\<close>

definition replay_ready :: "trackable \<Rightarrow> (nat \<Rightarrow> tracked_object) \<Rightarrow> replay_state \<Rightarrow> bool" where
  "replay_ready dev objs rs \<longleftrightarrow> suballoc_reachable (rs_sub rs (tr_index dev)) \<and> heaps_mapped (rs_sub rs (tr_index dev)) \<and>
    (\<forall>obj. backed (objs obj) \<longrightarrow> (\<exists>\<kappa> p l. object_key (to_type (objs obj)) (tr_index (to_track (objs obj))) = Some \<kappa> \<and>
      placed_at (rs_sub rs (tr_index dev)) \<kappa> p l \<and> \<not> lk_initialized l \<and> unat (to_size (objs obj)) \<le> unat (lk_size l)))"

text \<open>The replay has initialized the memory of an object, and byte \<open>i\<close> of it is \<open>x\<close>.\<close>

definition replayed_byte :: "replay_state \<Rightarrow> trackable \<Rightarrow> tracked_object \<Rightarrow> nat \<Rightarrow> u8 \<Rightarrow> bool" where
  "replayed_byte rs dev od i x \<longleftrightarrow> (\<exists>loc sb. find_update_memory (to_type od) (tr_index (to_track od)) (rs_sub rs (tr_index dev)) = Inr (loc, sb) \<and>
    i < unat (loc_size loc) \<and> \<not> loc_needs_init loc \<and> rs_ram rs (loc_mapped loc + of_nat i) = x)"

lemma replay_ready_inv: "replay_ready dev objs rs \<Longrightarrow> replay_inv dev objs rs []"
proof -
  assume r: "replay_ready dev objs rs"
  have "replayed_to (rs_sub rs (tr_index dev)) (rs_ram rs) (objs obj) False (replicate (unat (to_size (objs obj))) 0)" if b: "backed (objs obj)" for obj
  proof -
    obtain \<kappa> p l where "object_key (to_type (objs obj)) (tr_index (to_track (objs obj))) = Some \<kappa>"
        "placed_at (rs_sub rs (tr_index dev)) \<kappa> p l" "\<not> lk_initialized l" "unat (to_size (objs obj)) \<le> unat (lk_size l)"
      using r b unfolding replay_ready_def by blast
    then show ?thesis unfolding replayed_to_def
      by (intro exI [of _ \<kappa>] exI [of _ p] exI [of _ l]) (simp add: found_bytes_def min_def)
  qed
  then show ?thesis using r by (simp add: replay_inv_def replay_ready_def Let_def)
qed

lemma replayed_to_byte:
  assumes "replayed_to (rs_sub rs (tr_index dev)) (rs_ram rs) od True buf" "i < unat (to_size od)"
  shows "replayed_byte rs dev od i (buf ! i)"
proof -
  obtain \<kappa> p l where o: "object_key (to_type od) (tr_index (to_track od)) = Some \<kappa>" "placed_at (rs_sub rs (tr_index dev)) \<kappa> p l"
      "unat (to_size od) \<le> unat (lk_size l)" "take (unat (to_size od)) (found_bytes (rs_sub rs (tr_index dev)) (rs_ram rs) p l) = buf" "lk_initialized l"
    using assms(1) unfolding replayed_to_def by blast
  obtain loc sb' where loc: "find_update_memory (to_type od) (tr_index (to_track od)) (rs_sub rs (tr_index dev)) = Inr (loc, sb')"
      "loc_mapped loc = place_address (rs_sub rs (tr_index dev)) p l" "loc_size loc = lk_size l" "loc_needs_init loc = (\<not> lk_initialized l)"
    using find_placed [OF o(2,1)] by blast
  have "buf ! i = found_bytes (rs_sub rs (tr_index dev)) (rs_ram rs) p l ! i" using o(4) assms(2) by auto
  then have "rs_ram rs (loc_mapped loc + of_nat i) = buf ! i"
    using loc(2-4) assms(2) o(3,5) by (simp add: found_bytes_def bytes_at_def)
  then show ?thesis using loc(1,3,4) assms(2) o(3,5) unfolding replayed_byte_def by (intro exI [of _ loc] exI [of _ sb']) simp
qed

lemma contents_not_updated: "\<not> updated_in es obj \<Longrightarrow> contents_after es obj buf = buf"
  by (induction es obj buf rule: contents_after.induct) (auto simp: updated_in_def)

lemma touches_accessible:
  assumes "capture_inv V mc" "touches mc c obj i"
  shows "to_accessible (mc_objects mc obj)" "i < unat (to_size (mc_objects mc obj))"
proof -
  have t: "touched_ok (mc_objects mc) (cb_touched (mc_cmdbufs mc c))" using assms(1) by (simp add: capture_inv_def)
  have "to_accessible (mc_objects mc obj) \<and> i < unat (to_size (mc_objects mc obj))"
  proof (cases "i \<in> exposed (ranges_of (cb_touched (mc_cmdbufs mc c)) obj)")
    case True
    then have "map_of (cb_touched (mc_cmdbufs mc c)) obj \<noteq> None" by (auto simp: ranges_of_def split: option.splits)
    then obtain e where "(obj, e) \<in> set (cb_touched (mc_cmdbufs mc c))" by (auto dest: map_of_SomeD)
    then have "to_accessible (mc_objects mc obj)" using t by (auto simp: touched_ok_def)
    then show ?thesis using True ranges_of_ok(2) [OF t, of obj] by blast
  next
    case False
    then show ?thesis using assms(2) by (auto simp: touches_def address_taken_def)
  qed
  then show "to_accessible (mc_objects mc obj)" "i < unat (to_size (mc_objects mc obj))" by simp_all
qed

text \<open>The replay of a trace has every byte that the clones and the memory agree on, as far as there are updates of its object.\<close>

lemma recorded_replayed:
  assumes rec: "recorded dev mc es" and same: "same_identity objs (mc_objects mc)" and objs: "separate objs" "identified objs"
    and types: "\<And>obj. to_accessible (objs obj) \<Longrightarrow> to_type (objs obj) \<noteq> Other_type"
    and stream: "stream = fw_stream (\<lambda>x. x) (lw_stream (mc_writer mc))"
    and reader: "before_packet stream lr" "stream_kept (lr_stream lr)"
    and replay: "replay_ready dev objs rs" "\<not> rw_write_output e" "calls_replay dev objs code phase (call_payloads stream)" "phase 0 rs"
  shows "\<exists>rs' lr'. replay_thread dx page rext k e code rs lr = Some (Inr (rs', lr')) \<and> lr_terminated lr' \<and>
    (\<forall>obj i m. to_accessible (objs obj) \<and> to_backing (objs obj) = Some m \<and> i < unat (to_size (objs obj)) \<and>
      clean (mc_memories mc m) (unat (to_offset (objs obj)) + i) \<longrightarrow>
      (let x = dm_contents (mc_memories mc m) ! (unat (to_offset (objs obj)) + i) in
       if has_update dev (objs obj) stream then replayed_byte rs' dev (objs obj) i x else x = 0))"
proof -
  note id = same_identity_bytes [OF same, of dev] same_identity_fields [OF same] object_image_identity [OF same] separate_identity [OF same]
  have trace: "list_all (traced_ok dev objs) es" "stream = trace_bytes dev objs es"
    using rec by (simp_all add: recorded_def closed_ok_def id stream cong: list.pred_cong)
  have calls: "calls_replay dev objs code phase (trace_calls ([] @ es))" "phase (length (trace_calls [])) rs"
    using replay(3,4) call_payloads_trace [OF trace(1)] trace(2) by simp_all
  obtain rs' lr' where thread: "replay_thread dx page rext k e code rs lr = Some (Inr (rs', lr'))" "lr_terminated lr'"
      "replay_inv dev objs rs' ([] @ es)"
    using replay_trace_ok [OF objs(2) replay(2) calls(1) trace(1) reader(1) [unfolded trace(2)] reader(2) replay_ready_inv [OF replay(1)] calls(2)] by blast
  have "let x = dm_contents (mc_memories mc m) ! (unat (to_offset (objs obj)) + i) in
      if has_update dev (objs obj) stream then replayed_byte rs' dev (objs obj) i x else x = 0"
    if t: "to_accessible (objs obj)" "to_backing (objs obj) = Some m" "i < unat (to_size (objs obj))"
      "clean (mc_memories mc m) (unat (to_offset (objs obj)) + i)" for obj i m
  proof -
    define od where "od = objs obj"
    have b: "backed od" using types [OF t(1)] t(1,2) by (simp add: backed_def od_def)
    have here: "replayed_to (rs_sub rs' (tr_index dev)) (rs_ram rs') od (updated_in es obj) (contents_after es obj (replicate (unat (to_size od)) 0))"
      using thread(3) b by (simp add: replay_inv_def Let_def od_def)
    have image: "object_image (mc_memories mc m) od = contents_after es obj (replicate (unat (to_size od)) 0)"
      using rec objs(1) t(1,2) unfolding recorded_def id od_def by blast
    obtain c where "dm_clone (mc_memories mc m) = Some c" "unat (to_offset od) + i < length c"
        "c ! (unat (to_offset od) + i) = dm_contents (mc_memories mc m) ! (unat (to_offset od) + i)"
      using t(4) by (auto simp: clean_def od_def)
    then have x: "object_image (mc_memories mc m) od ! i = dm_contents (mc_memories mc m) ! (unat (to_offset od) + i)"
      using t(3) by (simp add: object_image_def od_def)
    have up: "has_update dev od stream = updated_in es obj"
      unfolding trace(2) od_def by (rule has_update_trace [OF trace(1) objs(2) b [unfolded od_def]])
    show ?thesis
    proof (cases "updated_in es obj")
      case True
      then have "replayed_byte rs' dev od i (object_image (mc_memories mc m) od ! i)"
        using replayed_to_byte here image t(3) [folded od_def] by metis
      then show ?thesis using True up x by (simp add: od_def)
    next
      case False
      then have "object_image (mc_memories mc m) od ! i = 0" using image contents_not_updated t(3) by (simp add: od_def)
      then show ?thesis using False up x by (simp add: od_def)
    qed
  qed
  then show ?thesis using thread(1,2) by blast
qed

text \<open>C1: what the host wrote is what the replay has.  In every state that an application reaches by mapping, writing, flushing,
  recording, calling and submitting, with objects that do not share memory and nothing exposed at the byte behind a mapping, let a
  replay thread read the trace as it is after the next submit, into memory that the suballocator has given every object and that is not
  initialized yet.  The functions of the API calls in the trace are asked to succeed where the calls before them have led, to read no
  further than their packets, and to leave the place and the bytes of these objects alone.  Then the thread comes to the end of the trace
  without an error, and for every byte that a submitted command buffer touches and that the host has written and made visible
  before the submit: if the trace has an update packet of its object, the replay has initialized the memory of the object
  and the byte in it has the value it had for the application; if there is none, the value was zero.\<close>

theorem replay_has_host_writes:
  assumes run: "capture_reachable cx dev mc V U" "tr_created dev" "edge_clear mc"
    and objs: "separate (mc_objects mc)" "identified (mc_objects mc)"
    and submit: "trace_pre_vkQueueSubmit cx dev False cs mc = Inr mc'"
    and stream: "stream = fw_stream (\<lambda>x. x) (lw_stream (mc_writer mc'))"
    and reader: "before_packet stream lr" "stream_kept (lr_stream lr)"
    and replay: "replay_ready dev (mc_objects mc) rs" "\<not> rw_write_output e"
      "calls_replay dev (mc_objects mc) code phase (call_payloads stream)" "phase 0 rs"
  shows "\<exists>rs' lr'. replay_thread dx page rext k e code rs lr = Some (Inr (rs', lr')) \<and> lr_terminated lr' \<and>
    (\<forall>c\<in>set cs. \<forall>obj i m. touches mc c obj i \<and> to_backing (mc_objects mc obj) = Some m \<and> unat (to_offset (mc_objects mc obj)) + i \<in> V m \<longrightarrow>
      (let x = dm_contents (mc_memories mc m) ! (unat (to_offset (mc_objects mc obj)) + i) in
       if has_update dev (mc_objects mc obj) stream then replayed_byte rs' dev (mc_objects mc obj) i x else x = 0))"
proof -
  have inv: "capture_inv V mc" by (rule capture_reachable_inv [OF run(1,2)])
  obtain es fs where rec: "recorded dev mc es" "same_identity (mc_objects mc) (mc_objects mc')" "logs dev mc mc' fs"
    and contents: "\<And>m. dm_contents (mc_memories mc' m) = dm_contents (mc_memories mc m)"
    and clean: "\<And>c obj i m. c \<in> set cs \<Longrightarrow> touches mc c obj i \<Longrightarrow> to_backing (mc_objects mc obj) = Some m \<Longrightarrow>
      unat (to_offset (mc_objects mc obj)) + i \<in> V m \<Longrightarrow> clean (mc_memories mc' m) (unat (to_offset (mc_objects mc obj)) + i)"
    using capture_reachable_recorded [OF run(1,2)] submit_ok [OF inv run(2,3), of cx cs] submit by (auto simp del: fun_upd_apply)
  have types: "to_type (mc_objects mc obj) \<noteq> Other_type" if "to_accessible (mc_objects mc obj)" for obj
    using inv that by (simp add: capture_inv_def object_ok_def)
  show ?thesis
    using recorded_replayed [OF recorded_logs [OF rec(1,3,2)] rec(2) objs types stream reader replay, of dx page rext k] clean touches_accessible [OF inv]
    unfolding contents by blast
qed

text \<open>The submit of \<open>written_capture\<close>, replayed on a device with one heap, in memory that is filled with sevens.\<close>

definition replay_created :: "((sub_object list \<times> sub_object list \<times> sub_object list) \<times> suballocator) result" where
  "replay_created = create \<lparr>dl_memory_types = [6], dl_bufferImageGranularity = 1, dl_maxMemoryAllocationCount = 4096\<rparr> so_reqs True
    (Some 65536) 0 ([], map (\<lambda>i. sample_buffer i 16) [0, 1, 2, 3, 4, 5, 6, 7], []) 0 1 True"

definition replay_bound :: "(suballoc_location \<times> suballocator) result" where
  "replay_bound = add_trackedobject \<lparr>va_memory = Some 77, va_mapped = Some 65536\<rparr> 0 1 (sample_buffer 7 16) (snd (projr replay_created))"

definition replay_start :: replay_state where
  "replay_start = \<lparr>rs_sub = (\<lambda>_. snd (projr replay_bound)), rs_ram = (\<lambda>_. 7)\<rparr>"

lemma replay_runs: "\<not> isl replay_created" "\<not> isl replay_bound"
  by code_simp+

lemma replay_bound_reachable: "suballoc_reachable (snd (projr replay_bound))"
proof -
  have "suballoc_reachable (snd (projr replay_created))"
    using sum.collapse(2) [OF replay_runs(1)] unfolding replay_created_def
    by (intro suballoc_reachable.created [where objs' = "fst (projr replay_created)"]) (simp add: replay_created_def)
  then show ?thesis unfolding replay_bound_def
    by (rule sample_adds) (use replay_runs(2) in \<open>simp add: replay_bound_def\<close>, simp, code_simp)
qed

lemma replay_bound_heaps:
  "map length (sb_heaps (snd (projr replay_bound))) = [1]"
  "hp_mapped (heap_at (snd (projr replay_bound)) (0, 0)) = 65536" "hp_total (heap_at (snd (projr replay_bound)) (0, 0)) = 65536"
  "entry (snd (projr replay_bound)) (K_buffer 7) = Some \<lparr>lk_home = Some (0, 0), lk_offset = 0, lk_size = 16, lk_initialized = False, lk_alias_member = False\<rparr>"
  by code_simp+

lemma replay_start_ready: "replay_ready (sample_object 1) sample_objects replay_start"
proof -
  let ?sb = "snd (projr replay_bound)"
  have heaps: "length (sb_heaps ?sb) = 1" "length (sb_heaps ?sb ! 0) = 1"
    using replay_bound_heaps(1) by (metis length_map One_nat_def length_Cons list.size(3), metis (no_types) length_map nth_map nth_Cons_0 One_nat_def length_Cons list.size(3) zero_less_one)
  have only: "p = (0, 0)" if "valid_ptr ?sb p" for p
    using that heaps by (cases p) (simp add: valid_ptr_def)
  have "unat (hp_mapped (heap_at ?sb p)) + unat (hp_total (heap_at ?sb p)) \<le> 2 ^ 64" if "valid_ptr ?sb p" for p
    unfolding only [OF that] replay_bound_heaps(2,3) by simp
  then have "heaps_mapped ?sb" unfolding heaps_mapped_def using only by metis
  moreover have "placed_at ?sb (K_buffer 7) (0, 0) \<lparr>lk_home = Some (0, 0), lk_offset = 0, lk_size = 16, lk_initialized = False, lk_alias_member = False\<rparr>"
    using replay_bound_heaps(2,4) by (simp add: placed_at_def)
  then have "\<exists>\<kappa> p l. object_key (to_type (sample_objects obj)) (tr_index (to_track (sample_objects obj))) = Some \<kappa> \<and>
      placed_at ?sb \<kappa> p l \<and> \<not> lk_initialized l \<and> unat (to_size (sample_objects obj)) \<le> unat (lk_size l)" if "backed (sample_objects obj)" for obj
    using that by (intro exI [of _ "K_buffer 7"] exI [of _ "(0, 0)"]
        exI [of _ "\<lparr>lk_home = Some (0, 0), lk_offset = 0, lk_size = 16, lk_initialized = False, lk_alias_member = False\<rparr>"])
      (simp add: backed_def sample_update_object_def sample_object_def)
  ultimately show ?thesis using replay_bound_reachable by (simp add: replay_ready_def replay_start_def)
qed

text \<open>A call number 5 recorded before the submit, and a function for it that does nothing.\<close>

definition sample_call :: "file_writer \<Rightarrow> file_writer result" where
  "sample_call w = result_bind (write_uint16_t plain_codec 5 w) (write_uint32_t plain_codec 0)"

definition called_capture :: memory_capture where
  "called_capture = written_capture\<lparr>mc_writer := projr (write_packet plain_codec PACKET_VULKAN_API_CALL sample_call (mc_writer written_capture))\<rparr>"

definition sample_code :: replay_code where
  "sample_code = \<lparr>rc_dictionary = [5 \<mapsto> 9], rc_function = (\<lambda>_ rs lr. Inr (rs, lr)), rc_initialization = (\<lambda>_ rs lr. Inr (rs, lr))\<rparr>"

lemma sample_call_appends: "appends sample_call (to_le 2 (5 :: u16) @ to_le 4 (0 :: u32))"
  unfolding sample_call_def by (intro appends_bind write_int_appends)

lemma called_reachable: "capture_reachable plain_codec dev called_capture ((\<lambda>_. {})(0 := {3})) ((\<lambda>_. {})(0 := {3}))"
proof -
  have "\<not> isl (write_packet plain_codec PACKET_VULKAN_API_CALL sample_call (mc_writer written_capture))" by code_simp
  from capture_step.Call [OF sample_call_appends _ sum.collapse(2) [OF this, symmetric]] show ?thesis
    unfolding called_capture_def by (intro capture_reachable.step [OF written_reachable]) simp
qed

lemma in_packet_end: "in_packet [] rest lr \<Longrightarrow> before_packet rest lr"
  by (auto simp: in_packet_def before_packet_def fr_good_def fr_rest_def Let_def intro: stream_kept_ok)

lemma sample_calls_replay: "calls_replay dev objs sample_code (\<lambda>_ _. True) [to_le 2 (5 :: u16) @ to_le 4 (0 :: u32) @ []]"
proof -
  have "keeps_objects dev objs rs rs" if "objects_placed dev objs rs" for rs
    using that by (simp add: keeps_objects_def objects_placed_def Let_def)
  then have "call_replays dev objs sample_code (\<lambda>_ _. True) 0 (to_le 2 (5 :: u16) @ to_le 4 (0 :: u32) @ [])"
    unfolding call_replays_def
    by (intro exI [of _ 5] exI [of _ 9] exI [of _ 0] exI [of _ "[]"]) (auto simp: sample_code_def in_packet_end in_packet_def)
  then show ?thesis by (simp add: calls_replay_def)
qed

definition whole_reader :: "bytes \<Rightarrow> file_reader" where
  "whole_reader bs = (sample_reader bs)\<lparr>fr_total_uncompressed := length bs\<rparr>"

theorem replay_has_host_writes_witness:
  "\<exists>mc' rs' lr'. trace_pre_vkQueueSubmit plain_codec (sample_object 1) False [0] called_capture = Inr mc' \<and>
    replay_thread plain_decoder 4096 (\<lambda>_. Inl End_of_data) sample_constants sample_rewriter sample_code replay_start
      (lava_file_reader_new 1 (whole_reader (fw_stream (\<lambda>x. x) (lw_stream (mc_writer mc'))))) = Some (Inr (rs', lr')) \<and>
    replayed_byte rs' (sample_object 1) sample_update_object 3 5"
proof -
  have dev: "tr_created (sample_object 1)" by (simp add: sample_object_def)
  have state: "mc_objects called_capture = sample_objects"
    by (simp add: called_capture_def written_capture_def set_touched_def set_memory_def sample_capture_def)
  have edge: "edge_clear called_capture"
    by (simp add: edge_clear_def called_capture_def written_capture_def set_touched_def set_memory_def host_write_def mapped_memory_def sample_memory_def
        sample_capture_def exposed_def Let_def)
  obtain mc' where mc': "trace_pre_vkQueueSubmit plain_codec (sample_object 1) False [0] called_capture = Inr mc'"
    using submit_ok [OF capture_reachable_inv [OF called_reachable dev] dev edge] by blast
  define stream where "stream = fw_stream (\<lambda>x. x) (lw_stream (mc_writer mc'))"
  have "call_payloads (fw_stream (\<lambda>x. x) (lw_stream (mc_writer (projr (trace_pre_vkQueueSubmit plain_codec (sample_object 1) False [0] called_capture))))) =
      [to_le 2 (5 :: u16) @ to_le 4 (0 :: u32) @ []]" by code_simp
  then have payloads: "call_payloads stream = [to_le 2 (5 :: u16) @ to_le 4 (0 :: u32) @ []]" by (simp only: mc' sum.sel stream_def)
  have objs: "separate (mc_objects called_capture)" "identified (mc_objects called_capture)"
    by (auto simp: state separate_def identified_def backed_def)
  have reader: "before_packet stream (lava_file_reader_new 1 (whole_reader stream))"
      "stream_kept (lr_stream (lava_file_reader_new 1 (whole_reader stream)))"
    by (simp_all add: before_packet_def lava_file_reader_new_def whole_reader_def sample_reader_def checkpoint_ok_def stream_kept_def)
  have rw: "\<not> rw_write_output sample_rewriter" by (simp add: sample_rewriter_def)
  have touched: "touches called_capture 0 0 3" "to_backing (mc_objects called_capture 0) = Some 0"
      "unat (to_offset (mc_objects called_capture 0)) = 0" "dm_contents (mc_memories called_capture 0) ! 3 = 5"
    by (simp_all add: touches_def called_capture_def written_capture_def set_touched_def ranges_of_def touched_to_def exposed_def
        set_memory_def sample_capture_def sample_update_object_def host_write_def mapped_memory_def sample_memory_def)
  from replay_has_host_writes [OF called_reachable dev edge objs mc' stream_def reader replay_start_ready [folded state] rw
      sample_calls_replay [of _ _, folded payloads] TrueI]
  obtain rs' lr' where thread: "replay_thread plain_decoder 4096 (\<lambda>_. Inl End_of_data) sample_constants sample_rewriter sample_code replay_start
      (lava_file_reader_new 1 (whole_reader stream)) = Some (Inr (rs', lr'))"
    and bytes: "\<forall>c\<in>set [0]. \<forall>obj i m. touches called_capture c obj i \<and> to_backing (mc_objects called_capture obj) = Some m \<and>
        unat (to_offset (mc_objects called_capture obj)) + i \<in> ((\<lambda>_. {})(0 := {3})) m \<longrightarrow>
      (let x = dm_contents (mc_memories called_capture m) ! (unat (to_offset (mc_objects called_capture obj)) + i) in
       if has_update (sample_object 1) (mc_objects called_capture obj) stream
       then replayed_byte rs' (sample_object 1) (mc_objects called_capture obj) i x else x = 0)"
    by blast
  have "replayed_byte rs' (sample_object 1) (mc_objects called_capture 0) 3 5"
    using bytes [rule_format, of 0 0 3 0] touched by (simp add: Let_def split: if_splits)
  then show ?thesis using mc' thread state by (auto simp: stream_def)
qed

end
