(* ===== verification/PatchSpans.thy ===== *)
theory PatchSpans
  imports FileWriter RangeTracking
begin

text \<open>The spans in which two stretches of memory differ: \<open>collect_patch_spans\<close> of \<^verbatim>\<open>src/hardcode_write.cpp\<close>, which
  decides which marked offsets an explicit host update keeps.  It compares words as long as a word is left and bytes after
  that, so a span can hold unchanged bytes, but every changed byte is in a span.\<close>

text \<open>A loop \<open>while (pos + step <= size && test(pos)) pos += step\<close>.\<close>

function advance :: "(nat \<Rightarrow> bool) \<Rightarrow> nat \<Rightarrow> nat \<Rightarrow> nat \<Rightarrow> nat" where
  "advance test step sz pos = (if 0 < step \<and> pos + step \<le> sz \<and> test pos then advance test step sz (pos + step) else pos)"
  by pat_completeness auto
termination by (relation "measure (\<lambda>(_, _, sz, pos). sz - pos)") auto

declare advance.simps [simp del]

lemma advance_le: "pos \<le> advance test step sz pos"
proof (induction test step sz pos rule: advance.induct)
  case (1 test step sz pos)
  then show ?case by (cases "0 < step \<and> pos + step \<le> sz \<and> test pos") (auto simp: advance.simps [of test step sz pos])
qed

lemma advance_bound: "pos \<le> sz \<Longrightarrow> advance test step sz pos \<le> sz"
proof (induction test step sz pos rule: advance.induct)
  case (1 test step sz pos)
  then show ?case by (subst advance.simps) auto
qed

lemma advance_stops: "0 < step \<Longrightarrow> advance test step sz pos + step \<le> sz \<Longrightarrow> \<not> test (advance test step sz pos)"
proof (induction test step sz pos rule: advance.induct)
  case (1 test step sz pos)
  then show ?case by (cases "pos + step \<le> sz \<and> test pos") (simp_all add: advance.simps [of test step sz pos])
qed

lemma advance_moves: "0 < step \<Longrightarrow> pos + step \<le> sz \<Longrightarrow> test pos \<Longrightarrow> pos < advance test step sz pos"
  using advance_le [of "pos + step" test step sz] by (simp add: advance.simps [of test step sz pos])

text \<open>Skipping what is the same, in words and then in bytes.\<close>

definition skip_same :: "bytes \<Rightarrow> bytes \<Rightarrow> nat \<Rightarrow> nat \<Rightarrow> nat" where
  "skip_same orig chng sz pos =
    advance (\<lambda>p. same_at orig chng p 1) 1 sz (advance (\<lambda>p. same_at orig chng p 8) 8 sz pos)"

definition skip_changed :: "bytes \<Rightarrow> bytes \<Rightarrow> nat \<Rightarrow> nat \<Rightarrow> nat" where
  "skip_changed orig chng sz pos =
    advance (\<lambda>p. \<not> same_at orig chng p 1) 1 sz (advance (\<lambda>p. \<not> same_at orig chng p 8) 8 sz pos)"

lemma same_at_part: "same_at a b p n \<Longrightarrow> m \<le> n \<Longrightarrow> same_at a b p m"
  unfolding same_at_def by (metis min.absorb1 take_take)

lemma same_at_nth: "same_at a b p n \<Longrightarrow> i < n \<Longrightarrow> p + i < length a \<Longrightarrow> p + i < length b \<Longrightarrow> a ! (p + i) = b ! (p + i)"
proof -
  assume h: "same_at a b p n" "i < n" "p + i < length a" "p + i < length b"
  then have "take n (drop p a) ! i = take n (drop p b) ! i" by (simp add: same_at_def)
  then show ?thesis using h by simp
qed

lemma skip_same_stops: "skip_same orig chng sz pos < sz \<Longrightarrow> \<not> same_at orig chng (skip_same orig chng sz pos) 1"
  unfolding skip_same_def by (rule advance_stops [where test = "\<lambda>p. same_at orig chng p 1"]) simp_all

lemma skip_changed_stops: "skip_changed orig chng sz pos < sz \<Longrightarrow> same_at orig chng (skip_changed orig chng sz pos) 1"
  unfolding skip_changed_def
  using advance_stops [where test = "\<lambda>p. \<not> same_at orig chng p 1" and step = 1 and sz = sz] by (simp only: not_not)

lemma skip_changed_moves:
  assumes "p < sz" "\<not> same_at orig chng p 1"
  shows "p < skip_changed orig chng sz p"
proof (cases "p + 8 \<le> sz")
  case True
  have "\<not> same_at orig chng p 8" using assms(2) same_at_part [of orig chng p 8 1] by auto
  then have "p < advance (\<lambda>p. \<not> same_at orig chng p 8) 8 sz p" using advance_moves [of 8 p sz] True by simp
  then show ?thesis unfolding skip_changed_def using advance_le order_less_le_trans by blast
next
  case False
  then have "advance (\<lambda>p. \<not> same_at orig chng p 8) 8 sz p = p" by (subst advance.simps) simp
  then show ?thesis unfolding skip_changed_def using advance_moves [of 1 p sz] assms by simp
qed

text \<open>The outer loop; a span is its first position and the position behind it.\<close>

function patch_spans :: "bytes \<Rightarrow> bytes \<Rightarrow> nat \<Rightarrow> nat \<Rightarrow> (nat \<times> nat) list" where
  "patch_spans orig chng sz pos = (if pos < sz then
     let start = skip_same orig chng sz pos in
     if start \<ge> sz then [] else let stop = skip_changed orig chng sz start in (start, stop) # patch_spans orig chng sz stop
   else [])"
  by pat_completeness auto
termination
proof (relation "measure (\<lambda>(_, _, sz, pos). sz - pos)", goal_cases)
  case (2 orig chng sz pos start stop)
  have "pos \<le> start" unfolding 2(2) skip_same_def by (meson advance_le order_trans)
  moreover have "\<not> same_at orig chng start 1" using skip_same_stops 2(2,3) by simp
  then have "start < stop" using skip_changed_moves 2(3,4) by simp
  ultimately show ?case using 2(3) by simp
qed simp

declare patch_spans.simps [simp del]

lemma skip_same_le: "pos \<le> skip_same orig chng sz pos"
  unfolding skip_same_def by (meson advance_le order_trans)

lemma advance_passes: "pos \<le> p \<Longrightarrow> p < advance test step sz pos \<Longrightarrow> \<exists>q. q \<le> p \<and> p < q + step \<and> q + step \<le> sz \<and> test q"
proof (induction test step sz pos rule: advance.induct)
  case (1 test step sz pos)
  then show ?case
  proof (cases "0 < step \<and> pos + step \<le> sz \<and> test pos")
    case True
    then show ?thesis using 1 by (cases "p < pos + step") (auto simp: advance.simps [of test step sz pos] not_less)
  qed (simp add: advance.simps [of test step sz pos])
qed

lemma skip_same_skips:
  assumes "pos \<le> p" "p < skip_same orig chng sz pos" "sz \<le> length orig" "sz \<le> length chng"
  shows "orig ! p = chng ! p"
proof -
  let ?w = "advance (\<lambda>p. same_at orig chng p 8) 8 sz pos"
  have "\<exists>q n. q \<le> p \<and> p < q + n \<and> q + n \<le> sz \<and> same_at orig chng q n"
  proof (cases "p < ?w")
    case True
    then show ?thesis using advance_passes [OF assms(1)] by blast
  next
    case False
    then show ?thesis using advance_passes [of ?w p "\<lambda>p. same_at orig chng p 1" 1 sz] assms(2) unfolding skip_same_def by force
  qed
  then obtain q n where q: "q \<le> p" "p < q + n" "q + n \<le> sz" "same_at orig chng q n" by blast
  then show ?thesis using same_at_nth [OF q(4), of "p - q"] assms(3,4) by simp
qed

lemma skip_changed_bound: "pos \<le> sz \<Longrightarrow> skip_changed orig chng sz pos \<le> sz"
  by (simp add: skip_changed_def advance_bound)

lemma same_at_1: "p < length a \<Longrightarrow> p < length b \<Longrightarrow> same_at a b p (Suc 0) \<longleftrightarrow> a ! p = b ! p"
  by (simp add: same_at_def take_Suc_conv_app_nth hd_drop_conv_nth take_Suc)

text \<open>The spans are in order and apart, start with a changed byte and hold all of them.\<close>

definition spans_ok :: "bytes \<Rightarrow> bytes \<Rightarrow> nat \<Rightarrow> nat \<Rightarrow> (nat \<times> nat) list \<Rightarrow> bool" where
  "spans_ok orig chng sz pos spans \<longleftrightarrow> (\<forall>(a, b)\<in>set spans. pos \<le> a \<and> a < b \<and> b \<le> sz \<and> orig ! a \<noteq> chng ! a) \<and>
    (\<forall>i. pos \<le> i \<and> i < sz \<and> orig ! i \<noteq> chng ! i \<longrightarrow> (\<exists>(a, b)\<in>set spans. a \<le> i \<and> i < b)) \<and>
    sorted_wrt (\<lambda>(a, b) (c, d). b < c) spans"

lemma patch_spans_ok: "sz \<le> length orig \<Longrightarrow> sz \<le> length chng \<Longrightarrow> spans_ok orig chng sz pos (patch_spans orig chng sz pos)"
proof (induction orig chng sz pos rule: patch_spans.induct)
  case (1 orig chng sz pos)
  define start where "start = skip_same orig chng sz pos"
  define stop where "stop = skip_changed orig chng sz start"
  have pos: "pos \<le> start" by (simp add: start_def skip_same_le)
  have same: "orig ! i = chng ! i" if "pos \<le> i" "i < start" for i
    using skip_same_skips that 1(2,3) unfolding start_def by blast
  show ?case
  proof (cases "pos < sz \<and> start < sz")
    case False
    then have "patch_spans orig chng sz pos = []" by (auto simp: patch_spans.simps [of orig chng sz pos] start_def Let_def)
    moreover have "orig ! i = chng ! i" if "pos \<le> i" "i < sz" for i using same [OF that(1)] that False by linarith
    ultimately show ?thesis by (auto simp: spans_ok_def)
  next
    case True
    have unfold: "patch_spans orig chng sz pos = (start, stop) # patch_spans orig chng sz stop"
      using True by (simp add: patch_spans.simps [of orig chng sz pos] start_def stop_def Let_def)
    have differ: "\<not> same_at orig chng start 1" using True skip_same_stops unfolding start_def by blast
    then have changed: "orig ! start \<noteq> chng ! start" using True 1(2,3) by (simp add: same_at_1)
    have stop: "start < stop" "stop \<le> sz"
      using skip_changed_moves [OF _ differ] skip_changed_bound True by (simp_all add: stop_def)
    have rest: "spans_ok orig chng sz stop (patch_spans orig chng sz stop)"
      using 1(1) [OF _ start_def _ stop_def] True 1(2,3) by simp
    have gap: "stop < a" if ab: "(a, b) \<in> set (patch_spans orig chng sz stop)" for a b
    proof -
      have ab: "stop \<le> a" "a < sz" "orig ! a \<noteq> chng ! a" using rest ab by (auto simp: spans_ok_def)
      then have "same_at orig chng stop 1" using skip_changed_stops [of orig chng sz start] unfolding stop_def by simp
      then have "orig ! stop = chng ! stop" using ab 1(2,3) by (simp add: same_at_1)
      then show ?thesis using ab by (cases "a = stop") auto
    qed
    have "\<exists>(a, b)\<in>set ((start, stop) # patch_spans orig chng sz stop). a \<le> i \<and> i < b" if i: "pos \<le> i" "i < sz" "orig ! i \<noteq> chng ! i" for i
    proof (cases "i < stop")
      case True
      then show ?thesis using same i by (cases "i < start") auto
    next
      case False
      then show ?thesis using rest i by (auto simp: spans_ok_def)
    qed
    moreover have "pos \<le> a \<and> a < b \<and> b \<le> sz \<and> orig ! a \<noteq> chng ! a" if "(a, b) \<in> set ((start, stop) # patch_spans orig chng sz stop)" for a b
      using that rest pos stop changed by (auto simp: spans_ok_def)
    moreover have "sorted_wrt (\<lambda>(a, b) (c, d). b < c) ((start, stop) # patch_spans orig chng sz stop)"
      using rest gap by (auto simp: spans_ok_def)
    ultimately show ?thesis unfolding unfold spans_ok_def by blast
  qed
qed

definition collect_patch_spans :: "bytes \<Rightarrow> bytes \<Rightarrow> u64 \<Rightarrow> u64 \<Rightarrow> u64 \<times> range_t list" where
  "collect_patch_spans orig chng off sz =
    (let spans = patch_spans (drop (unat off) orig) (drop (unat off) chng) (unat sz) 0
     in (of_nat (sum_list (map (\<lambda>(a, b). b - a) spans)), map (\<lambda>(a, b). mk_range (off + of_nat a) (off + of_nat b - 1)) spans))"

text \<open>The same in addresses of the object.\<close>

definition span_range :: "u64 \<Rightarrow> nat \<times> nat \<Rightarrow> range_t" where
  "span_range off = (\<lambda>(a, b). mk_range (off + of_nat a) (off + of_nat b - 1))"

lemma span_range:
  assumes "a < b" "b \<le> n" "unat off + n < 2 ^ 64"
  shows "unat (rfirst (span_range off (a, b))) = unat off + a" "unat (rlast (span_range off (a, b))) = unat off + b - 1"
    "range_set (span_range off (a, b)) = {unat off + a..<unat off + b}"
proof -
  have "unat (of_nat a :: u64) = a" "unat (of_nat b :: u64) = b" using assms by simp_all
  then have ab: "unat (off + of_nat a) = unat off + a" "unat (off + of_nat b) = unat off + b"
    using assms by (simp_all add: unat_add_small)
  have "1 \<le> off + of_nat b" using ab(2) assms(1) by (simp add: word_le_nat_alt)
  then have "unat (off + of_nat b - 1) = unat off + b - 1" unfolding unat_sub [OF \<open>1 \<le> off + of_nat b\<close>] ab(2) by simp
  then show "unat (rfirst (span_range off (a, b))) = unat off + a" "unat (rlast (span_range off (a, b))) = unat off + b - 1"
    "range_set (span_range off (a, b)) = {unat off + a..<unat off + b}" using ab(1) assms(1) by (auto simp: span_range_def range_set_def)
qed

lemma spans_sum:
  fixes spans :: "(nat \<times> nat) list"
  assumes "\<forall>(a, b)\<in>set spans. pos \<le> a \<and> a < b \<and> b \<le> sz" "sorted_wrt (\<lambda>(a, b) (c, d). b < c) spans" "pos \<le> sz"
  shows "sum_list (map (\<lambda>(a, b). b - a) spans) \<le> sz - pos"
  using assms
proof (induction spans arbitrary: pos)
  case (Cons s spans)
  obtain a b where s: "s = (a, b)" by fastforce
  have ab: "pos \<le> a" "a < b" "b \<le> sz" using Cons.prems(1) by (simp_all add: s)
  have "\<forall>x\<in>set spans. b < fst x" "\<forall>x\<in>set spans. fst x < snd x \<and> snd x \<le> sz"
    using Cons.prems(1,2) by (simp_all add: s split_beta)
  then have "\<forall>(c, d)\<in>set spans. b \<le> c \<and> c < d \<and> d \<le> sz" unfolding split_beta by (meson less_imp_le)
  from Cons.IH [OF this _ ab(3)] show ?case using ab Cons.prems(2) by (simp add: s)
qed simp

text \<open>Where nothing differs, \<open>find_patch_start\<close> goes through to the end.\<close>

lemma find_patch_start_same:
  assumes "take sz (drop off orig) = take sz (drop off chng)"
  shows "find_patch_start orig chng off sz = sz"
proof -
  define p where "p = find_patch_start orig chng off sz"
  note start = find_patch_start_props [OF p_def]
  have "same_at (drop off orig) (drop off chng) p (min 8 (sz - p))"
  proof -
    have "take (sz - p) (drop p (drop off orig)) = take (sz - p) (drop p (drop off chng))"
      using arg_cong [OF assms, of "drop p"] by (simp add: drop_take)
    then show ?thesis unfolding same_at_def by (metis min.commute take_take)
  qed
  then show ?thesis using start(1,3) unfolding p_def by fastforce
qed

lemma collect_patch_spans_spec:
  assumes "unat off + unat sz \<le> length orig" "unat off + unat sz \<le> length chng" "unat off + unat sz < 2 ^ 64"
    and "collect_patch_spans orig chng off sz = (changed, spans)"
  shows "(\<forall>i. unat off \<le> i \<and> i < unat off + unat sz \<and> orig ! i \<noteq> chng ! i \<longrightarrow> (\<exists>r\<in>set spans. i \<in> range_set r)) \<and>
    (\<forall>r\<in>set spans. range_set r \<subseteq> {unat off..<unat off + unat sz} \<and> unat (rfirst r) \<in> range_set r \<and>
      orig ! unat (rfirst r) \<noteq> chng ! unat (rfirst r)) \<and>
    sorted_wrt (\<lambda>r s. unat (rlast r) + 1 < unat (rfirst s)) spans \<and> unat changed = sum_list (map (card \<circ> range_set) spans) \<and>
    (changed = 0 \<longleftrightarrow> take (unat sz) (drop (unat off) orig) = take (unat sz) (drop (unat off) chng))"
proof -
  define P where "P = patch_spans (drop (unat off) orig) (drop (unat off) chng) (unat sz) 0"
  have ok: "spans_ok (drop (unat off) orig) (drop (unat off) chng) (unat sz) 0 P"
    unfolding P_def by (rule patch_spans_ok) (use assms(1,2) in simp_all)
  have eq: "changed = of_nat (sum_list (map (\<lambda>(a, b). b - a) P))" "spans = map (span_range off) P"
    using assms(4) by (simp_all add: collect_patch_spans_def P_def [symmetric] span_range_def Let_def)
  have P: "a < b" "b \<le> unat sz" "orig ! (unat off + a) \<noteq> chng ! (unat off + a)" if "(a, b) \<in> set P" for a b
    using ok that assms(1,2) by (auto simp: spans_ok_def)
  note range = span_range [OF P(1,2) assms(3)]
  have "\<exists>r\<in>set spans. i \<in> range_set r" if i: "unat off \<le> i" "i < unat off + unat sz" "orig ! i \<noteq> chng ! i" for i
  proof -
    have "i - unat off < unat sz" "drop (unat off) orig ! (i - unat off) \<noteq> drop (unat off) chng ! (i - unat off)" using i assms(1,2) by simp_all
    then obtain a b where ab: "(a, b) \<in> set P" "a \<le> i - unat off" "i - unat off < b" using ok unfolding spans_ok_def by blast
    then show ?thesis unfolding eq(2) using i(1) range(3) [OF ab(1) ab(1)] by (intro bexI [of _ "span_range off (a, b)"]) auto
  qed
  moreover have "range_set r \<subseteq> {unat off..<unat off + unat sz} \<and> unat (rfirst r) \<in> range_set r \<and> orig ! unat (rfirst r) \<noteq> chng ! unat (rfirst r)"
    if "r \<in> set spans" for r
  proof -
    obtain a b where ab: "(a, b) \<in> set P" "r = span_range off (a, b)" using \<open>r \<in> set spans\<close> unfolding eq(2) by auto
    then show ?thesis using range(1,3) [OF ab(1) ab(1)] P [OF ab(1)] by auto
  qed
  moreover have "sorted_wrt (\<lambda>r s. unat (rlast r) + 1 < unat (rfirst s)) spans"
    unfolding eq(2) sorted_wrt_map
  proof (rule sorted_wrt_mono_rel [where P = "\<lambda>(a, b) (c, d). b < c"])
    fix x y assume xy: "x \<in> set P" "y \<in> set P" "(\<lambda>(a, b) (c, d). b < c) x y"
    obtain a b c d where "x = (a, b)" "y = (c, d)" by fastforce
    then have abcd: "x = (a, b)" "y = (c, d)" "(a, b) \<in> set P" "(c, d) \<in> set P" "b < c" using xy by simp_all
    show "unat (rlast (span_range off x)) + 1 < unat (rfirst (span_range off y))"
      using range(2) [OF abcd(3) abcd(3)] range(1) [OF abcd(4) abcd(4)] P(1) [OF abcd(3)] abcd(1,2,5) by simp
  qed (use ok in \<open>simp add: spans_ok_def\<close>)
  moreover have "sum_list (map (card \<circ> range_set) spans) = sum_list (map (\<lambda>(a, b). b - a) P)"
    unfolding eq(2) map_map by (rule arg_cong [where f = sum_list], rule map_cong) (auto simp: range(3))
  moreover have count: "unat changed = sum_list (map (\<lambda>(a, b). b - a) P)"
  proof -
    have "sum_list (map (\<lambda>(a, b). b - a) P) \<le> unat sz" using spans_sum [of P 0 "unat sz"] ok by (simp add: spans_ok_def split_beta)
    then show ?thesis unfolding eq(1) using assms(3) by simp
  qed
  moreover have "changed = 0 \<longleftrightarrow> take (unat sz) (drop (unat off) orig) = take (unat sz) (drop (unat off) chng)"
  proof -
    have "changed = 0 \<longleftrightarrow> P = []" using count P(1) by (cases P) (auto simp: unat_eq_0 [symmetric])
    also have "\<dots> \<longleftrightarrow> (\<forall>i<unat sz. drop (unat off) orig ! i = drop (unat off) chng ! i)"
    proof
      show "P = [] \<Longrightarrow> \<forall>i<unat sz. drop (unat off) orig ! i = drop (unat off) chng ! i" using ok unfolding spans_ok_def by auto
      show "\<forall>i<unat sz. drop (unat off) orig ! i = drop (unat off) chng ! i \<Longrightarrow> P = []" using ok unfolding spans_ok_def by (cases P) auto
    qed
    also have "\<dots> \<longleftrightarrow> take (unat sz) (drop (unat off) orig) = take (unat sz) (drop (unat off) chng)"
      using assms(1,2) by (auto simp: list_eq_iff_nth_eq)
    finally show ?thesis .
  qed
  ultimately show ?thesis by simp
qed

text \<open>C23: the spans of an explicit host update.  They lie in the compared stretch, one behind the other with a gap between them,
  they hold every byte that differs, each of them starts with one, and the number that is returned counts their bytes, so that it
  is zero only when nothing changed.\<close>

theorem collect_patch_spans_exact:
  assumes "unat off + unat sz \<le> length orig" "unat off + unat sz \<le> length chng" "unat off + unat sz < 2 ^ 64"
    and "collect_patch_spans orig chng off sz = (changed, spans)"
  shows "(\<forall>i. unat off \<le> i \<and> i < unat off + unat sz \<and> orig ! i \<noteq> chng ! i \<longrightarrow> (\<exists>r\<in>set spans. i \<in> range_set r)) \<and>
    (\<forall>r\<in>set spans. range_set r \<subseteq> {unat off..<unat off + unat sz} \<and> unat (rfirst r) \<in> range_set r \<and>
      orig ! unat (rfirst r) \<noteq> chng ! unat (rfirst r)) \<and>
    sorted_wrt (\<lambda>r s. unat (rlast r) + 1 < unat (rfirst s)) spans \<and> unat changed = sum_list (map (card \<circ> range_set) spans) \<and>
    (changed = 0 \<longleftrightarrow> take (unat sz) (drop (unat off) orig) = take (unat sz) (drop (unat off) chng))"
  by (rule collect_patch_spans_spec [OF assms])

theorem collect_patch_spans_exact_witness:
  "\<exists>changed spans. collect_patch_spans (replicate 16 0) ((replicate 16 0)[3 := 5]) 0 16 = (changed, spans) \<and> changed \<noteq> 0 \<and>
    (\<exists>r\<in>set spans. 3 \<in> range_set r)"
proof -
  obtain changed spans where col: "collect_patch_spans (replicate 16 0) ((replicate 16 0)[3 := 5]) 0 16 = (changed, spans)" by fastforce
  have "unat (0 :: u64) + unat (16 :: u64) \<le> length (replicate 16 (0 :: u8))"
      "unat (0 :: u64) + unat (16 :: u64) \<le> length ((replicate 16 (0 :: u8))[3 := 5])" "unat (0 :: u64) + unat (16 :: u64) < 2 ^ 64" by simp_all
  note exact = collect_patch_spans_exact [OF this col]
  have "replicate 16 (0 :: u8) ! 3 \<noteq> (replicate 16 0)[3 := 5] ! 3" by simp
  moreover from this have "take 16 (replicate 16 (0 :: u8)) \<noteq> take 16 ((replicate 16 0)[3 := 5])" by (metis length_list_update length_replicate order_refl take_all)
  ultimately show ?thesis using col exact by auto
qed

end
