(* ===== verification/ExplicitUpdates.thy ===== *)
theory ExplicitUpdates
  imports MemoryReplay PatchSpans
begin

text \<open>Devices whose application announces its writes: with explicit host updates (or marked offsets) the handler of
  \<open>vkFlushMappedMemoryRanges\<close> in \<^verbatim>\<open>src/hardcode_write.cpp\<close> compares the flushed ranges at once and writes the
  update packets, with the marked offsets that lie in what changed, and submits compare nothing.\<close>

section \<open>Flushing with explicit host updates\<close>

record mapped_memory_range =
  mr_memory :: nat
  mr_offset :: u64
  mr_size :: u64
  mr_marks :: "marked_offsets option"

definition range_overlaps_any :: "u64 \<Rightarrow> u64 \<Rightarrow> range_t list \<Rightarrow> bool" where
  "range_overlaps_any x y spans \<longleftrightarrow> list_ex (\<lambda>span. x \<le> rlast span \<and> rfirst span \<le> y) spans"

definition marked_entry_size :: "rewrite_constants \<Rightarrow> u32 \<Rightarrow> u64" where
  "marked_entry_size k type = (if type = rk_device_address k then 8 else if type = rk_shader_group_handle k then 32 else 1)"

text \<open>Which of the marked offsets of a flushed range go into the packet of an object: those in the object and in the range that
  are descriptors or overlap what changed.  The offsets are made relative to the object.  The second result says whether
  there is a descriptor among them.\<close>

definition mark_inside :: "u64 \<times> u64 \<Rightarrow> tracked_object \<Rightarrow> u64 \<Rightarrow> bool" where
  "mark_inside b od mark_abs \<longleftrightarrow> \<not> (mark_abs < fst b \<or> mark_abs \<ge> snd b) \<and>
    \<not> (mark_abs < to_offset od \<or> mark_abs \<ge> to_offset od + to_size od)"

definition mark_kept :: "rewrite_constants \<Rightarrow> u64 \<times> u64 \<Rightarrow> tracked_object \<Rightarrow> range_t list \<Rightarrow> u64 \<Rightarrow> u32 \<Rightarrow> bool" where
  "mark_kept k b od spans mark_abs type \<longleftrightarrow> mark_inside b od mark_abs \<and> (type = rk_descriptor k \<or>
    (let object_mark_offset = mark_abs - to_offset od
     in range_overlaps_any object_mark_offset (object_mark_offset + marked_entry_size k type - 1) spans))"

definition adjust_marks :: "rewrite_constants \<Rightarrow> mapped_memory_range \<Rightarrow> u64 \<times> u64 \<Rightarrow> tracked_object \<Rightarrow> range_t list \<Rightarrow>
    (marked_offsets option \<times> bool) result" where
  "adjust_marks k r b od spans = (case mr_marks r of
     None \<Rightarrow> Inr (None, False)
   | Some m \<Rightarrow> case (mo_offsets m, mo_types m) of
       (Some os, Some ts) \<Rightarrow>
         if mo_count m = 0 then Inr (None, False)
         else if length os < mo_count m \<or> length ts < mo_count m \<or> (\<exists>ss\<in>set_option (mo_subs m). length ss < mo_count m) then Inl Out_of_range
         else let mark_abs = (\<lambda>i. mr_offset r + os ! i);
                  idx = filter (\<lambda>i. mark_kept k b od spans (mark_abs i) (ts ! i)) [0..<mo_count m]
              in Inr (if idx = [] then None
                else Some (m\<lparr>mo_count := length idx, mo_offsets := Some (map (\<lambda>i. mark_abs i - to_offset od) idx),
                  mo_types := Some (map ((!) ts) idx), mo_subs := map_option (\<lambda>ss. map ((!) ss) idx) (mo_subs m)\<rparr>),
                list_ex (\<lambda>i. ts ! i = rk_descriptor k) idx)
     | _ \<Rightarrow> Inr (None, False))"

text \<open>One entry of the usage of a memory object, which lists the objects bound to it by their offset.  \<open>wext\<close> writes marked
  offsets, which is generated code.\<close>

type_synonym mark_writer = "marked_offsets \<Rightarrow> file_writer \<Rightarrow> file_writer result"

definition flush_object :: "codec \<Rightarrow> trackable \<Rightarrow> rewrite_constants \<Rightarrow> mark_writer \<Rightarrow> mapped_memory_range \<Rightarrow> u64 \<times> u64 \<Rightarrow>
    u64 \<times> nat \<Rightarrow> memory_capture \<Rightarrow> memory_capture result" where
  "flush_object cx dev k wext r b used mc =
    (let (key, obj) = used; od = mc_objects mc obj; mem = mc_memories mc (mr_memory r) in
     if key > snd b then Inr mc
     else assert_that (key = to_offset od)
     (if key + to_size od \<le> fst b then Inr mc
      else case dm_clone mem of
        None \<Rightarrow> Inl Out_of_range
      | Some clone \<Rightarrow>
          let p = unat (to_offset od);
              start = max (to_offset od) (fst b) - to_offset od;
              stop = min (to_offset od + to_size od) (snd b) - to_offset od;
              (changed, spans) = collect_patch_spans (drop p clone) (drop p (dm_contents mem)) start (stop - start)
          in result_bind (adjust_marks k r b od spans) (\<lambda>(ar_use, has_descriptor_markings).
             if changed = 0 \<and> \<not> has_descriptor_markings then Inr mc
             else result_bind (write_out_object cx dev od (drop p clone) (drop p (dm_contents mem)) start (stop - start)
                 (map_option wext ar_use) (mc_writer mc)) (\<lambda>(_, updated, od, lw).
               Inr (mc\<lparr>mc_writer := lw, mc_objects := (mc_objects mc)(obj := od),
                 mc_memories := (mc_memories mc)(mr_memory r := mem\<lparr>dm_clone := Some (take p clone @ updated)\<rparr>)\<rparr>)))))"

fun flush_objects :: "codec \<Rightarrow> trackable \<Rightarrow> rewrite_constants \<Rightarrow> mark_writer \<Rightarrow> mapped_memory_range \<Rightarrow> u64 \<times> u64 \<Rightarrow>
    (u64 \<times> nat) list \<Rightarrow> memory_capture \<Rightarrow> memory_capture result" where
  "flush_objects cx dev k wext r b [] mc = Inr mc"
| "flush_objects cx dev k wext r b (used # rest) mc =
    result_bind (flush_object cx dev k wext r b used mc) (flush_objects cx dev k wext r b rest)"

definition flush_mapped_range :: "codec \<Rightarrow> trackable \<Rightarrow> bool \<Rightarrow> rewrite_constants \<Rightarrow> mark_writer \<Rightarrow> (nat \<Rightarrow> (u64 \<times> nat) list) \<Rightarrow>
    mapped_memory_range \<Rightarrow> memory_capture \<Rightarrow> memory_capture result" where
  "flush_mapped_range cx dev explicit_host_updates k wext usage r mc =
    (let m = mr_memory r; mem = mc_memories mc m in
     case capture_clamp_mapped_flush_range (mr_offset r) (mr_size r) mem of
       None \<Rightarrow> Inr mc
     | Some (mapped_start, mapped_end) \<Rightarrow>
         result_bind (exposure_add_os mapped_start (mapped_end - mapped_start) (dm_exposed mem)) (\<lambda>e.
           let mc = mc\<lparr>mc_memories := (mc_memories mc)(m := mem\<lparr>dm_exposed := e\<rparr>)\<rparr> in
           if explicit_host_updates \<or> mr_marks r \<noteq> None then flush_objects cx dev k wext r (mapped_start, mapped_end) (usage m) mc
           else Inr mc))"

fun flush_mapped_ranges :: "codec \<Rightarrow> trackable \<Rightarrow> bool \<Rightarrow> rewrite_constants \<Rightarrow> mark_writer \<Rightarrow> (nat \<Rightarrow> (u64 \<times> nat) list) \<Rightarrow>
    mapped_memory_range list \<Rightarrow> memory_capture \<Rightarrow> memory_capture result" where
  "flush_mapped_ranges cx dev x k wext usage [] mc = Inr mc"
| "flush_mapped_ranges cx dev x k wext usage (r # rs) mc =
    result_bind (flush_mapped_range cx dev x k wext usage r mc) (flush_mapped_ranges cx dev x k wext usage rs)"

definition trace_post_vkFlushMappedMemoryRanges :: "codec \<Rightarrow> trackable \<Rightarrow> bool \<Rightarrow> rewrite_constants \<Rightarrow> mark_writer \<Rightarrow>
    (nat \<Rightarrow> (u64 \<times> nat) list) \<Rightarrow> bool \<Rightarrow> mapped_memory_range list \<Rightarrow> memory_capture \<Rightarrow> memory_capture result" where
  "trace_post_vkFlushMappedMemoryRanges cx dev x k wext usage success rs mc =
    (if \<not> success then Inr mc else flush_mapped_ranges cx dev x k wext usage rs mc)"

text \<open>Without explicit host updates and marks it is the handler of theory \<open>MemoryCapture\<close>.\<close>

lemma flush_mapped_range_plain:
  assumes "mr_marks r = None"
  shows "flush_mapped_range cx dev False k wext usage r mc =
    result_bind (flush_range (mr_offset r) (mr_size r) (mc_memories mc (mr_memory r))) (\<lambda>mem. Inr (set_memory (mr_memory r) mem mc))"
proof (cases "capture_clamp_mapped_flush_range (mr_offset r) (mr_size r) (mc_memories mc (mr_memory r))")
  case None
  have "set_memory (mr_memory r) (mc_memories mc (mr_memory r)) mc = mc" by (simp add: set_memory_def)
  then show ?thesis using None by (simp add: flush_mapped_range_def flush_range_def)
next
  case (Some ab)
  then show ?thesis using assms
    by (cases "exposure_add_os (fst ab) (snd ab - fst ab) (dm_exposed (mc_memories mc (mr_memory r)))")
      (auto simp: flush_mapped_range_def flush_range_def set_memory_def Let_def split: prod.splits)
qed

lemma flush_mapped_range_explicit:
  assumes "mr_marks r = None" "m = mr_memory r"
  shows "flush_mapped_range cx dev True k wext usage r mc =
    result_bind (flush_range (mr_offset r) (mr_size r) (mc_memories mc m)) (\<lambda>mem.
      case capture_clamp_mapped_flush_range (mr_offset r) (mr_size r) (mc_memories mc m) of
        None \<Rightarrow> Inr mc | Some b \<Rightarrow> flush_objects cx dev k wext r b (usage m) (set_memory m mem mc))"
proof (cases "capture_clamp_mapped_flush_range (mr_offset r) (mr_size r) (mc_memories mc (mr_memory r))")
  case None
  then show ?thesis using assms(2) by (simp add: flush_mapped_range_def flush_range_def)
next
  case (Some ab)
  then show ?thesis using assms
    by (cases "exposure_add_os (fst ab) (snd ab - fst ab) (dm_exposed (mc_memories mc (mr_memory r)))")
      (auto simp: flush_mapped_range_def flush_range_def set_memory_def Let_def split: prod.splits)
qed

section \<open>What a flush records\<close>

text \<open>The usage of a memory object holds the accessible objects bound to it.\<close>

definition usage_ok :: "(nat \<Rightarrow> (u64 \<times> nat) list) \<Rightarrow> (nat \<Rightarrow> tracked_object) \<Rightarrow> bool" where
  "usage_ok usage objs \<longleftrightarrow> (\<forall>m. \<forall>(key, obj)\<in>set (usage m). key = to_offset (objs obj) \<and> to_backing (objs obj) = Some m \<and> to_accessible (objs obj))"

definition object_span :: "tracked_object \<Rightarrow> nat set" where
  "object_span od = {unat (to_offset od)..<unat (to_offset od) + unat (to_size od)}"

text \<open>The part of an object in the flushed range, in its own addresses.\<close>

lemma flushed_part:
  fixes od :: tracked_object and a b :: u64
  defines "p \<equiv> unat (to_offset od)" and "start \<equiv> max (to_offset od) a - to_offset od"
    and "stop \<equiv> min (to_offset od + to_size od) b - to_offset od"
  assumes "p + unat (to_size od) < 2 ^ 64" "a < b" "\<not> (to_offset od > b \<or> to_offset od + to_size od \<le> a)"
  shows "unat start + unat (stop - start) \<le> unat (to_size od)"
    "object_span od \<inter> {unat a..<unat b} = {p + unat start..<p + unat start + unat (stop - start)}"
proof -
  have ostop: "unat (to_offset od + to_size od) = p + unat (to_size od)"
    unfolding p_def by (rule unat_add_small) (use assms(4) in \<open>simp add: p_def\<close>)
  have f: "p \<le> unat b" "unat a < p + unat (to_size od)" "unat a < unat b"
    using assms(5,6) ostop by (simp_all add: p_def word_less_nat_alt word_le_nat_alt not_less not_le)
  have u1: "unat start = max p (unat a) - p" unfolding start_def by (subst unat_sub) (simp_all add: p_def)
  have u2: "unat stop = min (p + unat (to_size od)) (unat b) - p"
    unfolding stop_def using f(1) ostop by (subst unat_sub) (simp_all add: p_def word_le_nat_alt)
  have "start \<le> stop" unfolding word_le_nat_alt u1 u2 using f by (simp add: min_def max_def, linarith)
  then have u3: "unat (stop - start) = min (p + unat (to_size od)) (unat b) - max p (unat a)"
    using unat_sub [of start stop] f unfolding u1 u2 by simp
  have at: "p + unat start = max p (unat a)" using u1 by simp
  have "p + unat start + unat (stop - start) \<le> p + unat (to_size od)" unfolding at u3 using f by (simp add: min_def max_def)
  then show "unat start + unat (stop - start) \<le> unat (to_size od)" by simp
  show "object_span od \<inter> {unat a..<unat b} = {p + unat start..<p + unat start + unat (stop - start)}"
    unfolding at u3 using f by (auto simp: object_span_def p_def)
qed

lemma flush_object_ok:
  fixes mc :: memory_capture and obj m :: nat and a b :: u64
  assumes inv: "capture_inv V mc" and dev: "tr_created dev" and r: "mr_marks r = None" "mr_memory r = m"
    and obj: "key = to_offset (mc_objects mc obj)" "to_backing (mc_objects mc obj) = Some m" "to_accessible (mc_objects mc obj)"
    and b: "a < b" "unat b \<le> allocated (mc_memories mc m)" "dm_mapped (mc_memories mc m)"
  shows "\<exists>mc'. flush_object cx dev k wext r (a, b) (key, obj) mc = Inr mc' \<and> capture_inv V mc' \<and> advances dev mc mc' \<and>
    (\<forall>i\<in>object_span (mc_objects mc obj) \<inter> {unat a..<unat b}. clean (mc_memories mc' m) i)"
proof -
  define od mem where "od = mc_objects mc obj" and "mem = mc_memories mc m"
  define p where "p = unat (to_offset od)"
  have okm: "mem_ok mem" "synced (V m) mem" using inv by (simp_all add: capture_inv_def mem_def)
  have od: "0 < unat (to_size od)" "p + unat (to_size od) \<le> allocated mem"
    using inv obj by (auto simp: capture_inv_def object_ok_def od_def mem_def p_def)
  have big: "allocated mem < 2 ^ 64" by (rule allocated_bound)
  have ostop: "unat (to_offset od + to_size od) = p + unat (to_size od)"
    unfolding p_def by (rule unat_add_small) (use od big in \<open>simp add: p_def\<close>)
  obtain c where c: "dm_clone mem = Some c" "length c = allocated mem" "length (dm_contents mem) = allocated mem"
    using okm(1) b(3) by (cases "dm_clone mem") (auto simp: mem_ok_def mem_def)
  have outside: ?thesis if "flush_object cx dev k wext r (a, b) (key, obj) mc = Inr mc"
    "\<forall>i\<in>object_span od \<inter> {unat a..<unat b}. clean mem i"
    using that inv advances_refl unfolding od_def mem_def by blast
  show ?thesis
  proof (cases "key > b \<or> key + to_size od \<le> a")
    case True
    then have "object_span od \<inter> {unat a..<unat b} = {}"
      using ostop unfolding obj(1) od_def [symmetric] by (auto simp: object_span_def p_def word_less_nat_alt word_le_nat_alt)
    moreover have "flush_object cx dev k wext r (a, b) (key, obj) mc = Inr mc"
      using True unfolding flush_object_def obj(1) by (auto simp: od_def Let_def)
    ultimately show ?thesis using outside by blast
  next
    case False
    define start stop where "start = max (to_offset od) a - to_offset od" and "stop = min (to_offset od + to_size od) b - to_offset od"
    have bound: "unat (to_offset od) + unat (to_size od) < 2 ^ 64" using od(2) big by (simp add: p_def)
    have part: "\<not> (to_offset od > b \<or> to_offset od + to_size od \<le> a)" using False unfolding obj(1) od_def [symmetric] by simp
    note part = flushed_part [OF bound b(1) part, folded p_def start_def stop_def]
    have room: "p + unat start + unat (stop - start) \<le> p + unat (to_size od)" using part(1) by simp
    note span = part(2)
    obtain changed spans where col: "collect_patch_spans (drop p c) (drop p (dm_contents mem)) start (stop - start) = (changed, spans)" by fastforce
    have lens: "unat start + unat (stop - start) \<le> length (drop p c)" "unat start + unat (stop - start) \<le> length (drop p (dm_contents mem))"
        "unat start + unat (stop - start) < 2 ^ 64"
      using room od(2) c(2,3) big by simp_all
    show ?thesis
    proof (cases "changed = 0")
      case True
      have "flush_object cx dev k wext r (a, b) (key, obj) mc = Inr mc"
        using False True col c(1) unfolding obj(1) flush_object_def by (auto simp: od_def mem_def p_def start_def stop_def r adjust_marks_def Let_def)
      moreover have "clean mem i" if i: "i \<in> object_span od \<inter> {unat a..<unat b}" for i
      proof -
        have "take (unat (stop - start)) (drop (unat start) (drop p c)) ! (i - (p + unat start)) =
            take (unat (stop - start)) (drop (unat start) (drop p (dm_contents mem))) ! (i - (p + unat start))"
          using collect_patch_spans_spec [OF lens col] True by simp
        moreover have "p + unat start \<le> i" "i - (p + unat start) < unat (stop - start)" "i < length c" "p + unat start \<le> length c"
            "p + unat start \<le> length (dm_contents mem)"
          using i room od(2) c(2,3) unfolding span by auto
        ultimately show ?thesis using c(1) by (simp add: clean_def add.commute)
      qed
      ultimately show ?thesis using outside by blast
    next
      case changed: False
      obtain n upd u w lw s es where out: "write_out_object cx dev od (drop p c) (drop p (dm_contents mem)) start (stop - start) None (mc_writer mc) =
            Inr (n, upd, od\<lparr>to_updates := u, to_written := w\<rparr>, lw)"
          "take p c @ upd = overwrite c (p + unat start) (take (unat (stop - start)) (drop (p + unat start) (dm_contents mem)))" "closed_ok (\<lambda>x. x) s lw"
          "\<And>mem1. dm_clone mem1 = Some (take p c @ upd) \<Longrightarrow> logs dev mc (mc\<lparr>mc_writer := lw,
            mc_objects := (mc_objects mc)(obj := od\<lparr>to_updates := u, to_written := w\<rparr>), mc_memories := (mc_memories mc)(m := mem1)\<rparr>) es"
        using write_out_captured [OF inv dev obj(3,2) c(1) [unfolded mem_def], folded od_def mem_def, folded p_def, OF room, of cx] by blast
      define c' where "c' = take p c @ upd"
      have inside: "p + unat start + unat (stop - start) \<le> allocated mem" using room od(2) by simp
      have c': "length c' = length c" "\<And>i. i < length c \<Longrightarrow> c' ! i = (if p + unat start \<le> i \<and> i < p + unat start + unat (stop - start)
          then dm_contents mem ! i else c ! i)"
        unfolding c'_def out(2) using inside c by (auto simp: overwrite_nth)
      define mem1 where "mem1 = mem\<lparr>dm_exposed := dm_exposed mem, dm_clone := Some c'\<rparr>"
      have m1: "mem_ok mem1" "synced (V m) mem1" "mem_advances mem mem1"
        unfolding mem1_def by (rule mem_compare [OF okm, of _ 1 0]; use okm(1) b(3) c c' in \<open>auto simp: mem_ok_def mem_def\<close>)+
      have "clean mem1 i" if i: "i \<in> object_span od \<inter> {unat a..<unat b}" for i
        using i c' inside c unfolding span by (simp add: clean_def mem1_def)
      moreover define mc1 where "mc1 = mc\<lparr>mc_writer := lw, mc_objects := (mc_objects mc)(obj := od\<lparr>to_updates := u, to_written := w\<rparr>),
        mc_memories := (mc_memories mc)(m := mem1)\<rparr>"
      have "flush_object cx dev k wext r (a, b) (key, obj) mc = Inr mc1"
        using False changed col c(1) out(1) unfolding obj(1) flush_object_def
        by (simp add: od_def [symmetric] mem_def [symmetric] p_def [symmetric] start_def [symmetric] stop_def [symmetric] r adjust_marks_def Let_def mc1_def mem1_def c'_def)
      moreover have "logs dev mc mc1 es" unfolding mc1_def by (rule out(4)) (simp add: mem1_def c'_def)
      then have "capture_inv V mc1" "advances dev mc mc1"
        using capture_inv_compared [OF inv out(3) m1(1,2) m1(3) [unfolded mem_def]] unfolding mc1_def od_def by blast+
      moreover have "mc_memories mc1 m = mem1" by (simp add: mc1_def)
      ultimately show ?thesis unfolding od_def by metis
    qed
  qed
qed

lemma usage_identity: "same_identity objs objs' \<Longrightarrow> usage_ok usage objs' = usage_ok usage objs"
  by (simp add: usage_ok_def same_identity_fields)

lemma object_span_identity: "same_identity objs objs' \<Longrightarrow> object_span (objs' obj) = object_span (objs obj)"
  by (simp add: object_span_def same_identity_fields)

lemma flush_objects_ok:
  fixes a b :: u64
  assumes "capture_inv V mc" "tr_created dev" "mr_marks r = None" "mr_memory r = m"
    and "\<forall>(key, obj)\<in>set es. key = to_offset (mc_objects mc obj) \<and> to_backing (mc_objects mc obj) = Some m \<and> to_accessible (mc_objects mc obj)"
    and "a < b" "unat b \<le> allocated (mc_memories mc m)" "dm_mapped (mc_memories mc m)"
  shows "\<exists>mc'. flush_objects cx dev k wext r (a, b) es mc = Inr mc' \<and> capture_inv V mc' \<and> advances dev mc mc' \<and>
    (\<forall>(key, obj)\<in>set es. \<forall>i\<in>object_span (mc_objects mc obj) \<inter> {unat a..<unat b}. clean (mc_memories mc' m) i)"
  using assms
proof (induction es arbitrary: mc)
  case Nil
  then show ?case using advances_refl by simp
next
  case (Cons entry es)
  obtain key obj where entry: "entry = (key, obj)" by fastforce
  have e: "key = to_offset (mc_objects mc obj)" "to_backing (mc_objects mc obj) = Some m" "to_accessible (mc_objects mc obj)"
    using Cons.prems(5) by (auto simp: entry)
  obtain mc1 where mc1: "flush_object cx dev k wext r (a, b) (key, obj) mc = Inr mc1" "capture_inv V mc1" "advances dev mc mc1"
      "\<forall>i\<in>object_span (mc_objects mc obj) \<inter> {unat a..<unat b}. clean (mc_memories mc1 m) i"
    using flush_object_ok [OF Cons.prems(1-4) e Cons.prems(6-8)] by blast
  have same: "same_identity (mc_objects mc) (mc_objects mc1)" using mc1(3) by (simp add: advances_def)
  note f = mem_advances_fields [OF advances_mem [OF mc1(3), of m]]
  have "\<forall>(key, obj)\<in>set es. key = to_offset (mc_objects mc1 obj) \<and> to_backing (mc_objects mc1 obj) = Some m \<and> to_accessible (mc_objects mc1 obj)"
    using Cons.prems(5) by (simp add: same_identity_fields [OF same])
  from Cons.IH [OF mc1(2) Cons.prems(2-4) this Cons.prems(6)] obtain mc2 where mc2: "flush_objects cx dev k wext r (a, b) es mc1 = Inr mc2"
      "capture_inv V mc2" "advances dev mc1 mc2"
      "\<forall>(key, obj)\<in>set es. \<forall>i\<in>object_span (mc_objects mc1 obj) \<inter> {unat a..<unat b}. clean (mc_memories mc2 m) i"
    using Cons.prems(7,8) f by auto
  have "clean (mc_memories mc2 m) i" if "i \<in> object_span (mc_objects mc obj) \<inter> {unat a..<unat b}" for i
    using mc1(4) that clean_advances [OF mc2(3)] by blast
  moreover have "advances dev mc mc2" by (rule advances_trans [OF mc1(3) mc2(3)])
  ultimately show ?case using mc1(1) mc2(1,2,4) by (simp add: entry object_span_identity [OF same])
qed

text \<open>Flushing keeps where memory is mapped, so the bytes that a list of ranges flushes are known before.\<close>

definition same_mapping :: "memory_capture \<Rightarrow> memory_capture \<Rightarrow> bool" where
  "same_mapping mc mc' \<longleftrightarrow> (\<forall>m. let mem = mc_memories mc m; mem' = mc_memories mc' m in
    dm_allocation_size mem' = dm_allocation_size mem \<and> dm_mapped mem' = dm_mapped mem \<and> dm_offset mem' = dm_offset mem \<and>
    dm_size mem' = dm_size mem \<and> dm_contents mem' = dm_contents mem)"

definition flushed_in :: "mapped_memory_range list \<Rightarrow> memory_capture \<Rightarrow> nat \<Rightarrow> nat set" where
  "flushed_in rs mc m = (\<Union>r\<in>{r\<in>set rs. mr_memory r = m}. flushed_bytes (mr_offset r) (mr_size r) (mc_memories mc m))"

lemma same_mapping_refl: "same_mapping mc mc"
  by (simp add: same_mapping_def Let_def)

lemma same_mapping_trans: "same_mapping a b \<Longrightarrow> same_mapping b c \<Longrightarrow> same_mapping a c"
  by (simp add: same_mapping_def Let_def)

lemma same_mapping_flushed: "same_mapping mc mc' \<Longrightarrow> flushed_in rs mc' m = flushed_in rs mc m"
proof -
  assume same: "same_mapping mc mc'"
  have "dm_mapped (mc_memories mc' m) = dm_mapped (mc_memories mc m)" "dm_size (mc_memories mc' m) = dm_size (mc_memories mc m)"
      "dm_offset (mc_memories mc' m) = dm_offset (mc_memories mc m)"
    using same by (simp_all add: same_mapping_def Let_def)
  note f = this
  show ?thesis unfolding flushed_in_def flushed_bytes_def capture_clamp_mapped_flush_range_def f ..
qed

lemma advances_same_mapping: "advances dev mc mc' \<Longrightarrow> same_mapping mc mc'"
  using mem_advances_fields [OF advances_mem] by (simp add: same_mapping_def Let_def)

text \<open>A state from which a flush of the ranges of \<open>U\<close> is done.\<close>

definition flush_done :: "trackable \<Rightarrow> (nat \<Rightarrow> (u64 \<times> nat) list) \<Rightarrow> (nat \<Rightarrow> nat set) \<Rightarrow> memory_capture \<Rightarrow> memory_capture \<Rightarrow> bool" where
  "flush_done dev usage F mc mc' \<longleftrightarrow> same_mapping mc mc' \<and> same_identity (mc_objects mc) (mc_objects mc') \<and> (\<exists>es. logs dev mc mc' es) \<and>
    (\<forall>m i. clean (mc_memories mc m) i \<longrightarrow> clean (mc_memories mc' m) i) \<and>
    (\<forall>m. \<forall>(key, obj)\<in>set (usage m). \<forall>i\<in>object_span (mc_objects mc obj) \<inter> F m. clean (mc_memories mc' m) i)"

lemma flush_done_trans:
  assumes "flush_done dev usage F a b" "flush_done dev usage G b c"
  shows "flush_done dev usage (\<lambda>m. F m \<union> G m) a c"
proof -
  have same: "same_identity (mc_objects a) (mc_objects b)" using assms(1) by (simp add: flush_done_def)
  have "\<exists>es. logs dev a c es" using assms logs_trans [OF same] unfolding flush_done_def by blast
  moreover have "clean (mc_memories c m) i" if "(key, obj) \<in> set (usage m)" "i \<in> object_span (mc_objects a obj) \<inter> (F m \<union> G m)" for m key obj i
    using that assms object_span_identity [OF same] unfolding flush_done_def by blast
  moreover have "same_mapping a c" "same_identity (mc_objects a) (mc_objects c)"
    using assms same_mapping_trans same_identity_trans unfolding flush_done_def by blast+
  ultimately show ?thesis using assms unfolding flush_done_def by blast
qed

lemma flush_range_clean: "flush_range off sz mem = Inr mem' \<Longrightarrow> mem' = mem\<lparr>dm_exposed := dm_exposed mem'\<rparr>"
  by (auto simp: flush_range_def result_bind_def split: option.splits sum.splits prod.splits)

lemma flush_mapped_range_ok:
  assumes inv: "capture_inv V mc" and dev: "tr_created dev" and marks: "mr_marks r = None" and usage: "usage_ok usage (mc_objects mc)"
  shows "\<exists>mc'. flush_mapped_range cx dev True k wext usage r mc = Inr mc' \<and>
    capture_inv (\<lambda>m. V m \<union> U m \<inter> flushed_in [r] mc m) mc' \<and> flush_done dev usage (flushed_in [r] mc) mc mc'"
proof -
  define m where "m = mr_memory r"
  define F where "F = flushed_bytes (mr_offset r) (mr_size r) (mc_memories mc m)"
  have mem: "mem_ok (mc_memories mc m)" "synced (V m) (mc_memories mc m)" using inv by (simp_all add: capture_inv_def)
  have F: "flushed_in [r] mc = (\<lambda>_. {})(m := F)" by (rule ext) (auto simp: flushed_in_def F_def m_def)
  have V: "(\<lambda>n. V n \<union> U n \<inter> ((\<lambda>_. {})(m := F)) n) = V(m := V m \<union> U m \<inter> F)" by (rule ext) simp
  obtain mem' where mem': "flush_range (mr_offset r) (mr_size r) (mc_memories mc m) = Inr mem'"
    using flush_range_defined [OF mem(1)] by blast
  have same: "mem' = (mc_memories mc m)\<lparr>dm_exposed := dm_exposed mem'\<rparr>" by (rule flush_range_clean [OF mem'])
  define mc1 where "mc1 = set_memory m mem' mc"
  have inv1: "capture_inv (V(m := V m \<union> U m \<inter> F)) mc1"
    using flush_ok(1,3) [OF mem mem'] flush_ok(2) [OF mem mem', of "U m"] unfolding F_def mc1_def by (intro set_memory_inv [OF inv]) auto
  have fields: "dm_clone mem' = dm_clone (mc_memories mc m)" "dm_contents mem' = dm_contents (mc_memories mc m)"
      "dm_allocation_size mem' = dm_allocation_size (mc_memories mc m)" "dm_mapped mem' = dm_mapped (mc_memories mc m)"
      "dm_offset mem' = dm_offset (mc_memories mc m)" "dm_size mem' = dm_size (mc_memories mc m)"
    by (subst same, simp)+
  have "logs dev mc mc1 []" by (rule logs_nothing) (auto simp: mc1_def set_memory_def fields intro: object_image_cong)
  then have done1: "flush_done dev usage (\<lambda>_. {}) mc mc1"
    using same_identity_refl by (auto simp: flush_done_def same_mapping_def Let_def mc1_def set_memory_def fields clean_def)
  show ?thesis
  proof (cases "capture_clamp_mapped_flush_range (mr_offset r) (mr_size r) (mc_memories mc m)")
    case None
    then have "mem' = mc_memories mc m" using mem' by (simp add: flush_range_def)
    moreover have "mc\<lparr>mc_memories := (mc_memories mc)(m := mc_memories mc m)\<rparr> = mc" by simp
    ultimately have "F = {}" "mc1 = mc" using None by (simp_all only: F_def flushed_bytes_def mc1_def set_memory_def option.case)
    moreover have "flush_mapped_range cx dev True k wext usage r mc = Inr mc"
      using None mem' by (simp add: flush_mapped_range_explicit [OF marks m_def])
    moreover have "(\<lambda>_. {})(m := {}) = (\<lambda>_. {} :: nat set)" by (rule ext) simp
    ultimately show ?thesis using inv1 done1 unfolding F V by (intro exI [of _ mc]) simp
  next
    case (Some ab)
    obtain a b where ab: "ab = (a, b)" by fastforce
    note clamp = clamp_bounds [OF Some [unfolded ab] mem(1)]
    have objs: "mc_objects mc1 = mc_objects mc" "mc_memories mc1 m = mem'" by (simp_all add: mc1_def set_memory_def)
    have "\<forall>(key, obj)\<in>set (usage m). key = to_offset (mc_objects mc1 obj) \<and> to_backing (mc_objects mc1 obj) = Some m \<and> to_accessible (mc_objects mc1 obj)"
      using usage unfolding objs usage_ok_def by blast
    from flush_objects_ok [OF inv1 dev marks m_def [symmetric] this clamp(1), of cx k wext] obtain mc2 where
      mc2: "flush_objects cx dev k wext r (a, b) (usage m) mc1 = Inr mc2" "capture_inv (V(m := V m \<union> U m \<inter> F)) mc2" "advances dev mc1 mc2"
        "\<forall>(key, obj)\<in>set (usage m). \<forall>i\<in>object_span (mc_objects mc1 obj) \<inter> {unat a..<unat b}. clean (mc_memories mc2 m) i"
      using clamp(2,3) fields(3,4) objs by auto
    have "F = {unat a..<unat b}" using Some by (simp add: F_def flushed_bytes_def ab)
    then have "flush_done dev usage ((\<lambda>_. {})(m := F)) mc1 mc2"
      using mc2(3,4) clean_advances [OF mc2(3)] advances_same_mapping [OF mc2(3)] by (auto simp: flush_done_def advances_def)
    from flush_done_trans [OF done1 this] have "flush_done dev usage (\<lambda>n. {} \<union> ((\<lambda>_. {})(m := F)) n) mc mc2" .
    moreover have "(\<lambda>n. {} \<union> ((\<lambda>_. {})(m := F)) n) = (\<lambda>_. {})(m := F)" by (rule ext) simp
    ultimately have "flush_done dev usage ((\<lambda>_. {})(m := F)) mc mc2" by metis
    moreover have "flush_mapped_range cx dev True k wext usage r mc = Inr mc2"
      using Some ab mem' mc2(1) by (simp add: flush_mapped_range_explicit [OF marks m_def] mc1_def)
    ultimately show ?thesis using mc2(2) unfolding F V by blast
  qed
qed

lemma flushed_in_Cons: "flushed_in (r # rs) mc m = flushed_in [r] mc m \<union> flushed_in rs mc m"
  by (auto simp: flushed_in_def)

lemma flush_mapped_ranges_ok:
  assumes "capture_inv V mc" "tr_created dev" "list_all (\<lambda>r. mr_marks r = None) rs" "usage_ok usage (mc_objects mc)"
  shows "\<exists>mc'. flush_mapped_ranges cx dev True k wext usage rs mc = Inr mc' \<and>
    capture_inv (\<lambda>m. V m \<union> U m \<inter> flushed_in rs mc m) mc' \<and> flush_done dev usage (flushed_in rs mc) mc mc'"
  using assms
proof (induction rs arbitrary: V mc)
  case Nil
  have "logs dev mc mc []" by (rule logs_nothing) simp_all
  then show ?case using Nil by (auto simp: flushed_in_def flush_done_def same_mapping_refl same_identity_refl)
next
  case (Cons r rs)
  have marks: "mr_marks r = None" "list_all (\<lambda>r. mr_marks r = None) rs" using Cons.prems(3) by simp_all
  obtain mc1 where mc1: "flush_mapped_range cx dev True k wext usage r mc = Inr mc1"
      "capture_inv (\<lambda>m. V m \<union> U m \<inter> flushed_in [r] mc m) mc1" "flush_done dev usage (flushed_in [r] mc) mc mc1"
    using flush_mapped_range_ok [OF Cons.prems(1,2) marks(1) Cons.prems(4), of cx k wext U] by blast
  have "usage_ok usage (mc_objects mc1)" using mc1(3) usage_identity Cons.prems(4) unfolding flush_done_def by blast
  from Cons.IH [OF mc1(2) Cons.prems(2) marks(2) this] obtain mc2 where mc2: "flush_mapped_ranges cx dev True k wext usage rs mc1 = Inr mc2"
      "capture_inv (\<lambda>m. (V m \<union> U m \<inter> flushed_in [r] mc m) \<union> U m \<inter> flushed_in rs mc1 m) mc2"
      "flush_done dev usage (flushed_in rs mc1) mc1 mc2" by blast
  have rest: "flushed_in rs mc1 = flushed_in rs mc" using same_mapping_flushed mc1(3) unfolding flush_done_def by blast
  have "flush_done dev usage (\<lambda>m. flushed_in [r] mc m \<union> flushed_in rs mc m) mc mc2"
    using flush_done_trans [OF mc1(3) mc2(3)] unfolding rest .
  moreover have "(\<lambda>m. flushed_in [r] mc m \<union> flushed_in rs mc m) = flushed_in (r # rs) mc" by (rule ext) (rule flushed_in_Cons [symmetric])
  ultimately have "flush_done dev usage (flushed_in (r # rs) mc) mc mc2" by metis
  moreover have all: "(\<lambda>m. (V m \<union> U m \<inter> flushed_in [r] mc m) \<union> U m \<inter> flushed_in rs mc m) = (\<lambda>m. V m \<union> U m \<inter> flushed_in (r # rs) mc m)"
    by (rule ext) (unfold flushed_in_Cons [of r rs], blast)
  then have "capture_inv (\<lambda>m. V m \<union> U m \<inter> flushed_in (r # rs) mc m) mc2" using mc2(2) unfolding rest by metis
  moreover have "flush_mapped_ranges cx dev True k wext usage (r # rs) mc = Inr mc2" using mc1(1) mc2(1) by simp
  ultimately show ?case by blast
qed

section \<open>An application that announces its writes\<close>

text \<open>\<open>V\<close> are now the bytes that were flushed after their last write by the host, also in coherent memory, and \<open>U\<close> the
  other bytes the host wrote.  A submit compares nothing, so it has no precondition.\<close>

inductive explicit_step :: "codec \<Rightarrow> trackable \<Rightarrow> rewrite_constants \<Rightarrow> mark_writer \<Rightarrow> (nat \<Rightarrow> (u64 \<times> nat) list) \<Rightarrow>
    memory_capture \<Rightarrow> bytes_of \<Rightarrow> bytes_of \<Rightarrow> memory_capture \<Rightarrow> bytes_of \<Rightarrow> bytes_of \<Rightarrow> bool"
  for cx dev k wext usage where
  Map: "mem = mc_memories mc m \<Longrightarrow> dm_host_visible mem \<Longrightarrow> \<not> dm_mapped mem \<Longrightarrow> off < dm_allocation_size mem \<Longrightarrow>
    sz = VK_WHOLE_SIZE \<or> 0 < sz \<and> unat off + unat sz \<le> allocated mem \<Longrightarrow> trace_post_vkMapMemory True off sz mem = Inr mem' \<Longrightarrow>
    explicit_step cx dev k wext usage mc V U (set_memory m mem' mc) V U"
| Unmap: "explicit_step cx dev k wext usage mc V U (set_memory m (trace_post_vkUnmapMemory_common (mc_memories mc m)) mc) V U"
| Write: "mem = mc_memories mc m \<Longrightarrow> dm_mapped mem \<Longrightarrow> i \<in> mapped_bytes mem \<Longrightarrow>
    explicit_step cx dev k wext usage mc V U (set_memory m (host_write i x mem) mc) (V(m := V m - {i})) (U(m := insert i (U m)))"
| Flush: "list_all (\<lambda>r. mr_marks r = None) rs \<Longrightarrow>
    trace_post_vkFlushMappedMemoryRanges cx dev True k wext usage True rs mc = Inr mc' \<Longrightarrow>
    explicit_step cx dev k wext usage mc V U mc' (\<lambda>m. V m \<union> U m \<inter> flushed_in rs mc m) (\<lambda>m. U m - flushed_in rs mc m)"
| Call: "appends body payload \<Longrightarrow> 5 + length payload < 2 ^ 32 \<Longrightarrow> write_packet cx PACKET_VULKAN_API_CALL body (mc_writer mc) = Inr lw \<Longrightarrow>
    explicit_step cx dev k wext usage mc V U (mc\<lparr>mc_writer := lw\<rparr>) V U"
| Submit: "trace_pre_vkQueueSubmit cx dev True cs mc = Inr mc' \<Longrightarrow> explicit_step cx dev k wext usage mc V U mc' V U"

inductive explicit_reachable :: "codec \<Rightarrow> trackable \<Rightarrow> rewrite_constants \<Rightarrow> mark_writer \<Rightarrow> (nat \<Rightarrow> (u64 \<times> nat) list) \<Rightarrow>
    memory_capture \<Rightarrow> bytes_of \<Rightarrow> bytes_of \<Rightarrow> bool"
  for cx dev k wext usage where
  start: "capture_start mc \<Longrightarrow> usage_ok usage (mc_objects mc) \<Longrightarrow> explicit_reachable cx dev k wext usage mc (\<lambda>_. {}) (\<lambda>_. {})"
| step: "explicit_reachable cx dev k wext usage mc V U \<Longrightarrow> explicit_step cx dev k wext usage mc V U mc' V' U' \<Longrightarrow>
    explicit_reachable cx dev k wext usage mc' V' U'"

definition announced_clean :: "(nat \<Rightarrow> (u64 \<times> nat) list) \<Rightarrow> bytes_of \<Rightarrow> memory_capture \<Rightarrow> bool" where
  "announced_clean usage V mc \<longleftrightarrow> (\<forall>m. \<forall>(key, obj)\<in>set (usage m). \<forall>i\<in>object_span (mc_objects mc obj) \<inter> V m. clean (mc_memories mc m) i)"

definition explicit_inv :: "(nat \<Rightarrow> (u64 \<times> nat) list) \<Rightarrow> bytes_of \<Rightarrow> memory_capture \<Rightarrow> bool" where
  "explicit_inv usage V mc \<longleftrightarrow> capture_inv V mc \<and> usage_ok usage (mc_objects mc) \<and> announced_clean usage V mc"

lemma synced_mono: "synced V mem \<Longrightarrow> W \<subseteq> V \<Longrightarrow> synced W mem"
  by (auto simp: synced_def)

text \<open>Every step records what it changes of the clones and keeps the announced bytes in them.\<close>

lemma explicit_memory_step:
  assumes inv: "explicit_inv usage V mc" and ok: "mem_ok mem'" "synced W mem'" "allocated mem' = allocated (mc_memories mc m)"
    and clean: "\<And>i. i \<in> W \<Longrightarrow> i \<in> V m \<and> (clean (mc_memories mc m) i \<longrightarrow> clean mem' i)"
    and image: "\<And>od. object_image mem' od = object_image (mc_memories mc m) od"
  shows "explicit_inv usage (V(m := W)) (set_memory m mem' mc)" "logs dev mc (set_memory m mem' mc) []"
proof -
  have "capture_inv (V(m := W)) (set_memory m mem' mc)"
    using inv ok by (intro set_memory_inv) (auto simp: explicit_inv_def)
  moreover have "announced_clean usage (V(m := W)) (set_memory m mem' mc)"
    using inv clean unfolding explicit_inv_def announced_clean_def set_memory_def by fastforce
  ultimately show "explicit_inv usage (V(m := W)) (set_memory m mem' mc)" using inv by (simp add: explicit_inv_def set_memory_def)
  show "logs dev mc (set_memory m mem' mc) []" by (rule logs_nothing) (auto simp: set_memory_def image)
qed

lemma explicit_step_ok:
  assumes "explicit_step cx dev k wext usage mc V U mc' V' U'" "explicit_inv usage V mc" "tr_created dev"
  shows "explicit_inv usage V' mc' \<and> (\<exists>fs. logs dev mc mc' fs) \<and> same_identity (mc_objects mc) (mc_objects mc')"
  using assms(1)
proof cases
  case (Map mem m off sz mem')
  have mem: "mem_ok mem" "synced (V m) mem" using assms(2) Map(4) by (simp_all add: explicit_inv_def capture_inv_def)
  have ok: "mem_ok mem'" "synced (V m) mem'" "allocated mem' = allocated (mc_memories mc m)"
    using map_ok [OF mem Map(5-8)] Map(4,9) by auto
  have same: "dm_clone mem \<noteq> None \<Longrightarrow> dm_clone mem' = dm_clone mem" "dm_contents mem' = dm_contents mem"
    using map_fields [OF Map(9)] by auto
  have keep: "clean mem i \<Longrightarrow> clean mem' i" for i using same by (cases "dm_clone mem") (auto simp: clean_def)
  have "explicit_inv usage (V(m := V m)) (set_memory m mem' mc)" "logs dev mc (set_memory m mem' mc) []"
    by (rule explicit_memory_step [OF assms(2) ok]; use keep map_image [OF Map(9)] Map(4) in simp)+
  then show ?thesis using Map(1,2) same_identity_refl by (auto simp: set_memory_def)
next
  case (Unmap m)
  let ?mem' = "trace_post_vkUnmapMemory_common (mc_memories mc m)"
  have mem: "mem_ok (mc_memories mc m)" "synced (V m) (mc_memories mc m)" using assms(2) by (simp_all add: explicit_inv_def capture_inv_def)
  have "explicit_inv usage (V(m := V m)) (set_memory m ?mem' mc)" "logs dev mc (set_memory m ?mem' mc) []"
    by (rule explicit_memory_step [OF assms(2) unmap_ok [OF mem]];
        auto simp: trace_post_vkUnmapMemory_common_def clean_def intro: object_image_cong)+
  then show ?thesis using Unmap(1,2) same_identity_refl by (auto simp: set_memory_def)
next
  case (Write mem m i x)
  let ?mem' = "host_write i x mem"
  have mem: "mem_ok mem" "synced (V m) mem" using assms(2) Write(4) by (simp_all add: explicit_inv_def capture_inv_def)
  have "mem_ok ?mem'" "synced (V m - {i}) ?mem'"
    using write_ok [OF mem Write(5,6), of x] by (auto intro: synced_mono split: if_splits)
  then have "explicit_inv usage (V(m := V m - {i})) (set_memory m ?mem' mc)" "logs dev mc (set_memory m ?mem' mc) []"
    by (rule explicit_memory_step [OF assms(2)]; auto simp: host_write_def clean_def Write(4) intro: object_image_cong)+
  then show ?thesis using Write(1,2) same_identity_refl by (auto simp: set_memory_def)
next
  case (Flush rs)
  have inv: "capture_inv V mc" "usage_ok usage (mc_objects mc)" "announced_clean usage V mc" using assms(2) by (simp_all add: explicit_inv_def)
  have "flush_mapped_ranges cx dev True k wext usage rs mc = Inr mc'" using Flush(4) by (simp add: trace_post_vkFlushMappedMemoryRanges_def)
  then have ok: "capture_inv V' mc'" "flush_done dev usage (flushed_in rs mc) mc mc'"
    using flush_mapped_ranges_ok [OF inv(1) assms(3) Flush(3) inv(2), of cx k wext U] Flush(1) by auto
  have same: "same_identity (mc_objects mc) (mc_objects mc')" using ok(2) by (simp add: flush_done_def)
  have "announced_clean usage V' mc'" unfolding announced_clean_def
  proof (intro allI ballI, clarify)
    fix m key obj i assume i: "(key, obj) \<in> set (usage m)" "i \<in> object_span (mc_objects mc' obj)" "i \<in> V' m"
    have span: "i \<in> object_span (mc_objects mc obj)" using i(2) object_span_identity [OF same] by simp
    show "clean (mc_memories mc' m) i"
    proof (cases "i \<in> V m")
      case True
      then have "clean (mc_memories mc m) i" using inv(3) i(1) span unfolding announced_clean_def by blast
      then show ?thesis using ok(2) unfolding flush_done_def by blast
    next
      case False
      then have "i \<in> flushed_in rs mc m" using i(3) Flush(1) by simp
      then show ?thesis using ok(2) i(1) span unfolding flush_done_def by blast
    qed
  qed
  then show ?thesis using ok usage_identity [OF same] inv(2) same unfolding explicit_inv_def flush_done_def by blast
next
  case (Call body payload lw)
  obtain s where s: "closed_ok (\<lambda>x. x) s (mc_writer mc)" using assms(2) by (auto simp: explicit_inv_def capture_inv_def)
  have written: "closed_ok (\<lambda>x. x) (t @ packet_bytes PACKET_VULKAN_API_CALL payload) lw" if "closed_ok (\<lambda>x. x) t (mc_writer mc)" for t
    using write_packet_ok [OF that Call(4,5), of cx PACKET_VULKAN_API_CALL] Call(6) by (metis sum.inject(2))
  then have "logs dev mc mc' [Call_packet payload]" using Call(1,5) by (simp add: logs_def)
  moreover have "explicit_inv usage V mc'" using assms(2) written [OF s] Call(1) by (auto simp: explicit_inv_def capture_inv_def announced_clean_def)
  ultimately show ?thesis using Call(1,2) same_identity_refl by auto
next
  case (Submit cs)
  then have "mc' = mc" by (simp add: trace_pre_vkQueueSubmit_def)
  moreover have "logs dev mc mc []" by (rule logs_nothing) simp_all
  ultimately show ?thesis using assms(2) Submit(1) same_identity_refl by auto
qed

lemma explicit_reachable_inv:
  assumes "explicit_reachable cx dev k wext usage mc V U" "tr_created dev"
  shows "explicit_inv usage V mc"
  using assms
proof (induction rule: explicit_reachable.induct)
  case (start mc)
  then show ?case using capture_start_inv by (simp add: explicit_inv_def announced_clean_def)
next
  case (step mc V U mc' V' U')
  then show ?case using explicit_step_ok by blast
qed

text \<open>C10: an explicit host update is complete.  In every state that an application with explicit host updates reaches, the handler
  of a flush of any mapped or unmapped ranges succeeds, and then every byte that an object bound to the memory has in the flushed
  ranges is the same in the clone, and so in the update packets of the trace, as in the memory, whether it changed or not; bytes
  that were announced before and not written since still are, in every object.\<close>

theorem flush_captures_announced:
  assumes "explicit_reachable cx dev k wext usage mc V U" "tr_created dev" "list_all (\<lambda>r. mr_marks r = None) rs"
  shows "\<exists>mc'. trace_post_vkFlushMappedMemoryRanges cx dev True k wext usage True rs mc = Inr mc' \<and>
    (\<forall>m. \<forall>(key, obj)\<in>set (usage m). \<forall>i\<in>object_span (mc_objects mc obj) \<inter> (V m \<union> flushed_in rs mc m). clean (mc_memories mc' m) i)"
proof -
  have inv: "capture_inv V mc" "usage_ok usage (mc_objects mc)" "announced_clean usage V mc"
    using explicit_reachable_inv [OF assms(1,2)] by (simp_all add: explicit_inv_def)
  obtain mc' where mc': "flush_mapped_ranges cx dev True k wext usage rs mc = Inr mc'" "flush_done dev usage (flushed_in rs mc) mc mc'"
    using flush_mapped_ranges_ok [OF inv(1) assms(2,3) inv(2)] by blast
  have "clean (mc_memories mc' m) i" if "(key, obj) \<in> set (usage m)" "i \<in> object_span (mc_objects mc obj) \<inter> (V m \<union> flushed_in rs mc m)" for m key obj i
    using that inv(3) mc'(2) unfolding announced_clean_def flush_done_def by blast
  then show ?thesis using mc'(1) unfolding trace_post_vkFlushMappedMemoryRanges_def by auto
qed

text \<open>A buffer whose fourth byte is written and flushed.\<close>

definition sample_usage :: "nat \<Rightarrow> (u64 \<times> nat) list" where
  "sample_usage m = (if m = 0 then [(0, 0)] else [])"

definition sample_flush :: "marked_offsets option \<Rightarrow> mapped_memory_range" where
  "sample_flush mo = \<lparr>mr_memory = 0, mr_offset = 0, mr_size = 16, mr_marks = mo\<rparr>"

definition sample_written :: memory_capture where
  "sample_written = set_memory 0 (host_write 3 5 (mapped_memory 16)) sample_capture"

lemma sample_written_explicit:
  "explicit_reachable cx dev k wext sample_usage sample_written ((\<lambda>_. {})(0 := {} - {3})) ((\<lambda>_. {})(0 := {3}))"
proof -
  let ?mc = "set_memory 0 (mapped_memory 16) sample_capture"
  have "explicit_reachable cx dev k wext sample_usage sample_capture (\<lambda>_. {}) (\<lambda>_. {})"
    by (rule explicit_reachable.start [OF sample_capture_start])
      (simp add: usage_ok_def sample_usage_def sample_capture_def sample_update_object_def)
  moreover have "explicit_step cx dev k wext sample_usage sample_capture (\<lambda>_. {}) (\<lambda>_. {}) ?mc (\<lambda>_. {}) (\<lambda>_. {})"
    by (rule explicit_step.Map [OF refl, of _ _ 0 16]) (simp_all add: sample_capture_def sample_map, simp_all add: sample_memory_def)
  ultimately have mapped: "explicit_reachable cx dev k wext sample_usage ?mc (\<lambda>_. {}) (\<lambda>_. {})" by (rule explicit_reachable.step)
  have mem: "mc_memories ?mc 0 = mapped_memory 16" by (simp add: set_memory_def)
  have "explicit_step cx dev k wext sample_usage ?mc (\<lambda>_. {}) (\<lambda>_. {}) (set_memory 0 (host_write 3 5 (mapped_memory 16)) ?mc)
      ((\<lambda>_. {})(0 := {} - {3})) ((\<lambda>_. {})(0 := insert 3 {}))"
    by (rule explicit_step.Write [OF mem [symmetric]]) (simp_all add: mapped_memory_def mapped_bytes_def sample_memory_def)
  moreover have "set_memory 0 (host_write 3 5 (mapped_memory 16)) ?mc = sample_written" by (simp add: set_memory_def sample_written_def)
  ultimately show ?thesis using explicit_reachable.step [OF mapped] by metis
qed

lemma sample_flushed_in: "3 \<in> flushed_in [sample_flush None] sample_written 0"
  by (simp add: flushed_in_def flushed_bytes_def sample_flush_def sample_written_def set_memory_def host_write_def mapped_memory_def
      sample_memory_def capture_clamp_mapped_flush_range_def Let_def)

theorem flush_captures_announced_witness:
  "\<exists>mc'. trace_post_vkFlushMappedMemoryRanges plain_codec (sample_object 1) True sample_constants (\<lambda>_ w. Inr w) sample_usage True [sample_flush None]
    sample_written = Inr mc' \<and> clean (mc_memories mc' 0) 3"
proof -
  have "tr_created (sample_object 1)" "list_all (\<lambda>r. mr_marks r = None) [sample_flush None]" by (simp_all add: sample_object_def sample_flush_def)
  note flush = flush_captures_announced [OF sample_written_explicit this, of plain_codec sample_constants "\<lambda>_ w. Inr w"]
  have "(0, 0) \<in> set (sample_usage 0)" "3 \<in> object_span (mc_objects sample_written 0)"
    by (simp_all add: sample_usage_def object_span_def sample_written_def set_memory_def sample_capture_def sample_update_object_def)
  then show ?thesis using flush sample_flushed_in by blast
qed

section \<open>The replay of announced writes\<close>

lemma explicit_reachable_recorded:
  "explicit_reachable cx dev k wext usage mc V U \<Longrightarrow> tr_created dev \<Longrightarrow> \<exists>es. recorded dev mc es"
proof (induction rule: explicit_reachable.induct)
  case (start mc)
  then show ?case using capture_start_recorded by blast
next
  case (step mc V U mc' V' U')
  then show ?case using explicit_step_ok [OF step(2) explicit_reachable_inv [OF step(1)]] recorded_logs by blast
qed

text \<open>C4: what the host announced is what the replay has.  In every state that an application with explicit host updates reaches, with
  objects that do not share memory, let a replay thread read the trace as it is then, into memory that the suballocator has given every
  object and that is not initialized yet, with functions for the API calls of the trace that succeed where the calls before them have
  led and leave the place and the bytes of these objects alone.  The thread comes to the end of the trace without an error, and for
  every byte of a bound object that was flushed after its last write: if the trace has an update packet of the object, the
  replay has initialized the memory of the object and the byte in it has the value it had for the application; if there is none, the
  value was zero.  No submit is needed.\<close>

theorem replay_has_announced_writes:
  assumes run: "explicit_reachable cx dev k wext usage mc V U" "tr_created dev"
    and objs: "separate (mc_objects mc)" "identified (mc_objects mc)"
    and stream: "stream = fw_stream (\<lambda>x. x) (lw_stream (mc_writer mc))"
    and reader: "before_packet stream lr" "stream_kept (lr_stream lr)"
    and replay: "replay_ready dev (mc_objects mc) rs" "\<not> rw_write_output e"
      "calls_replay dev (mc_objects mc) code phase (call_payloads stream)" "phase 0 rs"
  shows "\<exists>rs' lr'. replay_thread dx page rext k' e code rs lr = Some (Inr (rs', lr')) \<and> lr_terminated lr' \<and>
    (\<forall>m. \<forall>(key, obj)\<in>set (usage m). \<forall>i<unat (to_size (mc_objects mc obj)). unat (to_offset (mc_objects mc obj)) + i \<in> V m \<longrightarrow>
      (let x = dm_contents (mc_memories mc m) ! (unat (to_offset (mc_objects mc obj)) + i) in
       if has_update dev (mc_objects mc obj) stream then replayed_byte rs' dev (mc_objects mc obj) i x else x = 0))"
proof -
  have inv: "capture_inv V mc" "usage_ok usage (mc_objects mc)" "announced_clean usage V mc"
    using explicit_reachable_inv [OF run] by (simp_all add: explicit_inv_def)
  obtain es where rec: "recorded dev mc es" using explicit_reachable_recorded [OF run] by blast
  have types: "to_type (mc_objects mc obj) \<noteq> Other_type" if "to_accessible (mc_objects mc obj)" for obj
    using inv(1) that by (simp add: capture_inv_def object_ok_def)
  define kept where "kept rs' obj i m \<longleftrightarrow> (let x = dm_contents (mc_memories mc m) ! (unat (to_offset (mc_objects mc obj)) + i) in
      if has_update dev (mc_objects mc obj) stream then replayed_byte rs' dev (mc_objects mc obj) i x else x = 0)" for rs' obj i m
  obtain rs' lr' where thread: "replay_thread dx page rext k' e code rs lr = Some (Inr (rs', lr'))" "lr_terminated lr'"
    and bytes: "\<And>obj i m. to_accessible (mc_objects mc obj) \<Longrightarrow> to_backing (mc_objects mc obj) = Some m \<Longrightarrow> i < unat (to_size (mc_objects mc obj)) \<Longrightarrow>
      clean (mc_memories mc m) (unat (to_offset (mc_objects mc obj)) + i) \<Longrightarrow> kept rs' obj i m"
    using recorded_replayed [OF rec same_identity_refl objs types stream reader replay, of dx page rext k'] unfolding kept_def by blast
  have "kept rs' obj i m"
    if t: "(key, obj) \<in> set (usage m)" "i < unat (to_size (mc_objects mc obj))" "unat (to_offset (mc_objects mc obj)) + i \<in> V m" for m key obj i
  proof (rule bytes)
    show "to_accessible (mc_objects mc obj)" "to_backing (mc_objects mc obj) = Some m" using inv(2) t(1) unfolding usage_ok_def by blast+
    show "clean (mc_memories mc m) (unat (to_offset (mc_objects mc obj)) + i)"
      using inv(3) t unfolding announced_clean_def object_span_def by fastforce
  qed (rule t(2))
  then show ?thesis using thread unfolding kept_def by blast
qed

lemma replay_ready_identity:
  assumes "same_identity objs objs'"
  shows "replay_ready dev objs' rs = replay_ready dev objs rs" "identified objs' = identified objs"
  by (simp_all add: replay_ready_def identified_def backed_def same_identity_fields [OF assms] Let_def)

text \<open>The call number 5, recorded before the flush.\<close>

definition announced_capture :: memory_capture where
  "announced_capture = sample_written\<lparr>mc_writer := projr (write_packet plain_codec PACKET_VULKAN_API_CALL sample_call (mc_writer sample_written))\<rparr>"

lemma announced_reachable:
  "explicit_reachable plain_codec dev k wext sample_usage announced_capture ((\<lambda>_. {})(0 := {} - {3})) ((\<lambda>_. {})(0 := {3}))"
proof -
  have "\<not> isl (write_packet plain_codec PACKET_VULKAN_API_CALL sample_call (mc_writer sample_written))" by code_simp
  from explicit_step.Call [OF sample_call_appends _ sum.collapse(2) [OF this, symmetric]] show ?thesis
    unfolding announced_capture_def by (intro explicit_reachable.step [OF sample_written_explicit]) simp
qed

lemma announced_flushed: "3 \<in> flushed_in [sample_flush None] announced_capture 0"
  using sample_flushed_in by (simp add: flushed_in_def announced_capture_def)

theorem replay_has_announced_writes_witness:
  "\<exists>mc' rs' lr'. trace_post_vkFlushMappedMemoryRanges plain_codec (sample_object 1) True sample_constants (\<lambda>_ w. Inr w) sample_usage True
      [sample_flush None] announced_capture = Inr mc' \<and>
    replay_thread plain_decoder 4096 (\<lambda>_. Inl End_of_data) sample_constants sample_rewriter sample_code replay_start
      (lava_file_reader_new 1 (whole_reader (fw_stream (\<lambda>x. x) (lw_stream (mc_writer mc'))))) = Some (Inr (rs', lr')) \<and>
    replayed_byte rs' (sample_object 1) (mc_objects mc' 0) 3 5"
proof -
  let ?k = sample_constants and ?wext = "\<lambda>_ w. Inr w" and ?dev = "sample_object 1"
  have dev: "tr_created ?dev" and marks: "list_all (\<lambda>r. mr_marks r = None) [sample_flush None]" by (simp_all add: sample_object_def sample_flush_def)
  obtain V U where written: "explicit_reachable plain_codec ?dev ?k ?wext sample_usage announced_capture V U" "3 \<in> U 0"
    using announced_reachable by fastforce
  obtain mc' where mc': "flush_mapped_ranges plain_codec ?dev True ?k ?wext sample_usage [sample_flush None] announced_capture = Inr mc'"
      "flush_done ?dev sample_usage (flushed_in [sample_flush None] announced_capture) announced_capture mc'"
    using flush_mapped_ranges_ok [OF _ dev marks] explicit_reachable_inv [OF written(1) dev] unfolding explicit_inv_def by blast
  then have flush: "trace_post_vkFlushMappedMemoryRanges plain_codec ?dev True ?k ?wext sample_usage True [sample_flush None] announced_capture = Inr mc'"
    by (simp add: trace_post_vkFlushMappedMemoryRanges_def)
  define W where "W m = V m \<union> U m \<inter> flushed_in [sample_flush None] announced_capture m" for m
  have run: "explicit_reachable plain_codec ?dev ?k ?wext sample_usage mc' W (\<lambda>m. U m - flushed_in [sample_flush None] announced_capture m)"
    unfolding W_def by (rule explicit_reachable.step [OF written(1) explicit_step.Flush [OF marks flush]])
  have same: "same_identity sample_objects (mc_objects mc')" and map: "same_mapping announced_capture mc'"
    using mc'(2) by (simp_all add: flush_done_def announced_capture_def sample_written_def set_memory_def sample_capture_def)
  have objs: "separate (mc_objects mc')" "identified (mc_objects mc')"
    unfolding separate_identity [OF same] replay_ready_identity [OF same] by (auto simp: separate_def identified_def backed_def)
  define stream where "stream = fw_stream (\<lambda>x. x) (lw_stream (mc_writer mc'))"
  have "call_payloads (fw_stream (\<lambda>x. x) (lw_stream (mc_writer (projr (trace_post_vkFlushMappedMemoryRanges plain_codec ?dev True ?k ?wext sample_usage True
      [sample_flush None] announced_capture))))) = [to_le 2 (5 :: u16) @ to_le 4 (0 :: u32) @ []]" by code_simp
  then have payloads: "call_payloads stream = [to_le 2 (5 :: u16) @ to_le 4 (0 :: u32) @ []]" by (simp only: flush sum.sel stream_def)
  have reader: "before_packet stream (lava_file_reader_new 1 (whole_reader stream))"
      "stream_kept (lr_stream (lava_file_reader_new 1 (whole_reader stream)))"
    by (simp_all add: before_packet_def lava_file_reader_new_def whole_reader_def sample_reader_def checkpoint_ok_def stream_kept_def)
  have rw: "\<not> rw_write_output sample_rewriter" by (simp add: sample_rewriter_def)
  have ready: "replay_ready ?dev (mc_objects mc') replay_start" unfolding replay_ready_identity [OF same] by (rule replay_start_ready)
  have byte: "dm_contents (mc_memories mc' 0) ! 3 = 5" "unat (to_offset (mc_objects mc' 0)) = 0" "3 < unat (to_size (mc_objects mc' 0))"
    using map by (simp_all add: same_mapping_def Let_def same_identity_fields [OF same] announced_capture_def sample_written_def set_memory_def host_write_def
        mapped_memory_def sample_memory_def sample_update_object_def)
  have "3 \<in> W 0" using written(2) announced_flushed by (simp add: W_def)
  moreover have "(0, 0) \<in> set (sample_usage 0)" by (simp add: sample_usage_def)
  moreover from replay_has_announced_writes [OF run dev objs stream_def reader ready rw sample_calls_replay [of _ _, folded payloads] TrueI]
  obtain rs' lr' where thread: "replay_thread plain_decoder 4096 (\<lambda>_. Inl End_of_data) sample_constants sample_rewriter sample_code replay_start
      (lava_file_reader_new 1 (whole_reader stream)) = Some (Inr (rs', lr'))"
    and bytes: "\<forall>m. \<forall>(key, obj)\<in>set (sample_usage m). \<forall>i<unat (to_size (mc_objects mc' obj)). unat (to_offset (mc_objects mc' obj)) + i \<in> W m \<longrightarrow>
      (let x = dm_contents (mc_memories mc' m) ! (unat (to_offset (mc_objects mc' obj)) + i) in
       if has_update ?dev (mc_objects mc' obj) stream then replayed_byte rs' ?dev (mc_objects mc' obj) i x else x = 0)"
    by blast
  ultimately have "let x = dm_contents (mc_memories mc' 0) ! (unat (to_offset (mc_objects mc' 0)) + 3) in
       if has_update ?dev (mc_objects mc' 0) stream then replayed_byte rs' ?dev (mc_objects mc' 0) 3 x else x = 0"
    using byte(2,3) by fastforce
  then have "replayed_byte rs' ?dev (mc_objects mc' 0) 3 5" using byte(1,2) by (simp add: Let_def split: if_splits)
  then show ?thesis using flush thread unfolding stream_def by blast
qed

section \<open>Marked offsets of a flush\<close>

lemma marked_entry_size: "0 < unat (marked_entry_size k t)" "unat (marked_entry_size k t) \<le> 32"
  by (simp_all add: marked_entry_size_def)

lemma changed_overlaps:
  assumes spans: "collect_patch_spans orig chng start sz = (changed, spans)" "unat start + unat sz \<le> length orig" "unat start + unat sz \<le> length chng"
      "unat start + unat sz < 2 ^ 64"
    and j: "unat y \<le> j" "j < unat y + unat n" "unat start \<le> j" "j < unat start + unat sz" "orig ! j \<noteq> chng ! j"
    and n: "0 < unat n" "unat y + unat n < 2 ^ 64"
  shows "range_overlaps_any y (y + n - 1) spans"
proof -
  obtain r where r: "r \<in> set spans" "j \<in> range_set r" using collect_patch_spans_spec [OF spans(2-4,1)] j(3-5) by blast
  have sum: "unat (y + n) = unat y + unat n" by (rule unat_add_small) (use n(2) in simp)
  have "1 \<le> y + n" unfolding word_le_nat_alt sum using n(1) by simp
  then have "unat (y + n - 1) = unat y + unat n - 1" unfolding unat_sub [OF \<open>1 \<le> y + n\<close>] sum by simp
  then have "y \<le> rlast r" "rfirst r \<le> y + n - 1" using r(2) j(1,2) by (auto simp: range_set_def word_le_nat_alt)
  then show ?thesis using r(1) by (auto simp: range_overlaps_any_def list_ex_iff)
qed

lemma mark_inside_offset:
  assumes "mark_inside b od x" "unat (to_offset od) + unat (to_size od) < 2 ^ 64"
  shows "unat (x - to_offset od) < unat (to_size od)"
proof -
  have ox: "to_offset od \<le> x" "x < to_offset od + to_size od" using assms(1) by (auto simp: mark_inside_def not_less not_le)
  then have "unat (x - to_offset od) = unat x - unat (to_offset od)" by (intro unat_sub)
  moreover have "unat (to_offset od + to_size od) = unat (to_offset od) + unat (to_size od)" by (rule unat_add_small) (use assms(2) in simp)
  ultimately show ?thesis using ox by (simp add: word_le_nat_alt word_less_nat_alt)
qed

text \<open>C25: the marked offsets that go into an update packet.  A marked offset in the flushed part of an object is kept, relative to the
  object, if it is a descriptor or if a byte of the value it marks is to be recorded as changed, so a replay translates every
  changed value; and what is kept is a marked offset of the application, in the object.\<close>

theorem changed_marks_kept:
  assumes spans: "collect_patch_spans orig chng start sz = (changed, spans)" "unat start + unat sz \<le> length orig" "unat start + unat sz \<le> length chng"
      "unat start + unat sz < 2 ^ 63"
    and marks: "mr_marks r = Some m" "mo_offsets m = Some os" "mo_types m = Some ts" "mo_count m \<le> length os" "mo_count m \<le> length ts"
      "\<forall>ss. mo_subs m = Some ss \<longrightarrow> mo_count m \<le> length ss"
    and od: "unat (to_offset od) + unat (to_size od) < 2 ^ 63"
  shows "\<exists>ar d. adjust_marks k r b od spans = Inr (ar, d) \<and>
    (\<forall>i<mo_count m. let x = mr_offset r + os ! i; y = x - to_offset od; n = unat (marked_entry_size k (ts ! i)) in
      mark_inside b od x \<and> (ts ! i = rk_descriptor k \<or>
        (\<exists>j. unat y \<le> j \<and> j < unat y + n \<and> unat start \<le> j \<and> j < unat start + unat sz \<and> orig ! j \<noteq> chng ! j)) \<longrightarrow>
      (\<exists>a ys us. ar = Some a \<and> mo_offsets a = Some ys \<and> mo_types a = Some us \<and> (y, ts ! i) \<in> set (zip ys us))) \<and>
    (\<forall>a ys us y t. ar = Some a \<and> mo_offsets a = Some ys \<and> mo_types a = Some us \<and> (y, t) \<in> set (zip ys us) \<longrightarrow>
      mo_count a = length ys \<and> length us = length ys \<and>
      (\<exists>i<mo_count m. t = ts ! i \<and> y = mr_offset r + os ! i - to_offset od \<and> mark_inside b od (mr_offset r + os ! i)))"
proof -
  define x where "x i = mr_offset r + os ! i" for i
  define idx where "idx = filter (\<lambda>i. mark_kept k b od spans (x i) (ts ! i)) [0..<mo_count m]"
  define d where "d = (mo_count m \<noteq> 0 \<and> list_ex (\<lambda>i. ts ! i = rk_descriptor k) idx)"
  define a where "a = m\<lparr>mo_count := length idx, mo_offsets := Some (map (\<lambda>i. x i - to_offset od) idx),
    mo_types := Some (map ((!) ts) idx), mo_subs := map_option (\<lambda>ss. map ((!) ss) idx) (mo_subs m)\<rparr>"
  have adjust: "adjust_marks k r b od spans = Inr (if idx = [] then None else Some a, d)"
    using marks by (auto simp: adjust_marks_def Let_def idx_def d_def a_def x_def not_less)
  have zip: "set (zip (map f ns) (map g ns)) = (\<lambda>i. (f i, g i)) ` set ns" for f :: "nat \<Rightarrow> u64" and g :: "nat \<Rightarrow> u32" and ns
    by (induction ns) auto
  have kept: "i \<in> set idx" if i: "i < mo_count m" "mark_inside b od (x i)" "ts ! i = rk_descriptor k \<or>
      (\<exists>j. unat (x i - to_offset od) \<le> j \<and> j < unat (x i - to_offset od) + unat (marked_entry_size k (ts ! i)) \<and>
        unat start \<le> j \<and> j < unat start + unat sz \<and> orig ! j \<noteq> chng ! j)" for i
  proof -
    have "unat (x i - to_offset od) + unat (marked_entry_size k (ts ! i)) < 2 ^ 64"
      using mark_inside_offset [OF i(2)] od marked_entry_size(2) [of k "ts ! i"] by simp
    then have "ts ! i = rk_descriptor k \<or> range_overlaps_any (x i - to_offset od) (x i - to_offset od + marked_entry_size k (ts ! i) - 1) spans"
      using i(3) changed_overlaps [OF spans(1-3) _ _ _ _ _ _ marked_entry_size(1)] spans(4) by auto
    then show ?thesis using i(1,2) by (simp add: idx_def mark_kept_def Let_def)
  qed
  show ?thesis
  proof (intro exI conjI, rule adjust, goal_cases)
    case 1
    have "\<exists>a' ys us. (if idx = [] then None else Some a) = Some a' \<and> mo_offsets a' = Some ys \<and> mo_types a' = Some us \<and>
        (x i - to_offset od, ts ! i) \<in> set (zip ys us)" if "i \<in> set idx" for i
      using that zip [of "\<lambda>i. x i - to_offset od" idx "(!) ts"] by (auto simp: a_def)
    then show ?case using kept unfolding x_def Let_def by blast
  next
    case 2
    have "i < mo_count m \<and> mark_inside b od (x i)" if "i \<in> set idx" for i using that by (simp add: idx_def mark_kept_def)
    then show ?case using zip [of "\<lambda>i. x i - to_offset od" idx "(!) ts"] by (auto simp: a_def x_def split: if_splits)
  qed
qed

theorem changed_marks_kept_witness:
  "\<exists>changed spans ar d. collect_patch_spans (replicate 16 0) ((replicate 16 0)[3 := 5]) 0 16 = (changed, spans) \<and>
    adjust_marks sample_constants (sample_flush (Some \<lparr>mo_sType = 0, mo_count = 1, mo_types = Some [0], mo_subs = None, mo_offsets = Some [0]\<rparr>))
      (0, 16) sample_update_object spans = Inr (Some ar, d) \<and> 0 < mo_count ar"
proof -
  let ?r = "sample_flush (Some \<lparr>mo_sType = 0, mo_count = 1, mo_types = Some [0], mo_subs = None, mo_offsets = Some [0]\<rparr>)"
  obtain changed spans where col: "collect_patch_spans (replicate 16 0) ((replicate 16 0)[3 := 5]) 0 16 = (changed, spans)" by fastforce
  have marks: "mr_marks ?r = Some \<lparr>mo_sType = 0, mo_count = 1, mo_types = Some [0], mo_subs = None, mo_offsets = Some [0]\<rparr>"
    by (simp add: sample_flush_def)
  have od: "unat (to_offset sample_update_object) + unat (to_size sample_update_object) < 2 ^ 63" by (simp add: sample_update_object_def)
  have "\<exists>ar d. adjust_marks sample_constants ?r (0, 16) sample_update_object spans = Inr (ar, d) \<and>
      (\<exists>a ys us. ar = Some a \<and> mo_offsets a = Some ys \<and> mo_types a = Some us \<and> (0, 0) \<in> set (zip ys us)) \<and>
      (\<forall>a ys us y t. ar = Some a \<and> mo_offsets a = Some ys \<and> mo_types a = Some us \<and> (y, t) \<in> set (zip ys us) \<longrightarrow> mo_count a = length ys)"
  proof -
    have "mark_inside (0, 16) sample_update_object 0" by (simp add: mark_inside_def sample_update_object_def)
    moreover have "\<exists>j. unat (0 :: u64) \<le> j \<and> j < unat (0 :: u64) + unat (marked_entry_size sample_constants 0) \<and> unat (0 :: u64) \<le> j \<and>
        j < unat (0 :: u64) + unat (16 :: u64) \<and> replicate 16 (0 :: u8) ! j \<noteq> (replicate 16 0)[3 := 5] ! j"
      by (rule exI [of _ 3]) (simp add: marked_entry_size_def sample_constants_def)
    moreover note changed_marks_kept [OF col _ _ _ marks, of "[0]" "[0]" sample_update_object sample_constants "(0, 16)"]
    ultimately show ?thesis using od by (fastforce simp: sample_flush_def sample_update_object_def)
  qed
  then obtain a d and ys :: "u64 list" and us :: "u32 list" where ar: "adjust_marks sample_constants ?r (0, 16) sample_update_object spans = Inr (Some a, d)"
      "(0, 0) \<in> set (zip ys us)" "mo_count a = length ys" by blast
  then have "0 < mo_count a" by (cases ys) auto
  then show ?thesis using col ar(1) by blast
qed

lemma collect_nothing:
  assumes "unat off + unat sz \<le> length orig" "unat off + unat sz \<le> length chng" "unat off + unat sz < 2 ^ 64"
    and "take (unat sz) (drop (unat off) orig) = take (unat sz) (drop (unat off) chng)"
  shows "collect_patch_spans orig chng off sz = (0, [])" "find_patch_start orig chng (unat off) (unat sz) = unat sz"
proof -
  obtain changed spans where col: "collect_patch_spans orig chng off sz = (changed, spans)" by fastforce
  note exact = collect_patch_spans_spec [OF assms(1-3) col]
  have "changed = 0" using exact assms(4) by blast
  then have sum: "sum_list (map (card \<circ> range_set) spans) = 0" using exact by (metis unat_0)
  have "card (range_set r) \<noteq> 0" if "r \<in> set spans" for r
  proof -
    have "unat (rfirst r) \<in> range_set r" using exact that by blast
    then show ?thesis by (auto simp: range_set_def)
  qed
  then have "spans = []" using sum by (cases spans) auto
  then show "collect_patch_spans orig chng off sz = (0, [])" using col \<open>changed = 0\<close> by simp
  show "find_patch_start orig chng (unat off) (unat sz) = unat sz" by (rule find_patch_start_same [OF assms(4)])
qed

text \<open>C38: a descriptor that is rewritten with the same bytes gets no packet.  The handler keeps the marked offset of a descriptor also
  when nothing changed, because the replay has a rewrite queued for it, and goes on to write the object out; but writing out
  finds no difference and returns before a packet is begun, so the trace has no marked offset for that rewrite.\<close>

theorem descriptor_marking_dropped:
  assumes inv: "capture_inv V mc" and m: "mr_memory r = m"
    and obj: "key = to_offset (mc_objects mc obj)" "to_backing (mc_objects mc obj) = Some m" "to_accessible (mc_objects mc obj)"
    and b: "a < b" "unat b \<le> allocated (mc_memories mc m)" "dm_mapped (mc_memories mc m)"
    and same: "\<forall>i\<in>object_span (mc_objects mc obj) \<inter> {unat a..<unat b}. clean (mc_memories mc m) i"
    and marks: "adjust_marks k r (a, b) (mc_objects mc obj) [] = Inr (Some ar, True)"
  shows "\<exists>mc'. flush_object cx dev k wext r (a, b) (key, obj) mc = Inr mc' \<and> mc_writer mc' = mc_writer mc"
proof (cases "to_offset (mc_objects mc obj) > b \<or> to_offset (mc_objects mc obj) + to_size (mc_objects mc obj) \<le> a")
  case True
  then show ?thesis by (auto simp: flush_object_def obj(1) Let_def)
next
  case False
  define od mem where "od = mc_objects mc obj" and "mem = mc_memories mc m"
  define p where "p = unat (to_offset od)"
  define start stop where "start = max (to_offset od) a - to_offset od" and "stop = min (to_offset od + to_size od) b - to_offset od"
  have okm: "mem_ok mem" using inv by (simp add: capture_inv_def mem_def)
  have od: "p + unat (to_size od) \<le> allocated mem" using inv obj by (auto simp: capture_inv_def object_ok_def od_def mem_def p_def)
  obtain c where c: "dm_clone mem = Some c" "length c = allocated mem" "length (dm_contents mem) = allocated mem"
    using okm b(3) by (cases "dm_clone mem") (auto simp: mem_ok_def mem_def)
  have bound: "unat (to_offset od) + unat (to_size od) < 2 ^ 64" using od allocated_bound [of mem] by (simp add: p_def)
  note part = flushed_part [OF bound b(1) False [folded od_def], folded p_def start_def stop_def]
  have lens: "unat start + unat (stop - start) \<le> length (drop p c)" "unat start + unat (stop - start) \<le> length (drop p (dm_contents mem))"
      "unat start + unat (stop - start) < 2 ^ 64"
    using part(1) od c(2,3) bound by simp_all
  have equal: "take (unat (stop - start)) (drop (unat start) (drop p c)) = take (unat (stop - start)) (drop (unat start) (drop p (dm_contents mem)))"
  proof (rule nth_equalityI)
    fix i assume "i < length (take (unat (stop - start)) (drop (unat start) (drop p c)))"
    then have i: "i < unat (stop - start)" by simp
    then have "clean mem (p + unat start + i)" using same part(2) unfolding od_def mem_def by simp
    then have "c ! (p + unat start + i) = dm_contents mem ! (p + unat start + i)" using c(1) by (simp add: clean_def)
    then show "take (unat (stop - start)) (drop (unat start) (drop p c)) ! i = take (unat (stop - start)) (drop (unat start) (drop p (dm_contents mem))) ! i"
      using i lens c(2,3) by (simp add: add.commute add.left_commute)
  qed (use lens in simp)
  have unchanged: "find_patch_start (drop p c) (drop p (dm_contents mem)) (unat start) (unat (stop - start)) = unat (stop - start)"
      "collect_patch_spans (drop p c) (drop p (dm_contents mem)) start (stop - start) = (0, [])"
    using collect_nothing [OF lens equal] by simp_all
  have "write_out_object cx dev od (drop p c) (drop p (dm_contents mem)) start (stop - start) (Some (wext ar)) (mc_writer mc) =
      Inr (0, drop p c, od, mc_writer mc)" by (rule write_out_object_unchanged [OF unchanged(1)])
  then show ?thesis using False c(1) unchanged(2) marks
    unfolding flush_object_def obj(1)
    by (simp add: m od_def [symmetric] mem_def [symmetric] p_def [symmetric] start_def [symmetric] stop_def [symmetric] Let_def)
qed

theorem descriptor_marking_dropped_witness:
  "let mc = set_memory 0 (mapped_memory 16) sample_capture;
     r = sample_flush (Some \<lparr>mo_sType = 0, mo_count = 1, mo_types = Some [1], mo_subs = None, mo_offsets = Some [4]\<rparr>)
   in \<exists>mc'. flush_object plain_codec (sample_object 1) sample_constants (\<lambda>_ w. Inr w) r (0, 16) (0, 0) mc = Inr mc' \<and> mc_writer mc' = mc_writer mc"
  unfolding Let_def
proof (rule descriptor_marking_dropped)
  let ?mc = "set_memory 0 (mapped_memory 16) sample_capture"
  let ?r = "sample_flush (Some \<lparr>mo_sType = 0, mo_count = 1, mo_types = Some [1], mo_subs = None, mo_offsets = Some [4]\<rparr>)"
  have "tr_created (sample_object 1)" by (simp add: sample_object_def)
  then show "capture_inv (\<lambda>_. {}) ?mc" by (rule capture_reachable_inv [OF sample_mapped_reachable [of plain_codec]])
  show "mr_memory ?r = 0" by (simp add: sample_flush_def)
  have mc: "mc_objects ?mc 0 = sample_update_object" "mc_memories ?mc 0 = mapped_memory 16" by (simp_all add: set_memory_def sample_capture_def)
  show "0 = to_offset (mc_objects ?mc 0)" "to_backing (mc_objects ?mc 0) = Some 0" "to_accessible (mc_objects ?mc 0)"
    "(0 :: u64) < 16" "unat (16 :: u64) \<le> allocated (mc_memories ?mc 0)" "dm_mapped (mc_memories ?mc 0)"
    unfolding mc by (simp_all add: sample_update_object_def mapped_memory_def sample_memory_def)
  show "\<forall>i\<in>object_span (mc_objects ?mc 0) \<inter> {unat (0 :: u64)..<unat (16 :: u64)}. clean (mc_memories ?mc 0) i"
    unfolding mc by (simp add: clean_def mapped_memory_def sample_memory_def)
  show "adjust_marks sample_constants ?r (0, 16) (mc_objects ?mc 0) [] = Inr (Some \<lparr>mo_sType = 0, mo_count = 1, mo_types = Some [1], mo_subs = None,
      mo_offsets = Some [4]\<rparr>, True)"
    unfolding mc by (simp add: adjust_marks_def sample_flush_def mark_kept_def mark_inside_def sample_constants_def sample_update_object_def)
qed

section \<open>Values that change in part\<close>

text \<open>C36: a shader group handle that changes in its first word only.  The capture records the changed word, but the replay has
  translated the whole handle in place before, so the patch leaves the new word in front of the rest of the handle of the
  replay.  This is a captured handle only by chance; otherwise the replay aborts, although the new handle is known.\<close>

theorem partly_changed_handle_aborts:
  assumes "length old = 8" "length new = 8" "old \<noteq> new" "length rest = 24" "length old' = 8" "length rest' = 24"
    and "handle_hits ps (new @ rest') = []"
  shows "\<exists>recs. patch_loop (old @ rest) (new @ rest) 0 = (recs, new @ rest) \<and>
    rewrite_marked_shader_group_handle True ps 0 (apply_records 0 recs (old' @ rest')) = Inl Aborted"
proof -
  have "find_patch_start (old @ rest) (new @ rest) 0 32 = 0" using assms(1-4) by (simp add: find_patch_start_def same_at_def)
  moreover have "diff_run rest rest = 0" by (simp add: diff_run.simps [of rest rest])
  then have "diff_run (old @ rest) (new @ rest) = 8" using assms(1-4) by (simp add: diff_run.simps [of "old @ rest" "new @ rest"])
  ultimately have first: "patch_round (old @ rest) (new @ rest) = (0, 8, 24)" using assms(1,2,4) by (simp add: patch_round_def Let_def)
  have "find_patch_start rest rest 0 24 = 24" by (rule find_patch_start_same) simp
  moreover have "diff_run [] [] = 0" by (simp add: diff_run.simps)
  ultimately have "patch_round rest rest = (24, 0, 0)" using assms(4) by (simp add: patch_round_def Let_def)
  then have "patch_loop rest rest 0 = ([], rest)"
    using assms(4) by (cases "rest = []") (simp_all add: patch_loop.simps [of rest rest] patch_loop.simps [of "[]"] Let_def)
  then have loop: "patch_loop (old @ rest) (new @ rest) 0 = ([(0, new)], new @ rest)"
    using assms(1,2,4) first by (cases "old @ rest = []") (auto simp: patch_loop.simps [of "old @ rest"] Let_def)
  have "overwrite (old' @ rest') 0 new = new @ rest'" using assms(2,5) by (simp add: overwrite_def)
  then have "rewrite_marked_shader_group_handle True ps 0 (apply_records 0 [(0, new)] (old' @ rest')) = Inl Aborted"
    using assms(2,6,7) by (simp add: rewrite_marked_shader_group_handle_def match_pipelines_hits give_up_def)
  then show ?thesis using loop by blast
qed

text \<open>A pipeline with two groups, whose captured handles agree in all but the first word.\<close>

definition sample_groups :: "raytracing_pipeline" where
  "sample_groups = \<lparr>rt_handle_size = 32, rt_handles = replicate 32 7 @ replicate 8 5 @ replicate 24 7, rt_group_count = 2, rt_capture_replay = False,
    rt_handle_size_replay = 32, rt_handles_replay = replicate 32 9 @ replicate 8 6 @ replicate 24 9\<rparr>"

theorem partly_changed_handle_aborts_witness:
  "rewrite_marked_shader_group_handle True [sample_groups] 0 (replicate 8 7 @ replicate 24 7) = Inr (True, replicate 8 9 @ replicate 24 9) \<and>
    rewrite_marked_shader_group_handle True [sample_groups] 0 (replicate 8 5 @ replicate 24 7) = Inr (True, replicate 8 6 @ replicate 24 9) \<and>
    (\<exists>recs. patch_loop (replicate 8 7 @ replicate 24 7) (replicate 8 5 @ replicate 24 7) 0 = (recs, replicate 8 5 @ replicate 24 7) \<and>
      rewrite_marked_shader_group_handle True [sample_groups] 0 (apply_records 0 recs (replicate 8 9 @ replicate 24 9)) = Inl Aborted)"
proof (intro conjI)
  show "rewrite_marked_shader_group_handle True [sample_groups] 0 (replicate 8 7 @ replicate 24 7) = Inr (True, replicate 8 9 @ replicate 24 9)"
    by code_simp
  show "rewrite_marked_shader_group_handle True [sample_groups] 0 (replicate 8 5 @ replicate 24 7) = Inr (True, replicate 8 6 @ replicate 24 9)"
    by code_simp
  have "handle_hits [sample_groups] (replicate 8 5 @ replicate 24 9) = []" by code_simp
  then show "\<exists>recs. patch_loop (replicate 8 7 @ replicate 24 7) (replicate 8 5 @ replicate 24 7) 0 = (recs, replicate 8 5 @ replicate 24 7) \<and>
      rewrite_marked_shader_group_handle True [sample_groups] 0 (apply_records 0 recs (replicate 8 9 @ replicate 24 9)) = Inl Aborted"
    by (intro partly_changed_handle_aborts) simp_all
qed

end
