(* ===== verification/Spec2Isabelle.thy ===== *)
theory Spec2Isabelle
  imports RangeTracking RandomAccess SuballocatorRuns AddressMap ThreadSync Markings HostWrites ExplicitUpdates
begin

text \<open>Verification of lavatube, a capture and replay tool for Vulkan (\<^verbatim>\<open>src/src\<close>).

  The program.  A layer records the calls of an application: every application thread owns a file writer that puts
  packets into a stream of compressed chunks.  A replayer reads the streams again, one thread per stream, gives every
  recorded handle a handle of the new device, places buffers and images in memory of its own, and rewrites the
  addresses that the recorded memory contains.  The parts modelled here meet in the byte stream (packets are written
  and read through it), in the indices that stand for handles (written by the capture, looked up by the replay), in
  the packet numbers that order the threads, and in the ranges and offsets of memory that is dirty or marked.

  The theories, in the order in which they build on each other:

  \<^item> \<open>Prelude\<close>: results with errors, words, lists.  Failed assertions, \<open>ABORT\<close> and accesses out of range are values
    of the sum type \<open>result\<close>, and an operation that meets one stops there.
  \<^item> \<open>RangeTracking\<close> (\<^verbatim>\<open>rangetracking.h\<close>): \<open>exposure\<close>, the sorted list of dirty ranges of mapped memory, and
    \<open>memory_tracker\<close>-style unions.  The lemmas show that adding is set union on bytes, that fetching and overlapping return
    hulls, and that a history of operations never loses a dirty byte.  The locale \<open>dirty_tracker\<close> states the contract.
  \<^item> \<open>Bytes\<close>, \<open>FileWriter\<close> (\<^verbatim>\<open>filewriter.h\<close>, \<^verbatim>\<open>filewriter.cpp\<close>), \<open>FileReader\<close> (\<^verbatim>\<open>filereader.h\<close>, \<^verbatim>\<open>filereader.cpp\<close>):
    little-endian values, arrays, strings and memory patches, chunk buffers, the uncompressed and compressed queues, and
    the reader with its preloading and checkpoints.  The compression libraries are not part of the repository; they are
    the parameters \<open>codec\<close> and \<open>decoder\<close> with the hypothesis \<open>codec_pair\<close> (decompressing what was compressed gives it
    back), which has the instance \<open>plain\<close>.  The locale \<open>byte_source\<close> is what the reading functions rely on; both readers
    interpret it.
  \<^item> \<open>Pipeline\<close>: the writer with its compressor and serializer threads, for every schedule, up to \<open>finalize\<close>, with a
    measure that shows that \<open>finalize\<close> ends.
  \<^item> \<open>Json\<close>, \<open>RandomAccess\<close> (\<^verbatim>\<open>random_access_file_reader.h\<close> and \<^verbatim>\<open>.cpp\<close>): the index of chunks, reads at any position, and
    the checkpoints from the frame files, which are JSON values as the vendored jsoncpp reads them.
  \<^item> \<open>Containers\<close> (\<^verbatim>\<open>containers.h\<close>): \<open>replay_remap\<close>, \<open>trace_remap\<close>, \<open>trace_data\<close>, whose cleared entries are dangling
    pointers, and the argument memory pool.  The locale \<open>lookup_table\<close> is interpreted by the replay map in both directions and by the capture map.
  \<^item> \<open>AddressMap\<close> (\<^verbatim>\<open>containers.h\<close>, \<open>address_remapper\<close>): the ordered multimap of device addresses and its translation.
  \<^item> \<open>Suballocator\<close>, \<open>SuballocatorHeaps\<close>, \<open>SuballocatorTables\<close>, \<open>SuballocatorRuns\<close> (\<^verbatim>\<open>suballocator.cpp\<close>): the definitions, the
    invariant of one heap and of suballocation, the invariant of the lookup tables with aliasing groups, and the states
    reachable by any sequence of operations, in which the allocator's own self test passes.
  \<^item> \<open>Packets\<close> (\<^verbatim>\<open>write.cpp\<close>, \<^verbatim>\<open>write.h\<close>, \<^verbatim>\<open>read.cpp\<close>, \<^verbatim>\<open>read.h\<close>): packet framing, sizes stored later, handles, barriers
    and frames over the byte stream.
  \<^item> \<open>ThreadSync\<close> (the same files): how thread barriers and handle dependencies order the replay threads, for every
    interleaving of the capture and of the replay.  Packet numbers are 32-bit words that wrap; the theorems hold for threads of fewer
    than 2^32 packets (\<open>packets_fit\<close>).  \<open>disciplined\<close> is the external synchronization that the Vulkan
    specification asks of the application.
  \<^item> \<open>Markings\<close> (\<^verbatim>\<open>markings.cpp\<close>, \<^verbatim>\<open>packtool.cpp\<close>): marked offsets, their canonical form, and the coverage of a trace by
    markings; the comparison of two coverages reports exactly the bytes that one of them leaves out.
  \<^item> \<open>HostWrites\<close> (\<^verbatim>\<open>containers.h\<close>, \<open>host_write_regions\<close>): which packet wrote which bytes of an object.  Registering and
    copying refine a map from bytes to origins, and the queries are answered from that map.
  \<^item> \<open>Rewriting\<close> (\<^verbatim>\<open>hardcode_read.cpp\<close>): the tables of shader group handles and \<open>translate_marked_offsets\<close>, which replaces
    captured addresses, handles and descriptors in memory.
  \<^item> \<open>MemoryUpdates\<close> (\<^verbatim>\<open>hardcode_write.cpp\<close>, \<^verbatim>\<open>hardcode_read.cpp\<close>): the packets that carry changes of the memory of buffers,
    images and tensors, from the clone of the capture into the memory of the replay.
  \<^item> \<open>MemoryCapture\<close> (\<^verbatim>\<open>hardcode_write.cpp\<close>, \<^verbatim>\<open>lavatube.h\<close>): mapping, flushing, touching and submitting as a step relation with
    the application's writes between the handlers; in every reachable state a submit records what the host has written.
  \<^item> \<open>TracedUpdates\<close>, \<open>MemoryReplay\<close> (\<^verbatim>\<open>replay.cpp\<close>, \<^verbatim>\<open>hardcode_read.cpp\<close>): the packets behind a state of the capture, and the
    replay thread that reads them into suballocated memory.  The main theorem joins the suballocator, the packets, the capture and
    the replay: what the host wrote before a submit is what the replay has in the memory of the same objects, as far as the trace has updates of
    them.  The functions the build generates for API calls are the parameter \<open>replay_code\<close>, called through \<open>read_apicall\<close>; \<open>calls_replay\<close>
    is what they are asked to do for the calls of the trace, in their order.
  \<^item> \<open>PatchSpans\<close>, \<open>ExplicitUpdates\<close> (\<^verbatim>\<open>hardcode_write.cpp\<close>): the spans in which memory changed, and the handler of
    \<open>vkFlushMappedMemoryRanges\<close> for applications that announce their writes or mark offsets.  Every flushed byte is in the trace
    and in the memory of the replay, and the marked offsets of changed values go with it; two theorems show where
    marked values that change in part, or not at all, are lost.

  Bounds.  Sizes and offsets are words of the width the code has, and arithmetic wraps as it does there; lengths of
  containers are natural numbers, with the hypothesis that they fit the word that counts them where that matters.  Loops
  are recursive functions with a measure, and the loop of a replay thread is a partial function that is proved to return; one loop has a
  bound, the copy loop of the random-access reader (\<open>read_rounds\<close>), which gets as many rounds as bytes are wanted and is proved to
  succeed with them, because every round copies a byte.  The threads of the pipeline and their synchronization are step relations over
  arbitrary schedules.  Thread numbers are bounded by 255 and, where they are read as signed
  bytes, by 127, as in the code.

  Not modelled: the generated and hand-written wrappers of single Vulkan calls (most of \<^verbatim>\<open>hardcode_read.cpp\<close> and
  \<^verbatim>\<open>hardcode_write.cpp\<close>), which fill structures and call the driver; the execution of shaders and the post-processing around
  it (\<^verbatim>\<open>execute_commands.cpp\<close>, \<^verbatim>\<open>postprocess.cpp\<close>), which rest on a simulator that is not part of the repository; the
  compression libraries; Vulkan itself (its answers are parameters); the JSON metadata, files, windows, tools and user
  interfaces; and weak memory ordering.\<close>

end
